(* ===== verification/Prelude.thy ===== *)
theory Prelude
  imports Main "HOL-Library.Word"
begin

unbundle bit_operations_syntax

text \<open>
  Shared vocabulary of the development: the machine-integer types, the first-fit table scan
  that most of the kernel's fixed-size tables are built on, tables whose live entries have
  unique keys, little-endian byte codecs, and reachability of a state machine given by an
  initial predicate and a step relation.
\<close>

section \<open>Types\<close>

type_synonym u8 = "8 word"
type_synonym u16 = "16 word"
type_synonym u32 = "32 word"
type_synonym u64 = "64 word"

section \<open>Collections of facts\<close>

named_theorems table_simps \<open>rewrite rules on fixed-size tables\<close>
named_theorems frame_simps \<open>fields an operation leaves alone\<close>

section \<open>First-fit scans\<close>

text \<open>
  \<^verbatim>\<open>for (i = 0; i < N; i++) if (P(tab[i])) return i;\<close> is the first index whose entry satisfies
  the test, or \<open>None\<close> when the loop falls through.
\<close>

primrec find_idx :: "('a \<Rightarrow> bool) \<Rightarrow> 'a list \<Rightarrow> nat option" where
  "find_idx P [] = None"
| "find_idx P (x # xs) = (if P x then Some 0 else map_option Suc (find_idx P xs))"

lemma find_idx_None_iff [table_simps]: "find_idx P xs = None \<longleftrightarrow> (\<forall>x\<in>set xs. \<not> P x)"
  by (induction xs) auto

lemma find_idx_SomeD:
  "find_idx P xs = Some i \<Longrightarrow> i < length xs \<and> P (xs ! i) \<and> (\<forall>j<i. \<not> P (xs ! j))"
proof (induction xs arbitrary: i)
  case Nil
  then show ?case by simp
next
  case (Cons x xs)
  show ?case
  proof (cases "P x")
    case True
    with Cons.prems show ?thesis by simp
  next
    case False
    with Cons.prems obtain k where k: "find_idx P xs = Some k" "i = Suc k" by auto
    from Cons.IH [OF k(1)] False k(2) show ?thesis by (auto simp: nth_Cons' split: nat.splits)
  qed
qed

lemma find_idx_len: "find_idx P xs = Some i \<Longrightarrow> i < length xs"
  and find_idx_sat: "find_idx P xs = Some i \<Longrightarrow> P (xs ! i)"
  and find_idx_min: "find_idx P xs = Some i \<Longrightarrow> j < i \<Longrightarrow> \<not> P (xs ! j)"
  using find_idx_SomeD by blast+

lemma find_idx_eqI:
  "i < length xs \<Longrightarrow> P (xs ! i) \<Longrightarrow> (\<And>j. j < i \<Longrightarrow> \<not> P (xs ! j)) \<Longrightarrow> find_idx P xs = Some i"
proof (induction xs arbitrary: i)
  case Nil
  then show ?case by simp
next
  case (Cons x xs)
  show ?case
  proof (cases i)
    case 0
    with Cons.prems show ?thesis by simp
  next
    case (Suc k)
    have "\<not> P x" using Cons.prems(3) [of 0] Suc by simp
    moreover have "\<not> P (xs ! j)" if "j < k" for j
      using Cons.prems(3) [of "Suc j"] Suc that by simp
    then have "find_idx P xs = Some k"
      using Cons.prems(1,2) Suc by (intro Cons.IH) auto
    ultimately show ?thesis using Suc by simp
  qed
qed

lemma find_idx_only:
  "i < length xs \<Longrightarrow> P (xs ! i) \<Longrightarrow> (\<And>j. j < length xs \<Longrightarrow> P (xs ! j) \<Longrightarrow> j = i) \<Longrightarrow>
   find_idx P xs = Some i"
  by (rule find_idx_eqI) (blast, blast, metis order.strict_trans less_irrefl)

lemma find_idx_ex: "(\<exists>i. find_idx P xs = Some i) \<longleftrightarrow> (\<exists>x\<in>set xs. P x)"
  using find_idx_None_iff [of P xs] by (cases "find_idx P xs") auto

lemma find_idx_cong:
  "length xs = length ys \<Longrightarrow> (\<And>i. i < length xs \<Longrightarrow> P (xs ! i) = Q (ys ! i)) \<Longrightarrow>
   find_idx P xs = find_idx Q ys"
proof (induction xs ys rule: list_induct2)
  case Nil
  then show ?case by simp
next
  case (Cons x xs y ys)
  have "P x = Q y" using Cons.prems [of 0] by simp
  moreover have "P (xs ! i) = Q (ys ! i)" if "i < length xs" for i
    using Cons.prems [of "Suc i"] that by simp
  then have "find_idx P xs = find_idx Q ys" by (rule Cons.IH)
  ultimately show ?case by simp
qed

lemma find_idx_find: "map_option (\<lambda>k. xs ! k) (find_idx P xs) = List.find P xs"
  by (induction xs) (auto simp: option.map_comp o_def)

section \<open>Counting and updating\<close>

lemma nth_update_lt: "j < length xs \<Longrightarrow> xs[k := x] ! j = (if j = k then x else xs ! j)"
  by (cases "j = k") simp_all

lemma filter_update_count [table_simps]:
  "i < length xs \<Longrightarrow>
   length (filter P (xs[i := x])) + (if P (xs ! i) then 1 else 0)
   = length (filter P xs) + (if P x then 1 else 0)"
proof (induction xs arbitrary: i)
  case Nil
  then show ?case by simp
next
  case (Cons y ys)
  then show ?case by (cases i) auto
qed

lemma filter_update_same:
  "P (xs ! i) = P x \<Longrightarrow> length (filter P (xs[i := x])) = length (filter P xs)"
  by (cases "i < length xs") (use filter_update_count [of i xs P x] in \<open>auto simp: list_update_beyond\<close>)

lemma filter_update_inc:
  "i < length xs \<Longrightarrow> \<not> P (xs ! i) \<Longrightarrow> P x \<Longrightarrow>
   length (filter P (xs[i := x])) = Suc (length (filter P xs))"
  using filter_update_count [of i xs P x] by simp

lemma filter_update_dec:
  "i < length xs \<Longrightarrow> P (xs ! i) \<Longrightarrow> \<not> P x \<Longrightarrow>
   Suc (length (filter P (xs[i := x]))) = length (filter P xs)"
  using filter_update_count [of i xs P x] by simp

lemma filter_pos_iff: "0 < length (filter P xs) \<longleftrightarrow> (\<exists>x\<in>set xs. P x)"
  by (auto simp: filter_empty_conv)

section \<open>Tables whose live entries have unique keys\<close>

definition uniq_keys :: "('e \<Rightarrow> bool) \<Rightarrow> ('e \<Rightarrow> 'k) \<Rightarrow> 'e list \<Rightarrow> bool" where
  "uniq_keys live key xs \<longleftrightarrow>
     (\<forall>i<length xs. \<forall>j<length xs.
        live (xs ! i) \<and> live (xs ! j) \<and> key (xs ! i) = key (xs ! j) \<longrightarrow> i = j)"

definition lookup_key :: "('e \<Rightarrow> bool) \<Rightarrow> ('e \<Rightarrow> 'k) \<Rightarrow> 'k \<Rightarrow> 'e list \<Rightarrow> 'e option" where
  "lookup_key live key k xs =
     map_option (\<lambda>i. xs ! i) (find_idx (\<lambda>e. live e \<and> key e = k) xs)"

lemma uniq_keysD:
  "uniq_keys live key xs \<Longrightarrow> i < length xs \<Longrightarrow> j < length xs \<Longrightarrow> live (xs ! i) \<Longrightarrow> live (xs ! j) \<Longrightarrow>
   key (xs ! i) = key (xs ! j) \<Longrightarrow> i = j"
  by (auto simp: uniq_keys_def)

lemma uniq_keys_find:
  "uniq_keys live key xs \<Longrightarrow> i < length xs \<Longrightarrow> live (xs ! i) \<Longrightarrow>
   find_idx (\<lambda>e. live e \<and> key e = key (xs ! i)) xs = Some i"
  by (rule find_idx_only) (auto dest: uniq_keysD)

lemma uniq_keys_update_same:
  "uniq_keys live key xs \<Longrightarrow> (live e \<Longrightarrow> live (xs ! i) \<and> key e = key (xs ! i)) \<Longrightarrow>
   uniq_keys live key (xs[i := e])"
  unfolding uniq_keys_def length_list_update
  by (intro allI impI) (metis nth_list_update_eq nth_list_update_neq)

lemma uniq_keys_update_fresh:
  "uniq_keys live key xs \<Longrightarrow> (\<And>x. x \<in> set xs \<Longrightarrow> live x \<Longrightarrow> key x \<noteq> key e) \<Longrightarrow>
   uniq_keys live key (xs[i := e])"
  unfolding uniq_keys_def length_list_update
  by (intro allI impI) (metis nth_list_update_eq nth_list_update_neq nth_mem)

lemma uniq_keys_update_dead:
  "uniq_keys live key xs \<Longrightarrow> \<not> live e \<Longrightarrow> uniq_keys live key (xs[i := e])"
  unfolding uniq_keys_def length_list_update
  by (intro allI impI) (metis nth_list_update_eq nth_list_update_neq)

lemma uniq_keys_map_kill:
  "uniq_keys live key xs \<Longrightarrow> (\<And>x. live (f x) \<Longrightarrow> live x \<and> key (f x) = key x) \<Longrightarrow>
   uniq_keys live key (map f xs)"
  by (auto simp: uniq_keys_def)

lemma lookup_key_update_hit:
  assumes "uniq_keys live key (xs[i := e])" "i < length xs" "live e"
  shows "lookup_key live key (key e) (xs[i := e]) = Some e"
  using uniq_keys_find [OF assms(1), of i] assms(2,3) by (simp add: lookup_key_def)

lemma lookup_key_update_other:
  assumes "live (xs ! i) \<Longrightarrow> key (xs ! i) \<noteq> k" "live e \<Longrightarrow> key e \<noteq> k"
  shows "lookup_key live key k (xs[i := e]) = lookup_key live key k xs"
proof -
  have eq: "find_idx (\<lambda>e. live e \<and> key e = k) (xs[i := e]) = find_idx (\<lambda>e. live e \<and> key e = k) xs"
  proof (rule find_idx_cong)
    fix j
    assume "j < length (xs[i := e])"
    then show "(live (xs[i := e] ! j) \<and> key (xs[i := e] ! j) = k) = (live (xs ! j) \<and> key (xs ! j) = k)"
      using assms by (cases "j = i") auto
  qed simp
  have "(xs[i := e]) ! m = xs ! m" if "find_idx (\<lambda>e. live e \<and> key e = k) xs = Some m" for m
    using find_idx_sat [OF that] assms(1) by (cases "m = i") auto
  with eq show ?thesis
    by (cases "find_idx (\<lambda>e. live e \<and> key e = k) xs") (simp_all add: lookup_key_def)
qed

text \<open>
  The kernel's soft-state tables (ARP cache, peer list, node loads) are all filled by the same
  two loops: refresh the live entry with this key, else fill the first dead one, else drop.
\<close>

definition upsert ::
  "('e \<Rightarrow> bool) \<Rightarrow> ('e \<Rightarrow> 'k) \<Rightarrow> ('e \<Rightarrow> 'e) \<Rightarrow> ('e \<Rightarrow> 'e) \<Rightarrow> 'k \<Rightarrow> 'e list \<Rightarrow> 'e list" where
  "upsert live key upd new k xs =
     (case find_idx (\<lambda>e. live e \<and> key e = k) xs of
        Some i \<Rightarrow> xs[i := upd (xs ! i)]
      | None \<Rightarrow> (case find_idx (\<lambda>e. \<not> live e) xs of
                   Some i \<Rightarrow> xs[i := new (xs ! i)]
                 | None \<Rightarrow> xs))"

lemma length_upsert [simp]: "length (upsert live key upd new k xs) = length xs"
  by (simp add: upsert_def split: option.splits)

lemma lookup_key_None_iff:
  "lookup_key live key k xs = None \<longleftrightarrow> (\<forall>e\<in>set xs. live e \<longrightarrow> key e \<noteq> k)"
  by (auto simp: lookup_key_def find_idx_None_iff)

lemma upsert_uniq:
  assumes "uniq_keys live key xs"
    and upd: "\<And>e. live e \<Longrightarrow> live (upd e) \<and> key (upd e) = key e"
    and new: "\<And>e. key (new e) = k"
  shows "uniq_keys live key (upsert live key upd new k xs)"
proof (cases "find_idx (\<lambda>e. live e \<and> key e = k) xs")
  case None
  then have "\<forall>e\<in>set xs. live e \<longrightarrow> key e \<noteq> k" by (auto simp: find_idx_None_iff)
  then show ?thesis
    using None assms(1) new
    by (auto simp: upsert_def split: option.splits intro!: uniq_keys_update_fresh)
next
  case (Some i)
  then show ?thesis
    using assms(1) upd [of "xs ! i"] find_idx_sat [OF Some]
    by (auto simp: upsert_def intro!: uniq_keys_update_same)
qed

lemma upsert_lookup_same:
  assumes "uniq_keys live key xs"
    and upd: "\<And>e. live e \<Longrightarrow> live (upd e) \<and> key (upd e) = key e"
    and new: "\<And>e. live (new e) \<and> key (new e) = k"
    and room: "lookup_key live key k xs \<noteq> None \<or> (\<exists>e\<in>set xs. \<not> live e)"
  shows "\<exists>e. lookup_key live key k (upsert live key upd new k xs) = Some e \<and>
             (case lookup_key live key k xs of Some e0 \<Rightarrow> e = upd e0
              | None \<Rightarrow> \<exists>e0\<in>set xs. \<not> live e0 \<and> e = new e0)"
proof -
  have u: "uniq_keys live key (upsert live key upd new k xs)"
    using assms(1) upd new by (intro upsert_uniq) auto
  show ?thesis
  proof (cases "find_idx (\<lambda>e. live e \<and> key e = k) xs")
    case None
    then have n: "lookup_key live key k xs = None" by (simp add: lookup_key_def)
    with room obtain i where i: "find_idx (\<lambda>e. \<not> live e) xs = Some i"
      using find_idx_ex [of "\<lambda>e. \<not> live e" xs] by auto
    then have eq: "upsert live key upd new k xs = xs[i := new (xs ! i)]"
      using None by (simp add: upsert_def)
    have "lookup_key live key (key (new (xs ! i))) (xs[i := new (xs ! i)]) = Some (new (xs ! i))"
      using u find_idx_len [OF i] new by (intro lookup_key_update_hit) (auto simp: eq)
    then show ?thesis
      using eq n new find_idx_len [OF i] find_idx_sat [OF i] by (auto intro!: bexI [of _ "xs ! i"])
  next
    case (Some i)
    then have eq: "upsert live key upd new k xs = xs[i := upd (xs ! i)]"
      by (simp add: upsert_def)
    have *: "live (xs ! i)" "key (xs ! i) = k" using find_idx_sat [OF Some] by auto
    then have "lookup_key live key (key (upd (xs ! i))) (xs[i := upd (xs ! i)]) = Some (upd (xs ! i))"
      using u find_idx_len [OF Some] upd by (intro lookup_key_update_hit) (auto simp: eq)
    then show ?thesis
      using eq Some * upd [of "xs ! i"] by (simp add: lookup_key_def)
  qed
qed

lemma upsert_lookup_other:
  assumes upd: "\<And>e. live e \<Longrightarrow> key (upd e) = key e"
    and new: "\<And>e. key (new e) = k" and "k' \<noteq> k"
  shows "lookup_key live key k' (upsert live key upd new k xs) = lookup_key live key k' xs"
proof (cases "find_idx (\<lambda>e. live e \<and> key e = k) xs")
  case None
  show ?thesis
  proof (cases "find_idx (\<lambda>e. \<not> live e) xs")
    case None
    with \<open>find_idx (\<lambda>e. live e \<and> key e = k) xs = None\<close> show ?thesis by (simp add: upsert_def)
  next
    case (Some i)
    with None assms find_idx_sat [OF Some] show ?thesis
      by (auto simp: upsert_def intro!: lookup_key_update_other)
  qed
next
  case (Some i)
  with assms find_idx_sat [OF Some] show ?thesis
    by (auto simp: upsert_def intro!: lookup_key_update_other)
qed

lemma upsert_full:
  "lookup_key live key k xs = None \<Longrightarrow> \<forall>e\<in>set xs. live e \<Longrightarrow> upsert live key upd new k xs = xs"
  by (auto simp: upsert_def lookup_key_def find_idx_None_iff split: option.splits dest!: find_idx_SomeD)

section \<open>The contract of a soft-state table\<close>

locale soft_table =
  fixes inv :: "'t \<Rightarrow> bool"
    and get :: "'t \<Rightarrow> 'k \<Rightarrow> 'v option"
    and put :: "'k \<Rightarrow> 'v \<Rightarrow> 't \<Rightarrow> 't"
    and room :: "'t \<Rightarrow> bool"
  assumes inv_put: "inv t \<Longrightarrow> inv (put k v t)"
    and get_put_same: "inv t \<Longrightarrow> get t k \<noteq> None \<or> room t \<Longrightarrow> get (put k v t) k = Some v"
    and get_put_other: "inv t \<Longrightarrow> k' \<noteq> k \<Longrightarrow> get (put k v t) k' = get t k'"
    and put_full: "inv t \<Longrightarrow> get t k = None \<Longrightarrow> \<not> room t \<Longrightarrow> put k v t = t"
begin

lemma known_stays: "inv t \<Longrightarrow> get t k \<noteq> None \<Longrightarrow> get (put k' v t) k \<noteq> None"
  by (cases "k = k'") (auto simp: get_put_same get_put_other)

lemma fold_inv: "inv t \<Longrightarrow> inv (fold (\<lambda>(k, v). put k v) kvs t)"
  by (induction kvs arbitrary: t) (auto simp: inv_put)

lemma fold_known: "inv t \<Longrightarrow> get t k \<noteq> None \<Longrightarrow> get (fold (\<lambda>(k, v). put k v) kvs t) k \<noteq> None"
  by (induction kvs arbitrary: t) (auto simp del: not_None_eq simp: inv_put known_stays split: prod.splits)

lemma fold_last_wins:
  assumes "inv t" "get t k \<noteq> None"
  shows "get (fold (\<lambda>(k, v). put k v) kvs t) k =
           (case map_of (rev kvs) k of Some v \<Rightarrow> Some v | None \<Rightarrow> get t k)"
  using assms
proof (induction kvs arbitrary: t)
  case Nil
  then show ?case by simp
next
  case (Cons kv kvs)
  obtain k' v where kv: "kv = (k', v)" by (cases kv)
  have "get (put k' v t) k \<noteq> None" using Cons.prems by (rule known_stays)
  from Cons.IH [OF inv_put [OF Cons.prems(1)] this] kv show ?case
    using Cons.prems by (cases "k = k'") (auto simp: map_add_def get_put_same get_put_other split: option.splits)
qed

end

section \<open>Runs and invariants\<close>

text \<open>A component driven by events keeps its invariant over every sequence of them.\<close>

locale event_machine =
  fixes inv :: "'s \<Rightarrow> bool" and step :: "'s \<Rightarrow> 'e \<Rightarrow> 's"
  assumes step_inv: "inv s \<Longrightarrow> inv (step s e)"
begin

lemma run_inv: "inv s \<Longrightarrow> inv (foldl step s es)"
  by (induction es arbitrary: s) (auto intro: step_inv)

end

inductive reach :: "('s \<Rightarrow> bool) \<Rightarrow> ('s \<Rightarrow> 's \<Rightarrow> bool) \<Rightarrow> 's \<Rightarrow> bool"
  for init :: "'s \<Rightarrow> bool" and step :: "'s \<Rightarrow> 's \<Rightarrow> bool" where
  reach_init: "init s \<Longrightarrow> reach init step s"
| reach_step: "reach init step s \<Longrightarrow> step s t \<Longrightarrow> reach init step t"

locale safe_system =
  fixes init :: "'s \<Rightarrow> bool" and step :: "'s \<Rightarrow> 's \<Rightarrow> bool" and inv :: "'s \<Rightarrow> bool"
  assumes init_ok: "init s \<Longrightarrow> inv s"
    and step_ok: "inv s \<Longrightarrow> step s t \<Longrightarrow> inv t"
begin

lemma reach_ok: "reach init step s \<Longrightarrow> inv s"
  by (induction rule: reach.induct) (auto intro: init_ok step_ok)

end

text \<open>
  The runs of a machine whose steps carry the event that caused them. A step that faults, and an event that
  nothing in the program can cause in a state, relate the state to no other: the run ends there.
\<close>

inductive trace :: "('s \<Rightarrow> 'e \<Rightarrow> 's \<Rightarrow> bool) \<Rightarrow> 's \<Rightarrow> 'e list \<Rightarrow> 's \<Rightarrow> bool" for step :: "'s \<Rightarrow> 'e \<Rightarrow> 's \<Rightarrow> bool" where
  trace_Nil: "trace step s [] s"
| trace_Cons: "step s e t \<Longrightarrow> trace step t es u \<Longrightarrow> trace step s (e # es) u"

locale event_system =
  fixes inv :: "'s \<Rightarrow> bool" and step :: "'s \<Rightarrow> 'e \<Rightarrow> 's \<Rightarrow> bool"
  assumes step_keeps: "inv s \<Longrightarrow> step s e t \<Longrightarrow> inv t"
begin

lemma trace_keeps: "trace step s es t \<Longrightarrow> inv s \<Longrightarrow> inv t"
  by (induction rule: trace.induct) (auto intro: step_keeps)

end

text \<open>A machine refines another one: seen through \<open>absf\<close>, each of its steps is a step of the other or none.\<close>

locale refined_system = safe_system init step inv
  for init :: "'s \<Rightarrow> bool" and step :: "'s \<Rightarrow> 's \<Rightarrow> bool" and inv :: "'s \<Rightarrow> bool" +
  fixes ainit :: "'a \<Rightarrow> bool" and astep :: "'a \<Rightarrow> 'a \<Rightarrow> bool" and absf :: "'s \<Rightarrow> 'a"
  assumes init_abs: "init s \<Longrightarrow> ainit (absf s)"
    and step_abs: "inv s \<Longrightarrow> step s t \<Longrightarrow> absf t = absf s \<or> astep (absf s) (absf t)"
begin

lemma reach_abs: "reach init step s \<Longrightarrow> reach ainit astep (absf s)"
proof (induction rule: reach.induct)
  case (reach_init s)
  then show ?case by (intro reach.reach_init init_abs)
next
  case (reach_step s t)
  then have "inv s" by (intro reach_ok)
  from step_abs [OF this reach_step.hyps(2)] reach_step.IH show ?case by (auto intro: reach.reach_step)
qed

end

section \<open>Little-endian bytes\<close>

definition le16 :: "u16 \<Rightarrow> u8 list" where
  "le16 x = [ucast x, ucast (drop_bit 8 x)]"

definition of_le16 :: "u8 list \<Rightarrow> u16" where
  "of_le16 bs = ucast (bs ! 0) OR push_bit 8 (ucast (bs ! 1))"

definition le32 :: "u32 \<Rightarrow> u8 list" where
  "le32 x = [ucast x, ucast (drop_bit 8 x), ucast (drop_bit 16 x), ucast (drop_bit 24 x)]"

definition of_le32 :: "u8 list \<Rightarrow> u32" where
  "of_le32 bs = ucast (bs ! 0) OR push_bit 8 (ucast (bs ! 1)) OR push_bit 16 (ucast (bs ! 2))
     OR push_bit 24 (ucast (bs ! 3))"

lemma length_le16 [simp]: "length (le16 x) = 2"
  by (simp add: le16_def)

lemma length_le32 [simp]: "length (le32 x) = 4"
  by (simp add: le32_def)

lemma of_le16_le16 [simp]: "of_le16 (le16 x) = x"
proof (rule bit_word_eqI)
  fix n
  assume "n < LENGTH(16)"
  then show "bit (of_le16 (le16 x)) n = bit x n"
    by (cases "n < 8") (auto simp: of_le16_def le16_def bit_simps)
qed

lemma of_le32_le32 [simp]: "of_le32 (le32 x) = x"
proof (rule bit_word_eqI)
  fix n
  assume "n < LENGTH(32)"
  then consider "n < 8" | "8 \<le> n" "n < 16" | "16 \<le> n" "n < 24" | "24 \<le> n" "n < 32" by fastforce
  then show "bit (of_le32 (le32 x)) n = bit x n"
    by cases (auto simp: of_le32_def le32_def bit_simps)
qed

lemma of_le32_append [simp]: "of_le32 (le32 x @ bs) = x"
  using of_le32_le32 [of x] by (simp add: of_le32_def le32_def)

lemma of_le16_append [simp]: "of_le16 (le16 x @ bs) = x"
  using of_le16_le16 [of x] by (simp add: of_le16_def le16_def)

text \<open>The \<open>n\<close> bytes at an offset of a buffer.\<close>

definition bytes_at :: "'a list \<Rightarrow> nat \<Rightarrow> nat \<Rightarrow> 'a list" where
  "bytes_at buf off n = take n (drop off buf)"

lemma bytes_at_skip: "length a \<le> off \<Longrightarrow> bytes_at (a @ b) off n = bytes_at b (off - length a) n"
  by (simp add: bytes_at_def)

lemma bytes_at_Cons: "0 < off \<Longrightarrow> bytes_at (x # b) off n = bytes_at b (off - 1) n"
  by (cases off) (simp_all add: bytes_at_def)

lemma bytes_at_0: "length a = n \<Longrightarrow> bytes_at (a @ b) 0 n = a"
  by (simp add: bytes_at_def)

lemma bytes_at_all: "length a = n \<Longrightarrow> bytes_at a 0 n = a"
  by (simp add: bytes_at_def)

lemmas bytes_at_simps = bytes_at_skip bytes_at_Cons bytes_at_0 bytes_at_all

end
