(* ===== verification/KString.thy ===== *)
theory KString
  imports Prelude
begin

text \<open>
  The string helpers of the kernel: \<^verbatim>\<open>kstring.h\<close>, the private copies of compare and bounded
  copy in \<^verbatim>\<open>filesystem.cpp\<close>, \<^verbatim>\<open>users.cpp\<close>, \<^verbatim>\<open>process.cpp\<close>, \<^verbatim>\<open>cluster.cpp\<close> and \<^verbatim>\<open>shell.cpp\<close>,
  \<^verbatim>\<open>itoa\<close> of \<^verbatim>\<open>utils.cpp\<close>, the hexadecimal printers and the decimal parser of the shell.

  A NUL-terminated buffer is represented by the characters before its NUL, so a pointer walk
  that tests for the terminator becomes a recursion on the list. Where the code copies with
  no bound, the capacity of the destination is an argument and running past it is the value
  \<open>Inl BufferOverflow\<close>.
\<close>

section \<open>Memory errors as values\<close>

datatype c_fault = BufferOverflow | OutOfBounds | NullDeref

type_synonym 'a res = "c_fault + 'a"

definition bind_res :: "'a res \<Rightarrow> ('a \<Rightarrow> 'b res) \<Rightarrow> 'b res" where
  "bind_res m f = (case m of Inl e \<Rightarrow> Inl e | Inr x \<Rightarrow> f x)"

lemma bind_res_simps [simp]:
  "bind_res (Inl e) f = Inl e"
  "bind_res (Inr x) f = f x"
  by (simp_all add: bind_res_def)

lemma bind_res_Inr: "bind_res m f = Inr y \<longleftrightarrow> (\<exists>x. m = Inr x \<and> f x = Inr y)"
  by (cases m) auto

section \<open>Length and comparison\<close>

fun fs_strlen :: "string \<Rightarrow> nat" where
  "fs_strlen [] = 0"
| "fs_strlen (c # s) = Suc (fs_strlen s)"

fun str_eq :: "string \<Rightarrow> string \<Rightarrow> bool" where
  "str_eq (a # as) (b # bs) = (if a \<noteq> b then False else str_eq as bs)"
| "str_eq [] [] = True"
| "str_eq _ _ = False"

lemma fs_strlen_length [simp]: "fs_strlen s = length s"
  by (induction s) auto

lemma str_eq_iff [simp]: "str_eq a b \<longleftrightarrow> a = b"
  by (induction a b rule: str_eq.induct) auto

text \<open>\<^verbatim>\<open>strcmp\<close> of \<^verbatim>\<open>kstring.h\<close>: the difference of the first bytes that differ, the NUL counting as 0.\<close>

fun k_strcmp :: "string \<Rightarrow> string \<Rightarrow> int" where
  "k_strcmp [] [] = 0"
| "k_strcmp [] (b # bs) = - of_char b"
| "k_strcmp (a # as) [] = of_char a"
| "k_strcmp (a # as) (b # bs) = (if a = b then k_strcmp as bs else of_char a - of_char b)"

definition no_nul :: "string \<Rightarrow> bool" where
  "no_nul s \<longleftrightarrow> (\<forall>c\<in>set s. of_char c \<noteq> (0 :: nat))"

lemma of_char_int_nat: "(of_char c :: int) = int (of_char c)"
  by (cases c) simp

lemma k_strcmp_zero_iff: "no_nul a \<Longrightarrow> no_nul b \<Longrightarrow> k_strcmp a b = 0 \<longleftrightarrow> a = b"
proof (induction a b rule: k_strcmp.induct)
  case (4 a as b bs)
  then show ?case by (auto simp: no_nul_def of_char_int_nat)
qed (auto simp: no_nul_def of_char_int_nat)

section \<open>Characters as bytes\<close>

definition char_byte :: "char \<Rightarrow> u8" where
  "char_byte c = of_nat (of_char c)"

definition byte_char :: "u8 \<Rightarrow> char" where
  "byte_char b = char_of (unat b)"

lemma of_char_lt: "(of_char c :: nat) < 256"
  by (cases c) (auto simp: of_char_def split: if_splits)

lemma unat_char_byte [simp]: "unat (char_byte c) = of_char c"
  using of_char_lt [of c] by (simp add: char_byte_def unat_of_nat take_bit_nat_eq_self)

lemma byte_char_byte [simp]: "byte_char (char_byte c) = c"
  by (simp add: byte_char_def)

lemma char_byte_char [simp]: "char_byte (byte_char b) = b"
  using unsigned_less [of b, where ?'a = nat] by (simp add: char_byte_def byte_char_def)

lemma char_byte_0 [simp]: "char_byte c = 0 \<longleftrightarrow> of_char c = (0 :: nat)"
  using unat_char_byte [of c] by (metis unat_0 unat_eq_zero)

text \<open>A name of at most \<open>n\<close> characters in a field of \<open>n\<close> bytes, and what a reader gets back.\<close>

definition pad_name :: "nat \<Rightarrow> string \<Rightarrow> u8 list" where
  "pad_name n s = map char_byte s @ replicate (n - length s) 0"

definition field_name :: "u8 list \<Rightarrow> string" where
  "field_name bs = map byte_char (takeWhile (\<lambda>b. b \<noteq> 0) bs)"

lemma length_pad_name: "length s \<le> n \<Longrightarrow> length (pad_name n s) = n"
  by (simp add: pad_name_def)

lemma field_pad_name:
  assumes "no_nul s" "length s < n"
  shows "field_name (take n (pad_name n s @ xs)) = s"
proof -
  have "takeWhile (\<lambda>b. b \<noteq> 0) (map char_byte s @ replicate (n - length s) 0) = map char_byte s"
    using assms by (subst takeWhile_append2) (auto simp: no_nul_def takeWhile_replicate)
  then show ?thesis using assms by (simp add: field_name_def pad_name_def comp_def)
qed

section \<open>Copies\<close>

text \<open>\<^verbatim>\<open>str_copy(dst, src, max)\<close> stops at \<^verbatim>\<open>max - 1\<close> characters.\<close>

fun str_copy :: "string \<Rightarrow> nat \<Rightarrow> string" where
  "str_copy [] m = []"
| "str_copy (c # cs) m = (if 0 < m - 1 then c # str_copy cs (m - 1) else [])"

lemma str_copy_take [simp]: "str_copy s m = take (m - 1) s"
proof (induction s m rule: str_copy.induct)
  case (2 c cs m)
  show ?case
  proof (cases "0 < m - 1")
    case True
    then have "m = Suc (Suc (m - 2))" by simp
    then obtain k where "m = Suc (Suc k)" by blast
    with 2 show ?thesis by simp
  qed simp
qed simp

text \<open>\<^verbatim>\<open>strcpy\<close> and \<^verbatim>\<open>strcat\<close> without a bound, into a buffer of \<open>cap\<close> bytes.\<close>

definition strcpy_buf :: "nat \<Rightarrow> string \<Rightarrow> string res" where
  "strcpy_buf cap s = (if fs_strlen s < cap then Inr s else Inl BufferOverflow)"

definition strcat_buf :: "nat \<Rightarrow> string \<Rightarrow> string \<Rightarrow> string res" where
  "strcat_buf cap dst s =
     (if fs_strlen dst + fs_strlen s < cap then Inr (dst @ s) else Inl BufferOverflow)"

lemma strcpy_buf_Inr [simp]: "strcpy_buf cap s = Inr t \<longleftrightarrow> t = s \<and> length s < cap"
  by (auto simp: strcpy_buf_def)

lemma strcpy_buf_ok [simp]: "length s < cap \<Longrightarrow> strcpy_buf cap s = Inr s"
  by (simp add: strcpy_buf_def)

lemma strcpy_buf_over [simp]: "cap \<le> length s \<Longrightarrow> strcpy_buf cap s = Inl BufferOverflow"
  by (simp add: strcpy_buf_def)

lemma strcat_buf_ok [simp]: "length d + length s < cap \<Longrightarrow> strcat_buf cap d s = Inr (d @ s)"
  by (simp add: strcat_buf_def)

section \<open>Decimal numbers\<close>

text \<open>\<^verbatim>\<open>itoa\<close>: the digits go to \<^verbatim>\<open>tmp\<close> least significant first and are copied out reversed.\<close>

fun itoa_tmp :: "nat \<Rightarrow> string" where
  "itoa_tmp n = (if 0 < n then char_of (n mod 10 + 48) # itoa_tmp (n div 10) else [])"

declare itoa_tmp.simps [simp del]

definition itoa :: "u64 \<Rightarrow> string" where
  "itoa n = (if n = 0 then ''0'' else rev (itoa_tmp (unat n)))"

definition is_digit :: "char \<Rightarrow> bool" where
  "is_digit c \<longleftrightarrow> 48 \<le> (of_char c :: nat) \<and> (of_char c :: nat) \<le> 57"

text \<open>The shell's loop \<^verbatim>\<open>while (arg[j] >= '0' && arg[j] <= '9') val = val * 10 + (arg[j++] - '0')\<close>.\<close>

fun parse_u32 :: "u32 \<Rightarrow> string \<Rightarrow> u32 \<times> string" where
  "parse_u32 v [] = (v, [])"
| "parse_u32 v (c # cs) =
     (if is_digit c then parse_u32 (v * 10 + of_nat (of_char c - 48)) cs else (v, c # cs))"

lemma itoa_tmp_digits: "\<forall>c\<in>set (itoa_tmp n). is_digit c"
proof (induction n rule: itoa_tmp.induct)
  case (1 n)
  have "is_digit (char_of (n mod 10 + 48))"
    by (simp add: is_digit_def)
  with 1 show ?case by (subst itoa_tmp.simps) auto
qed

lemma itoa_tmp_len: "n < 10 ^ k \<Longrightarrow> length (itoa_tmp n) \<le> k"
proof (induction k arbitrary: n)
  case 0
  then show ?case by (subst itoa_tmp.simps) simp
next
  case (Suc k)
  then have "n div 10 < 10 ^ k" by (simp add: less_mult_imp_div_less mult.commute)
  from Suc.IH [OF this] show ?case by (subst itoa_tmp.simps) simp
qed

lemma itoa_tmp_len_ge: "10 ^ k \<le> n \<Longrightarrow> k < length (itoa_tmp n)"
proof (induction k arbitrary: n)
  case 0
  then show ?case by (subst itoa_tmp.simps) simp
next
  case (Suc k)
  then have "10 ^ k \<le> n div 10"
    by (simp add: less_eq_div_iff_mult_less_eq mult.commute)
  moreover have "0 < n"
    using Suc.prems by (metis gr0I le_zero_eq power_not_zero zero_neq_numeral)
  ultimately show ?case using Suc.IH [of "n div 10"] by (subst itoa_tmp.simps) simp
qed

lemma parse_itoa_tmp:
  "parse_u32 v (rev (itoa_tmp m) @ cs) =
   parse_u32 (v * 10 ^ length (itoa_tmp m) + of_nat m) cs"
proof (induction m arbitrary: v cs rule: itoa_tmp.induct)
  case (1 m)
  show ?case
  proof (cases "0 < m")
    case False
    then show ?thesis by (simp add: itoa_tmp.simps)
  next
    case True
    let ?d = "char_of (m mod 10 + 48) :: char"
    have d: "is_digit ?d" "of_char ?d - 48 = m mod 10"
      by (simp_all add: is_digit_def)
    have t: "itoa_tmp m = ?d # itoa_tmp (m div 10)"
      using True by (subst itoa_tmp.simps) simp
    have "parse_u32 v (rev (itoa_tmp m) @ cs) =
          parse_u32 (v * 10 ^ length (itoa_tmp (m div 10)) + of_nat (m div 10)) (?d # cs)"
      using "1.IH" [OF True, of v "?d # cs"] by (simp add: t)
    also have "\<dots> = parse_u32 ((v * 10 ^ length (itoa_tmp (m div 10)) + of_nat (m div 10)) * 10
                       + of_nat (m mod 10)) cs"
      using d by simp
    also have "(v * 10 ^ length (itoa_tmp (m div 10)) + of_nat (m div 10)) * 10 + of_nat (m mod 10)
               = v * 10 ^ length (itoa_tmp m) + of_nat m"
    proof -
      have "(of_nat m :: u32) = of_nat (m div 10 * 10 + m mod 10)" by simp
      also have "\<dots> = of_nat (m div 10) * 10 + of_nat (m mod 10)"
        by (simp only: of_nat_add of_nat_mult of_nat_numeral)
      finally show ?thesis by (simp add: t algebra_simps)
    qed
    finally show ?thesis .
  qed
qed

lemma parse_u32_stop: "s = [] \<or> \<not> is_digit (hd s) \<Longrightarrow> parse_u32 v s = (v, s)"
  by (cases s) auto

lemma parse_itoa:
  assumes "s = [] \<or> \<not> is_digit (hd s)"
  shows "parse_u32 0 (itoa n @ s) = (ucast n, s)"
proof (cases "n = 0")
  case True
  have "is_digit (CHR ''0'')" by (simp add: is_digit_def)
  with True assms show ?thesis by (simp add: itoa_def parse_u32_stop)
next
  case False
  show ?thesis
    using False by (simp add: itoa_def parse_itoa_tmp parse_u32_stop [OF assms])
qed

lemma itoa_digits: "c \<in> set (itoa n) \<Longrightarrow> is_digit c"
  using itoa_tmp_digits [of "unat n"] by (auto simp: itoa_def is_digit_def split: if_splits)

lemma itoa_nonempty: "itoa n \<noteq> []"
  by (auto simp: itoa_def itoa_tmp.simps unat_gt_0)

text \<open>The buffers: 20 digits always fit \<^verbatim>\<open>tmp[21]\<close>.\<close>

lemma itoa_len: "length (itoa n) \<le> 20"
proof -
  have "unat n < 10 ^ 20" using unsigned_less [of n, where ?'a = nat] by simp
  from itoa_tmp_len [OF this] show ?thesis by (simp add: itoa_def)
qed

lemma itoa_len_small: "unat n < 10 ^ k \<Longrightarrow> 0 < k \<Longrightarrow> length (itoa n) \<le> k"
  using itoa_tmp_len [of "unat n" k] by (auto simp: itoa_def)

lemma itoa_len_big: "10 ^ k \<le> unat n \<Longrightarrow> k < length (itoa n)"
  using itoa_tmp_len_ge [of k "unat n"] by (auto simp: itoa_def)

section \<open>Hexadecimal\<close>

definition hex_digit :: "nat \<Rightarrow> char" where
  "hex_digit d = ''0123456789ABCDEF'' ! d"

text \<open>\<^verbatim>\<open>itoa_hex\<close> of the shell: \<^verbatim>\<open>0x\<close> and the four low nibbles, high one first.\<close>

definition itoa_hex :: "u32 \<Rightarrow> string" where
  "itoa_hex n = ''0x'' @ map (\<lambda>i. hex_digit (unat (drop_bit (i * 4) n AND 0xF))) [3, 2, 1, 0]"

text \<open>\<^verbatim>\<open>print_hex64\<close> of \<^verbatim>\<open>idt.cpp\<close>: all sixteen nibbles.\<close>

definition print_hex64 :: "u64 \<Rightarrow> string" where
  "print_hex64 v = ''0x'' @ map (\<lambda>i. hex_digit (unat (drop_bit (i * 4) v AND 0xF))) (rev [0..<16])"

lemma length_itoa_hex [simp]: "length (itoa_hex n) = 6"
  by (simp add: itoa_hex_def)

lemma length_print_hex64 [simp]: "length (print_hex64 v) = 18"
  by (simp add: print_hex64_def)

lemma hex_digit_inj:
  assumes "a < 16" "b < 16" "hex_digit a = hex_digit b"
  shows "a = b"
proof -
  have "distinct ''0123456789ABCDEF''" by simp
  with assms show ?thesis by (simp add: hex_digit_def nth_eq_iff_index_eq)
qed

lemma nibble_lt: "unat (x AND 0xF :: 'a::len word) < 16" if "4 \<le> LENGTH('a)"
proof -
  have "x AND 0xF = take_bit 4 x" by (simp add: take_bit_eq_mask mask_eq_exp_minus_1)
  moreover have "unat (take_bit 4 x) < 2 ^ 4"
    unfolding unsigned_take_bit_eq by (rule take_bit_nat_less_exp)
  ultimately show ?thesis by simp
qed

lemma print_hex64_inj: "print_hex64 v = print_hex64 w \<Longrightarrow> v = w"
proof (rule bit_word_eqI)
  fix n
  assume eq: "print_hex64 v = print_hex64 w" and n: "n < LENGTH(64)"
  let ?i = "n div 4"
  have i: "?i < 16" using n by simp
  have "\<forall>i\<in>set (rev [0..<16]). hex_digit (unat (drop_bit (i * 4) v AND 0xF)) =
                              hex_digit (unat (drop_bit (i * 4) w AND 0xF))"
    using eq by (simp only: print_hex64_def append_same_eq same_append_eq map_eq_conv)
  moreover have "?i \<in> set (rev [0..<16])" using i by simp
  ultimately have "hex_digit (unat (drop_bit (?i * 4) v AND 0xF)) = hex_digit (unat (drop_bit (?i * 4) w AND 0xF))"
    by (rule bspec)
  then have "unat (drop_bit (?i * 4) v AND 0xF) = unat (drop_bit (?i * 4) w AND 0xF)"
    by (rule hex_digit_inj [rotated 2]) (simp_all add: nibble_lt)
  then have "drop_bit (?i * 4) v AND 0xF = drop_bit (?i * 4) w AND 0xF"
    by (simp only: word_unat_eq_iff)
  then have "bit (drop_bit (?i * 4) v AND mask 4) (n mod 4) = bit (drop_bit (?i * 4) w AND mask 4) (n mod 4)"
    by (simp add: mask_eq_exp_minus_1)
  then show "bit v n = bit w n"
    using n by (simp add: bit_simps less_trans [OF mod_less_divisor])
qed

end
