(* ===== verification/Pmm.thy ===== *)
theory Pmm
  imports Prelude
begin

text \<open>
  The physical memory manager of \<^verbatim>\<open>kernel/memory.cpp\<close>: a bitmap with one bit per 4 KB page,
  1 for used. Page numbers and physical addresses are \<open>nat\<close> (they come from dividing 64-bit
  addresses by 4096, so nothing computed from them wraps, except \<^verbatim>\<open>base + length\<close>, where the
  wrap is written out); the counters \<^verbatim>\<open>pmm_total\<close> and \<^verbatim>\<open>pmm_used\<close> are 64-bit words. \<open>ram\<close> is the
  physical memory outside the bitmap, which \<^verbatim>\<open>pmm_alloc_page\<close> zeroes page by page. The memory map
  of the bootloader is an argument. The interrupt flag saved and restored around the scans
  makes each operation one step.
\<close>

definition PAGE_SIZE :: nat where "PAGE_SIZE = 4096"

record pmm =
  bitmap :: "u8 list"
  highest_page :: nat
  total :: u64
  used :: u64
  search_hint :: nat
  bitmap_at :: nat
  ram :: "nat \<Rightarrow> u8"

record memmap_entry =
  base :: nat
  len :: nat
  kind :: nat

definition MEMMAP_USABLE :: nat where "MEMMAP_USABLE = 0"

section \<open>The bitmap\<close>

definition bmp_set :: "u8 list \<Rightarrow> nat \<Rightarrow> u8 list" where
  "bmp_set b page = b[page div 8 := b ! (page div 8) OR push_bit (page mod 8) 1]"

definition bmp_clear :: "u8 list \<Rightarrow> nat \<Rightarrow> u8 list" where
  "bmp_clear b page = b[page div 8 := b ! (page div 8) AND NOT (push_bit (page mod 8) 1)]"

definition bmp_test :: "u8 list \<Rightarrow> nat \<Rightarrow> bool" where
  "bmp_test b page \<longleftrightarrow> (b ! (page div 8)) AND push_bit (page mod 8) 1 \<noteq> 0"

lemma bmp_test_bit [table_simps]: "bmp_test b page \<longleftrightarrow> bit (b ! (page div 8)) (page mod 8)"
  by (simp add: bmp_test_def push_bit_eq_mult and_exp_eq_0_iff_not_bit)

lemma page_split: "(p :: nat) = q \<longleftrightarrow> p div 8 = q div 8 \<and> p mod 8 = q mod 8"
  by (metis div_mult_mod_eq)

lemma length_bmp [simp]: "length (bmp_set b p) = length b" "length (bmp_clear b p) = length b"
  by (simp_all add: bmp_set_def bmp_clear_def)

lemma bmp_test_set [simp]:
  assumes "p < 8 * length b"
  shows "bmp_test (bmp_set b p) q \<longleftrightarrow> q = p \<or> bmp_test b q"
proof -
  have "p div 8 < length b" using assms by (simp add: less_mult_imp_div_less mult.commute)
  moreover have "p mod 8 < 8" "q mod 8 < 8" by simp_all
  ultimately show ?thesis
    by (cases "q div 8 = p div 8") (auto simp: bmp_test_bit bmp_set_def bit_simps page_split [of q p])
qed

lemma bmp_test_clear [simp]:
  assumes "p < 8 * length b"
  shows "bmp_test (bmp_clear b p) q \<longleftrightarrow> q \<noteq> p \<and> bmp_test b q"
proof -
  have "p div 8 < length b" using assms by (simp add: less_mult_imp_div_less mult.commute)
  moreover have "p mod 8 < 8" "q mod 8 < 8" by simp_all
  ultimately show ?thesis
    by (cases "q div 8 = p div 8") (auto simp: bmp_test_bit bmp_clear_def bit_simps page_split [of q p])
qed

text \<open>How many of the first \<open>n\<close> pages are used.\<close>

definition used_count :: "u8 list \<Rightarrow> nat \<Rightarrow> nat" where
  "used_count b n = length (filter (bmp_test b) [0..<n])"

lemma used_count_card: "used_count b n = card {p. p < n \<and> bmp_test b p}"
proof -
  have "used_count b n = card (set (filter (bmp_test b) [0..<n]))"
    unfolding used_count_def by (rule distinct_card [symmetric]) simp
  also have "set (filter (bmp_test b) [0..<n]) = {p. p < n \<and> bmp_test b p}" by auto
  finally show ?thesis .
qed

lemma used_count_le: "used_count b n \<le> n"
  by (simp add: used_count_def) (metis diff_zero length_filter_le length_upt)

lemma used_count_set:
  assumes "p < 8 * length b" "p < n" "\<not> bmp_test b p"
  shows "used_count (bmp_set b p) n = Suc (used_count b n)"
proof -
  have "{q. q < n \<and> bmp_test (bmp_set b p) q} = insert p {q. q < n \<and> bmp_test b q}"
    using assms by auto
  with assms show ?thesis by (simp add: used_count_card)
qed

lemma used_count_clear:
  assumes "p < 8 * length b" "p < n" "bmp_test b p"
  shows "Suc (used_count (bmp_clear b p) n) = used_count b n"
proof -
  have *: "{q. q < n \<and> bmp_test b q} = insert p {q. q < n \<and> bmp_test (bmp_clear b p) q}"
    using assms by auto
  have "p \<notin> {q. q < n \<and> bmp_test (bmp_clear b p) q}" using assms by simp
  then show ?thesis by (simp add: used_count_card *)
qed

section \<open>Initialisation from the memory map\<close>

definition entry_top :: "memmap_entry \<Rightarrow> nat" where
  "entry_top e = (base e + len e) mod 2 ^ 64"

definition usable :: "memmap_entry \<Rightarrow> bool" where
  "usable e \<longleftrightarrow> kind e = MEMMAP_USABLE"

text \<open>Pass 1: the highest address and the number of usable pages.\<close>

definition pass1 :: "memmap_entry list \<Rightarrow> nat \<times> u64" where
  "pass1 mm = fold (\<lambda>e (high, tot).
      (if entry_top e > high then entry_top e else high,
       if usable e then tot + of_nat (len e div PAGE_SIZE) else tot)) mm (0, 0)"

text \<open>Pass 2: the first usable region big enough for the bitmap; 0 when there is none.\<close>

definition pass2 :: "memmap_entry list \<Rightarrow> nat \<Rightarrow> nat" where
  "pass2 mm bytes = (case find (\<lambda>e. usable e \<and> len e \<ge> bytes) mm of Some e \<Rightarrow> base e | None \<Rightarrow> 0)"

text \<open>Pass 3: clear the bits of the usable pages; pass 4: set those of the bitmap's own pages.\<close>

definition free_pages_of :: "memmap_entry \<Rightarrow> u8 list \<times> u64 \<Rightarrow> u8 list \<times> u64" where
  "free_pages_of e bu = fold (\<lambda>p (b, u). (bmp_clear b (base e div PAGE_SIZE + p), u - 1))
     [0..<len e div PAGE_SIZE] bu"

definition pass3 :: "memmap_entry list \<Rightarrow> u8 list \<times> u64 \<Rightarrow> u8 list \<times> u64" where
  "pass3 mm bu = fold (\<lambda>e bu. if usable e then free_pages_of e bu else bu) mm bu"

definition reserve_pages :: "nat \<Rightarrow> nat \<Rightarrow> u8 list \<times> u64 \<Rightarrow> u8 list \<times> u64" where
  "reserve_pages start n bu = fold (\<lambda>p (b, u).
      if \<not> bmp_test b (start + p) then (bmp_set b (start + p), u + 1) else (b, u)) [0..<n] bu"

definition pmm_init :: "memmap_entry list option \<Rightarrow> nat option \<Rightarrow> pmm \<Rightarrow> bool \<times> pmm" where
  "pmm_init memmap hhdm s =
     (case (memmap, hhdm) of
        (Some mm, Some _) \<Rightarrow>
          (let (high, tot) = pass1 mm;
               pages = high div PAGE_SIZE;
               bytes = (pages + 7) div 8;
               s1 = s\<lparr>total := tot, highest_page := pages\<rparr>;
               at = pass2 mm bytes
           in if at = 0 then (False, s1)
              else let (b3, u3) = pass3 mm (replicate bytes 0xFF, of_nat pages);
                       (b4, u4) = reserve_pages (at div PAGE_SIZE) ((bytes + PAGE_SIZE - 1) div PAGE_SIZE) (b3, u3)
                   in (True, s1\<lparr>bitmap := b4, used := u4, search_hint := 0, bitmap_at := at\<rparr>))
      | _ \<Rightarrow> (False, s))"

section \<open>Allocation and release of pages\<close>

definition zero_page :: "nat \<Rightarrow> (nat \<Rightarrow> u8) \<Rightarrow> nat \<Rightarrow> u8" where
  "zero_page i m a = (if a div PAGE_SIZE = i then 0 else m a)"

definition take_page :: "nat \<Rightarrow> pmm \<Rightarrow> pmm" where
  "take_page i s = s\<lparr>bitmap := bmp_set (bitmap s) i, used := used s + 1, search_hint := i + 1,
                     ram := zero_page i (ram s)\<rparr>"

definition pmm_alloc_page :: "pmm \<Rightarrow> nat \<times> pmm" where
  "pmm_alloc_page s =
     (case find (\<lambda>i. \<not> bmp_test (bitmap s) i) [search_hint s..<highest_page s] of
        Some i \<Rightarrow> (i * PAGE_SIZE, take_page i s)
      | None \<Rightarrow>
          (case find (\<lambda>i. \<not> bmp_test (bitmap s) i) [0..<search_hint s] of
             Some i \<Rightarrow> (i * PAGE_SIZE, take_page i s)
           | None \<Rightarrow> (0, s)))"

definition pmm_free_page :: "nat \<Rightarrow> pmm \<Rightarrow> pmm" where
  "pmm_free_page phys s =
     (let page = phys div PAGE_SIZE
      in if page \<ge> highest_page s then s
         else if bmp_test (bitmap s) page
         then s\<lparr>bitmap := bmp_clear (bitmap s) page, used := used s - 1,
                search_hint := (if page < search_hint s then page else search_hint s)\<rparr>
         else s)"

definition pmm_free_pages :: "pmm \<Rightarrow> u64" where
  "pmm_free_pages s = (if total s > used s then total s - used s else 0)"

definition pmm_total_bytes :: "pmm \<Rightarrow> u64" where
  "pmm_total_bytes s = total s * of_nat PAGE_SIZE"

section \<open>Invariant\<close>

definition pmm_inv :: "pmm \<Rightarrow> bool" where
  "pmm_inv s \<longleftrightarrow>
     highest_page s \<le> 8 * length (bitmap s) \<and>
     highest_page s < 2 ^ 52 \<and>
     search_hint s \<le> highest_page s \<and>
     unat (used s) = used_count (bitmap s) (highest_page s)"

text \<open>The pages handed out or reserved.\<close>

definition taken :: "pmm \<Rightarrow> nat set" where
  "taken s = {p. p < highest_page s \<and> bmp_test (bitmap s) p}"

lemma u64_Suc: "unat (w :: u64) < 2 ^ 64 - 1 \<Longrightarrow> unat (w + 1) = Suc (unat w)"
  by (simp add: unat_word_ariths)

lemma u64_pred: "0 < unat (w :: u64) \<Longrightarrow> Suc (unat (w - 1)) = unat w"
  using unat_sub [of 1 w] by (simp add: word_le_nat_alt)

lemma take_page_inv:
  assumes "pmm_inv s" "i < highest_page s" "\<not> bmp_test (bitmap s) i"
  shows "pmm_inv (take_page i s)"
    and "taken (take_page i s) = insert i (taken s)"
    and "unat (used (take_page i s)) = Suc (unat (used s))"
proof -
  have c: "used_count (bmp_set (bitmap s) i) (highest_page s) = Suc (used_count (bitmap s) (highest_page s))"
    using assms by (intro used_count_set) (auto simp: pmm_inv_def)
  have "used_count (bitmap s) (highest_page s) < 2 ^ 52"
    using assms(1) used_count_le [of "bitmap s" "highest_page s"] by (simp add: pmm_inv_def)
  then have "unat (used s) < 2 ^ 64 - 1" using assms(1) by (simp add: pmm_inv_def)
  from u64_Suc [OF this] show u: "unat (used (take_page i s)) = Suc (unat (used s))"
    by (simp add: take_page_def)
  show "pmm_inv (take_page i s)"
    using assms c u by (simp add: pmm_inv_def take_page_def)
  show "taken (take_page i s) = insert i (taken s)"
    using assms by (auto simp: taken_def take_page_def pmm_inv_def)
qed

lemma pmm_alloc_cases:
  assumes "pmm_inv s"
  obtains (full) "\<forall>p<highest_page s. bmp_test (bitmap s) p" "pmm_alloc_page s = (0, s)"
  | (ok) i where "i < highest_page s" "\<not> bmp_test (bitmap s) i"
      "pmm_alloc_page s = (i * PAGE_SIZE, take_page i s)"
proof (cases "find (\<lambda>i. \<not> bmp_test (bitmap s) i) [search_hint s..<highest_page s]")
  case (Some i)
  then have "i < highest_page s" "\<not> bmp_test (bitmap s) i"
    by (auto simp: find_Some_iff nth_upt)
  with Some show ?thesis by (intro ok) (auto simp: pmm_alloc_page_def)
next
  case None
  show ?thesis
  proof (cases "find (\<lambda>i. \<not> bmp_test (bitmap s) i) [0..<search_hint s]")
    case (Some i)
    then have "i < highest_page s" "\<not> bmp_test (bitmap s) i"
      using assms by (auto simp: find_Some_iff pmm_inv_def)
    with Some None show ?thesis by (intro ok) (auto simp: pmm_alloc_page_def)
  next
    case none2: None
    have "bmp_test (bitmap s) p" if "p < highest_page s" for p
    proof (cases "p < search_hint s")
      case True
      with none2 show ?thesis by (simp add: find_None_iff)
    next
      case False
      with None that show ?thesis by (simp add: find_None_iff)
    qed
    with None none2 show ?thesis by (intro full) (auto simp: pmm_alloc_page_def)
  qed
qed

lemma pmm_alloc_inv:
  assumes "pmm_inv s"
  shows "pmm_inv (snd (pmm_alloc_page s))"
  using assms by (cases rule: pmm_alloc_cases) (use assms in \<open>auto intro: take_page_inv\<close>)

lemma pmm_free_inv: "pmm_inv s \<Longrightarrow> pmm_inv (pmm_free_page phys s)"
proof -
  assume inv: "pmm_inv s"
  let ?p = "phys div PAGE_SIZE"
  show ?thesis
  proof (cases "?p < highest_page s \<and> bmp_test (bitmap s) ?p")
    case True
    then have c: "Suc (used_count (bmp_clear (bitmap s) ?p) (highest_page s)) = used_count (bitmap s) (highest_page s)"
      using inv by (intro used_count_clear) (auto simp: pmm_inv_def)
    then have "0 < unat (used s)" using inv by (simp add: pmm_inv_def)
    from u64_pred [OF this] c True inv show ?thesis
      by (simp add: pmm_inv_def pmm_free_page_def Let_def)
  next
    case False
    with inv show ?thesis by (auto simp: pmm_free_page_def Let_def)
  qed
qed

lemma pmm_free_taken: "pmm_inv s \<Longrightarrow> taken (pmm_free_page phys s) = taken s - {phys div PAGE_SIZE}"
  by (auto simp: taken_def pmm_free_page_def Let_def pmm_inv_def)

section \<open>The contract of a page allocator\<close>

locale page_source =
  fixes inv :: "'s \<Rightarrow> bool" and alloc :: "'s \<Rightarrow> nat \<times> 's" and own :: "'s \<Rightarrow> nat set"
  assumes alloc_inv: "inv s \<Longrightarrow> inv (snd (alloc s))"
    and alloc_fresh: "inv s \<Longrightarrow> fst (alloc s) \<noteq> 0 \<Longrightarrow> fst (alloc s) div PAGE_SIZE \<notin> own s"
    and alloc_own: "inv s \<Longrightarrow> fst (alloc s) \<noteq> 0 \<Longrightarrow>
                      own (snd (alloc s)) = insert (fst (alloc s) div PAGE_SIZE) (own s)"
    and alloc_mono: "inv s \<Longrightarrow> own s \<subseteq> own (snd (alloc s))"
    and alloc_aligned: "inv s \<Longrightarrow> PAGE_SIZE dvd fst (alloc s)"
begin

text \<open>A driver that allocates page after page, stopping at the first failure.\<close>

primrec alloc_list :: "nat \<Rightarrow> 's \<Rightarrow> nat list option \<times> 's" where
  "alloc_list 0 s = (Some [], s)"
| "alloc_list (Suc n) s =
     (let (a, s1) = alloc s
      in if a = 0 then (None, s1)
         else let (r, s2) = alloc_list n s1 in (map_option ((#) a) r, s2))"

lemma alloc_list_inv: "inv s \<Longrightarrow> inv (snd (alloc_list n s))"
proof (induction n arbitrary: s)
  case (Suc n)
  have "inv (snd (alloc s))" using Suc.prems by (rule alloc_inv)
  from Suc.IH [OF this] this show ?case by (auto simp: Let_def split: prod.splits)
qed simp

lemma alloc_list_own: "inv s \<Longrightarrow> own s \<subseteq> own (snd (alloc_list n s))"
proof (induction n arbitrary: s)
  case (Suc n)
  have "inv (snd (alloc s))" using Suc.prems by (rule alloc_inv)
  from Suc.IH [OF this] alloc_mono [OF Suc.prems] show ?case
    by (auto simp: Let_def split: prod.splits)
qed simp

lemma alloc_list_distinct:
  assumes "inv s" "alloc_list n s = (Some as, s')"
  shows "distinct (map (\<lambda>a. a div PAGE_SIZE) as) \<and> length as = n \<and>
         (\<forall>a\<in>set as. a \<noteq> 0 \<and> PAGE_SIZE dvd a \<and> a div PAGE_SIZE \<notin> own s \<and> a div PAGE_SIZE \<in> own s')"
  using assms
proof (induction n arbitrary: s as)
  case 0
  then show ?case by simp
next
  case (Suc n)
  obtain a s1 where a: "alloc s = (a, s1)" by (cases "alloc s")
  with Suc.prems(2) obtain bs where bs: "alloc_list n s1 = (Some bs, s')" "as = a # bs" "a \<noteq> 0"
    by (auto split: if_splits prod.splits)
  have i1: "inv s1" using alloc_inv [OF Suc.prems(1)] a by simp
  have o1: "own s1 = insert (a div PAGE_SIZE) (own s)"
    using alloc_own [OF Suc.prems(1)] a bs(3) by simp
  have "own s1 \<subseteq> own s'" using alloc_list_own [OF i1, of n] bs(1) by simp
  with Suc.IH [OF i1 bs(1)] o1 bs a alloc_fresh [OF Suc.prems(1)] alloc_aligned [OF Suc.prems(1)]
  show ?case by auto
qed

end

lemma pmm_alloc_div:
  assumes "pmm_inv s" "fst (pmm_alloc_page s) \<noteq> 0"
  shows "fst (pmm_alloc_page s) div PAGE_SIZE \<notin> taken s"
    and "taken (snd (pmm_alloc_page s)) = insert (fst (pmm_alloc_page s) div PAGE_SIZE) (taken s)"
  using assms(1)
  by (cases rule: pmm_alloc_cases; use assms in \<open>auto simp: PAGE_SIZE_def taken_def [of s] take_page_inv(2)\<close>)+

lemma pmm_alloc_taken_mono:
  assumes "pmm_inv s"
  shows "taken s \<subseteq> taken (snd (pmm_alloc_page s))"
  using assms by (cases rule: pmm_alloc_cases) (use assms in \<open>auto simp: take_page_inv(2)\<close>)

interpretation pm: page_source pmm_inv pmm_alloc_page taken
proof unfold_locales
  fix s
  assume "pmm_inv s"
  then show "PAGE_SIZE dvd fst (pmm_alloc_page s)"
    by (cases rule: pmm_alloc_cases) auto
qed (use pmm_alloc_div pmm_alloc_taken_mono in \<open>auto simp: pmm_alloc_inv\<close>)

interpretation pmr: event_machine pmm_inv
  "\<lambda>s r. case r of None \<Rightarrow> snd (pmm_alloc_page s) | Some a \<Rightarrow> pmm_free_page a s"
  by unfold_locales (auto simp: pmm_alloc_inv pmm_free_inv split: option.splits)

section \<open>Initialisation is correct\<close>

text \<open>The pages of a memory-map entry, and what the boot protocol guarantees of the usable ones.\<close>

definition region_pages :: "memmap_entry \<Rightarrow> nat set" where
  "region_pages e = {base e div PAGE_SIZE ..< base e div PAGE_SIZE + len e div PAGE_SIZE}"

definition limine_memmap :: "memmap_entry list \<Rightarrow> bool" where
  "limine_memmap mm \<longleftrightarrow>
     (\<forall>e\<in>set mm. usable e \<longrightarrow> PAGE_SIZE dvd base e \<and> PAGE_SIZE dvd len e \<and> base e + len e < 2 ^ 64) \<and>
     sorted_wrt (\<lambda>e f. usable e \<longrightarrow> usable f \<longrightarrow>
        base e + len e \<le> base f \<or> base f + len f \<le> base e) mm"

text \<open>The word \<open>u\<close> counts the used pages below \<open>n\<close>.\<close>

definition counts :: "nat \<Rightarrow> u8 list \<times> u64 \<Rightarrow> bool" where
  "counts n bu \<longleftrightarrow> snd bu = of_nat (used_count (fst bu) n)"

lemma free_run:
  assumes "st + k \<le> n" "n \<le> 8 * length (fst bu)"
  defines "r \<equiv> fold (\<lambda>p (b, u). (bmp_clear b (st + p), u - 1)) [0..<k] bu"
  shows "length (fst r) = length (fst bu) \<and>
         (\<forall>q. bmp_test (fst r) q \<longleftrightarrow> q \<notin> {st..<st + k} \<and> bmp_test (fst bu) q) \<and>
         (counts n bu \<longrightarrow> (\<forall>p\<in>{st..<st + k}. bmp_test (fst bu) p) \<longrightarrow> counts n r)"
  using assms(1) unfolding r_def
proof (induction k)
  case 0
  then show ?case by auto
next
  case (Suc k)
  let ?f = "\<lambda>p (b, u). (bmp_clear b (st + p), u - 1 :: u64)"
  let ?r = "fold ?f [0..<k] bu"
  have r: "fold ?f [0..<Suc k] bu = (bmp_clear (fst ?r) (st + k), snd ?r - 1)"
    by (simp add: case_prod_beta)
  from Suc have IH: "length (fst ?r) = length (fst bu)"
    "\<And>q. bmp_test (fst ?r) q \<longleftrightarrow> q \<notin> {st..<st + k} \<and> bmp_test (fst bu) q"
    "counts n bu \<Longrightarrow> \<forall>p\<in>{st..<st + k}. bmp_test (fst bu) p \<Longrightarrow> counts n ?r" by auto
  have lt: "st + k < 8 * length (fst ?r)" using assms(2) Suc.prems IH(1) by simp
  have cn: "counts n (fold ?f [0..<Suc k] bu)"
    if "counts n bu" "\<forall>p\<in>{st..<st + Suc k}. bmp_test (fst bu) p"
  proof -
    have c: "counts n ?r" using that by (intro IH(3)) auto
    have "bmp_test (fst ?r) (st + k)" using that(2) IH(2) by simp
    then have "Suc (used_count (bmp_clear (fst ?r) (st + k)) n) = used_count (fst ?r) n"
      using lt Suc.prems by (intro used_count_clear) auto
    then have "(of_nat (used_count (fst ?r) n) :: u64) - 1 = of_nat (used_count (bmp_clear (fst ?r) (st + k)) n)"
      by (simp flip: \<open>Suc _ = _\<close>)
    with c show ?thesis unfolding r counts_def by simp
  qed
  have "bmp_test (bmp_clear (fst ?r) (st + k)) q \<longleftrightarrow> q \<notin> {st..<st + Suc k} \<and> bmp_test (fst bu) q" for q
    using IH(2) [of q] by (auto simp: bmp_test_clear [OF lt])
  then have "\<forall>q. bmp_test (fst (fold ?f [0..<Suc k] bu)) q \<longleftrightarrow> q \<notin> {st..<st + Suc k} \<and> bmp_test (fst bu) q"
    unfolding r fst_conv by blast
  moreover have "length (fst (fold ?f [0..<Suc k] bu)) = length (fst bu)"
    unfolding r fst_conv length_bmp by (rule IH(1))
  ultimately show ?case using cn by blast
qed

lemma reserve_run:
  assumes "st + k \<le> n" "n \<le> 8 * length (fst bu)"
  shows "length (fst (reserve_pages st k bu)) = length (fst bu) \<and>
         (\<forall>q. bmp_test (fst (reserve_pages st k bu)) q \<longleftrightarrow> q \<in> {st..<st + k} \<or> bmp_test (fst bu) q) \<and>
         (counts n bu \<longrightarrow> counts n (reserve_pages st k bu))"
  using assms(1)
proof (induction k)
  case 0
  then show ?case by (auto simp: reserve_pages_def)
next
  case (Suc k)
  let ?r = "reserve_pages st k bu"
  have r: "reserve_pages st (Suc k) bu =
     (if \<not> bmp_test (fst ?r) (st + k) then (bmp_set (fst ?r) (st + k), snd ?r + 1) else ?r)"
    by (simp add: reserve_pages_def case_prod_beta)
  from Suc have IH: "length (fst ?r) = length (fst bu)"
    "\<And>q. bmp_test (fst ?r) q \<longleftrightarrow> q \<in> {st..<st + k} \<or> bmp_test (fst bu) q"
    "counts n bu \<Longrightarrow> counts n ?r" by auto
  have lt: "st + k < 8 * length (fst ?r)" using assms(2) Suc.prems IH(1) by simp
  have cn: "counts n (reserve_pages st (Suc k) bu)" if c: "counts n bu"
  proof (cases "bmp_test (fst ?r) (st + k)")
    case True
    with IH(3) c show ?thesis unfolding r by simp
  next
    case False
    then have "used_count (bmp_set (fst ?r) (st + k)) n = Suc (used_count (fst ?r) n)"
      using lt Suc.prems by (intro used_count_set) auto
    with IH(3) [OF c] False show ?thesis unfolding r counts_def by simp
  qed
  have "bmp_test (fst (reserve_pages st (Suc k) bu)) q \<longleftrightarrow> q \<in> {st..<st + Suc k} \<or> bmp_test (fst bu) q" for q
    using IH(2) [of q] IH(2) [of "st + k"] unfolding r by (auto simp: bmp_test_set [OF lt] less_Suc_eq)
  moreover have "length (fst (reserve_pages st (Suc k) bu)) = length (fst bu)"
    unfolding r by (simp add: IH(1))
  ultimately show ?case using cn by blast
qed

lemma pass1_top: "e \<in> set mm \<Longrightarrow> entry_top e \<le> fst (pass1 mm)"
proof -
  let ?f = "\<lambda>e (high, tot). (if entry_top e > high then entry_top e else high,
       if usable e then tot + of_nat (len e div PAGE_SIZE) else (tot :: u64))"
  have "fst ht \<le> fst (fold ?f mm ht) \<and> (\<forall>e\<in>set mm. entry_top e \<le> fst (fold ?f mm ht))" for ht
  proof (induction mm arbitrary: ht)
    case (Cons x mm)
    from Cons.IH [of "?f x ht"] show ?case by (cases ht) (auto simp: case_prod_beta split: if_splits)
  qed simp
  then show "e \<in> set mm \<Longrightarrow> entry_top e \<le> fst (pass1 mm)" unfolding pass1_def by blast
qed

lemma pass1_lt: "fst (pass1 mm) < 2 ^ 64"
proof -
  let ?f = "\<lambda>e (high, tot). (if entry_top e > high then entry_top e else high,
       if usable e then tot + of_nat (len e div PAGE_SIZE) else (tot :: u64))"
  have "fst ht < 2 ^ 64 \<Longrightarrow> fst (fold ?f mm ht) < 2 ^ 64" for ht
  proof (induction mm arbitrary: ht)
    case (Cons x mm)
    have "fst (?f x ht) < 2 ^ 64" using Cons.prems by (cases ht) (simp add: entry_top_def)
    from Cons.IH [OF this] show ?case by simp
  qed simp
  then show ?thesis unfolding pass1_def by simp
qed

lemma pass3_run:
  assumes "\<forall>e\<in>set mm. usable e \<longrightarrow> base e div PAGE_SIZE + len e div PAGE_SIZE \<le> n"
    and "n \<le> 8 * length (fst bu)"
  shows "length (fst (pass3 mm bu)) = length (fst bu) \<and>
         (\<forall>q. bmp_test (fst (pass3 mm bu)) q \<longleftrightarrow>
              bmp_test (fst bu) q \<and> (\<forall>e\<in>set mm. usable e \<longrightarrow> q \<notin> region_pages e)) \<and>
         (counts n bu \<longrightarrow> sorted_wrt (\<lambda>e f. usable e \<longrightarrow> usable f \<longrightarrow> region_pages e \<inter> region_pages f = {}) mm \<longrightarrow>
            (\<forall>e\<in>set mm. usable e \<longrightarrow> (\<forall>p\<in>region_pages e. bmp_test (fst bu) p)) \<longrightarrow> counts n (pass3 mm bu))"
  using assms
proof (induction mm arbitrary: bu)
  case Nil
  then show ?case by (simp add: pass3_def)
next
  case (Cons e mm)
  let ?c = "if usable e then free_pages_of e bu else bu"
  have step: "pass3 (e # mm) bu = pass3 mm ?c" by (simp add: pass3_def)
  have fr: "length (fst ?c) = length (fst bu)"
    "\<And>q. bmp_test (fst ?c) q \<longleftrightarrow> bmp_test (fst bu) q \<and> (usable e \<longrightarrow> q \<notin> region_pages e)"
    "counts n bu \<Longrightarrow> (usable e \<longrightarrow> (\<forall>p\<in>region_pages e. bmp_test (fst bu) p)) \<Longrightarrow> counts n ?c"
    using free_run [of "base e div PAGE_SIZE" "len e div PAGE_SIZE" n bu] Cons.prems
    by (auto simp: free_pages_of_def region_pages_def)
  have IH: "length (fst (pass3 mm ?c)) = length (fst ?c)"
    "\<And>q. bmp_test (fst (pass3 mm ?c)) q \<longleftrightarrow>
         bmp_test (fst ?c) q \<and> (\<forall>e\<in>set mm. usable e \<longrightarrow> q \<notin> region_pages e)"
    "counts n ?c \<Longrightarrow> sorted_wrt (\<lambda>e f. usable e \<longrightarrow> usable f \<longrightarrow> region_pages e \<inter> region_pages f = {}) mm \<Longrightarrow>
            (\<forall>e\<in>set mm. usable e \<longrightarrow> (\<forall>p\<in>region_pages e. bmp_test (fst ?c) p)) \<Longrightarrow> counts n (pass3 mm ?c)"
    using Cons.IH [of ?c] Cons.prems fr(1) by auto
  show ?case unfolding step
  proof (intro conjI impI)
    assume "counts n bu"
      and "sorted_wrt (\<lambda>e f. usable e \<longrightarrow> usable f \<longrightarrow> region_pages e \<inter> region_pages f = {}) (e # mm)"
      and "\<forall>e\<in>set (e # mm). usable e \<longrightarrow> (\<forall>p\<in>region_pages e. bmp_test (fst bu) p)"
    then show "counts n (pass3 mm ?c)"
      by (intro IH(3) fr(3)) (auto simp: fr(2))
  qed (use fr IH in auto)
qed

lemma page_div_mono: "PAGE_SIZE dvd a \<Longrightarrow> PAGE_SIZE dvd b \<Longrightarrow> a div PAGE_SIZE + b div PAGE_SIZE = (a + b) div PAGE_SIZE"
  by (simp add: div_plus_div_distrib_dvd_left)

lemma bmp_test_FF: "q < 8 * n \<Longrightarrow> bmp_test (replicate n 0xFF) q"
proof -
  assume "q < 8 * n"
  then have "q div 8 < n" by (simp add: less_mult_imp_div_less mult.commute)
  moreover have "(0xFF :: u8) = - 1" by simp
  ultimately show ?thesis
    by (simp only: bmp_test_bit nth_replicate) (simp add: less_trans [OF mod_less_divisor])
qed

lemma memmap_regions:
  assumes "limine_memmap mm" "e \<in> set mm" "usable e"
  shows "base e div PAGE_SIZE + len e div PAGE_SIZE \<le> fst (pass1 mm) div PAGE_SIZE"
    and "base e + len e \<le> fst (pass1 mm)"
proof -
  have d: "PAGE_SIZE dvd base e" "PAGE_SIZE dvd len e" "base e + len e < 2 ^ 64"
    using assms by (auto simp: limine_memmap_def)
  then have "entry_top e = base e + len e" by (simp add: entry_top_def)
  with pass1_top [OF assms(2)] show le: "base e + len e \<le> fst (pass1 mm)" by simp
  then show "base e div PAGE_SIZE + len e div PAGE_SIZE \<le> fst (pass1 mm) div PAGE_SIZE"
    unfolding page_div_mono [OF d(1,2)] by (rule div_le_mono)
qed

lemma memmap_disjoint:
  assumes "limine_memmap mm"
  shows "sorted_wrt (\<lambda>e f. usable e \<longrightarrow> usable f \<longrightarrow> region_pages e \<inter> region_pages f = {}) mm"
proof -
  have "sorted_wrt (\<lambda>e f. usable e \<longrightarrow> usable f \<longrightarrow>
        base e + len e \<le> base f \<or> base f + len f \<le> base e) mm"
    using assms by (simp add: limine_memmap_def)
  then show ?thesis
  proof (rule sorted_wrt_mono_rel [rotated])
    fix e f
    assume m: "e \<in> set mm" "f \<in> set mm"
      and or: "usable e \<longrightarrow> usable f \<longrightarrow> base e + len e \<le> base f \<or> base f + len f \<le> base e"
    show "usable e \<longrightarrow> usable f \<longrightarrow> region_pages e \<inter> region_pages f = {}"
    proof (intro impI)
      assume u: "usable e" "usable f"
      have d: "PAGE_SIZE dvd base e" "PAGE_SIZE dvd len e" "PAGE_SIZE dvd base f" "PAGE_SIZE dvd len f"
        using assms m u unfolding limine_memmap_def by blast+
      have "base e div PAGE_SIZE + len e div PAGE_SIZE \<le> base f div PAGE_SIZE \<or>
            base f div PAGE_SIZE + len f div PAGE_SIZE \<le> base e div PAGE_SIZE"
        unfolding page_div_mono [OF d(1,2)] page_div_mono [OF d(3,4)]
        using or u by (blast intro: div_le_mono)
      then show "region_pages e \<inter> region_pages f = {}" by (auto simp: region_pages_def)
    qed
  qed
qed

lemma bmp_clear_set:
  assumes "p < 8 * length b" "\<not> bmp_test b p"
  shows "bmp_clear (bmp_set b p) p = b"
proof (rule nth_equalityI)
  fix i
  assume "i < length (bmp_clear (bmp_set b p) p)"
  then have i: "i < length b" by simp
  show "bmp_clear (bmp_set b p) p ! i = b ! i"
  proof (cases "i = p div 8")
    case False
    then show ?thesis by (simp add: bmp_clear_def bmp_set_def)
  next
    case True
    have "bit ((b ! i OR push_bit (p mod 8) 1) AND NOT (push_bit (p mod 8) 1)) n = bit (b ! i) n" if "n < 8" for n
      using assms(2) that True by (auto simp: bmp_test_bit bit_simps)
    then have "(b ! i OR push_bit (p mod 8) 1) AND NOT (push_bit (p mod 8) 1) = b ! i"
      by (intro bit_word_eqI) simp
    with True i show ?thesis by (simp add: bmp_clear_def bmp_set_def)
  qed
qed simp

section \<open>Properties\<close>

text \<open>C14: page allocation. When every page is used the call returns 0 and changes nothing;
  otherwise it returns the address of a page that was free, which becomes used and all zero,
  with one more page counted and every other page and every other byte of memory unchanged.\<close>

theorem pmm_alloc_page_spec:
  assumes "pmm_inv s" and "pmm_alloc_page s = (a, s')"
  shows "if taken s = {..<highest_page s} then a = 0 \<and> s' = s
         else \<exists>i<highest_page s. i \<notin> taken s \<and> a = i * PAGE_SIZE \<and> taken s' = insert i (taken s) \<and>
                unat (used s') = Suc (unat (used s)) \<and> pmm_inv s' \<and>
                ram s' = (\<lambda>x. if x div PAGE_SIZE = i then 0 else ram s x)"
  using assms(1)
proof (cases rule: pmm_alloc_cases)
  case full
  then have "taken s = {..<highest_page s}" by (auto simp: taken_def)
  with full assms show ?thesis by simp
next
  case (ok i)
  then have "i \<notin> taken s" "taken s \<noteq> {..<highest_page s}" by (auto simp: taken_def)
  moreover have "ram (take_page i s) = (\<lambda>x. if x div PAGE_SIZE = i then 0 else ram s x)"
    by (simp add: take_page_def zero_page_def [abs_def])
  moreover note take_page_inv [OF assms(1) ok(1,2)]
  ultimately show ?thesis using ok assms(2) by auto
qed

definition pmm_demo :: pmm where
  "pmm_demo = \<lparr>bitmap = [7], highest_page = 6, total = 5, used = 3, search_hint = 4, bitmap_at = 4096,
               ram = (\<lambda>_. 1)\<rparr>"

lemma pmm_demo_inv: "pmm_inv pmm_demo"
  by (simp add: pmm_inv_def pmm_demo_def used_count_def upt_rec bmp_test_def)

lemma pmm_demo_alloc: "pmm_alloc_page pmm_demo = (4 * PAGE_SIZE, take_page 4 pmm_demo)"
  by (simp add: pmm_alloc_page_def pmm_demo_def upt_rec bmp_test_def)

theorem pmm_alloc_page_spec_witness:
  "pmm_inv pmm_demo \<and> 4 \<notin> taken pmm_demo \<and>
   taken (snd (pmm_alloc_page pmm_demo)) = insert 4 (taken pmm_demo)"
proof -
  have "4 \<notin> taken pmm_demo"
    by (simp add: taken_def pmm_demo_def bmp_test_def)
  moreover have "4 \<in> {..<highest_page pmm_demo}" by (simp add: pmm_demo_def)
  ultimately have ne: "taken pmm_demo \<noteq> {..<highest_page pmm_demo}" by blast
  obtain i where "4 * PAGE_SIZE = i * PAGE_SIZE" "taken (take_page 4 pmm_demo) = insert i (taken pmm_demo)"
    using pmm_alloc_page_spec [OF pmm_demo_inv pmm_demo_alloc, unfolded if_not_P [OF ne]] by blast
  then have "taken (take_page 4 pmm_demo) = insert 4 (taken pmm_demo)" by (simp add: PAGE_SIZE_def)
  with \<open>4 \<notin> taken pmm_demo\<close> show ?thesis by (simp add: pmm_demo_inv pmm_demo_alloc)
qed

text \<open>releasing the page just allocated restores the bitmap and the count of used pages, and
  releasing it a second time changes nothing.\<close>

theorem pmm_alloc_free_roundtrip:
  assumes "pmm_inv s" "pmm_alloc_page s = (a, s1)" "a \<noteq> 0"
  shows "bitmap (pmm_free_page a s1) = bitmap s \<and> used (pmm_free_page a s1) = used s \<and>
         pmm_inv (pmm_free_page a s1) \<and>
         pmm_free_page a (pmm_free_page a s1) = pmm_free_page a s1"
  using assms(1)
proof (cases rule: pmm_alloc_cases)
  case full
  with assms show ?thesis by simp
next
  case (ok i)
  have s1: "s1 = take_page i s" and a: "a div PAGE_SIZE = i"
    using ok assms(2) by (auto simp: PAGE_SIZE_def)
  have i: "i < 8 * length (bitmap s)" using ok assms(1) by (simp add: pmm_inv_def)
  have t: "bmp_test (bmp_set (bitmap s) i) i" using i by simp
  have inv1: "pmm_inv s1" using take_page_inv [OF assms(1) ok(1,2)] s1 by simp
  have f: "pmm_free_page a s1 = s1\<lparr>bitmap := bitmap s, used := used s, search_hint := i\<rparr>"
    using ok(1) t bmp_clear_set [OF i ok(2)] by (simp add: pmm_free_page_def Let_def a s1 take_page_def)
  have "pmm_free_page a (s1\<lparr>bitmap := bitmap s, used := used s, search_hint := i\<rparr>)
        = s1\<lparr>bitmap := bitmap s, used := used s, search_hint := i\<rparr>"
    using ok(2) by (simp add: pmm_free_page_def Let_def a)
  with f pmm_free_inv [OF inv1, of a] show ?thesis by simp
qed

theorem pmm_alloc_free_roundtrip_witness:
  "bitmap (pmm_free_page (4 * PAGE_SIZE) (snd (pmm_alloc_page pmm_demo))) = [7]"
  using pmm_alloc_free_roundtrip [OF pmm_demo_inv pmm_demo_alloc]
  by (simp add: pmm_demo_alloc PAGE_SIZE_def) (simp add: pmm_demo_def)

text \<open>C16: after a successful initialisation from a memory map that keeps the boot protocol's
  promises, a page is free exactly when it lies in a usable region and is not one of the pages
  that hold the bitmap itself, and the allocator's invariant holds (so the used count is exact
  and every later scan stays inside the bitmap).\<close>

theorem pmm_init_correct:
  assumes mm: "limine_memmap mm" and run: "pmm_init (Some mm) (Some h) s = (True, s')"
  shows "pmm_inv s' \<and> highest_page s' = fst (pass1 mm) div PAGE_SIZE \<and>
         (\<forall>p<highest_page s'. p \<notin> taken s' \<longleftrightarrow>
            (\<exists>e\<in>set mm. usable e \<and> p \<in> region_pages e) \<and>
            p \<notin> {bitmap_at s' div PAGE_SIZE ..<
                  bitmap_at s' div PAGE_SIZE + (length (bitmap s') + PAGE_SIZE - 1) div PAGE_SIZE})"
proof -
  define n where "n = fst (pass1 mm) div PAGE_SIZE"
  define bytes where "bytes = (n + 7) div 8"
  define at where "at = pass2 mm bytes"
  define k where "k = (bytes + PAGE_SIZE - 1) div PAGE_SIZE"
  define b0 where "b0 = (replicate bytes (0xFF :: u8), of_nat n :: u64)"
  define b3 where "b3 = pass3 mm b0"
  define b4 where "b4 = reserve_pages (at div PAGE_SIZE) k b3"
  have at0: "at \<noteq> 0" and s': "s' = s\<lparr>total := snd (pass1 mm), highest_page := n, bitmap := fst b4,
      used := snd b4, search_hint := 0, bitmap_at := at\<rparr>"
    using run unfolding b4_def b3_def b0_def k_def at_def bytes_def n_def
    by (auto simp: pmm_init_def Let_def case_prod_beta split: if_splits)
  have nb: "n \<le> 8 * bytes" by (simp add: bytes_def)
  have n52: "n < 2 ^ 52" using pass1_lt [of mm] by (simp add: n_def PAGE_SIZE_def)
  have full: "bmp_test (fst b0) q" if "q < n" for q
    using that nb bmp_test_FF [of q bytes] by (simp add: b0_def)
  have c0: "counts n b0"
  proof -
    have "{p. p < n \<and> bmp_test (fst b0) p} = {..<n}" using full by auto
    then show ?thesis by (simp add: counts_def used_count_card) (simp add: b0_def)
  qed
  have regs: "\<forall>e\<in>set mm. usable e \<longrightarrow> base e div PAGE_SIZE + len e div PAGE_SIZE \<le> n"
    using memmap_regions [OF mm] by (auto simp: n_def)
  have p3: "length (fst b3) = bytes"
    "\<And>q. bmp_test (fst b3) q \<longleftrightarrow> bmp_test (fst b0) q \<and> (\<forall>e\<in>set mm. usable e \<longrightarrow> q \<notin> region_pages e)"
    "counts n b3"
  proof -
    have "\<forall>e\<in>set mm. usable e \<longrightarrow> (\<forall>p\<in>region_pages e. bmp_test (fst b0) p)"
      using regs full by (auto simp: region_pages_def)
    with pass3_run [OF regs, of b0] nb c0 memmap_disjoint [OF mm]
    show "length (fst b3) = bytes"
      "\<And>q. bmp_test (fst b3) q \<longleftrightarrow> bmp_test (fst b0) q \<and> (\<forall>e\<in>set mm. usable e \<longrightarrow> q \<notin> region_pages e)"
      "counts n b3"
      by (auto simp: b3_def b0_def)
  qed
  obtain e where e: "e \<in> set mm" "usable e" "bytes \<le> len e" "at = base e"
  proof -
    obtain e where "find (\<lambda>e. usable e \<and> len e \<ge> bytes) mm = Some e" "at = base e"
      using at0 by (auto simp: at_def pass2_def split: option.splits)
    then show ?thesis by (intro that [of e]) (auto simp: find_Some_iff)
  qed
  have "at div PAGE_SIZE + k \<le> n"
  proof -
    have "PAGE_SIZE dvd len e" using mm e by (auto simp: limine_memmap_def)
    then obtain m where m: "len e = PAGE_SIZE * m" by blast
    with e(3) have "k \<le> m" by (simp add: k_def PAGE_SIZE_def)
    then have "k \<le> len e div PAGE_SIZE" using m by (simp add: PAGE_SIZE_def)
    with regs e show ?thesis by force
  qed
  from reserve_run [OF this, of b3] nb p3 have p4: "length (fst b4) = bytes"
    "\<And>q. bmp_test (fst b4) q \<longleftrightarrow> q \<in> {at div PAGE_SIZE ..< at div PAGE_SIZE + k} \<or> bmp_test (fst b3) q"
    "counts n b4"
    by (auto simp: b4_def)
  have "unat (snd b4) = used_count (fst b4) n"
    using p4(3) used_count_le [of "fst b4" n] n52 by (simp add: counts_def unat_of_nat take_bit_nat_eq_self)
  then have "pmm_inv s'" using nb n52 p4(1) by (simp add: pmm_inv_def s')
  moreover have "p \<notin> taken s' \<longleftrightarrow> (\<exists>e\<in>set mm. usable e \<and> p \<in> region_pages e) \<and>
      p \<notin> {at div PAGE_SIZE ..< at div PAGE_SIZE + k}" if "p < n" for p
    using p4(2) [of p] p3(2) [of p] full [OF that] that by (simp add: taken_def s') blast
  ultimately show ?thesis
    unfolding k_def by (simp add: s' n_def [symmetric] p4(1))
qed

lemma length_reserve_pages: "length (fst (reserve_pages a n bu)) = length (fst bu)"
  by (induction n) (simp_all add: reserve_pages_def case_prod_beta)

lemma length_free_pages_of: "length (fst (free_pages_of e bu)) = length (fst bu)"
proof -
  have "length (fst (fold (\<lambda>p (b, u). (bmp_clear b (f p), u - 1)) ps bu)) = length (fst bu)"
    for f :: "nat \<Rightarrow> nat" and ps by (induction ps arbitrary: bu) (simp_all add: case_prod_beta)
  then show ?thesis by (simp add: free_pages_of_def)
qed

lemma length_pass3: "length (fst (pass3 mm bu)) = length (fst bu)"
  unfolding pass3_def by (induction mm arbitrary: bu) (simp_all add: length_free_pages_of)

definition memmap_demo :: "memmap_entry list" where
  "memmap_demo = [\<lparr>base = 0, len = 4096, kind = 1\<rparr>, \<lparr>base = 4096, len = 12288, kind = 0\<rparr>]"

theorem pmm_init_correct_witness:
  "limine_memmap memmap_demo \<and> pmm_inv (snd (pmm_init (Some memmap_demo) (Some 0) pmm_demo)) \<and>
   taken (snd (pmm_init (Some memmap_demo) (Some 0) pmm_demo)) = {0, 1}"
proof -
  have mm: "limine_memmap memmap_demo"
    by (simp add: limine_memmap_def memmap_demo_def usable_def MEMMAP_USABLE_def PAGE_SIZE_def)
  define s' where "s' = snd (pmm_init (Some memmap_demo) (Some 0) pmm_demo)"
  have p1: "pass1 memmap_demo = (16384, 3)"
    by (simp add: memmap_demo_def pass1_def entry_top_def usable_def MEMMAP_USABLE_def
        PAGE_SIZE_def)
  have p2: "pass2 memmap_demo (Suc 0) = 4096"
    by (simp add: memmap_demo_def pass2_def usable_def MEMMAP_USABLE_def)
  have ok: "fst (pmm_init (Some memmap_demo) (Some 0) pmm_demo)"
    and f: "highest_page s' = 4" "bitmap_at s' = 4096"
    unfolding s'_def by (simp_all add: pmm_init_def p1 p2 PAGE_SIZE_def Let_def case_prod_beta)
  have s': "pmm_init (Some memmap_demo) (Some 0) pmm_demo = (True, s')"
    using ok by (cases "pmm_init (Some memmap_demo) (Some 0) pmm_demo") (simp add: s'_def)
  have f3: "length (bitmap s') = 1"
    unfolding s'_def by (simp add: pmm_init_def p1 p2 PAGE_SIZE_def Let_def case_prod_beta
        length_reserve_pages length_pass3)
  note c = pmm_init_correct [OF mm s']
  from c have inv: "pmm_inv s'" by (rule conjunct1)
  have m: "p < 4 \<Longrightarrow> p \<notin> taken s' \<longleftrightarrow> (1 \<le> p \<and> p < 4) \<and> p \<noteq> 1" for p
    using c [THEN conjunct2, THEN conjunct2, rule_format, of p]
    by (simp add: f f3 memmap_demo_def usable_def MEMMAP_USABLE_def region_pages_def PAGE_SIZE_def)
  have "p \<in> taken s' \<longleftrightarrow> p \<in> {0, 1}" for p
  proof (cases "p < 4")
    case True
    then show ?thesis using m [of p] by auto
  next
    case False
    then show ?thesis by (auto simp: taken_def f)
  qed
  then have "taken s' = {0, 1}" by blast
  with mm s' inv show ?thesis by simp
qed

end
