(* ===== verification/Heap.thy ===== *)
theory Heap
  imports Pmm
begin

text \<open>
  The kernel heap of \<^verbatim>\<open>kernel/memory.cpp\<close>: a linear list of block headers that tile the committed
  part of one region, with first-fit allocation, splitting, coalescing and growth on demand.
  \<open>hdrs\<close> is the memory seen as block headers: \<open>hdrs a\<close> is the header found at address \<open>a\<close>, for
  any \<open>a\<close>, so a stale header left behind by coalescing is still read by a second \<^verbatim>\<open>kfree\<close>, and a
  pointer is an address with 0 for \<^verbatim>\<open>nullptr\<close>. Addresses and sizes are \<open>nat\<close> below \<open>2 ^ 64\<close>; every
  addition, subtraction and product the code makes on them is reduced by \<open>w64\<close>. The list walks
  are \<open>partial_function (option)\<close>: on a cyclic list the loop does not end and the value is \<open>None\<close>.
  \<open>udata\<close> is the memory seen as bytes, of which only \<^verbatim>\<open>kcalloc\<close> writes any.
\<close>

record block =
  magic :: u32
  is_free :: bool
  bsize :: nat
  nxt :: nat

record heap =
  hdrs :: "nat \<Rightarrow> block"
  udata :: "nat \<Rightarrow> u8"
  head :: nat
  region :: nat
  committed :: nat
  hmax :: nat
  phys_base :: nat
  alloc_count :: nat
  alloc_bytes :: nat
  hpmm :: pmm

definition BLOCK_MAGIC :: u32 where "BLOCK_MAGIC = 0xCAFEB00C"
definition HEAP_INITIAL :: nat where "HEAP_INITIAL = 16 * 4096"
definition HEAP_MAX :: nat where "HEAP_MAX = 1024 * 4096"
definition HEAP_GROW :: nat where "HEAP_GROW = 16 * 4096"
definition HDR :: nat where "HDR = 24"
definition MIN_SPLIT :: nat where "MIN_SPLIT = 32"

definition w64 :: "nat \<Rightarrow> nat" where "w64 n = n mod 2 ^ 64"

lemma w64_small: "n < 2 ^ 64 \<Longrightarrow> w64 n = n"
  by (simp add: w64_def)

lemma w64_diff: "m \<le> n \<Longrightarrow> n < 2 ^ 64 \<Longrightarrow> w64 (n + 2 ^ 64 - m) = n - m"
proof -
  assume "m \<le> n" "n < 2 ^ 64"
  then have "n + 2 ^ 64 - m = (n - m) + 2 ^ 64" "n - m < 2 ^ 64" by simp_all
  then show ?thesis by (simp only: w64_def mod_add_self2 mod_less)
qed

lemma w64_lt: "w64 n < 2 ^ 64"
  by (simp add: w64_def)

definition align16 :: "nat \<Rightarrow> nat" where
  "align16 sz = w64 (sz + 15) div 16 * 16"

section \<open>The operations\<close>

datatype fit = Fit nat | NoFit | Corrupt

partial_function (option) find_fit :: "(nat \<Rightarrow> block) \<Rightarrow> nat \<Rightarrow> nat \<Rightarrow> fit option" where
  "find_fit h sz p =
     (if p = 0 then Some NoFit
      else if magic (h p) \<noteq> BLOCK_MAGIC then Some Corrupt
      else if is_free (h p) \<and> bsize (h p) \<ge> sz then Some (Fit p)
      else find_fit h sz (nxt (h p)))"

definition take_block :: "nat \<Rightarrow> nat \<Rightarrow> heap \<Rightarrow> heap" where
  "take_block sz a s =
     (let h = hdrs s;
          h1 = (if bsize (h a) \<ge> w64 (sz + HDR + MIN_SPLIT)
                then let r = w64 (a + HDR + sz);
                         h' = h(r := \<lparr>magic = BLOCK_MAGIC, is_free = True,
                                      bsize = w64 (bsize (h a) + 2 ^ 65 - (sz + HDR)), nxt = nxt (h a)\<rparr>)
                     in h'(a := (h' a)\<lparr>bsize := sz, nxt := r\<rparr>)
                else h);
          h2 = h1(a := (h1 a)\<lparr>is_free := False\<rparr>)
      in s\<lparr>hdrs := h2, alloc_count := w64 (alloc_count s + 1),
           alloc_bytes := w64 (alloc_bytes s + bsize (h2 a))\<rparr>)"

definition grow_amount :: "nat \<Rightarrow> heap \<Rightarrow> nat" where
  "grow_amount min_bytes s =
     (let need = w64 (min_bytes + HDR);
          g = (if HEAP_GROW < need then w64 (need + PAGE_SIZE - 1) div PAGE_SIZE * PAGE_SIZE else HEAP_GROW)
      in if w64 (committed s + g) > hmax s then w64 (hmax s + 2 ^ 64 - committed s) else g)"

partial_function (option) last_block :: "(nat \<Rightarrow> block) \<Rightarrow> nat \<Rightarrow> nat option" where
  "last_block h p = (if nxt (h p) = 0 then Some p else last_block h (nxt (h p)))"

definition heap_grow :: "nat \<Rightarrow> heap \<Rightarrow> (bool \<times> heap) option" where
  "heap_grow min_bytes s =
     (let grow = grow_amount min_bytes s
      in if grow < HDR + MIN_SPLIT then Some (False, s)
         else
           let (b, u) = reserve_pages (w64 (phys_base s + committed s) div PAGE_SIZE) (grow div PAGE_SIZE)
                          (bitmap (hpmm s), used (hpmm s));
               nb = w64 (region s + committed s);
               h1 = (hdrs s)(nb := \<lparr>magic = BLOCK_MAGIC, is_free = True, bsize = grow - HDR, nxt = 0\<rparr>)
           in case last_block h1 (head s) of
                None \<Rightarrow> None
              | Some l \<Rightarrow>
                  let h2 = h1(l := (h1 l)\<lparr>nxt := nb\<rparr>);
                      h3 = (if is_free (h2 l) \<and> w64 (l + HDR + bsize (h2 l)) = nb
                            then h2(l := (h2 l)\<lparr>bsize := w64 (bsize (h2 l) + (HDR + bsize (h2 nb))),
                                                nxt := nxt (h2 nb)\<rparr>)
                            else h2)
                  in Some (True, s\<lparr>hdrs := h3, committed := w64 (committed s + grow),
                                   hpmm := (hpmm s)\<lparr>bitmap := b, used := u\<rparr>\<rparr>))"

partial_function (option) kmalloc :: "nat \<Rightarrow> heap \<Rightarrow> (nat \<times> heap) option" where
  "kmalloc sz s =
     (if sz = 0 then Some (0, s)
      else let asz = align16 sz
      in case find_fit (hdrs s) asz (head s) of
           None \<Rightarrow> None
         | Some Corrupt \<Rightarrow> Some (0, s)
         | Some (Fit a) \<Rightarrow> Some (w64 (a + HDR), take_block asz a s)
         | Some NoFit \<Rightarrow>
             (case heap_grow asz s of
                None \<Rightarrow> None
              | Some (grown, s') \<Rightarrow> if grown then kmalloc asz s' else Some (0, s')))"

partial_function (option) find_prev :: "(nat \<Rightarrow> block) \<Rightarrow> nat \<Rightarrow> nat \<Rightarrow> nat \<Rightarrow> nat option" where
  "find_prev h b prev cur =
     (if cur \<noteq> 0 \<and> cur \<noteq> b then find_prev h b cur (nxt (h cur)) else Some prev)"

definition coalesce_next :: "nat \<Rightarrow> (nat \<Rightarrow> block) \<Rightarrow> nat \<Rightarrow> block" where
  "coalesce_next b h =
     (let n = nxt (h b)
      in if n \<noteq> 0 \<and> magic (h n) = BLOCK_MAGIC \<and> is_free (h n)
         then h(b := (h b)\<lparr>bsize := w64 (bsize (h b) + (HDR + bsize (h n))), nxt := nxt (h n)\<rparr>)
         else h)"

definition coalesce_prev :: "nat \<Rightarrow> nat \<Rightarrow> (nat \<Rightarrow> block) \<Rightarrow> nat \<Rightarrow> block" where
  "coalesce_prev p b h =
     (if p \<noteq> 0 \<and> magic (h p) = BLOCK_MAGIC \<and> is_free (h p) \<and> w64 (p + HDR + bsize (h p)) = b
      then h(p := (h p)\<lparr>bsize := w64 (bsize (h p) + (HDR + bsize (h b))), nxt := nxt (h b)\<rparr>)
      else h)"

definition kfree :: "nat \<Rightarrow> heap \<Rightarrow> heap option" where
  "kfree ptr s =
     (if ptr = 0 then Some s
      else let b = w64 (ptr + 2 ^ 64 - HDR); h = hdrs s
      in if magic (h b) \<noteq> BLOCK_MAGIC then Some s
         else if is_free (h b) then Some s
         else
           let h1 = h(b := (h b)\<lparr>is_free := True\<rparr>);
               h2 = coalesce_next b h1
           in case find_prev h2 b 0 (head s) of
                None \<Rightarrow> None
              | Some p \<Rightarrow>
                  Some (s\<lparr>hdrs := coalesce_prev p b h2,
                          alloc_count := w64 (alloc_count s + 2 ^ 64 - 1),
                          alloc_bytes := w64 (alloc_bytes s + 2 ^ 64 - bsize (h1 b))\<rparr>))"

definition kcalloc :: "nat \<Rightarrow> nat \<Rightarrow> heap \<Rightarrow> (nat \<times> heap) option" where
  "kcalloc count elem_size s =
     (let tot = w64 (count * elem_size)
      in case kmalloc tot s of
           None \<Rightarrow> None
         | Some (p, s') \<Rightarrow>
             Some (p, if p \<noteq> 0 then s'\<lparr>udata := (\<lambda>a. if p \<le> a \<and> a < p + tot then 0 else udata s' a)\<rparr>
                      else s'))"

partial_function (option) sum_free :: "(nat \<Rightarrow> block) \<Rightarrow> nat \<Rightarrow> nat \<Rightarrow> nat option" where
  "sum_free h acc p =
     (if p = 0 then Some acc
      else sum_free h (if is_free (h p) then w64 (acc + bsize (h p)) else acc) (nxt (h p)))"

partial_function (option) count_blocks :: "(nat \<Rightarrow> block) \<Rightarrow> nat \<Rightarrow> nat \<Rightarrow> nat option" where
  "count_blocks h acc p = (if p = 0 then Some acc else count_blocks h (w64 (acc + 1)) (nxt (h p)))"

partial_function (option) max_free :: "(nat \<Rightarrow> block) \<Rightarrow> nat \<Rightarrow> nat \<Rightarrow> nat option" where
  "max_free h acc p =
     (if p = 0 then Some acc
      else max_free h (if is_free (h p) \<and> bsize (h p) > acc then bsize (h p) else acc) (nxt (h p)))"

definition heap_free_bytes :: "heap \<Rightarrow> nat option" where
  "heap_free_bytes s = sum_free (hdrs s) 0 (head s)"

definition heap_block_count :: "heap \<Rightarrow> nat option" where
  "heap_block_count s = count_blocks (hdrs s) 0 (head s)"

definition heap_largest_free :: "heap \<Rightarrow> nat option" where
  "heap_largest_free s = max_free (hdrs s) 0 (head s)"

definition best_region :: "memmap_entry list \<Rightarrow> nat \<times> nat" where
  "best_region mm = fold (\<lambda>e (bb, bl). if kind e = MEMMAP_USABLE \<and> len e > bl then (base e, len e) else (bb, bl))
                      mm (0, 0)"

definition heap_init :: "memmap_entry list \<Rightarrow> nat \<Rightarrow> heap \<Rightarrow> bool \<times> heap" where
  "heap_init mm hhdm s =
     (let (bb, bl) = best_region mm
      in if bl < HEAP_INITIAL then (False, s)
         else
           let m = hpmm s;
               bm_end = w64 (bitmap_at m + length (bitmap m));
               hp = (if bb \<ge> bitmap_at m \<and> bb < bm_end
                     then w64 (bm_end + PAGE_SIZE - 1) div PAGE_SIZE * PAGE_SIZE else bb);
               remaining = w64 (bb + bl + 2 ^ 64 - hp);
               mx = (if remaining > HEAP_MAX then HEAP_MAX else remaining);
               r = w64 (hp + hhdm);
               (b, u) = reserve_pages (hp div PAGE_SIZE) (HEAP_INITIAL div PAGE_SIZE) (bitmap m, used m)
           in (True, s\<lparr>hdrs := (hdrs s)(r := \<lparr>magic = BLOCK_MAGIC, is_free = True,
                                               bsize = HEAP_INITIAL - HDR, nxt = 0\<rparr>),
                        head := r, region := r, committed := HEAP_INITIAL, hmax := mx, phys_base := hp,
                        alloc_count := 0, alloc_bytes := 0, hpmm := m\<lparr>bitmap := b, used := u\<rparr>\<rparr>))"

section \<open>The list of blocks the headers represent\<close>

type_synonym seg = "nat \<times> nat \<times> bool"

abbreviation blk :: "(nat \<Rightarrow> block) \<Rightarrow> nat \<Rightarrow> nat \<Rightarrow> bool \<Rightarrow> bool" where
  "blk h a n f \<equiv> a \<noteq> 0 \<and> magic (h a) = BLOCK_MAGIC \<and> bsize (h a) = n \<and> is_free (h a) = f"

fun lseg :: "(nat \<Rightarrow> block) \<Rightarrow> nat \<Rightarrow> seg list \<Rightarrow> nat \<Rightarrow> bool" where
  "lseg h p [] q \<longleftrightarrow> p = q"
| "lseg h p ((a, n, f) # bs) q \<longleftrightarrow> p = a \<and> blk h a n f \<and> lseg h (nxt (h a)) bs q"

fun tiled :: "nat \<Rightarrow> seg list \<Rightarrow> nat \<Rightarrow> bool" where
  "tiled lo [] hi \<longleftrightarrow> lo = hi"
| "tiled lo ((a, n, f) # bs) hi \<longleftrightarrow> a = lo \<and> tiled (a + HDR + n) bs hi"

abbreviation no_adj :: "seg list \<Rightarrow> bool" where
  "no_adj bs \<equiv> successively (\<lambda>x y. \<not> (snd (snd x) \<and> snd (snd y))) bs"

definition live_of :: "seg list \<Rightarrow> seg list" where
  "live_of bs = filter (\<lambda>(a, n, f). \<not> f) bs"

definition heap_rep :: "heap \<Rightarrow> seg list \<Rightarrow> bool" where
  "heap_rep s bs \<longleftrightarrow>
     bs \<noteq> [] \<and> lseg (hdrs s) (head s) bs 0 \<and> tiled (region s) bs (region s + committed s) \<and> no_adj bs \<and>
     0 < region s \<and> region s + hmax s < 2 ^ 64 \<and> hmax s \<le> HEAP_MAX \<and> committed s \<le> hmax s \<and>
     alloc_count s = length (live_of bs) \<and>
     alloc_bytes s = sum_list (map (\<lambda>(a, n, f). n) (live_of bs))"

lemma lseg_append: "lseg h p (xs @ ys) q \<longleftrightarrow> (\<exists>r. lseg h p xs r \<and> lseg h r ys q)"
  by (induction xs arbitrary: p) auto

lemma tiled_append: "tiled lo (xs @ ys) hi \<longleftrightarrow> (\<exists>m. tiled lo xs m \<and> tiled m ys hi)"
  by (induction xs arbitrary: lo) auto

lemma lseg_frame:
  "lseg h p bs q \<Longrightarrow> (\<And>a n f. (a, n, f) \<in> set bs \<Longrightarrow> h' a = h a) \<Longrightarrow> lseg h' p bs q"
proof (induction bs arbitrary: p)
  case (Cons b bs)
  obtain a n f where b: "b = (a, n, f)" by (cases b)
  have "h' a = h a" using Cons.prems(2) b by (metis list.set_intros(1))
  moreover have "lseg h' (nxt (h a)) bs q"
    using Cons.prems(1) b by (intro Cons.IH) (auto intro: Cons.prems(2))
  ultimately show ?case using Cons.prems(1) b by simp
qed simp

lemma tiled_le: "tiled lo bs hi \<Longrightarrow> lo \<le> hi"
  by (induction bs arbitrary: lo) fastforce+

lemma tiled_mem: "tiled lo bs hi \<Longrightarrow> (a, n, f) \<in> set bs \<Longrightarrow> lo \<le> a \<and> a + HDR + n \<le> hi"
proof (induction bs arbitrary: lo)
  case (Cons b bs)
  obtain a' n' f' where b: "b = (a', n', f')" by (cases b)
  with Cons.prems have t: "a' = lo" "tiled (lo + HDR + n') bs hi" by auto
  from Cons.IH [OF t(2)] Cons.prems(2) b t(1) tiled_le [OF t(2)] show ?case by fastforce
qed simp

lemma HDR_pos [simp]: "0 < HDR" "HDR \<noteq> 0"
  by (simp_all add: HDR_def)

section \<open>Walks\<close>

abbreviation no_fit :: "nat \<Rightarrow> seg list \<Rightarrow> bool" where
  "no_fit sz bs \<equiv> (\<forall>(a, n, f)\<in>set bs. \<not> (f \<and> sz \<le> n))"

lemma find_fit_hit:
  "lseg h p (xs @ (a, n, True) # ys) 0 \<Longrightarrow> sz \<le> n \<Longrightarrow> no_fit sz xs \<Longrightarrow> find_fit h sz p = Some (Fit a)"
proof (induction xs arbitrary: p)
  case Nil
  then show ?case by (subst find_fit.simps) auto
next
  case (Cons x xs)
  obtain a' n' f' where "x = (a', n', f')" by (cases x)
  with Cons show ?case by (subst find_fit.simps) auto
qed

lemma find_fit_miss: "lseg h p bs 0 \<Longrightarrow> no_fit sz bs \<Longrightarrow> find_fit h sz p = Some NoFit"
proof (induction bs arbitrary: p)
  case Nil
  then show ?case by (subst find_fit.simps) auto
next
  case (Cons x xs)
  obtain a' n' f' where "x = (a', n', f')" by (cases x)
  with Cons show ?case by (subst find_fit.simps) auto
qed

lemma last_block_lseg: "lseg h p (xs @ [(a, n, f)]) 0 \<Longrightarrow> last_block h p = Some a"
proof (induction xs arbitrary: p)
  case Nil
  then show ?case by (subst last_block.simps) auto
next
  case (Cons x xs)
  obtain a' n' f' where x: "x = (a', n', f')" by (cases x)
  with Cons.prems have "nxt (h a') \<noteq> 0" by (cases xs) (auto simp: lseg_append)
  with Cons x show ?case by (subst last_block.simps) auto
qed

lemma find_prev_lseg:
  "lseg h p (xs @ (a, n, f) # ys) 0 \<Longrightarrow> (\<And>x. x \<in> set xs \<Longrightarrow> fst x \<noteq> a) \<Longrightarrow>
   find_prev h a q p = Some (if xs = [] then q else fst (last xs))"
proof (induction xs arbitrary: p q)
  case Nil
  then show ?case by (subst find_prev.simps) auto
next
  case (Cons x xs)
  obtain a' n' f' where x: "x = (a', n', f')" by (cases x)
  have "a' \<noteq> a" using Cons.prems(2) [of x] x by simp
  moreover from Cons.prems x have "a' \<noteq> 0" "p = a'" "lseg h (nxt (h a')) (xs @ (a, n, f) # ys) 0" by auto
  ultimately show ?case using Cons.IH [of "nxt (h a')" a'] Cons.prems(2) x by (subst find_prev.simps) auto
qed

lemma sum_free_lseg:
  "lseg h p bs 0 \<Longrightarrow> acc + sum_list (map (\<lambda>(a, n, f). if f then n else 0) bs) < 2 ^ 64 \<Longrightarrow>
   sum_free h acc p = Some (acc + sum_list (map (\<lambda>(a, n, f). if f then n else 0) bs))"
proof (induction bs arbitrary: p acc)
  case Nil
  then show ?case by (subst sum_free.simps) auto
next
  case (Cons x xs)
  obtain a' n' f' where "x = (a', n', f')" by (cases x)
  with Cons show ?case by (subst sum_free.simps) (auto simp: add.assoc w64_small)
qed

lemma count_blocks_lseg:
  "lseg h p bs 0 \<Longrightarrow> acc + length bs < 2 ^ 64 \<Longrightarrow> count_blocks h acc p = Some (acc + length bs)"
proof (induction bs arbitrary: p acc)
  case Nil
  then show ?case by (subst count_blocks.simps) auto
next
  case (Cons x xs)
  obtain a' n' f' where "x = (a', n', f')" by (cases x)
  with Cons show ?case by (subst count_blocks.simps) (auto simp: w64_small)
qed

lemma max_free_lseg:
  "lseg h p bs 0 \<Longrightarrow> max_free h acc p = Some (fold (\<lambda>(a, n, f) m. if f then max m n else m) bs acc)"
proof (induction bs arbitrary: p acc)
  case Nil
  then show ?case by (subst max_free.simps) auto
next
  case (Cons x xs)
  obtain a' n' f' where "x = (a', n', f')" by (cases x)
  with Cons show ?case by (subst max_free.simps) (auto simp: max_def)
qed

lemma tiled_fst_neq:
  assumes "tiled lo (xs @ (a, n, f) # ys) hi"
  shows "\<And>b m g. (b, m, g) \<in> set xs \<Longrightarrow> b + HDR + m \<le> a" "\<And>b m g. (b, m, g) \<in> set ys \<Longrightarrow> a + HDR + n \<le> b"
proof -
  from assms have t: "tiled lo xs a" "tiled (a + HDR + n) ys hi" by (auto simp: tiled_append)
  show "\<And>b m g. (b, m, g) \<in> set xs \<Longrightarrow> b + HDR + m \<le> a" using tiled_mem [OF t(1)] by blast
  show "\<And>b m g. (b, m, g) \<in> set ys \<Longrightarrow> a + HDR + n \<le> b" using tiled_mem [OF t(2)] by blast
qed

lemma tiled_sum: "tiled lo bs hi \<Longrightarrow> lo + HDR * length bs + sum_list (map (\<lambda>(a, n, f). n) bs) = hi"
proof (induction bs arbitrary: lo)
  case (Cons x xs)
  obtain a n f where "x = (a, n, f)" by (cases x)
  with Cons.prems Cons.IH [of "lo + HDR + n"] show ?case by (auto simp: algebra_simps)
qed simp

lemma live_sums:
  "sum_list (map (\<lambda>(a, n, f). n) (live_of bs)) + sum_list (map (\<lambda>(a, n, f). if f then n else 0) bs)
   = sum_list (map (\<lambda>(a, n, f). n) bs)"
  by (induction bs) (auto simp: live_of_def)

lemma live_append [simp]: "live_of (xs @ ys) = live_of xs @ live_of ys"
  and live_Cons [simp]: "live_of ((a, n, f) # ys) = (if f then live_of ys else (a, n, f) # live_of ys)"
  and live_Nil [simp]: "live_of [] = []"
  by (simp_all add: live_of_def)

lemma heap_rep_bounds:
  assumes "heap_rep s bs"
  shows "HDR * length bs + sum_list (map (\<lambda>(a, n, f). n) bs) = committed s"
    and "length (live_of bs) \<le> length bs" "alloc_bytes s \<le> committed s" "committed s \<le> HEAP_MAX"
    and "alloc_count s < 2 ^ 63" "alloc_bytes s < 2 ^ 63"
proof -
  show 1: "HDR * length bs + sum_list (map (\<lambda>(a, n, f). n) bs) = committed s"
    using tiled_sum [of "region s" bs "region s + committed s"] assms by (simp add: heap_rep_def)
  show 2: "length (live_of bs) \<le> length bs" by (simp add: live_of_def)
  show 3: "alloc_bytes s \<le> committed s" using assms 1 live_sums [of bs] by (simp add: heap_rep_def)
  show 4: "committed s \<le> HEAP_MAX" using assms by (simp add: heap_rep_def)
  have "alloc_count s \<le> HEAP_MAX" using assms 1 2 4 by (simp add: heap_rep_def HDR_def)
  then show "alloc_count s < 2 ^ 63" by (simp add: HEAP_MAX_def)
  show "alloc_bytes s < 2 ^ 63" using 3 4 by (simp add: HEAP_MAX_def)
qed

lemma heap_rep_split:
  assumes "heap_rep s (xs @ (a, n, f) # ys)"
  shows "lseg (hdrs s) (head s) xs a" "blk (hdrs s) a n f" "lseg (hdrs s) (nxt (hdrs s a)) ys 0"
    "tiled (region s) xs a" "tiled (a + HDR + n) ys (region s + committed s)"
    "region s \<le> a" "a + HDR + n \<le> region s + committed s" "a + HDR + n < 2 ^ 64" "n < HEAP_MAX"
proof -
  from assms show 1: "lseg (hdrs s) (head s) xs a" "blk (hdrs s) a n f" "lseg (hdrs s) (nxt (hdrs s a)) ys 0"
    "tiled (region s) xs a" "tiled (a + HDR + n) ys (region s + committed s)"
    by (auto simp: heap_rep_def lseg_append tiled_append)
  from assms have c: "committed s \<le> hmax s" "hmax s \<le> HEAP_MAX" "region s + hmax s < 2 ^ 64"
    by (auto simp: heap_rep_def)
  show 2: "region s \<le> a" "a + HDR + n \<le> region s + committed s"
    using tiled_le [OF 1(4)] tiled_le [OF 1(5)] by auto
  show "a + HDR + n < 2 ^ 64" using 2(2) c by linarith
  show "n < HEAP_MAX" using 2 c HDR_pos by linarith
qed

section \<open>Allocation\<close>

definition carve :: "nat \<Rightarrow> nat \<Rightarrow> nat \<Rightarrow> seg list" where
  "carve sz a n = (if n \<ge> sz + HDR + MIN_SPLIT then [(a, sz, False), (a + HDR + sz, n - sz - HDR, True)]
                   else [(a, n, False)])"

lemma take_block_split:
  assumes "sz + HDR + MIN_SPLIT \<le> bsize (hdrs s a)" "a + HDR + bsize (hdrs s a) < 2 ^ 64"
    "magic (hdrs s a) = BLOCK_MAGIC"
  shows "take_block sz a s = s\<lparr>hdrs := (hdrs s)
      (a + HDR + sz := \<lparr>magic = BLOCK_MAGIC, is_free = True, bsize = bsize (hdrs s a) - sz - HDR, nxt = nxt (hdrs s a)\<rparr>,
       a := \<lparr>magic = BLOCK_MAGIC, is_free = False, bsize = sz, nxt = a + HDR + sz\<rparr>),
      alloc_count := w64 (alloc_count s + 1), alloc_bytes := w64 (alloc_bytes s + sz)\<rparr>"
proof -
  have w: "w64 (sz + HDR + MIN_SPLIT) = sz + HDR + MIN_SPLIT" "w64 (a + HDR + sz) = a + HDR + sz"
    using assms by (auto intro!: w64_small)
  have "bsize (hdrs s a) + 2 ^ 65 - (sz + HDR) = (bsize (hdrs s a) - (sz + HDR)) + 2 ^ 64 * 2"
    using assms(1) by simp
  moreover have "bsize (hdrs s a) - (sz + HDR) < 2 ^ 64" using assms(2) by simp
  ultimately have b: "w64 (bsize (hdrs s a) + 2 ^ 65 - (sz + HDR)) = bsize (hdrs s a) - (sz + HDR)"
    unfolding w64_def by (metis mod_mult_self2 mod_less)
  have e: "(hdrs s a)\<lparr>bsize := sz, nxt := r, is_free := False\<rparr>
           = \<lparr>magic = BLOCK_MAGIC, is_free = False, bsize = sz, nxt = r\<rparr>" for r
    using assms(3) by (cases "hdrs s a") simp
  show ?thesis
    using assms(1,3) unfolding take_block_def Let_def w b by (simp add: e)
qed

lemma take_block_whole:
  assumes "\<not> sz + HDR + MIN_SPLIT \<le> bsize (hdrs s a)" "sz + HDR + MIN_SPLIT < 2 ^ 64"
  shows "take_block sz a s = s\<lparr>hdrs := (hdrs s)(a := (hdrs s a)\<lparr>is_free := False\<rparr>),
      alloc_count := w64 (alloc_count s + 1), alloc_bytes := w64 (alloc_bytes s + bsize (hdrs s a))\<rparr>"
  using assms(1) by (simp add: take_block_def Let_def w64_small [OF assms(2)])

lemma take_block_rep:
  assumes rep: "heap_rep s (xs @ (a, n, True) # ys)" and sz: "sz \<le> n"
  shows "heap_rep (take_block sz a s) (xs @ carve sz a n @ ys)"
proof -
  note b = heap_rep_split [OF rep]
  note c = heap_rep_bounds [OF rep]
  have cnt: "w64 (Suc (alloc_count s)) = Suc (alloc_count s)" using c(5) by (intro w64_small) simp
  have xs: "x \<noteq> a" "x \<noteq> a + HDR + sz" if "(x, m, g) \<in> set xs" for x m g
    using tiled_mem [OF b(4) that] HDR_pos by linarith+
  have na: "no_adj xs" "no_adj ys" "ys \<noteq> [] \<Longrightarrow> \<not> snd (snd (hd ys))"
    using rep by (cases ys; auto simp: heap_rep_def successively_append_iff)+
  show ?thesis
  proof (cases "sz + HDR + MIN_SPLIT \<le> n")
    case True
    then have ys: "x \<noteq> a" "x \<noteq> a + HDR + sz" if "(x, m, g) \<in> set ys" for x m g
      using tiled_mem [OF b(5) that] HDR_pos unfolding MIN_SPLIT_def by linarith+
    have byt: "w64 (alloc_bytes s + sz) = alloc_bytes s + sz"
      using c(6) b(9) sz by (intro w64_small) (simp add: HEAP_MAX_def)
    let ?h = "(hdrs s)(a + HDR + sz := \<lparr>magic = BLOCK_MAGIC, is_free = True, bsize = n - sz - HDR, nxt = nxt (hdrs s a)\<rparr>,
       a := \<lparr>magic = BLOCK_MAGIC, is_free = False, bsize = sz, nxt = a + HDR + sz\<rparr>)"
    have t: "take_block sz a s = s\<lparr>hdrs := ?h, alloc_count := alloc_count s + 1, alloc_bytes := alloc_bytes s + sz\<rparr>"
      using take_block_split [of sz s a] True b(2,8) by (simp add: cnt byt)
    have "lseg ?h (head s) xs a" using b(1) by (rule lseg_frame) (use xs in auto)
    moreover have "lseg ?h (nxt (hdrs s a)) ys 0" using b(3) by (rule lseg_frame) (use ys in auto)
    moreover have "a + HDR + sz + HDR + (n - sz - HDR) = a + HDR + n" using True by simp
    then have "tiled (a + HDR + sz + HDR + (n - sz - HDR)) ys (region s + committed s)"
      using b(5) by (simp only:)
    ultimately show ?thesis
      using rep b(2,4) True na unfolding t
      by (auto simp: heap_rep_def carve_def lseg_append tiled_append successively_append_iff
          successively_Cons split: list.splits)
  next
    case False
    have ys: "x \<noteq> a" if "(x, m, g) \<in> set ys" for x m g
      using tiled_mem [OF b(5) that] HDR_pos by linarith
    have byt: "w64 (alloc_bytes s + n) = alloc_bytes s + n"
      using c(6) b(9) by (intro w64_small) (simp add: HEAP_MAX_def)
    let ?h = "(hdrs s)(a := (hdrs s a)\<lparr>is_free := False\<rparr>)"
    have "sz + HDR + MIN_SPLIT < 2 ^ 64" using sz b(9) by (simp add: HEAP_MAX_def HDR_def MIN_SPLIT_def)
    then have t: "take_block sz a s = s\<lparr>hdrs := ?h, alloc_count := alloc_count s + 1, alloc_bytes := alloc_bytes s + n\<rparr>"
      using take_block_whole [of sz s a] False b(2) by (simp add: cnt byt)
    have "lseg ?h (head s) xs a" using b(1) by (rule lseg_frame) (use xs in auto)
    moreover have "lseg ?h (nxt (hdrs s a)) ys 0" using b(3) by (rule lseg_frame) (use ys in auto)
    ultimately show ?thesis
      using rep b(2,4,5) False na unfolding t
      by (auto simp: heap_rep_def carve_def lseg_append tiled_append successively_append_iff
          successively_Cons split: list.splits)
  qed
qed

section \<open>Growth\<close>

lemma grow_amount_eq:
  assumes "heap_rep s bs" "sz \<le> 2 ^ 63"
  obtains g where "HEAP_GROW \<le> g"
    "grow_amount sz s = (if committed s + g > hmax s then hmax s - committed s else g)"
proof -
  have c: "committed s \<le> hmax s" "hmax s \<le> HEAP_MAX" using assms(1) by (auto simp: heap_rep_def)
  define need where "need = sz + HDR"
  have n: "w64 (sz + HDR) = need" "need \<le> 2 ^ 63 + 24"
    using assms(2) by (auto simp: need_def HDR_def w64_small)
  have r: "w64 (need + PAGE_SIZE - 1) = need + PAGE_SIZE - 1"
    using n(2) by (intro w64_small) (simp add: PAGE_SIZE_def)
  define g where "g = (if HEAP_GROW < need then (need + PAGE_SIZE - 1) div PAGE_SIZE * PAGE_SIZE else HEAP_GROW)"
  have "(need + PAGE_SIZE - 1) div PAGE_SIZE * PAGE_SIZE \<le> need + PAGE_SIZE - 1" by (rule div_times_less_eq_dividend)
  then have "g \<le> 2 ^ 63 + 65536" using n(2) by (auto simp: g_def HEAP_GROW_def PAGE_SIZE_def)
  then have "committed s + g < 2 ^ 64" using c by (simp add: HEAP_MAX_def)
  then have "w64 (committed s + g) = committed s + g" by (rule w64_small)
  moreover have "w64 (hmax s + 2 ^ 64 - committed s) = hmax s - committed s"
    using c by (intro w64_diff) (auto simp: HEAP_MAX_def)
  ultimately have "grow_amount sz s = (if committed s + g > hmax s then hmax s - committed s else g)"
    unfolding grow_amount_def Let_def n(1) r by (simp add: g_def)
  moreover have "need \<le> (need + PAGE_SIZE - 1) div PAGE_SIZE * PAGE_SIZE" unfolding PAGE_SIZE_def by linarith
  then have "HEAP_GROW \<le> g" by (auto simp: g_def)
  ultimately show ?thesis by (intro that)
qed

lemma grow_amount_le: "heap_rep s bs \<Longrightarrow> sz \<le> 2 ^ 63 \<Longrightarrow> committed s + grow_amount sz s \<le> hmax s"
  by (rule grow_amount_eq, assumption+) (auto simp: heap_rep_def)

lemma grow_small:
  assumes "heap_rep s bs" "sz \<le> 2 ^ 63" "grow_amount sz s < HDR + MIN_SPLIT"
  shows "hmax s < committed s + HDR + MIN_SPLIT"
  using assms(1,2)
proof (rule grow_amount_eq)
  fix g
  assume "HEAP_GROW \<le> g" "grow_amount sz s = (if committed s + g > hmax s then hmax s - committed s else g)"
  with assms(3) show ?thesis by (auto simp: HDR_def MIN_SPLIT_def HEAP_GROW_def split: if_splits)
qed

lemma heap_grow_rep:
  assumes rep: "heap_rep s bs" and sz: "sz \<le> 2 ^ 63"
  obtains (no) "heap_grow sz s = Some (False, s)" "grow_amount sz s < HDR + MIN_SPLIT"
  | (yes) s' bs' where "heap_grow sz s = Some (True, s')" "heap_rep s' bs'" "live_of bs' = live_of bs"
      "committed s' = committed s + grow_amount sz s" "hmax s' = hmax s" "HDR + MIN_SPLIT \<le> grow_amount sz s"
      "udata s' = udata s"
      "\<exists>a n. (a, n, True) \<in> set bs' \<and> grow_amount sz s \<le> n + HDR"
proof (cases "grow_amount sz s < HDR + MIN_SPLIT")
  case True
  then show ?thesis by (intro no) (simp_all add: heap_grow_def)
next
  case False
  define g where "g = grow_amount sz s"
  have g: "HDR + MIN_SPLIT \<le> g" "committed s + g \<le> hmax s"
    using False grow_amount_le [OF rep sz] by (simp_all add: g_def)
  have c: "region s + hmax s < 2 ^ 64" "0 < region s" using rep by (auto simp: heap_rep_def)
  define nb where "nb = region s + committed s"
  have nb: "w64 (region s + committed s) = nb" "w64 (committed s + g) = committed s + g"
    using g c by (auto simp: nb_def intro!: w64_small)
  obtain xs l n f where bs: "bs = xs @ [(l, n, f)]"
    using rep by (metis heap_rep_def rev_exhaust surj_pair)
  note b = heap_rep_split [of s xs l n f "[]", folded bs, OF rep]
  have end_l: "l + HDR + n = nb" using b(5) by (simp add: nb_def)
  have nx: "nxt (hdrs s l) = 0" using b(3) by simp
  have xs: "x < l" if "(x, m, k) \<in> set xs" for x m k using tiled_mem [OF b(4) that] HDR_pos by linarith
  have l: "l < nb" using end_l HDR_pos by linarith
  define h1 where "h1 = (hdrs s)(nb := \<lparr>magic = BLOCK_MAGIC, is_free = True, bsize = g - HDR, nxt = 0\<rparr>)"
  have xs1: "lseg h (head s) xs l" if "\<And>x. x < l \<Longrightarrow> h x = hdrs s x" for h
    using b(1) by (rule lseg_frame) (simp add: that xs)
  have "lseg h1 (head s) bs 0"
    using xs1 [of h1] b(2) l nx by (auto simp: bs lseg_append h1_def)
  then have last: "last_block h1 (head s) = Some l" unfolding bs by (rule last_block_lseg)
  have w: "w64 (l + HDR + n) = nb" "w64 (n + g) = n + g"
    using end_l g c b(8) by (auto simp: nb_def intro!: w64_small)
  obtain bm u where bu: "reserve_pages (w64 (phys_base s + committed s) div PAGE_SIZE) (g div PAGE_SIZE)
      (bitmap (hpmm s), used (hpmm s)) = (bm, u)" by fastforce
  define h3 where "h3 = (if f then h1(l := (hdrs s l)\<lparr>bsize := n + g, nxt := 0\<rparr>) else h1(l := (hdrs s l)\<lparr>nxt := nb\<rparr>))"
  define s' where "s' = s\<lparr>hdrs := h3, committed := committed s + g, hpmm := (hpmm s)\<lparr>bitmap := bm, used := u\<rparr>\<rparr>"
  have run: "heap_grow sz s = Some (True, s')"
    using False last b(2) l nx bu unfolding heap_grow_def g_def [symmetric] nb h1_def [symmetric]
    by (auto simp: Let_def s'_def h3_def h1_def nb w)
  define bs' where "bs' = (if f then xs @ [(l, n + g, True)] else xs @ [(l, n, False), (nb, g - HDR, True)])"
  have "lseg h3 (head s) xs l" by (rule xs1) (use l in \<open>auto simp: h3_def h1_def\<close>)
  then have "heap_rep s' bs'"
    using rep b(2,4) end_l g c l unfolding heap_rep_def
    by (auto simp: s'_def bs'_def h3_def h1_def bs lseg_append tiled_append successively_append_iff nb_def)
  moreover have "live_of bs' = live_of bs" by (simp add: bs'_def bs)
  moreover have "\<exists>a n. (a, n, True) \<in> set bs' \<and> g \<le> n + HDR"
  proof (cases f)
    case True
    then show ?thesis by (intro exI [of _ l] exI [of _ "n + g"]) (simp add: bs'_def)
  next
    case False
    then show ?thesis using g(1) by (intro exI [of _ nb] exI [of _ "g - HDR"]) (simp add: bs'_def)
  qed
  ultimately show ?thesis
    using run g by (intro yes [of s' bs']) (simp_all add: s'_def g_def)
qed

section \<open>kmalloc\<close>

lemma kmalloc_hit:
  assumes rep: "heap_rep s (xs @ (a, n, True) # ys)" and "sz \<noteq> 0" "align16 sz \<le> n" "no_fit (align16 sz) xs"
  shows "kmalloc sz s = Some (a + HDR, take_block (align16 sz) a s)"
    and "heap_rep (take_block (align16 sz) a s) (xs @ carve (align16 sz) a n @ ys)"
proof -
  have "find_fit (hdrs s) (align16 sz) (head s) = Some (Fit a)"
    using rep assms(3,4) by (intro find_fit_hit) (auto simp: heap_rep_def)
  moreover have "w64 (a + HDR) = a + HDR" using heap_rep_split(8) [OF rep] by (intro w64_small) simp
  ultimately show "kmalloc sz s = Some (a + HDR, take_block (align16 sz) a s)"
    using assms(2) by (subst kmalloc.simps) (simp add: Let_def)
  show "heap_rep (take_block (align16 sz) a s) (xs @ carve (align16 sz) a n @ ys)"
    using rep assms(3) by (rule take_block_rep)
qed

lemma align16_small: "sz \<le> 2 ^ 63 \<Longrightarrow> align16 sz = (sz + 15) div 16 * 16"
  by (simp add: align16_def w64_small)

lemma align16_props:
  assumes "sz \<le> 2 ^ 63"
  shows "sz \<le> align16 sz" "align16 sz \<le> 2 ^ 63" "align16 (align16 sz) = align16 sz"
    "sz \<noteq> 0 \<Longrightarrow> align16 sz \<noteq> 0" "16 dvd align16 sz"
proof -
  note a = align16_small [OF assms]
  show 1: "sz \<le> align16 sz" unfolding a by linarith
  have "(sz + 15) div 16 \<le> (2 ^ 63 + 15) div 16" using assms by (intro div_le_mono) simp
  then show 2: "align16 sz \<le> 2 ^ 63" unfolding a by simp
  have "((sz + 15) div 16 * 16 + 15) div 16 = (sz + 15) div 16" by linarith
  then show "align16 (align16 sz) = align16 sz"
    using align16_small [OF 2] unfolding a by (simp only:)
  show "sz \<noteq> 0 \<Longrightarrow> align16 sz \<noteq> 0" using 1 by simp
  show "16 dvd align16 sz" unfolding a by simp
qed

lemma live_carve: "sz \<le> n \<Longrightarrow> \<exists>m\<ge>sz. live_of (carve sz a n) = [(a, m, False)]"
  by (auto simp: carve_def)

lemma first_fit_split:
  assumes "\<not> no_fit sz bs"
  obtains xs a n ys where "bs = xs @ (a, n, True) # ys" "sz \<le> n" "no_fit sz xs"
proof -
  from assms have "\<exists>x\<in>set bs. (case x of (a, n, f) \<Rightarrow> f \<and> sz \<le> n)" by auto
  from split_list_first_prop [OF this] obtain xs x ys where
    "bs = xs @ x # ys" "case x of (a, n, f) \<Rightarrow> f \<and> sz \<le> n" "\<forall>y\<in>set xs. \<not> (case y of (a, n, f) \<Rightarrow> f \<and> sz \<le> n)"
    by blast
  then show ?thesis by (cases x) (auto intro: that)
qed

lemma kmalloc_run:
  assumes "heap_rep s bs" "sz \<noteq> 0" "sz \<le> 2 ^ 63"
  shows "\<exists>p s' bs'. kmalloc sz s = Some (p, s') \<and> heap_rep s' bs' \<and>
           (if p = 0 then live_of bs' = live_of bs \<and> no_fit (align16 sz) bs' \<and> hmax s' < committed s' + HDR + MIN_SPLIT
            else \<exists>a m xs ys. p = a + HDR \<and> sz \<le> m \<and> live_of bs = xs @ ys \<and>
                   live_of bs' = xs @ (a, m, False) # ys)"
  using assms
proof (induction "hmax s - committed s" arbitrary: s bs sz rule: less_induct)
  case less
  note al = align16_props [OF less.prems(3)]
  show ?case
  proof (cases "no_fit (align16 sz) bs")
    case False
    then obtain xs a n ys where bs: "bs = xs @ (a, n, True) # ys" "align16 sz \<le> n" "no_fit (align16 sz) xs"
      by (rule first_fit_split)
    have rep: "heap_rep s (xs @ (a, n, True) # ys)" using less.prems(1) bs(1) by simp
    obtain m where "align16 sz \<le> m" "live_of (carve (align16 sz) a n) = [(a, m, False)]"
      using live_carve [OF bs(2)] by blast
    moreover have "a + HDR \<noteq> 0" by simp
    ultimately show ?thesis
      using kmalloc_hit [OF rep less.prems(2) bs(2,3)] al(1) bs(1)
      by (intro exI [of _ "a + HDR"] exI [of _ "take_block (align16 sz) a s"]
          exI [of _ "xs @ carve (align16 sz) a n @ ys"]) (auto intro: order_trans)
  next
    case True
    then have miss: "find_fit (hdrs s) (align16 sz) (head s) = Some NoFit"
      using less.prems(1) by (intro find_fit_miss) (auto simp: heap_rep_def)
    from less.prems(1) al(2) show ?thesis
    proof (cases rule: heap_grow_rep)
      case no
      then have "kmalloc sz s = Some (0, s)"
        using less.prems(2) miss by (subst kmalloc.simps) (simp add: Let_def)
      then show ?thesis using less.prems(1) grow_small [OF less.prems(1) al(2) no(2)] True
        by (intro exI [of _ 0] exI [of _ s] exI [of _ bs]) simp
    next
      case (yes s1 bs1)
      have run: "kmalloc sz s = kmalloc (align16 sz) s1"
        using less.prems(2) miss yes(1) by (subst kmalloc.simps) (simp add: Let_def)
      have "hmax s1 - committed s1 < hmax s - committed s"
        using yes(2,4,5,6) unfolding heap_rep_def MIN_SPLIT_def by linarith
      from less.hyps [OF this yes(2) al(4) [OF less.prems(2)] al(2)] obtain p s' bs' where
        k: "kmalloc sz s = Some (p, s')" "heap_rep s' bs'" and
        c: "if p = 0 then live_of bs' = live_of bs1 \<and> no_fit (align16 (align16 sz)) bs' \<and>
              hmax s' < committed s' + HDR + MIN_SPLIT
            else \<exists>a m xs ys. p = a + HDR \<and> align16 sz \<le> m \<and> live_of bs1 = xs @ ys \<and>
                   live_of bs' = xs @ (a, m, False) # ys"
        unfolding run by blast
      show ?thesis
      proof (cases "p = 0")
        case True
        with k c show ?thesis by (simp add: yes(3) al(3)) blast
      next
        case False
        with c obtain a m xs ys where "p = a + HDR" "align16 sz \<le> m" "live_of bs = xs @ ys"
            "live_of bs' = xs @ (a, m, False) # ys" by (auto simp: yes(3))
        with k False al(1) show ?thesis by (metis order_trans)
      qed
    qed
  qed
qed

section \<open>kfree\<close>

definition absorb :: "nat \<Rightarrow> seg list \<Rightarrow> nat \<times> seg list" where
  "absorb n ys = (case ys of (b, m, True) # zs \<Rightarrow> (n + HDR + m, zs) | _ \<Rightarrow> (n, ys))"

definition join :: "seg list \<Rightarrow> nat \<Rightarrow> nat \<Rightarrow> seg list \<Rightarrow> seg list" where
  "join xs a n ys =
     (if xs \<noteq> [] \<and> snd (snd (last xs))
      then butlast xs @ (fst (last xs), fst (snd (last xs)) + HDR + n, True) # ys
      else xs @ (a, n, True) # ys)"

definition release :: "seg list \<Rightarrow> nat \<Rightarrow> nat \<Rightarrow> seg list \<Rightarrow> seg list" where
  "release xs a n ys = (case absorb n ys of (n', ys') \<Rightarrow> join xs a n' ys')"

lemma absorb_cases:
  obtains (merge) b m zs where "ys = (b, m, True) # zs" "absorb n ys = (n + HDR + m, zs)"
  | (keep) "absorb n ys = (n, ys)" "ys \<noteq> [] \<Longrightarrow> \<not> snd (snd (hd ys))"
  by (cases ys; cases "snd (snd (hd ys))") (auto simp: absorb_def)

lemma join_cases:
  obtains (merge) zs p k where "xs = zs @ [(p, k, True)]" "join xs a n ys = zs @ (p, k + HDR + n, True) # ys"
  | (keep) "join xs a n ys = xs @ (a, n, True) # ys" "xs \<noteq> [] \<Longrightarrow> \<not> snd (snd (last xs))"
  by (cases xs rule: rev_cases; cases "snd (snd (last xs))") (auto simp: join_def)

lemma live_join: "live_of (join xs a n ys) = live_of xs @ live_of ys"
  by (cases rule: join_cases [of xs a n ys]) auto

lemma live_absorb: "absorb n ys = (n', ys') \<Longrightarrow> live_of ys' = live_of ys"
  by (cases rule: absorb_cases [of ys n]) auto

lemma live_release: "live_of (release xs a n ys) = live_of xs @ live_of ys"
  by (cases "absorb n ys") (simp add: release_def live_join live_absorb)

lemma coalesce_next_rep:
  assumes l: "lseg h p (xs @ (a, n, True) # ys) 0" and t: "tiled lo (xs @ (a, n, True) # ys) hi" "hi < 2 ^ 64"
    and ab: "absorb n ys = (n', ys')"
  shows "lseg (coalesce_next a h) p (xs @ (a, n', True) # ys') 0 \<and> tiled lo (xs @ (a, n', True) # ys') hi"
proof (cases rule: absorb_cases [of ys n])
  case (merge b m zs)
  have ys: "n' = n + HDR + m" "ys' = zs" using merge ab by auto
  have b: "lseg h p xs a" "blk h a n True" "nxt (h a) = b" "blk h b m True" "lseg h (nxt (h b)) zs 0"
    using l merge by (auto simp: lseg_append)
  have tt: "tiled lo xs a" "b = a + HDR + n" "tiled (b + HDR + m) zs hi" using t merge by (auto simp: tiled_append)
  have "n + (HDR + m) \<le> hi" using tiled_le [OF tt(3)] tt(2) by linarith
  then have w: "w64 (n + (HDR + m)) = n + (HDR + m)" using t(2) by (intro w64_small) simp
  let ?h = "h(a := (h a)\<lparr>bsize := n + (HDR + m), nxt := nxt (h b)\<rparr>)"
  have c: "coalesce_next a h = ?h" using b by (simp add: coalesce_next_def Let_def w)
  have "lseg ?h p xs a"
    using b(1) by (rule lseg_frame) (use tiled_mem [OF tt(1)] HDR_pos in force)
  moreover have "lseg ?h (nxt (h b)) zs 0"
    using b(5) by (rule lseg_frame) (use tiled_mem [OF tt(3)] HDR_pos tt(2) in force)
  ultimately show ?thesis
    using b tt unfolding c ys by (auto simp: lseg_append tiled_append ac_simps)
next
  case keep
  then have e: "n' = n" "ys' = ys" using ab by auto
  have "\<not> (nxt (h a) \<noteq> 0 \<and> is_free (h (nxt (h a))))"
    using l keep(2) by (cases ys) (auto simp: lseg_append)
  then have "coalesce_next a h = h" by (auto simp: coalesce_next_def Let_def)
  with l t e show ?thesis by simp
qed

lemma coalesce_prev_rep:
  assumes l: "lseg h p (xs @ (a, n, True) # ys) 0" and t: "tiled lo (xs @ (a, n, True) # ys) hi" "hi < 2 ^ 64"
    and q: "q = (if xs = [] then 0 else fst (last xs))"
  shows "lseg (coalesce_prev q a h) p (join xs a n ys) 0 \<and> tiled lo (join xs a n ys) hi"
proof (cases rule: join_cases [of xs a n ys])
  case (merge zs c k)
  have b: "lseg h p zs c" "blk h c k True" "nxt (h c) = a" "blk h a n True" "lseg h (nxt (h a)) ys 0"
    using l merge by (auto simp: lseg_append)
  have tt: "tiled lo zs c" "a = c + HDR + k" "tiled (a + HDR + n) ys hi" using t merge by (auto simp: tiled_append)
  have "a \<le> hi" "k + (HDR + n) \<le> hi" using tiled_le [OF tt(3)] tt(2) by linarith+
  then have w: "w64 (k + (HDR + n)) = k + (HDR + n)" "w64 (c + HDR + k) = a"
    using t(2) tt(2) by (auto intro!: w64_small)
  let ?h = "h(c := (h c)\<lparr>bsize := k + (HDR + n), nxt := nxt (h a)\<rparr>)"
  have q': "q = c" using q merge by simp
  have c: "coalesce_prev q a h = ?h" using b w by (simp add: coalesce_prev_def q')
  have "lseg ?h p zs c"
    using b(1) by (rule lseg_frame) (use tiled_mem [OF tt(1)] HDR_pos in force)
  moreover have "lseg ?h (nxt (h a)) ys 0"
    using b(5) by (rule lseg_frame) (use tiled_mem [OF tt(3)] HDR_pos tt(2) in force)
  ultimately show ?thesis
    using b tt unfolding c merge(2) by (auto simp: lseg_append tiled_append ac_simps)
next
  case keep
  have "\<not> is_free (h q)" if "xs \<noteq> []"
    using that keep(2) l q by (cases xs rule: rev_cases) (auto simp: lseg_append)
  then have "coalesce_prev q a h = h" using q by (auto simp: coalesce_prev_def)
  with l t keep show ?thesis by simp
qed

lemma absorb_no_adj:
  assumes "no_adj ys" "absorb n ys = (n', ys')"
  shows "no_adj ys' \<and> (ys' \<noteq> [] \<longrightarrow> \<not> snd (snd (hd ys')))"
proof (cases rule: absorb_cases [of ys n])
  case (merge b m zs)
  with assms show ?thesis by (cases zs) auto
next
  case keep
  with assms show ?thesis by auto
qed

lemma join_no_adj:
  assumes "no_adj xs" "no_adj ys" "ys \<noteq> [] \<Longrightarrow> \<not> snd (snd (hd ys))"
  shows "no_adj (join xs a n ys)"
proof (cases rule: join_cases [of xs a n ys])
  case (merge zs c k)
  with assms show ?thesis by (cases zs rule: rev_cases; cases ys) (auto simp: successively_append_iff)
next
  case keep
  with assms show ?thesis by (cases ys) (auto simp: successively_append_iff)
qed

lemma kfree_rep:
  assumes rep: "heap_rep s (xs @ (a, n, False) # ys)"
  shows "\<exists>s'. kfree (a + HDR) s = Some s' \<and> heap_rep s' (release xs a n ys) \<and> is_free (hdrs s' a) \<and>
              magic (hdrs s' a) = BLOCK_MAGIC \<and> udata s' = udata s"
proof -
  note b = heap_rep_split [OF rep] and c = heap_rep_bounds [OF rep]
  obtain n' ys' where ab: "absorb n ys = (n', ys')" by fastforce
  have p: "w64 (a + HDR + 2 ^ 64 - HDR) = a" using b(8) by (subst w64_diff) auto
  have hi: "region s + committed s < 2 ^ 64" using rep by (auto simp: heap_rep_def)
  define h1 where "h1 = (hdrs s)(a := (hdrs s a)\<lparr>is_free := True\<rparr>)"
  define h2 where "h2 = coalesce_next a h1"
  define q where "q = (if xs = [] then 0 else fst (last xs))"
  have ne: "x \<noteq> a" if "(x, m, g) \<in> set xs \<or> (x, m, g) \<in> set ys" for x m g
    using that tiled_mem [OF b(4), of x m g] tiled_mem [OF b(5), of x m g] HDR_pos by auto
  have "lseg h1 (head s) xs a" using b(1) by (rule lseg_frame) (use ne in \<open>auto simp: h1_def\<close>)
  moreover have "lseg h1 (nxt (hdrs s a)) ys 0" using b(3) by (rule lseg_frame) (use ne in \<open>auto simp: h1_def\<close>)
  ultimately have "lseg h1 (head s) (xs @ (a, n, True) # ys) 0"
    using b(2) by (auto simp: lseg_append h1_def)
  moreover have "tiled (region s) (xs @ (a, n, True) # ys) (region s + committed s)"
    using b(4,5) by (auto simp: tiled_append)
  ultimately have r2: "lseg h2 (head s) (xs @ (a, n', True) # ys') 0"
      "tiled (region s) (xs @ (a, n', True) # ys') (region s + committed s)"
    using coalesce_next_rep [OF _ _ hi ab] by (auto simp: h2_def)
  have fp: "find_prev h2 a 0 (head s) = Some q"
    using find_prev_lseg [OF r2(1), of 0] ne unfolding q_def by force
  from coalesce_prev_rep [OF r2 hi q_def]
  have r3: "lseg (coalesce_prev q a h2) (head s) (release xs a n ys) 0"
      "tiled (region s) (release xs a n ys) (region s + committed s)" by (simp_all add: release_def ab)
  define s' where "s' = s\<lparr>hdrs := coalesce_prev q a h2, alloc_count := w64 (alloc_count s + 2 ^ 64 - 1),
                          alloc_bytes := w64 (alloc_bytes s + 2 ^ 64 - n)\<rparr>"
  have run: "kfree (a + HDR) s = Some s'"
    using b(2) fp unfolding kfree_def Let_def p h1_def [symmetric] h2_def [symmetric]
    by (simp add: s'_def) (simp add: h1_def)
  have live: "live_of (xs @ (a, n, False) # ys) = live_of xs @ (a, n, False) # live_of ys" by simp
  have cnt: "alloc_count s = Suc (length (live_of xs @ live_of ys))"
      "alloc_bytes s = n + sum_list (map (\<lambda>(a, n, f). n) (live_of xs @ live_of ys))"
    using rep unfolding heap_rep_def live by auto
  have le: "1 \<le> alloc_count s" "alloc_count s < 2 ^ 64" "n \<le> alloc_bytes s" "alloc_bytes s < 2 ^ 64"
    using c(5,6) cnt by simp_all
  note w64_diff [OF le(1,2)] w64_diff [OF le(3,4)]
  moreover have "no_adj (release xs a n ys)"
    using rep absorb_no_adj [OF _ ab] unfolding release_def ab prod.case
    by (intro join_no_adj) (auto simp: heap_rep_def successively_append_iff successively_Cons)
  moreover have "release xs a n ys \<noteq> []" by (simp add: release_def ab join_def)
  ultimately have "heap_rep s' (release xs a n ys)"
    using rep r3 cnt unfolding heap_rep_def live_release by (simp add: s'_def)
  moreover have "is_free (hdrs s' a) \<and> magic (hdrs s' a) = BLOCK_MAGIC"
    using r2(1) by (auto simp: s'_def coalesce_prev_def lseg_append)
  ultimately show ?thesis using run by (auto simp: s'_def)
qed

section \<open>What the heap promises\<close>

text \<open>The live allocations: the address handed out and the number of bytes behind it.\<close>

definition payloads :: "seg list \<Rightarrow> (nat \<times> nat) set" where
  "payloads bs = {(a + HDR, n) | a n. (a, n, False) \<in> set bs}"

definition apart :: "nat \<times> nat \<Rightarrow> nat \<times> nat \<Rightarrow> bool" where
  "apart x y \<longleftrightarrow> fst x + snd x \<le> fst y \<or> fst y + snd y \<le> fst x"

lemma payloads_live: "payloads bs = (\<lambda>(a, n, f). (a + HDR, n)) ` set (live_of bs)"
  by (force simp: payloads_def live_of_def)

lemma payload_split:
  assumes "heap_rep s (xs @ (a, n, False) # ys)"
  shows "(a + HDR, n) \<notin> payloads (xs @ ys)"
    and "x \<in> payloads (xs @ ys) \<Longrightarrow> apart (a + HDR, n) x"
    and "region s \<le> a + HDR" "a + HDR + n \<le> region s + committed s"
proof -
  note b = heap_rep_split [OF assms]
  show ap: "apart (a + HDR, n) x" if "x \<in> payloads (xs @ ys)" for x
  proof -
    obtain c k where c: "x = (c + HDR, k)" "(c, k, False) \<in> set xs \<or> (c, k, False) \<in> set ys"
      using \<open>x \<in> payloads (xs @ ys)\<close> by (auto simp: payloads_def)
    then show ?thesis
      using tiled_mem [OF b(4), of c k False] tiled_mem [OF b(5), of c k False] by (auto simp: apart_def)
  qed
  show "(a + HDR, n) \<notin> payloads (xs @ ys)"
  proof
    assume "(a + HDR, n) \<in> payloads (xs @ ys)"
    then have "(a, n, False) \<in> set xs \<or> (a, n, False) \<in> set ys" by (auto simp: payloads_def)
    then show False
      using tiled_mem [OF b(4), of a n False] tiled_mem [OF b(5), of a n False] HDR_pos by linarith
  qed
  show "region s \<le> a + HDR" "a + HDR + n \<le> region s + committed s" using b(6,7) by auto
qed

lemma filter_eq_ConsE:
  assumes "filter P bs = xs @ x # ys"
  obtains us vs where "bs = us @ x # vs" "filter P us = xs" "filter P vs = ys"
  using assms
proof (induction bs arbitrary: xs thesis)
  case (Cons b bs)
  show ?case
  proof (cases "P b \<and> xs = []")
    case True
    with Cons.prems(2) show ?thesis by (intro Cons.prems(1) [of "[]" bs]) auto
  next
    case False
    then obtain zs where zs: "filter P bs = zs @ x # ys" "xs = (if P b then b # zs else zs)"
      using Cons.prems(2) by (cases xs) (auto split: if_splits)
    show ?thesis
    proof (rule Cons.IH [OF _ zs(1)])
      fix us vs
      assume "bs = us @ x # vs" "filter P us = zs" "filter P vs = ys"
      then show thesis by (intro Cons.prems(1) [of "b # us" vs]) (simp_all add: zs(2))
    qed
  qed
qed simp

text \<open>C2: kmalloc. From a well-formed heap, a request of 1 byte up to 2^63 bytes always
  returns, and leaves the heap well formed. Either it returns null, the live allocations are
  unchanged, no free block can hold the request and the region is exhausted; or it returns a
  payload of at least the requested size, inside the committed region and disjoint from
  every live payload, which is the only change to the live allocations.\<close>

theorem kmalloc_spec:
  assumes "heap_rep s bs" "sz \<noteq> 0" "sz \<le> 2 ^ 63"
  shows "\<exists>p s' bs'. kmalloc sz s = Some (p, s') \<and> heap_rep s' bs' \<and>
     (if p = 0 then payloads bs' = payloads bs \<and> no_fit (align16 sz) bs' \<and>
                    hmax s' < committed s' + HDR + MIN_SPLIT
      else \<exists>m\<ge>sz. (p, m) \<notin> payloads bs \<and> payloads bs' = insert (p, m) (payloads bs) \<and>
                  (\<forall>x\<in>payloads bs. apart (p, m) x) \<and>
                  region s' \<le> p \<and> p + m \<le> region s' + committed s')"
proof -
  from kmalloc_run [OF assms] obtain p s' bs' where
    k: "kmalloc sz s = Some (p, s')" "heap_rep s' bs'" and
    c: "if p = 0 then live_of bs' = live_of bs \<and> no_fit (align16 sz) bs' \<and> hmax s' < committed s' + HDR + MIN_SPLIT
        else \<exists>a m xs ys. p = a + HDR \<and> sz \<le> m \<and> live_of bs = xs @ ys \<and>
                   live_of bs' = xs @ (a, m, False) # ys" by blast
  show ?thesis
  proof (cases "p = 0")
    case True
    with k c show ?thesis
      by (intro exI [of _ p] exI [of _ s'] exI [of _ bs']) (simp add: payloads_live)
  next
    case False
    with c obtain a m xs ys where a: "p = a + HDR" "sz \<le> m" "live_of bs = xs @ ys"
        "live_of bs' = xs @ (a, m, False) # ys" by auto
    from a(4) [unfolded live_of_def] obtain us vs where
        u: "bs' = us @ (a, m, False) # vs" "live_of us = xs" "live_of vs = ys"
      unfolding live_of_def by (rule filter_eq_ConsE)
    have pl: "payloads (us @ vs) = payloads bs" using a(3) u(2,3) by (simp add: payloads_live)
    have "payloads bs' = insert (p, m) (payloads bs)" using a by (auto simp: payloads_live)
    then show ?thesis
      using k False a(1,2) payload_split [of s' us a m vs, folded u(1), OF k(2)] unfolding pl
      by (intro exI [of _ p] exI [of _ s'] exI [of _ bs']) auto
  qed
qed

text \<open>initialisation. When \<^verbatim>\<open>heap_init\<close> succeeds and the region it chose still has the 64 KB it
  commits, the heap is one well-formed free block of 64 KB less a header.\<close>

theorem heap_init_rep:
  assumes "heap_init mm hhdm s = (True, s')" "HEAP_INITIAL \<le> hmax s'"
    and "0 < region s'" "region s' + hmax s' < 2 ^ 64"
  shows "heap_rep s' [(region s', HEAP_INITIAL - HDR, True)]"
proof -
  have "hmax s' \<le> HEAP_MAX" "head s' = region s'" "committed s' = HEAP_INITIAL" "alloc_count s' = 0" "alloc_bytes s' = 0"
    "hdrs s' (region s') = \<lparr>magic = BLOCK_MAGIC, is_free = True, bsize = HEAP_INITIAL - HDR, nxt = 0\<rparr>"
    using assms(1) by (auto simp: heap_init_def Let_def case_prod_beta split: if_splits)
  then show ?thesis using assms(2-4) by (auto simp: heap_rep_def HEAP_INITIAL_def HDR_def)
qed

definition heap_zero :: heap where
  "heap_zero = \<lparr>hdrs = (\<lambda>_. \<lparr>magic = 0, is_free = False, bsize = 0, nxt = 0\<rparr>), udata = (\<lambda>_. 7), head = 0,
                region = 0, committed = 0, hmax = 0, phys_base = 0, alloc_count = 0, alloc_bytes = 0,
                hpmm = \<lparr>bitmap = replicate 64 0, highest_page = 512, total = 512, used = 0, search_hint = 0,
                        bitmap_at = 4096, ram = (\<lambda>_. 0)\<rparr>\<rparr>"

definition heap_map :: "memmap_entry list" where
  "heap_map = [\<lparr>base = 4096, len = 1048576, kind = 0\<rparr>, \<lparr>base = 0x500000, len = 4194304, kind = 1\<rparr>]"

abbreviation heap_demo :: heap where
  "heap_demo \<equiv> snd (heap_init heap_map 0x10000000 heap_zero)"

lemma heap_demo:
  "fst (heap_init heap_map 0x10000000 heap_zero)" "region heap_demo = 0x10002000" "hmax heap_demo = 1044480"
  "committed heap_demo = 65536"
  by (simp_all add: heap_init_def best_region_def heap_map_def heap_zero_def MEMMAP_USABLE_def HEAP_INITIAL_def
      HEAP_MAX_def PAGE_SIZE_def w64_def Let_def case_prod_beta)

lemma heap_demo_init: "heap_init heap_map 0x10000000 heap_zero = (True, heap_demo)"
  using heap_demo(1) by (metis prod.collapse)

lemma heap_demo_rep: "heap_rep heap_demo [(0x10002000, 65512, True)]"
proof -
  have "hmax heap_demo \<le> HEAP_MAX" "head heap_demo = region heap_demo" "committed heap_demo = HEAP_INITIAL"
    "alloc_count heap_demo = 0" "alloc_bytes heap_demo = 0"
    "hdrs heap_demo (region heap_demo) = \<lparr>magic = BLOCK_MAGIC, is_free = True, bsize = HEAP_INITIAL - HDR, nxt = 0\<rparr>"
    using heap_demo_init by (auto simp: heap_init_def Let_def case_prod_beta split: if_splits)
  then show ?thesis by (simp add: heap_rep_def heap_demo HEAP_INITIAL_def HDR_def HEAP_MAX_def)
qed

theorem heap_init_rep_witness: "heap_rep heap_demo [(0x10002000, HEAP_INITIAL - HDR, True)]"
  using heap_init_rep [OF heap_demo_init] by (simp add: heap_demo HEAP_INITIAL_def)

theorem kmalloc_spec_witness:
  "heap_rep heap_demo [(0x10002000, 65512, True)] \<and> (\<exists>p s' bs'. kmalloc 100 heap_demo = Some (p, s') \<and> heap_rep s' bs')"
  using kmalloc_spec [OF heap_demo_rep, of 100] heap_demo_rep by auto

text \<open>C4: kfree of a live payload always returns, keeps the heap well formed (so adjacent
  free blocks are merged), removes exactly that payload from the live allocations, and a second
  kfree of the same pointer is detected and changes nothing.\<close>

theorem kfree_spec:
  assumes rep: "heap_rep s bs" and p: "(p, n) \<in> payloads bs"
  shows "\<exists>s' bs'. kfree p s = Some s' \<and> heap_rep s' bs' \<and> payloads bs' = payloads bs - {(p, n)} \<and>
                  kfree p s' = Some s'"
proof -
  obtain a where a: "p = a + HDR" "(a, n, False) \<in> set bs" using p by (auto simp: payloads_def)
  from split_list [OF a(2)] obtain xs ys where bs: "bs = xs @ (a, n, False) # ys" by blast
  from kfree_rep [OF rep [unfolded bs]] obtain s' where
    k: "kfree p s = Some s'" "heap_rep s' (release xs a n ys)" "is_free (hdrs s' a)" unfolding a(1) by blast
  have "a + HDR < 2 ^ 64" using heap_rep_split(8) [OF rep [unfolded bs]] by linarith
  then have "w64 (a + HDR + 2 ^ 64 - HDR) = a" by (subst w64_diff) auto
  then have "kfree p s' = Some s'" using k(3) unfolding a(1) kfree_def Let_def by simp
  moreover have "payloads (release xs a n ys) = payloads bs - {(p, n)}"
  proof -
    have "payloads (release xs a n ys) = payloads (xs @ ys)" by (simp add: payloads_live live_release)
    moreover have "payloads bs = insert (p, n) (payloads (xs @ ys))" by (auto simp: payloads_live bs a(1))
    ultimately show ?thesis using payload_split(1) [OF rep [unfolded bs]] a(1) by auto
  qed
  ultimately show ?thesis using k by blast
qed

lemma kmalloc_demo:
  "kmalloc 100 heap_demo = Some (0x10002018, take_block 112 0x10002000 heap_demo)"
  "heap_rep (take_block 112 0x10002000 heap_demo)
     [(0x10002000, 112, False), (0x10002088, 65376, True)]"
  using kmalloc_hit [of heap_demo "[]" "0x10002000" 65512 "[]" 100] heap_demo_rep
  by (simp_all add: align16_def w64_def carve_def HDR_def MIN_SPLIT_def)

theorem kfree_spec_witness:
  "(0x10002018, 112) \<in> payloads [(0x10002000, 112, False), (0x10002088, 65376, True)] \<and>
   (\<exists>s' bs'. kfree 0x10002018 (take_block 112 0x10002000 heap_demo) = Some s' \<and> heap_rep s' bs' \<and>
            payloads bs' = {})"
proof -
  have p: "payloads [(0x10002000, 112, False), (0x10002088, 65376, True)] = {(0x10002018, 112)}"
    by (auto simp: payloads_def HDR_def)
  show ?thesis using kfree_spec [OF kmalloc_demo(2), of "0x10002018" 112] unfolding p by auto
qed

text \<open>allocating from a heap that has a fitting free block and freeing the result at once
  restores the list of blocks exactly, split remainder and statistics included.\<close>

theorem kmalloc_kfree_roundtrip:
  assumes rep: "heap_rep s bs" and sz: "sz \<noteq> 0" "sz \<le> 2 ^ 63" and fit: "\<not> no_fit (align16 sz) bs"
  shows "\<exists>p s1 s2. kmalloc sz s = Some (p, s1) \<and> p \<noteq> 0 \<and> kfree p s1 = Some s2 \<and> heap_rep s2 bs \<and>
                   alloc_count s2 = alloc_count s \<and> alloc_bytes s2 = alloc_bytes s"
proof -
  obtain xs a n ys where bs: "bs = xs @ (a, n, True) # ys" "align16 sz \<le> n" "no_fit (align16 sz) xs"
    using fit by (rule first_fit_split)
  note hit = kmalloc_hit [OF rep [unfolded bs(1)] sz(1) bs(2,3)]
  have adj: "xs \<noteq> [] \<Longrightarrow> \<not> snd (snd (last xs))" "ys \<noteq> [] \<Longrightarrow> \<not> snd (snd (hd ys))"
    using rep unfolding bs(1) by (cases ys; auto simp: heap_rep_def successively_append_iff)+
  obtain m zs where c: "carve (align16 sz) a n = (a, m, False) # zs" "absorb m (zs @ ys) = (n, ys)"
  proof (cases "align16 sz + HDR + MIN_SPLIT \<le> n")
    case True
    then have "align16 sz + HDR + (n - align16 sz - HDR) = n" by simp
    with True show ?thesis
      by (intro that [of "align16 sz" "[(a + HDR + align16 sz, n - align16 sz - HDR, True)]"])
        (simp_all add: carve_def absorb_def)
  next
    case False
    then show ?thesis
      using adj(2) by (intro that [of n "[]"]) (auto simp: carve_def absorb_def split: list.splits)
  qed
  have "join xs a n ys = bs" using adj(1) by (auto simp: join_def bs(1))
  then have undo: "release xs a m (zs @ ys) = bs" by (simp add: release_def c(2))
  from hit(2) have "heap_rep (take_block (align16 sz) a s) (xs @ (a, m, False) # zs @ ys)" by (simp add: c(1))
  from kfree_rep [OF this] obtain s2 where
    s2: "kfree (a + HDR) (take_block (align16 sz) a s) = Some s2" "heap_rep s2 bs" unfolding undo by blast
  moreover have "alloc_count s2 = alloc_count s \<and> alloc_bytes s2 = alloc_bytes s"
    using rep s2(2) by (simp add: heap_rep_def)
  ultimately show ?thesis using hit(1)
    by (intro exI [of _ "a + HDR"] exI [of _ "take_block (align16 sz) a s"] exI [of _ s2]) simp
qed

theorem kmalloc_kfree_roundtrip_witness:
  "\<exists>p s1 s2. kmalloc 100 heap_demo = Some (p, s1) \<and> kfree p s1 = Some s2 \<and>
             heap_rep s2 [(0x10002000, 65512, True)]"
  using kmalloc_kfree_roundtrip [OF heap_demo_rep, of 100] by (auto simp: align16_def w64_def)

lemma fold_max:
  fixes xs :: "seg list"
  defines "F \<equiv> fold (\<lambda>(a, n, f) m. if f then max m n else m)"
  shows "(\<forall>a n. (a, n, True) \<in> set xs \<longrightarrow> n \<le> F xs k) \<and> k \<le> F xs k \<and>
         (F xs k = k \<or> (\<exists>a. (a, F xs k, True) \<in> set xs))"
proof (induction xs arbitrary: k)
  case Nil
  then show ?case by (simp add: F_def)
next
  case (Cons x xs)
  obtain a n f where x: "x = (a, n, f)" by (cases x)
  define k' where "k' = (if f then max k n else k)"
  have F: "F (x # xs) k = F xs k'" by (simp add: F_def x k'_def)
  have "k \<le> k'" "f \<Longrightarrow> n \<le> k'" "k' = k \<or> (f \<and> k' = n)" by (auto simp: k'_def max_def)
  with Cons.IH [of k'] show ?case unfolding F by (auto simp: x intro: order_trans)
qed

text \<open>the diagnostics agree with the heap: every byte of the committed region is a header, a
  live payload or free, the block count is the number of blocks, and the largest free block is
  free and at least as large as every other free block.\<close>

theorem heap_diagnostics:
  assumes "heap_rep s bs"
  shows "\<exists>f c m. heap_free_bytes s = Some f \<and> heap_block_count s = Some c \<and> heap_largest_free s = Some m \<and>
     HDR * c + alloc_bytes s + f = committed s \<and> c = length bs \<and>
     (\<forall>a n. (a, n, True) \<in> set bs \<longrightarrow> n \<le> m) \<and> (m = 0 \<or> (\<exists>a. (a, m, True) \<in> set bs))"
proof -
  have l: "lseg (hdrs s) (head s) bs 0" and ab: "alloc_bytes s = sum_list (map (\<lambda>(a, n, f). n) (live_of bs))"
    using assms by (auto simp: heap_rep_def)
  note b = heap_rep_bounds [OF assms]
  define f where "f = sum_list (map (\<lambda>(a, n, f). if f then n else 0) bs)"
  have acc: "HDR * length bs + alloc_bytes s + f = committed s" using b(1) live_sums [of bs] by (simp add: ab f_def)
  have lim: "f < 2 ^ 64" "length bs < 2 ^ 64" using acc b(4) by (simp_all add: HEAP_MAX_def HDR_def)
  have "sum_free (hdrs s) 0 (head s) = Some f" using sum_free_lseg [OF l, of 0] lim by (simp add: f_def)
  moreover have "count_blocks (hdrs s) 0 (head s) = Some (length bs)" using count_blocks_lseg [OF l, of 0] lim by simp
  ultimately show ?thesis
    using acc max_free_lseg [OF l, of 0] fold_max [of bs 0]
    by (simp add: heap_free_bytes_def heap_block_count_def heap_largest_free_def)
qed

theorem heap_diagnostics_witness:
  "heap_rep heap_demo [(0x10002000, 65512, True)] \<and> heap_block_count heap_demo = Some 1"
  using heap_diagnostics [OF heap_demo_rep] heap_demo_rep by auto

lemma kmalloc_udata: "heap_rep s bs \<Longrightarrow> sz \<le> 2 ^ 63 \<Longrightarrow> kmalloc sz s = Some (p, s') \<Longrightarrow> udata s' = udata s"
proof (induction "hmax s - committed s" arbitrary: s bs sz rule: less_induct)
  case less
  show ?case
  proof (cases "sz = 0")
    case True
    with less.prems(3) show ?thesis by (subst (asm) kmalloc.simps) simp
  next
    case sz: False
    note al = align16_props [OF less.prems(2)]
    have tb: "udata (take_block k a s) = udata s" for k a by (simp add: take_block_def Let_def)
    show ?thesis
    proof (cases "no_fit (align16 sz) bs")
      case False
      then obtain xs a n ys where bs: "bs = xs @ (a, n, True) # ys" "align16 sz \<le> n" "no_fit (align16 sz) xs"
        by (rule first_fit_split)
      from kmalloc_hit(1) [OF less.prems(1) [unfolded bs(1)] sz bs(2,3)] less.prems(3) tb
      show ?thesis by simp
    next
      case True
      then have miss: "find_fit (hdrs s) (align16 sz) (head s) = Some NoFit"
        using less.prems(1) by (intro find_fit_miss) (auto simp: heap_rep_def)
      from less.prems(1) al(2) show ?thesis
      proof (cases rule: heap_grow_rep)
        case no
        with less.prems(3) sz miss show ?thesis by (subst (asm) kmalloc.simps) (simp add: Let_def)
      next
        case (yes s1 bs1)
        have "kmalloc (align16 sz) s1 = Some (p, s')"
          using less.prems(3) sz miss yes(1) by (subst (asm) kmalloc.simps) (simp add: Let_def)
        moreover have "hmax s1 - committed s1 < hmax s - committed s"
          using yes(2,4,5,6) unfolding heap_rep_def MIN_SPLIT_def by linarith
        ultimately show ?thesis using less.hyps [OF _ yes(2) al(2)] yes(7) by simp
      qed
    qed
  qed
qed

text \<open>kcalloc, for a product that does not exceed 2^63, returns null or a payload of at least
  that many bytes in which the bytes asked for are zero, and writes no byte outside of it.\<close>

theorem kcalloc_spec:
  assumes "heap_rep s bs" "count * elem \<noteq> 0" "count * elem \<le> 2 ^ 63"
  shows "\<exists>p s' bs'. kcalloc count elem s = Some (p, s') \<and> heap_rep s' bs' \<and>
     (p \<noteq> 0 \<longrightarrow> (\<exists>m\<ge>count * elem. (p, m) \<in> payloads bs' \<and> (\<forall>x\<in>payloads bs. apart (p, m) x)) \<and>
                 (\<forall>i<count * elem. udata s' (p + i) = 0)) \<and>
     (\<forall>x. p = 0 \<or> x < p \<or> p + count * elem \<le> x \<longrightarrow> udata s' x = udata s x)"
proof -
  have w: "w64 (count * elem) = count * elem" using assms(3) by (intro w64_small) simp
  from kmalloc_spec [OF assms] obtain p s' bs' where k: "kmalloc (count * elem) s = Some (p, s')" "heap_rep s' bs'"
    and c: "p \<noteq> 0 \<Longrightarrow> \<exists>m\<ge>count * elem. (p, m) \<in> payloads bs' \<and> (\<forall>x\<in>payloads bs. apart (p, m) x)"
    by (auto split: if_splits)
  note u = kmalloc_udata [OF assms(1,3) k(1)]
  show ?thesis
  proof (cases "p = 0")
    case True
    then have "kcalloc count elem s = Some (0, s')" by (simp add: kcalloc_def w k(1) Let_def)
    with k(2) u True show ?thesis by (intro exI [of _ 0] exI [of _ s'] exI [of _ bs']) simp
  next
    case False
    define s2 where "s2 = s'\<lparr>udata := (\<lambda>a. if p \<le> a \<and> a < p + count * elem then 0 else udata s' a)\<rparr>"
    have "kcalloc count elem s = Some (p, s2)" using False by (simp add: kcalloc_def w k(1) s2_def Let_def)
    moreover have "heap_rep s2 bs'" using k(2) by (simp add: heap_rep_def s2_def)
    moreover have "\<forall>i<count * elem. udata s2 (p + i) = 0" by (simp add: s2_def)
    moreover have "\<forall>x. x < p \<or> p + count * elem \<le> x \<longrightarrow> udata s2 x = udata s x" by (auto simp: s2_def u)
    moreover note c [OF False]
    ultimately show ?thesis using False by blast
  qed
qed

text \<open>a request within 15 bytes of 2^64 is rounded up to 0, so on a heap with any free block it
  succeeds and returns a payload smaller than the whole heap instead of null.\<close>

theorem kmalloc_size_wraps:
  assumes rep: "heap_rep s bs" and sz: "2 ^ 64 - 15 \<le> sz" "sz < 2 ^ 64" and free: "(a, n, True) \<in> set bs"
  shows "\<exists>p s' m bs'. kmalloc sz s = Some (p, s') \<and> heap_rep s' bs' \<and> p \<noteq> 0 \<and> (p, m) \<in> payloads bs' \<and> m < HEAP_MAX"
proof -
  define k where "k = sz + 15 - 2 ^ 64"
  have k: "sz + 15 = k + 2 ^ 64" "k < 16" using sz by (simp_all add: k_def)
  have "w64 (sz + 15) = k" unfolding k(1) w64_def using k(2) by simp
  then have "w64 (sz + 15) div 16 = 0" using k(2) by simp
  then have al: "align16 sz = 0" by (simp add: align16_def)
  have "\<not> no_fit (align16 sz) bs" using free by (auto simp: al intro!: bexI [of _ "(a, n, True)"])
  then obtain xs c k ys where bs: "bs = xs @ (c, k, True) # ys" "align16 sz \<le> k" "no_fit (align16 sz) xs"
    by (rule first_fit_split)
  have "sz \<noteq> 0" using sz by (cases sz) simp_all
  note hit = kmalloc_hit [OF rep [unfolded bs(1)] this bs(2,3)]
  obtain m zs where c: "carve (align16 sz) c k = (c, m, False) # zs"
    by (cases "align16 sz + HDR + MIN_SPLIT \<le> k") (simp_all add: carve_def)
  have "(c + HDR, m) \<in> payloads (xs @ carve (align16 sz) c k @ ys)" by (auto simp: payloads_def c)
  moreover have "m < HEAP_MAX" using heap_rep_split(9) hit(2) unfolding c by fastforce
  ultimately show ?thesis using hit by (intro exI conjI) auto
qed

theorem kmalloc_size_wraps_witness:
  "\<exists>p s' m bs'. kmalloc (2 ^ 64 - 1) heap_demo = Some (p, s') \<and> (p, m) \<in> payloads bs' \<and> m < HEAP_MAX"
  using kmalloc_size_wraps [OF heap_demo_rep, of "2 ^ 64 - 1" "0x10002000" 65512] by fastforce

theorem kcalloc_spec_witness:
  "\<exists>p s' bs'. kcalloc 10 10 heap_demo = Some (p, s') \<and> heap_rep s' bs'"
  using kcalloc_spec [OF heap_demo_rep, of 10 10] by auto

text \<open>growth near 2^64. With the initial 64 KB committed, the bound check on the amount to grow by
  wraps for requests whose rounded size is within 64 KB of 2^64, and the amount accepted exceeds the
  whole heap; the same subtraction also wraps when the region is smaller than what is committed.\<close>

theorem heap_grow_unbounded:
  assumes "committed s = HEAP_INITIAL"
  shows "if HEAP_INITIAL \<le> hmax s then grow_amount (2 ^ 64 - 2 * PAGE_SIZE) s = 2 ^ 64 - PAGE_SIZE
         else grow_amount 16 s = 2 ^ 64 - (HEAP_INITIAL - hmax s)"
proof (cases "HEAP_INITIAL \<le> hmax s")
  case True
  then show ?thesis
    using assms by (simp add: grow_amount_def w64_def HEAP_INITIAL_def HEAP_GROW_def HDR_def PAGE_SIZE_def)
next
  case False
  then have "w64 (hmax s + 2 ^ 64 - committed s) = hmax s + 2 ^ 64 - committed s"
    using assms by (intro w64_small) simp
  with False assms show ?thesis
    by (simp add: grow_amount_def w64_small HEAP_INITIAL_def HEAP_GROW_def HDR_def PAGE_SIZE_def)
qed

theorem heap_grow_unbounded_witness:
  "committed heap_demo = HEAP_INITIAL \<and> grow_amount (2 ^ 64 - 2 * PAGE_SIZE) heap_demo > hmax heap_demo"
  using heap_grow_unbounded [of heap_demo] by (simp add: heap_demo HEAP_INITIAL_def PAGE_SIZE_def)

end
