(* ===== verification/FileSys.thy ===== *)
theory FileSys
  imports KString
begin

text \<open>
  The in-memory file system \<^verbatim>\<open>QuillFS\<close> of \<^verbatim>\<open>kernel/filesystem.cpp\<close>: a flat table of 64 entries,
  each with its name and the full path of its parent as strings. A path argument is a
  \<open>string option\<close> (\<open>None\<close> for a null pointer). The fixed path and name buffers (128 and 32
  bytes) are filled without a bound in the code, so an operation returns \<open>Inl BufferOverflow\<close>
  where the copy would run past them. \<open>fdata\<close> holds the first bytes of \<^verbatim>\<open>data\<close>; every byte after
  them is 0, which is what the \<^verbatim>\<open>fs_memset\<close> before each write leaves. The messages sent to the
  console are not modelled.
\<close>

definition MAX_FILES :: nat where "MAX_FILES = 64"
definition MAX_NAME_LEN :: nat where "MAX_NAME_LEN = 32"
definition MAX_PATH_LEN :: nat where "MAX_PATH_LEN = 128"
definition MAX_FILE_DATA :: nat where "MAX_FILE_DATA = 1024"

datatype ftype = FILE_UNUSED | FILE_REGULAR | FILE_DIRECTORY

record fentry =
  fname :: string
  fparent :: string
  ftyp :: ftype
  fdata :: string
  fsize :: nat

type_synonym fs = "fentry list"

definition blank_entry :: fentry where
  "blank_entry = \<lparr>fname = [], fparent = [], ftyp = FILE_UNUSED, fdata = [], fsize = 0\<rparr>"

definition fs_init :: fs where
  "fs_init = (replicate MAX_FILES blank_entry)
     [0 := \<lparr>fname = ''/'', fparent = [], ftyp = FILE_DIRECTORY, fdata = [], fsize = 0\<rparr>]"

section \<open>Paths\<close>

abbreviation slash :: char where "slash \<equiv> CHR ''/''"

function strip_slashes :: "string \<Rightarrow> string" where
  "strip_slashes s = (if length s > 1 \<and> last s = slash then strip_slashes (butlast s) else s)"
  by auto
termination by (relation "measure length") auto

declare strip_slashes.simps [simp del]

definition normalize_path :: "string \<Rightarrow> string res" where
  "normalize_path path = bind_res (strcpy_buf MAX_PATH_LEN path) (\<lambda>s. Inr (strip_slashes s))"

fun last_slash :: "string \<Rightarrow> nat \<Rightarrow> nat option" where
  "last_slash s 0 = None"
| "last_slash s (Suc i) = (if s ! i = slash then Some i else last_slash s i)"

definition split_path :: "string \<Rightarrow> (string \<times> string) res" where
  "split_path path = bind_res (normalize_path path) (\<lambda>clean.
     let ls = last_slash clean (fs_strlen clean);
         parent = (case ls of None \<Rightarrow> ''/'' | Some 0 \<Rightarrow> ''/'' | Some k \<Rightarrow> take k path);
         name = (case ls of None \<Rightarrow> clean | Some k \<Rightarrow> drop (k + 1) clean)
     in bind_res (strcpy_buf MAX_NAME_LEN name) (\<lambda>name. Inr (parent, name)))"

section \<open>The operations\<close>

definition find_entry :: "string \<Rightarrow> string \<Rightarrow> fs \<Rightarrow> nat option" where
  "find_entry parent name fs =
     find_idx (\<lambda>e. ftyp e \<noteq> FILE_UNUSED \<and> str_eq (fname e) name \<and> str_eq (fparent e) parent) fs"

definition find_free_slot :: "fs \<Rightarrow> nat option" where
  "find_free_slot fs = find_idx (\<lambda>e. ftyp e = FILE_UNUSED) fs"

definition path_exists :: "string \<Rightarrow> string \<Rightarrow> fs \<Rightarrow> bool" where
  "path_exists parent name fs = (find_entry parent name fs \<noteq> None)"

text \<open>The check of the parent directory in \<^verbatim>\<open>mkdir\<close> and \<^verbatim>\<open>touch\<close>.\<close>

definition parent_ok :: "string \<Rightarrow> fs \<Rightarrow> bool res" where
  "parent_ok parent fs =
     (if str_eq parent ''/'' then Inr True
      else bind_res (split_path parent) (\<lambda>(pp, pn).
        Inr (case find_entry pp pn fs of None \<Rightarrow> False | Some i \<Rightarrow> ftyp (fs ! i) = FILE_DIRECTORY)))"

definition invalid_path :: "string option \<Rightarrow> bool" where
  "invalid_path path = (case path of None \<Rightarrow> True | Some [] \<Rightarrow> True | Some (c # _) \<Rightarrow> c \<noteq> slash)"

definition mkdir :: "string option \<Rightarrow> fs \<Rightarrow> (bool \<times> fs) res" where
  "mkdir path fs =
     (if invalid_path path then Inr (False, fs)
      else bind_res (normalize_path (the path)) (\<lambda>norm.
        if str_eq norm ''/'' then Inr (False, fs)
        else bind_res (split_path norm) (\<lambda>(parent, name).
          if fs_strlen name = 0 then Inr (False, fs)
          else bind_res (parent_ok parent fs) (\<lambda>ok.
            if \<not> ok then Inr (False, fs)
            else if path_exists parent name fs then Inr (False, fs)
            else case find_free_slot fs of
                   None \<Rightarrow> Inr (False, fs)
                 | Some i \<Rightarrow> Inr (True, fs[i := (fs ! i)\<lparr>ftyp := FILE_DIRECTORY, fname := name,
                                                      fparent := parent, fsize := 0\<rparr>])))))"

definition touch :: "string option \<Rightarrow> fs \<Rightarrow> (bool \<times> fs) res" where
  "touch path fs =
     (if invalid_path path then Inr (False, fs)
      else bind_res (normalize_path (the path)) (\<lambda>norm.
        bind_res (split_path norm) (\<lambda>(parent, name).
          if fs_strlen name = 0 then Inr (False, fs)
          else bind_res (parent_ok parent fs) (\<lambda>ok.
            if \<not> ok then Inr (False, fs)
            else if path_exists parent name fs then Inr (True, fs)
            else case find_free_slot fs of
                   None \<Rightarrow> Inr (False, fs)
                 | Some i \<Rightarrow> Inr (True, fs[i := (fs ! i)\<lparr>ftyp := FILE_REGULAR, fname := name,
                                                      fparent := parent, fsize := 0, fdata := []\<rparr>])))))"

definition store_file :: "nat \<Rightarrow> string \<Rightarrow> fs \<Rightarrow> (bool \<times> fs) res" where
  "store_file idx content fs =
     (if ftyp (fs ! idx) \<noteq> FILE_REGULAR then Inr (False, fs)
      else let len = fs_strlen content;
               len = (if len \<ge> MAX_FILE_DATA then MAX_FILE_DATA - 1 else len)
           in Inr (True, fs[idx := (fs ! idx)\<lparr>fdata := take len content, fsize := len\<rparr>]))"

definition write_file :: "string option \<Rightarrow> string option \<Rightarrow> fs \<Rightarrow> (bool \<times> fs) res" where
  "write_file path content fs =
     (if invalid_path path \<or> content = None then Inr (False, fs)
      else bind_res (normalize_path (the path)) (\<lambda>norm.
        bind_res (split_path norm) (\<lambda>(parent, name).
          case find_entry parent name fs of
            Some idx \<Rightarrow> store_file idx (the content) fs
          | None \<Rightarrow>
              bind_res (touch (Some norm) fs) (\<lambda>(ok, fs1).
                if \<not> ok then Inr (False, fs1)
                else case find_entry parent name fs1 of
                       None \<Rightarrow> Inr (False, fs1)
                     | Some idx \<Rightarrow> store_file idx (the content) fs1))))"

definition data_byte :: "fentry \<Rightarrow> nat \<Rightarrow> char" where
  "data_byte e i = (if i < length (fdata e) then fdata e ! i else CHR 0x00)"

definition read_file :: "string option \<Rightarrow> u32 \<Rightarrow> fs \<Rightarrow> (bool \<times> string) res" where
  "read_file path buf_size fs =
     (if invalid_path path then Inr (False, [])
      else bind_res (normalize_path (the path)) (\<lambda>norm.
        bind_res (split_path norm) (\<lambda>(parent, name).
          case find_entry parent name fs of
            None \<Rightarrow> Inr (False, [])
          | Some idx \<Rightarrow>
              if ftyp (fs ! idx) \<noteq> FILE_REGULAR then Inr (False, [])
              else let n = (if fsize (fs ! idx) \<ge> unat buf_size then unat (buf_size - 1) else fsize (fs ! idx))
                   in if n > MAX_FILE_DATA then Inl OutOfBounds
                      else Inr (True, map (data_byte (fs ! idx)) [0..<n]))))"

definition ls_line :: "fentry \<Rightarrow> string" where
  "ls_line e = (if ftyp e = FILE_DIRECTORY then ''d '' else ''f '') @ fname e @ [CHR 0x0A]"

text \<open>Every character goes through the same test \<^verbatim>\<open>pos < buf_size - 1\<close>.\<close>

fun emit :: "nat \<Rightarrow> string \<Rightarrow> string \<Rightarrow> string" where
  "emit lim out [] = out"
| "emit lim out (c # cs) = emit lim (if length out < lim then out @ [c] else out) cs"

fun ls_loop :: "string \<Rightarrow> nat \<Rightarrow> fentry list \<Rightarrow> nat \<Rightarrow> string \<Rightarrow> nat \<times> string" where
  "ls_loop norm lim [] count out = (count, out)"
| "ls_loop norm lim (e # es) count out =
     (if ftyp e = FILE_UNUSED then ls_loop norm lim es count out
      else if (if str_eq norm ''/'' then str_eq (fparent e) ''/'' else str_eq (fparent e) norm)
      then ls_loop norm lim es (count + 1) (emit lim out (ls_line e))
      else ls_loop norm lim es count out)"

definition ls :: "string option \<Rightarrow> u32 \<Rightarrow> fs \<Rightarrow> (int \<times> string) res" where
  "ls path buf_size fs =
     (case path of
        None \<Rightarrow> Inr (-1, [])
      | Some p \<Rightarrow>
          bind_res (normalize_path p) (\<lambda>norm.
            if buf_size = 0 then Inl BufferOverflow
            else let (count, out) = ls_loop norm (unat (buf_size - 1)) fs 0 []
                 in Inr (int count, out)))"

definition full_path :: "string \<Rightarrow> string \<Rightarrow> string res" where
  "full_path parent name =
     (if str_eq parent ''/'' then strcat_buf MAX_PATH_LEN ''/'' name
      else bind_res (strcpy_buf MAX_PATH_LEN parent) (\<lambda>d.
           bind_res (strcat_buf MAX_PATH_LEN d ''/'') (\<lambda>d. strcat_buf MAX_PATH_LEN d name)))"

definition rm :: "string option \<Rightarrow> fs \<Rightarrow> (bool \<times> fs) res" where
  "rm path fs =
     (if invalid_path path then Inr (False, fs)
      else bind_res (normalize_path (the path)) (\<lambda>norm.
        if str_eq norm ''/'' then Inr (False, fs)
        else bind_res (split_path norm) (\<lambda>(parent, name).
          case find_entry parent name fs of
            None \<Rightarrow> Inr (False, fs)
          | Some idx \<Rightarrow>
              if ftyp (fs ! idx) = FILE_DIRECTORY
              then bind_res (full_path parent name) (\<lambda>full.
                     if \<exists>e\<in>set fs. ftyp e \<noteq> FILE_UNUSED \<and> str_eq (fparent e) full then Inr (False, fs)
                     else Inr (True, fs[idx := blank_entry]))
              else Inr (True, fs[idx := blank_entry]))))"

section \<open>Paths: what normalising and splitting give\<close>

lemma strip_take: "\<exists>k. strip_slashes s = take k s"
proof (induction s rule: strip_slashes.induct)
  case (1 s)
  show ?case
  proof (cases "length s > 1 \<and> last s = slash")
    case True
    with 1 obtain k where "strip_slashes (butlast s) = take k (butlast s)" by blast
    with True have "strip_slashes s = take (min k (length s - 1)) s"
      by (subst strip_slashes.simps) (simp add: butlast_conv_take min.commute)
    then show ?thesis by blast
  next
    case False
    then have "strip_slashes s = take (length s) s" by (subst strip_slashes.simps) auto
    then show ?thesis by blast
  qed
qed

lemma strip_done: "\<not> (length (strip_slashes s) > 1 \<and> last (strip_slashes s) = slash)"
proof (induction s rule: strip_slashes.induct)
  case (1 s)
  show ?case
  proof (cases "length s > 1 \<and> last s = slash")
    case True
    then have "strip_slashes s = strip_slashes (butlast s)" by (subst strip_slashes.simps) auto
    with 1 True show ?thesis by simp
  next
    case False
    then have "strip_slashes s = s" by (subst strip_slashes.simps) auto
    with False show ?thesis by simp
  qed
qed

lemma strip_idem: "\<not> (length s > 1 \<and> last s = slash) \<Longrightarrow> strip_slashes s = s"
  by (subst strip_slashes.simps) auto

lemma strip_strip [simp]: "strip_slashes (strip_slashes s) = strip_slashes s"
  by (rule strip_idem [OF strip_done])

lemma strip_hd: "s \<noteq> [] \<Longrightarrow> strip_slashes s \<noteq> [] \<and> hd (strip_slashes s) = hd s"
proof (induction s rule: strip_slashes.induct)
  case (1 s)
  show ?case
  proof (cases "length s > 1 \<and> last s = slash")
    case True
    then have "butlast s \<noteq> []" "hd (butlast s) = hd s"
      by (cases s rule: list.exhaust; auto simp: butlast_conv_take hd_conv_nth)+
    with 1 True show ?thesis by (subst (1 2) strip_slashes.simps) simp
  next
    case False
    with 1 show ?thesis by (subst (1 2) strip_slashes.simps) auto
  qed
qed

lemma strip_length: "length (strip_slashes s) \<le> length s"
  using strip_take [of s] by auto

lemma normalize_Inr: "normalize_path s = Inr t \<longleftrightarrow> t = strip_slashes s \<and> length s < MAX_PATH_LEN"
  by (auto simp: normalize_path_def bind_res_Inr)

lemma last_slash_Some:
  "last_slash s n = Some k \<Longrightarrow> k < n \<and> s ! k = slash \<and> (\<forall>j. k < j \<and> j < n \<longrightarrow> s ! j \<noteq> slash)"
proof (induction n)
  case (Suc n)
  show ?case
  proof (cases "s ! n = slash")
    case False
    with Suc have "k < n" "s ! k = slash" "\<forall>j. k < j \<and> j < n \<longrightarrow> s ! j \<noteq> slash" by simp_all
    with False show ?thesis by (simp add: less_Suc_eq) blast
  qed (use Suc in auto)
qed simp

lemma last_slash_None: "last_slash s n = None \<Longrightarrow> \<forall>j<n. s ! j \<noteq> slash"
  by (induction n) (auto simp: less_Suc_eq split: if_splits)

definition join_path :: "string \<Rightarrow> string \<Rightarrow> string" where
  "join_path parent name = (if parent = ''/'' then parent @ name else parent @ ''/'' @ name)"

lemma full_path_Inr: "full_path parent name = Inr full \<Longrightarrow> full = join_path parent name"
  by (auto simp: full_path_def join_path_def bind_res_Inr strcat_buf_def split: if_splits)

lemma split_name:
  assumes "split_path p = Inr (parent, name)"
  shows "slash \<notin> set name" "length name < MAX_NAME_LEN" "length p < MAX_PATH_LEN" "parent \<noteq> []"
proof -
  let ?c = "strip_slashes p"
  from assms show "length name < MAX_NAME_LEN" "length p < MAX_PATH_LEN"
    by (auto simp: split_path_def bind_res_Inr Let_def normalize_Inr)
  have "name = (case last_slash ?c (length ?c) of None \<Rightarrow> ?c | Some k \<Rightarrow> drop (k + 1) ?c)"
    and par: "parent = (case last_slash ?c (length ?c) of None \<Rightarrow> ''/'' | Some 0 \<Rightarrow> ''/'' | Some k \<Rightarrow> take k p)"
    using assms by (auto simp: split_path_def bind_res_Inr Let_def normalize_Inr)
  then show "slash \<notin> set name"
    using last_slash_Some [of ?c "length ?c"] last_slash_None [of ?c "length ?c"]
    by (auto simp: in_set_conv_nth split: option.splits)
  show "parent \<noteq> []"
    using par last_slash_Some [of ?c "length ?c"] strip_length [of p]
    by (fastforce split: option.splits nat.splits)
qed

lemma split_join:
  assumes "split_path p = Inr (parent, name)" "strip_slashes p = p" "p \<noteq> []" "hd p = slash"
    and nd: "\<not> (length p > 1 \<and> p ! 1 = slash)"
  shows "join_path parent name = p" "parent = ''/'' \<or> (\<exists>k. 0 < k \<and> k < length p \<and> parent = take k p \<and> p ! k = slash)"
proof -
  from assms(3,4) have s0: "p ! 0 = slash" by (simp add: hd_conv_nth)
  with assms(3) have "last_slash p (length p) \<noteq> None" using last_slash_None [of p "length p"] by auto
  then obtain k where k: "last_slash p (length p) = Some k" by blast
  note l = last_slash_Some [OF k]
  have sp: "parent = (if k = 0 then ''/'' else take k p)" "name = drop (k + 1) p"
    using assms(1,2) k by (auto simp: split_path_def bind_res_Inr Let_def normalize_Inr split: nat.splits)
  have d: "p = take k p @ slash # drop (k + 1) p" using l by (metis Suc_eq_plus1 id_take_nth_drop)
  show "join_path parent name = p"
  proof (cases "k = 0")
    case True
    then show ?thesis using sp d by (simp add: join_path_def)
  next
    case False
    have "k \<noteq> 1" using l nd by auto
    with False l have "length (take k p) > 1" by simp
    then have "take k p \<noteq> ''/''" by (metis One_nat_def length_Cons less_irrefl list.size(3))
    with False sp d show ?thesis by (simp add: join_path_def)
  qed
  show "parent = ''/'' \<or> (\<exists>k. 0 < k \<and> k < length p \<and> parent = take k p \<and> p ! k = slash)"
    using sp l by auto
qed

section \<open>Invariant of the table\<close>

abbreviation fused :: "fentry \<Rightarrow> bool" where "fused e \<equiv> ftyp e \<noteq> FILE_UNUSED"
abbreviation fkey :: "fentry \<Rightarrow> string \<times> string" where "fkey e \<equiv> (fparent e, fname e)"

definition entry_ok :: "fentry \<Rightarrow> bool" where
  "entry_ok e \<longleftrightarrow>
     (if fused e
      then slash \<notin> set (fname e) \<and> fname e \<noteq> [] \<and> length (fname e) < MAX_NAME_LEN \<and> fparent e \<noteq> [] \<and>
           fsize e = length (fdata e) \<and> fsize e < MAX_FILE_DATA
      else e = blank_entry)"

definition fs_inv :: "fs \<Rightarrow> bool" where
  "fs_inv fs \<longleftrightarrow>
     length fs = MAX_FILES \<and>
     fs ! 0 = \<lparr>fname = ''/'', fparent = [], ftyp = FILE_DIRECTORY, fdata = [], fsize = 0\<rparr> \<and>
     uniq_keys fused fkey fs \<and>
     (\<forall>i. 0 < i \<and> i < MAX_FILES \<longrightarrow> entry_ok (fs ! i))"

lemma find_entry_key: "find_entry parent name fs = find_idx (\<lambda>e. fused e \<and> fkey e = (parent, name)) fs"
  by (simp add: find_entry_def conj_commute)

lemma fs_init_inv: "fs_inv fs_init"
proof -
  have n: "fs_init ! i = (if i = 0 then \<lparr>fname = ''/'', fparent = [], ftyp = FILE_DIRECTORY, fdata = [], fsize = 0\<rparr>
                         else blank_entry)" if "i < MAX_FILES" for i
    using that by (auto simp: fs_init_def nth_list_update)
  have l: "length fs_init = MAX_FILES" by (simp add: fs_init_def)
  have "uniq_keys fused fkey fs_init"
    unfolding uniq_keys_def l by (auto simp: n blank_entry_def)
  then show ?thesis using n [of 0] n l by (auto simp: fs_inv_def entry_ok_def blank_entry_def MAX_FILES_def)
qed

lemma find_entry_pos:
  assumes "fs_inv fs" "find_entry parent name fs = Some i" "slash \<notin> set name"
  shows "0 < i" "i < MAX_FILES" "fused (fs ! i)" "fparent (fs ! i) = parent" "fname (fs ! i) = name"
proof -
  show *: "i < MAX_FILES" "fused (fs ! i)" "fparent (fs ! i) = parent" "fname (fs ! i) = name"
    using assms(1,2) find_idx_len [of _ fs i] find_idx_sat [of _ fs i]
    by (auto simp: find_entry_key fs_inv_def)
  show "0 < i"
  proof (rule ccontr)
    assume "\<not> 0 < i"
    with * assms show False by (auto simp: fs_inv_def)
  qed
qed

lemma free_slot_pos:
  assumes "fs_inv fs" "find_free_slot fs = Some i"
  shows "0 < i" "i < MAX_FILES" "fs ! i = blank_entry"
proof -
  have i: "i < MAX_FILES" "\<not> fused (fs ! i)"
    using assms find_idx_len [of _ fs i] find_idx_sat [of _ fs i] by (auto simp: find_free_slot_def fs_inv_def)
  show "i < MAX_FILES" by fact
  show "0 < i"
  proof (rule ccontr)
    assume "\<not> 0 < i"
    with i assms(1) show False by (auto simp: fs_inv_def)
  qed
  with i assms(1) show "fs ! i = blank_entry" by (auto simp: fs_inv_def entry_ok_def)
qed

lemma fs_inv_update:
  assumes "fs_inv fs" "0 < i" "entry_ok e" "uniq_keys fused fkey (fs[i := e])"
  shows "fs_inv (fs[i := e])"
proof -
  have "entry_ok ((fs[i := e]) ! j)" if "0 < j \<and> j < MAX_FILES" for j
    using assms(1,3) that by (cases "j = i") (auto simp: fs_inv_def)
  with assms show ?thesis by (simp add: fs_inv_def)
qed

lemma fs_inv_add:
  assumes "fs_inv fs" "find_free_slot fs = Some i" "\<not> path_exists (fparent e) (fname e) fs" "entry_ok e"
  shows "fs_inv (fs[i := e])"
proof (rule fs_inv_update [OF assms(1) free_slot_pos(1) [OF assms(1,2)] assms(4)])
  show "uniq_keys fused fkey (fs[i := e])"
    using assms(1,3) by (intro uniq_keys_update_fresh) (auto simp: fs_inv_def path_exists_def find_entry_key find_idx_None_iff)
qed

lemma fs_inv_remove: "fs_inv fs \<Longrightarrow> 0 < i \<Longrightarrow> fs_inv (fs[i := blank_entry])"
  by (intro fs_inv_update uniq_keys_update_dead) (auto simp: fs_inv_def entry_ok_def blank_entry_def)

lemma store_file_inv:
  assumes "fs_inv fs" "0 < i" "i < MAX_FILES" "store_file i c fs = Inr (b, fs')"
  shows "fs_inv fs'" "fs' = fs \<and> \<not> b \<or> (b \<and> ftyp (fs ! i) = FILE_REGULAR \<and>
         fs' = fs[i := (fs ! i)\<lparr>fdata := take 1023 c, fsize := min 1023 (length c)\<rparr>])"
proof -
  show d: "fs' = fs \<and> \<not> b \<or> (b \<and> ftyp (fs ! i) = FILE_REGULAR \<and>
         fs' = fs[i := (fs ! i)\<lparr>fdata := take 1023 c, fsize := min 1023 (length c)\<rparr>])"
  proof -
    have e: "(if MAX_FILE_DATA \<le> length c then MAX_FILE_DATA - 1 else length c) = min 1023 (length c)"
      by (simp add: MAX_FILE_DATA_def)
    have t: "take (min 1023 (length c)) c = take 1023 c" by (simp add: min_def)
    show ?thesis using assms(4) unfolding store_file_def fs_strlen_length Let_def e t by (auto split: if_splits)
  qed
  have ok: "entry_ok (fs ! i)" using assms by (simp add: fs_inv_def)
  have len: "length fs = MAX_FILES" using assms by (simp add: fs_inv_def)
  from d show "fs_inv fs'"
  proof
    assume b: "b \<and> ftyp (fs ! i) = FILE_REGULAR \<and>
         fs' = fs[i := (fs ! i)\<lparr>fdata := take 1023 c, fsize := min 1023 (length c)\<rparr>]"
    have "entry_ok ((fs ! i)\<lparr>fdata := take 1023 c, fsize := min 1023 (length c)\<rparr>)"
      using ok b by (auto simp: entry_ok_def MAX_FILE_DATA_def min.commute)
    moreover have "uniq_keys fused fkey (fs[i := (fs ! i)\<lparr>fdata := take 1023 c, fsize := min 1023 (length c)\<rparr>])"
      using assms(1) b by (intro uniq_keys_update_same) (auto simp: fs_inv_def)
    ultimately show ?thesis using b fs_inv_update [OF assms(1,2)] by blast
  qed (use assms(1) in simp)
qed

section \<open>Outcomes of the operations\<close>

definition names :: "string option \<Rightarrow> string \<Rightarrow> string \<Rightarrow> bool" where
  "names path parent name \<longleftrightarrow>
     (\<exists>p. path = Some p \<and> p \<noteq> [] \<and> hd p = slash \<and> length p < MAX_PATH_LEN \<and>
          split_path (strip_slashes p) = Inr (parent, name))"

lemma invalid_path_Some: "invalid_path path \<longleftrightarrow> (path = None \<or> path = Some [] \<or> hd (the path) \<noteq> slash)"
  by (auto simp: invalid_path_def split: option.splits list.splits)

lemma mkdir_cases:
  assumes "mkdir path fs = Inr (b, fs')"
  obtains (no) "\<not> b" "fs' = fs"
  | (yes) parent name i where "b" "names path parent name" "name \<noteq> []" "parent_ok parent fs = Inr True"
      "\<not> path_exists parent name fs" "find_free_slot fs = Some i"
      "fs' = fs[i := (fs ! i)\<lparr>ftyp := FILE_DIRECTORY, fname := name, fparent := parent, fsize := 0\<rparr>]"
proof (cases b)
  case False
  with assms have "fs' = fs"
    by (auto simp: mkdir_def bind_res_Inr normalize_Inr split: if_splits option.splits)
  with False show ?thesis by (rule no)
next
  case True
  with assms show ?thesis
    by (auto simp: mkdir_def bind_res_Inr normalize_Inr invalid_path_Some names_def
        split: if_splits option.splits intro!: yes)
qed

lemma touch_cases:
  assumes "touch path fs = Inr (b, fs')"
  obtains (no) "\<not> b" "fs' = fs"
  | (old) parent name where "b" "names path parent name" "name \<noteq> []" "path_exists parent name fs" "fs' = fs"
      "parent_ok parent fs = Inr True"
  | (new) parent name i where "b" "names path parent name" "name \<noteq> []" "parent_ok parent fs = Inr True"
      "\<not> path_exists parent name fs" "find_free_slot fs = Some i"
      "fs' = fs[i := (fs ! i)\<lparr>ftyp := FILE_REGULAR, fname := name, fparent := parent, fsize := 0, fdata := []\<rparr>]"
proof (cases b)
  case False
  with assms have "fs' = fs"
    by (auto simp: touch_def bind_res_Inr normalize_Inr split: if_splits option.splits)
  with False show ?thesis by (rule no)
next
  case True
  with assms show ?thesis
    by (auto simp: touch_def bind_res_Inr normalize_Inr invalid_path_Some names_def
        split: if_splits option.splits intro: old new)
qed

lemma rm_cases:
  assumes "rm path fs = Inr (b, fs')"
  obtains (no) "\<not> b" "fs' = fs"
  | (yes) parent name i where "b" "names path parent name" "find_entry parent name fs = Some i"
      "ftyp (fs ! i) = FILE_DIRECTORY \<Longrightarrow> \<forall>e\<in>set fs. fused e \<longrightarrow> fparent e \<noteq> join_path parent name"
      "fs' = fs[i := blank_entry]"
proof (cases b)
  case False
  with assms have "fs' = fs"
    by (auto simp: rm_def bind_res_Inr normalize_Inr split: if_splits option.splits)
  with False show ?thesis by (rule no)
next
  case True
  with assms show ?thesis
    by (auto simp: rm_def bind_res_Inr normalize_Inr invalid_path_Some names_def
        split: if_splits option.splits intro!: yes dest: full_path_Inr)
qed

lemma names_strip: "names (Some (strip_slashes p)) parent name \<Longrightarrow> p \<noteq> [] \<Longrightarrow> length p < MAX_PATH_LEN \<Longrightarrow> names (Some p) parent name"
  using strip_hd [of p] by (auto simp: names_def)

lemma names_unique: "names path p n \<Longrightarrow> names path p' n' \<Longrightarrow> p' = p \<and> n' = n"
  by (auto simp: names_def)

lemma names_slash: "names path parent name \<Longrightarrow> slash \<notin> set name \<and> length name < MAX_NAME_LEN \<and> parent \<noteq> []"
  using split_name by (fastforce simp: names_def)

lemma write_cases:
  assumes "write_file path (Some c) fs = Inr (b, fs')"
  obtains (no) "\<not> b" "fs' = fs \<or> (\<exists>p. path = Some p \<and> touch (Some (strip_slashes p)) fs = Inr (True, fs'))"
  | (old) parent name i where "names path parent name" "find_entry parent name fs = Some i"
      "store_file i c fs = Inr (b, fs')"
  | (new) p parent name i fs1 where "path = Some p" "names path parent name" "find_entry parent name fs = None"
      "touch (Some (strip_slashes p)) fs = Inr (True, fs1)" "find_entry parent name fs1 = Some i"
      "store_file i c fs1 = Inr (b, fs')"
proof (cases "invalid_path path")
  case True
  with assms show ?thesis by (intro no) (auto simp: write_file_def)
next
  case False
  then obtain p where p: "path = Some p" "p \<noteq> []" "hd p = slash"
    by (cases path) (auto simp: invalid_path_Some)
  from assms False obtain parent name where n: "length p < MAX_PATH_LEN" "split_path (strip_slashes p) = Inr (parent, name)"
    by (auto simp: write_file_def bind_res_Inr normalize_Inr p(1))
  have nm: "names path parent name" using p n by (simp add: names_def)
  show ?thesis
  proof (cases "find_entry parent name fs")
    case (Some i)
    with assms False n have "store_file i c fs = Inr (b, fs')"
      by (auto simp: write_file_def bind_res_Inr normalize_Inr p(1))
    with nm Some show ?thesis by (rule old)
  next
    case None
    with assms False n obtain ok fs1 where t: "touch (Some (strip_slashes p)) fs = Inr (ok, fs1)"
      and r: "(if \<not> ok then Inr (False, fs1)
                else case find_entry parent name fs1 of None \<Rightarrow> Inr (False, fs1)
                     | Some idx \<Rightarrow> store_file idx c fs1) = Inr (b, fs')"
      by (auto simp: write_file_def bind_res_Inr normalize_Inr p(1) cong: if_cong option.case_cong)
    show ?thesis
    proof (cases ok)
      case False
      with t have "fs1 = fs" by (auto elim: touch_cases)
      with False r show ?thesis by (intro no) auto
    next
      case ok: True
      show ?thesis
      proof (cases "find_entry parent name fs1")
        case 1: None
        with ok r t p(1) show ?thesis by (intro no) auto
      next
        case 1: (Some i)
        with ok r have "store_file i c fs1 = Inr (b, fs')" by simp
        with p(1) nm None t [unfolded eqTrueI [OF ok]] 1 show ?thesis by (rule new)
      qed
    qed
  qed
qed

lemma mkdir_inv:
  assumes "fs_inv fs" "mkdir path fs = Inr (b, fs')"
  shows "fs_inv fs'"
  using assms(2)
proof (cases rule: mkdir_cases)
  case (yes parent name i)
  have "fs ! i = blank_entry" using free_slot_pos [OF assms(1) yes(6)] by simp
  then have "entry_ok ((fs ! i)\<lparr>ftyp := FILE_DIRECTORY, fname := name, fparent := parent, fsize := 0\<rparr>)"
    using yes(3) names_slash [OF yes(2)] by (simp add: entry_ok_def blank_entry_def MAX_FILE_DATA_def)
  then show ?thesis using fs_inv_add [OF assms(1) yes(6)] yes(5) by (simp add: yes(7))
qed (use assms(1) in simp)

lemma touch_inv:
  assumes "fs_inv fs" "touch path fs = Inr (b, fs')"
  shows "fs_inv fs'"
  using assms(2)
proof (cases rule: touch_cases)
  case (new parent name i)
  have "fs ! i = blank_entry" using free_slot_pos [OF assms(1) new(6)] by simp
  then have "entry_ok ((fs ! i)\<lparr>ftyp := FILE_REGULAR, fname := name, fparent := parent, fsize := 0, fdata := []\<rparr>)"
    using new(3) names_slash [OF new(2)] by (simp add: entry_ok_def blank_entry_def MAX_FILE_DATA_def)
  then show ?thesis using fs_inv_add [OF assms(1) new(6)] new(5) by (simp add: new(7))
qed (use assms(1) in simp_all)

lemma write_inv:
  assumes "fs_inv fs" "write_file path content fs = Inr (b, fs')"
  shows "fs_inv fs'"
proof (cases content)
  case None
  with assms show ?thesis by (simp add: write_file_def)
next
  case (Some c)
  from assms(2) [unfolded Some] show ?thesis
  proof (cases rule: write_cases)
    case no
    with assms(1) touch_inv show ?thesis by blast
  next
    case (old parent name i)
    note pos = find_entry_pos [OF assms(1) old(2) conjunct1 [OF names_slash [OF old(1)]]]
    show ?thesis by (rule store_file_inv(1) [OF assms(1) pos(1,2) old(3)])
  next
    case (new p parent name i fs1)
    have "fs_inv fs1" using assms(1) new(4) by (rule touch_inv)
    note pos = find_entry_pos [OF this new(5) conjunct1 [OF names_slash [OF new(2)]]]
    show ?thesis by (rule store_file_inv(1) [OF \<open>fs_inv fs1\<close> pos(1,2) new(6)])
  qed
qed

lemma rm_inv:
  assumes "fs_inv fs" "rm path fs = Inr (b, fs')"
  shows "fs_inv fs'"
  using assms(2)
proof (cases rule: rm_cases)
  case (yes parent name i)
  note pos = find_entry_pos [OF assms(1) yes(3) conjunct1 [OF names_slash [OF yes(2)]]]
  show ?thesis unfolding yes(5) by (rule fs_inv_remove [OF assms(1) pos(1)])
qed (use assms(1) in simp)

section \<open>Runs\<close>

datatype fs_op = Mkdir "string option" | Touch "string option" | Write "string option" "string option" | Rm "string option"

text \<open>
  An operation that overruns a buffer faults; then nothing is known of the memory and the run has no further step.
\<close>

definition fs_apply :: "fs_op \<Rightarrow> fs \<Rightarrow> (bool \<times> fs) res" where
  "fs_apply op fs = (case op of Mkdir p \<Rightarrow> mkdir p fs | Touch p \<Rightarrow> touch p fs | Write p c \<Rightarrow> write_file p c fs | Rm p \<Rightarrow> rm p fs)"

definition fs_step :: "fs \<Rightarrow> fs_op \<Rightarrow> fs res" where
  "fs_step fs op = bind_res (fs_apply op fs) (\<lambda>(ok, fs'). Inr fs')"

definition fs_does :: "fs \<Rightarrow> fs_op \<Rightarrow> fs \<Rightarrow> bool" where
  "fs_does fs op fs' \<longleftrightarrow> fs_step fs op = Inr fs'"

lemma fs_step_Inr: "fs_step fs op = Inr fs' \<longleftrightarrow> (\<exists>b. fs_apply op fs = Inr (b, fs'))"
  by (auto simp: fs_step_def bind_res_Inr)

lemma fs_does_inv: "fs_inv fs \<Longrightarrow> fs_does fs op fs' \<Longrightarrow> fs_inv fs'"
  by (cases op) (auto simp: fs_does_def fs_step_Inr fs_apply_def dest: mkdir_inv touch_inv write_inv rm_inv)

interpretation fsr: event_system fs_inv fs_does
  by unfold_locales (rule fs_does_inv)

section \<open>Which arguments overrun a buffer\<close>

definition overlong :: "string \<Rightarrow> bool" where
  "overlong p \<longleftrightarrow> MAX_PATH_LEN \<le> length p \<or>
     (\<exists>n<length p. n + MAX_NAME_LEN \<le> length p \<and> slash \<notin> set (take MAX_NAME_LEN (drop n p)))"

definition op_path :: "fs_op \<Rightarrow> string option" where
  "op_path op = (case op of Mkdir p \<Rightarrow> p | Touch p \<Rightarrow> p | Write p c \<Rightarrow> p | Rm p \<Rightarrow> p)"

lemma overlong_take: "overlong (take m p) \<Longrightarrow> overlong p"
proof -
  assume "overlong (take m p)"
  then consider "MAX_PATH_LEN \<le> length p"
    | n where "n + MAX_NAME_LEN \<le> length (take m p)" "slash \<notin> set (take MAX_NAME_LEN (drop n (take m p)))"
    by (auto simp: overlong_def)
  then show "overlong p"
  proof cases
    case 2
    then have "MAX_NAME_LEN \<le> m - n" by auto
    then have "take MAX_NAME_LEN (drop n (take m p)) = take MAX_NAME_LEN (drop n p)"
      by (simp add: drop_take min_absorb1)
    with 2 show ?thesis unfolding overlong_def by (intro disjI2 exI [of _ n]) (auto simp: MAX_NAME_LEN_def)
  qed (simp add: overlong_def)
qed

lemma overlong_strip: "overlong (strip_slashes p) \<Longrightarrow> overlong p"
  using strip_take [of p] overlong_take by metis

lemma long_name: "slash \<notin> set (drop j p) \<Longrightarrow> MAX_NAME_LEN \<le> length (drop j p) \<Longrightarrow> overlong p"
  unfolding overlong_def by (intro disjI2 exI [of _ j]) (auto simp: MAX_NAME_LEN_def dest: in_set_takeD)

lemma bind_fault: "bind_res m f = Inl e \<longleftrightarrow> m = Inl e \<or> (\<exists>x. m = Inr x \<and> f x = Inl e)"
  by (cases m) auto

lemma normalize_fault: "normalize_path p = Inl e \<Longrightarrow> overlong p"
  by (auto simp: normalize_path_def bind_res_def strcpy_buf_def overlong_def split: if_splits)

lemma split_fault:
  assumes "split_path p = Inl e"
  shows "overlong p"
proof (cases "length p < MAX_PATH_LEN")
  case True
  let ?c = "strip_slashes p"
  define j where "j = (case last_slash ?c (length ?c) of None \<Rightarrow> 0 | Some k \<Rightarrow> k + 1)"
  have n: "normalize_path p = Inr ?c" using True by (simp add: normalize_Inr)
  have "split_path p = bind_res (strcpy_buf MAX_NAME_LEN (drop j ?c)) (\<lambda>name. Inr (case last_slash ?c (length ?c) of
      None \<Rightarrow> ''/'' | Some 0 \<Rightarrow> ''/'' | Some k \<Rightarrow> take k p, name))"
    by (simp add: split_path_def n Let_def j_def split: option.split)
  with assms have "MAX_NAME_LEN \<le> length (drop j ?c)"
    by (cases "MAX_NAME_LEN \<le> length (drop j ?c)") simp_all
  moreover have "slash \<notin> set (drop j ?c)"
  proof (cases "last_slash ?c (length ?c)")
    case None
    then show ?thesis using last_slash_None [of ?c "length ?c"] by (auto simp: j_def in_set_conv_nth)
  next
    case (Some k)
    then show ?thesis using last_slash_Some [OF Some] by (auto simp: j_def in_set_conv_nth)
  qed
  ultimately have "overlong ?c" by (intro long_name)
  then show ?thesis by (rule overlong_strip)
qed (simp add: overlong_def)

lemma split_parent:
  assumes "split_path p = Inr (parent, name)"
  shows "parent = ''/'' \<or> (\<exists>k. parent = take k p \<and> length parent + 1 + length name \<le> length p)"
proof -
  let ?c = "strip_slashes p"
  have c: "length ?c \<le> length p" by (rule strip_length)
  have p: "parent = (case last_slash ?c (length ?c) of None \<Rightarrow> ''/'' | Some 0 \<Rightarrow> ''/'' | Some k \<Rightarrow> take k p)"
    "name = (case last_slash ?c (length ?c) of None \<Rightarrow> ?c | Some k \<Rightarrow> drop (k + 1) ?c)"
    using assms by (auto simp: split_path_def bind_res_Inr Let_def normalize_Inr)
  then show ?thesis
    using c last_slash_Some [of ?c "length ?c"] by (fastforce split: option.splits nat.splits)
qed

lemma parent_fault:
  assumes "split_path p = Inr (parent, name)" "parent_ok parent fs = Inl e"
  shows "overlong p"
proof -
  have "parent \<noteq> ''/'' \<and> split_path parent = Inl e"
    using assms(2) by (auto simp: parent_ok_def bind_fault split: if_splits)
  then have "parent \<noteq> ''/''" "overlong parent" by (auto intro: split_fault)
  moreover from this obtain k where "parent = take k p" using split_parent [OF assms(1)] by blast
  ultimately have "overlong (take k p)" by simp
  then show ?thesis by (rule overlong_take)
qed

lemma full_safe:
  assumes "split_path p = Inr (parent, name)"
  shows "full_path parent name \<noteq> Inl e"
proof (cases "parent = ''/''")
  case True
  then show ?thesis
    using split_name(2) [OF assms] by (simp add: full_path_def strcat_buf_def MAX_PATH_LEN_def MAX_NAME_LEN_def)
next
  case False
  then have "length parent + 1 + length name < MAX_PATH_LEN"
    using split_parent [OF assms] split_name(3) [OF assms] by auto
  with False show ?thesis by (simp add: full_path_def)
qed

lemma op_faults:
  "mkdir path fs = Inl e \<Longrightarrow> \<exists>p. path = Some p \<and> overlong p"
  "touch path fs = Inl e \<Longrightarrow> \<exists>p. path = Some p \<and> overlong p"
  "rm path fs = Inl e \<Longrightarrow> \<exists>p. path = Some p \<and> overlong p"
  by (auto simp: mkdir_def touch_def rm_def bind_fault normalize_Inr invalid_path_Some full_safe
      dest: normalize_fault split_fault parent_fault overlong_strip split: if_splits option.splits)

lemma write_fault: "write_file path c fs = Inl e \<Longrightarrow> \<exists>p. path = Some p \<and> overlong p"
  by (auto simp: write_file_def bind_fault normalize_Inr invalid_path_Some store_file_def Let_def
      dest: normalize_fault split_fault overlong_strip op_faults(2) split: if_splits option.splits)

lemma fs_apply_fault: "fs_apply op fs = Inl e \<Longrightarrow> \<exists>p. op_path op = Some p \<and> overlong p"
  by (cases op) (auto simp: fs_apply_def op_path_def dest: op_faults write_fault)

section \<open>The tree\<close>

definition clean_path :: "string \<Rightarrow> bool" where
  "clean_path p \<longleftrightarrow> successively (\<lambda>a b. \<not> (a = slash \<and> b = slash)) (strip_slashes p)"

definition has_parent :: "fs \<Rightarrow> fentry \<Rightarrow> bool" where
  "has_parent fs e \<longleftrightarrow> fparent e = ''/'' \<or>
     (\<exists>j. 0 < j \<and> j < MAX_FILES \<and> ftyp (fs ! j) = FILE_DIRECTORY \<and> join_path (fparent (fs ! j)) (fname (fs ! j)) = fparent e)"

definition fs_tree :: "fs \<Rightarrow> bool" where
  "fs_tree fs \<longleftrightarrow> fs_inv fs \<and> (\<forall>i. 0 < i \<and> i < MAX_FILES \<and> fused (fs ! i) \<longrightarrow> has_parent fs (fs ! i))"

lemma clean_parent:
  assumes "names (Some p) parent name" "clean_path p" "parent \<noteq> ''/''"
  shows "strip_slashes parent = parent" "parent \<noteq> []" "hd parent = slash" "\<not> (length parent > 1 \<and> parent ! 1 = slash)"
proof -
  define s where "s = strip_slashes p"
  have n: "p \<noteq> []" "hd p = slash" "split_path s = Inr (parent, name)" using assms(1) by (auto simp: names_def s_def)
  have s: "strip_slashes s = s" "s \<noteq> []" "hd s = slash" using strip_hd [OF n(1)] n(2) by (auto simp: s_def)
  have cl: "\<not> (s ! i = slash \<and> s ! Suc i = slash)" if "Suc i < length s" for i
    using assms(2) that by (simp add: clean_path_def s_def successively_conv_nth)
  have nd: "\<not> (length s > 1 \<and> s ! 1 = slash)" using cl [of 0] s(2,3) by (auto simp: hd_conv_nth)
  from split_join(2) [OF n(3) s nd] assms(3) obtain k where k: "0 < k" "k < length s" "parent = take k s" "s ! k = slash" by blast
  show "parent \<noteq> []" "hd parent = slash" using k s by (auto simp: hd_conv_nth)
  show "\<not> (length parent > 1 \<and> parent ! 1 = slash)" using k nd by auto
  have "last parent = s ! (k - 1)" using k by (cases k) (simp_all add: take_Suc_conv_app_nth)
  moreover have "s ! (k - 1) \<noteq> slash" using cl [of "k - 1"] k by simp
  ultimately show "strip_slashes parent = parent" by (intro strip_idem) simp
qed

lemma parent_found:
  assumes "fs_inv fs" "names (Some p) parent name" "clean_path p" "parent_ok parent fs = Inr True" "fparent e = parent"
  shows "has_parent fs e"
proof (cases "parent = ''/''")
  case True
  with assms(5) show ?thesis by (simp add: has_parent_def)
next
  case False
  note c = clean_parent [OF assms(2,3) False]
  from assms(4) False obtain pp pn j where j: "split_path parent = Inr (pp, pn)" "find_entry pp pn fs = Some j"
      "ftyp (fs ! j) = FILE_DIRECTORY"
    by (auto simp: parent_ok_def bind_res_Inr split: option.splits)
  note pos = find_entry_pos [OF assms(1) j(2) split_name(1) [OF j(1)]]
  have "join_path pp pn = parent" using j(1) c by (rule split_join(1))
  with pos j(3) assms(5) show ?thesis unfolding has_parent_def by (intro disjI2 exI [of _ j]) simp
qed

lemma has_parent_mono:
  assumes "has_parent fs e" "fparent e' = fparent e"
    "\<And>j. 0 < j \<Longrightarrow> j < MAX_FILES \<Longrightarrow> ftyp (fs ! j) = FILE_DIRECTORY \<Longrightarrow>
         join_path (fparent (fs ! j)) (fname (fs ! j)) = fparent e \<Longrightarrow>
         ftyp (fs' ! j) = FILE_DIRECTORY \<and> fkey (fs' ! j) = fkey (fs ! j)"
  shows "has_parent fs' e'"
  using assms unfolding has_parent_def by (metis prod.inject)

lemma tree_add:
  assumes t: "fs_tree fs" and i: "find_free_slot fs = Some i" and inv: "fs_inv (fs[i := e])" and p: "has_parent fs e"
  shows "fs_tree (fs[i := e])"
  unfolding fs_tree_def
proof (intro conjI allI impI)
  show "fs_inv (fs[i := e])" by fact
  fix k
  assume k: "0 < k \<and> k < MAX_FILES \<and> fused (fs[i := e] ! k)"
  have fr: "\<not> fused (fs ! i)" and len: "length fs = MAX_FILES" and "fs_inv fs"
    using t i find_idx_sat [of _ fs i] by (auto simp: fs_tree_def fs_inv_def find_free_slot_def)
  have ne: "ftyp (fs ! j) = FILE_DIRECTORY \<Longrightarrow> fs[i := e] ! j = fs ! j" for j
    using fr by (cases "j = i") auto
  have hp: "has_parent fs (fs[i := e] ! k)"
    using k p t len by (cases "k = i") (auto simp: fs_tree_def)
  show "has_parent (fs[i := e]) (fs[i := e] ! k)"
    using hp by (rule has_parent_mono) (simp_all add: ne)
qed

lemma tree_store:
  assumes t: "fs_tree fs" and i: "0 < i" "i < MAX_FILES" and s: "store_file i c fs = Inr (b, fs')"
  shows "fs_tree fs'"
proof -
  have len: "length fs = MAX_FILES" and inv: "fs_inv fs" using t by (auto simp: fs_tree_def fs_inv_def)
  have k: "ftyp (fs' ! j) = ftyp (fs ! j) \<and> fkey (fs' ! j) = fkey (fs ! j)" for j
    using store_file_inv(2) [OF inv i s] len i by (cases "j = i") auto
  have "has_parent fs' (fs' ! j)" if "0 < j \<and> j < MAX_FILES \<and> fused (fs' ! j)" for j
  proof -
    have "has_parent fs (fs ! j)" using that t k [of j] by (simp add: fs_tree_def)
    then show ?thesis by (rule has_parent_mono) (use k in auto)
  qed
  then show ?thesis using store_file_inv(1) [OF inv i s] by (simp add: fs_tree_def)
qed

lemma tree_mkdir:
  assumes "fs_tree fs" "clean_path p" "mkdir (Some p) fs = Inr (b, fs')"
  shows "fs_tree fs'"
  using assms(3)
proof (cases rule: mkdir_cases)
  case (yes parent name i)
  have "fs_inv fs" using assms(1) by (simp add: fs_tree_def)
  from parent_found [OF this yes(2) assms(2) yes(4)] have
    "has_parent fs ((fs ! i)\<lparr>ftyp := FILE_DIRECTORY, fname := name, fparent := parent, fsize := 0\<rparr>)" by simp
  with mkdir_inv [OF \<open>fs_inv fs\<close> assms(3)] yes(6,7) assms(1) show ?thesis by (auto intro: tree_add)
qed (use assms(1) in simp)

lemma tree_touch:
  assumes "fs_tree fs" "clean_path p" "touch (Some p) fs = Inr (b, fs')"
  shows "fs_tree fs'"
  using assms(3)
proof (cases rule: touch_cases)
  case (new parent name i)
  have "fs_inv fs" using assms(1) by (simp add: fs_tree_def)
  from parent_found [OF this new(2) assms(2) new(4)] have
    "has_parent fs ((fs ! i)\<lparr>ftyp := FILE_REGULAR, fname := name, fparent := parent, fsize := 0, fdata := []\<rparr>)" by simp
  with touch_inv [OF \<open>fs_inv fs\<close> assms(3)] new(6,7) assms(1) show ?thesis by (auto intro: tree_add)
qed (use assms(1) in simp_all)

lemma tree_write:
  assumes t: "fs_tree fs" and cl: "clean_path p" and w: "write_file (Some p) (Some c) fs = Inr (b, fs')"
  shows "fs_tree fs'"
proof -
  have inv: "fs_inv fs" using t by (simp add: fs_tree_def)
  have cl': "clean_path (strip_slashes p)" using cl by (simp add: clean_path_def)
  from w show ?thesis
  proof (cases rule: write_cases)
    case no
    with t tree_touch [OF t cl'] show ?thesis by auto
  next
    case (old parent name i)
    note pos = find_entry_pos [OF inv old(2) conjunct1 [OF names_slash [OF old(1)]]]
    from tree_store [OF t pos(1,2) old(3)] show ?thesis .
  next
    case (new q parent name i fs1)
    have t1: "fs_tree fs1" using tree_touch [OF t cl'] new(1,4) by simp
    then have "fs_inv fs1" by (simp add: fs_tree_def)
    note pos = find_entry_pos [OF this new(5) conjunct1 [OF names_slash [OF new(2)]]]
    from tree_store [OF t1 pos(1,2) new(6)] show ?thesis .
  qed
qed

lemma tree_rm:
  assumes t: "fs_tree fs" and r: "rm path fs = Inr (b, fs')"
  shows "fs_tree fs'"
  using r
proof (cases rule: rm_cases)
  case (yes parent name i)
  have inv: "fs_inv fs" and len: "length fs = MAX_FILES" using t by (auto simp: fs_tree_def fs_inv_def)
  note pos = find_entry_pos [OF inv yes(3) conjunct1 [OF names_slash [OF yes(2)]]]
  have "has_parent fs' (fs' ! k)" if k: "0 < k \<and> k < MAX_FILES \<and> fused (fs' ! k)" for k
  proof -
    have ki: "k \<noteq> i" using k yes(5) len by (auto simp: blank_entry_def)
    then have e: "fs' ! k = fs ! k" by (simp add: yes(5))
    have "has_parent fs (fs ! k)" using t k by (simp add: fs_tree_def e)
    then have "has_parent fs' (fs ! k)"
    proof (rule has_parent_mono)
      fix j
      assume j: "ftyp (fs ! j) = FILE_DIRECTORY" "join_path (fparent (fs ! j)) (fname (fs ! j)) = fparent (fs ! k)"
      have "fs ! k \<in> set fs" using k len by simp
      then have "j \<noteq> i" using yes(4) j pos(4,5) k unfolding e by auto
      then show "ftyp (fs' ! j) = FILE_DIRECTORY \<and> fkey (fs' ! j) = fkey (fs ! j)"
        using j(1) by (simp add: yes(5))
    qed simp
    then show ?thesis by (simp add: e)
  qed
  with rm_inv [OF inv r] show ?thesis by (simp add: fs_tree_def)
qed (use t in simp)

text \<open>The operations on paths without an empty component.\<close>

definition clean_op :: "fs_op \<Rightarrow> bool" where
  "clean_op op = (case op of Mkdir (Some p) \<Rightarrow> clean_path p | Touch (Some p) \<Rightarrow> clean_path p
                  | Write (Some p) (Some c) \<Rightarrow> clean_path p | _ \<Rightarrow> True)"

definition fs_next :: "fs \<Rightarrow> fs \<Rightarrow> bool" where
  "fs_next fs fs' \<longleftrightarrow> (\<exists>op. clean_op op \<and> fs_step fs op = Inr fs')"

lemma fs_next_tree: "fs_tree fs \<Longrightarrow> fs_next fs fs' \<Longrightarrow> fs_tree fs'"
proof -
  assume t: "fs_tree fs" and "fs_next fs fs'"
  then obtain op b where op: "clean_op op" and f: "fs_apply op fs = Inr (b, fs')" by (auto simp: fs_next_def fs_step_Inr)
  show "fs_tree fs'"
  proof (cases op)
    case (Mkdir p)
    with f op t show ?thesis
      by (cases p) (auto simp: fs_apply_def clean_op_def mkdir_def invalid_path_def intro: tree_mkdir)
  next
    case (Touch p)
    with f op t show ?thesis
      by (cases p) (auto simp: fs_apply_def clean_op_def touch_def invalid_path_def intro: tree_touch)
  next
    case (Write p c)
    with f op t show ?thesis
      by (cases p; cases c) (auto simp: fs_apply_def clean_op_def write_file_def invalid_path_def intro: tree_write)
  next
    case (Rm p)
    with f t show ?thesis by (auto simp: fs_apply_def intro: tree_rm)
  qed
qed

lemma fs_init_tree: "fs_tree fs_init"
proof -
  have "\<not> fused (fs_init ! i)" if "0 < i" "i < MAX_FILES" for i
    using that by (auto simp: fs_init_def nth_list_update blank_entry_def)
  then show ?thesis using fs_init_inv by (auto simp: fs_tree_def)
qed

interpretation fstr: safe_system "\<lambda>fs. fs = fs_init" fs_next fs_tree
  by unfold_locales (auto intro: fs_init_tree fs_next_tree)

section \<open>Reading back\<close>

abbreviation file_at :: "string \<Rightarrow> string \<Rightarrow> fs \<Rightarrow> fentry option" where
  "file_at parent name fs \<equiv> lookup_key fused fkey (parent, name) fs"

lemma find_entry_file_at: "file_at parent name fs = map_option (\<lambda>i. fs ! i) (find_entry parent name fs)"
  by (simp add: lookup_key_def find_entry_key)

definition read_entry :: "u32 \<Rightarrow> fentry \<Rightarrow> (bool \<times> string) res" where
  "read_entry n e =
     (if ftyp e \<noteq> FILE_REGULAR then Inr (False, [])
      else let k = (if fsize e \<ge> unat n then unat (n - 1) else fsize e)
           in if k > MAX_FILE_DATA then Inl OutOfBounds else Inr (True, map (data_byte e) [0..<k]))"

lemma read_file_named:
  assumes "names path parent name"
  shows "read_file path n fs = (case file_at parent name fs of None \<Rightarrow> Inr (False, []) | Some e \<Rightarrow> read_entry n e)"
proof -
  obtain p where p: "path = Some p" "p \<noteq> []" "hd p = slash" "length p < MAX_PATH_LEN"
      "split_path (strip_slashes p) = Inr (parent, name)"
    using assms by (auto simp: names_def)
  have "normalize_path p = Inr (strip_slashes p)" using p(4) by (simp add: normalize_Inr)
  moreover have "\<not> invalid_path path" using p by (simp add: invalid_path_Some)
  ultimately show ?thesis
    by (simp add: read_file_def find_entry_file_at read_entry_def p(1,5) split: option.split)
qed

lemma names_total:
  assumes "\<nexists>parent name. names path parent name"
  shows "read_file path n fs = read_file path n fs'"
proof (cases "invalid_path path")
  case True
  then show ?thesis by (simp add: read_file_def)
next
  case False
  then obtain p where p: "path = Some p" "p \<noteq> []" "hd p = slash" by (cases path) (auto simp: invalid_path_Some)
  show ?thesis
  proof (cases "length p < MAX_PATH_LEN")
    case True
    then have n: "normalize_path p = Inr (strip_slashes p)" by (simp add: normalize_Inr)
    from assms True p obtain e where "split_path (strip_slashes p) = Inl e"
      by (cases "split_path (strip_slashes p)") (auto simp: names_def)
    then show ?thesis by (simp add: read_file_def p(1) n)
  next
    case False
    then show ?thesis by (simp add: read_file_def p(1) normalize_path_def)
  qed
qed

lemma read_entry_ok:
  assumes "ftyp e = FILE_REGULAR" "entry_ok e" "n \<noteq> 0"
  shows "read_entry n e = Inr (True, take (unat n - 1) (fdata e))"
proof -
  have len: "fsize e = length (fdata e)" "fsize e < MAX_FILE_DATA" using assms(1,2) by (auto simp: entry_ok_def)
  have "0 < unat n" using assms(3) by (simp add: unat_gt_0)
  moreover have "1 \<le> n" using assms(3) by (simp add: word_le_nat_alt Suc_le_eq unat_gt_0)
  then have "unat (n - 1) = unat n - 1" by (simp add: unat_sub)
  ultimately have k: "(if fsize e \<ge> unat n then unat (n - 1) else fsize e) = min (length (fdata e)) (unat n - 1)"
    by (auto simp: len(1) min_def)
  have "map (data_byte e) [0..<min (length (fdata e)) (unat n - 1)] = take (unat n - 1) (fdata e)"
    by (rule nth_equalityI) (auto simp: data_byte_def)
  moreover have "min (length (fdata e)) (unat n - 1) \<le> MAX_FILE_DATA" using len by simp
  ultimately show ?thesis using assms(1) len unfolding read_entry_def Let_def k by simp
qed

lemma store_file_reads:
  assumes inv: "fs_inv fs" and i: "find_entry parent name fs = Some i" "slash \<notin> set name"
    and s: "store_file i c fs = Inr (True, fs')"
  shows "\<exists>e. file_at parent name fs' = Some e \<and> ftyp e = FILE_REGULAR \<and> fdata e = take 1023 c \<and> entry_ok e"
    and "(p', n') \<noteq> (parent, name) \<Longrightarrow> file_at p' n' fs' = file_at p' n' fs"
proof -
  note pos = find_entry_pos [OF inv i]
  let ?e = "(fs ! i)\<lparr>fdata := take 1023 c, fsize := min 1023 (length c)\<rparr>"
  have f: "ftyp (fs ! i) = FILE_REGULAR" "fs' = fs[i := ?e]" and inv': "fs_inv fs'"
    using store_file_inv [OF inv pos(1,2) s] by auto
  have len: "length fs = MAX_FILES" using inv by (simp add: fs_inv_def)
  have "lookup_key fused fkey (fkey ?e) (fs[i := ?e]) = Some ?e"
    using inv' f pos len by (intro lookup_key_update_hit) (auto simp: fs_inv_def)
  moreover have "entry_ok ?e" using inv' pos(1,2) len by (auto simp: fs_inv_def f(2))
  ultimately show "\<exists>e. file_at parent name fs' = Some e \<and> ftyp e = FILE_REGULAR \<and> fdata e = take 1023 c \<and> entry_ok e"
    using f pos by (intro exI [of _ ?e]) simp
  show "(p', n') \<noteq> (parent, name) \<Longrightarrow> file_at p' n' fs' = file_at p' n' fs"
    unfolding f(2) by (intro lookup_key_update_other) (auto simp: pos(4,5))
qed

lemma touch_other:
  assumes "fs_inv fs" "touch path fs = Inr (b, fs1)" "names path parent name" "(p', n') \<noteq> (parent, name)"
  shows "file_at p' n' fs1 = file_at p' n' fs"
  using assms(2)
proof (cases rule: touch_cases)
  case (new p n i)
  have "p = parent \<and> n = name" using names_unique [OF assms(3) new(2)] by simp
  moreover have "\<not> fused (fs ! i)" using free_slot_pos(3) [OF assms(1) new(6)] by (simp add: blank_entry_def)
  ultimately show ?thesis unfolding new(7) using assms(4) by (intro lookup_key_update_other) auto
qed simp_all

lemma names_Some_strip: "names (Some p) parent name \<Longrightarrow> names (Some (strip_slashes p)) parent name"
  using strip_hd [of p] strip_length [of p] by (auto simp: names_def)

lemma write_stores:
  assumes inv: "fs_inv fs" and w: "write_file path (Some c) fs = Inr (True, fs')"
  shows "\<exists>parent name. names path parent name \<and>
     (\<exists>e. file_at parent name fs' = Some e \<and> ftyp e = FILE_REGULAR \<and> fdata e = take 1023 c \<and> entry_ok e) \<and>
     (\<forall>p' n'. (p', n') \<noteq> (parent, name) \<longrightarrow> file_at p' n' fs' = file_at p' n' fs)"
  using w
  proof (cases rule: write_cases)
  case no
  then show ?thesis by simp
  next
  case (old parent name i)
  from store_file_reads [OF inv old(2) conjunct1 [OF names_slash [OF old(1)]] old(3)] old(1) show ?thesis
    by blast
  next
  case (new p parent name i fs1)
  note inv1 = touch_inv [OF inv new(4)]
  note s = store_file_reads [OF inv1 new(5) conjunct1 [OF names_slash [OF new(2)]] new(6)]
  note o = touch_other [OF inv new(4) names_Some_strip [OF new(2) [unfolded new(1)]]]
  have "(p', n') \<noteq> (parent, name) \<Longrightarrow> file_at p' n' fs' = file_at p' n' fs" for p' n'
    using s(2) [of p' n'] o [of p' n'] by simp
  with s(1) new(2) show ?thesis by blast
  qed

text \<open>C10: write then read. After a successful write, reading the same path into a buffer of \<open>n\<close> bytes
  gives the first \<open>min 1023 (n - 1)\<close> characters of the content, and every path that does not name
  the same entry reads as before the write.\<close>

theorem write_read:
  assumes inv: "fs_inv fs" and w: "write_file path (Some c) fs = Inr (True, fs')" and n: "n \<noteq> 0"
  shows "read_file path n fs' = Inr (True, take (min 1023 (unat n - 1)) c) \<and>
         (\<forall>q m. (\<nexists>parent name. names q parent name \<and> names path parent name) \<longrightarrow>
                read_file q m fs' = read_file q m fs)"
proof -
  from write_stores [OF inv w] obtain parent name e where
    e: "names path parent name" "file_at parent name fs' = Some e" "ftyp e = FILE_REGULAR" "fdata e = take 1023 c" "entry_ok e"
    and o: "\<And>p' n'. (p', n') \<noteq> (parent, name) \<Longrightarrow> file_at p' n' fs' = file_at p' n' fs" by blast
  have "read_file path n fs' = Inr (True, take (unat n - 1) (take 1023 c))"
    unfolding read_file_named [OF e(1)] e(2) using read_entry_ok [OF e(3,5) n] e(4) by simp
  moreover have "read_file q m fs' = read_file q m fs"
    if q: "\<nexists>parent name. names q parent name \<and> names path parent name" for q m
  proof (cases "\<exists>p' n'. names q p' n'")
    case True
    then obtain p' n' where "names q p' n'" by blast
    moreover from this have "(p', n') \<noteq> (parent, name)" using q e(1) by auto
    ultimately show ?thesis using o [of p' n'] by (simp add: read_file_named)
  next
    case False
    then show ?thesis by (intro names_total) blast
  qed
  ultimately show ?thesis by (simp add: min.commute)
qed

definition fs_demo :: fs where
  "fs_demo = fs_init[1 := \<lparr>fname = ''f'', fparent = ''/'', ftyp = FILE_REGULAR, fdata = ''old'', fsize = 3\<rparr>]"

lemma fs_demo_inv: "fs_inv fs_demo"
proof -
  have "uniq_keys fused fkey fs_demo"
    unfolding fs_demo_def using fs_init_inv
    by (intro uniq_keys_update_fresh) (auto simp: fs_inv_def fs_init_def blank_entry_def set_conv_nth nth_list_update split: if_splits)
  then show ?thesis
    using fs_inv_update [OF fs_init_inv, of 1] by (simp add: fs_demo_def entry_ok_def MAX_NAME_LEN_def MAX_FILE_DATA_def)
qed

lemma fs_demo_write:
  "write_file (Some ''/f/'') (Some ''hi'') fs_demo =
   Inr (True, fs_init[1 := \<lparr>fname = ''f'', fparent = ''/'', ftyp = FILE_REGULAR, fdata = ''hi'', fsize = 2\<rparr>])"
  by code_simp

theorem write_read_witness:
  "fs_inv fs_demo \<and>
   read_file (Some ''/f/'') 3 (fs_init[1 := \<lparr>fname = ''f'', fparent = ''/'', ftyp = FILE_REGULAR, fdata = ''hi'', fsize = 2\<rparr>])
   = Inr (True, ''hi'')"
  using write_read [OF fs_demo_inv fs_demo_write, of 3] fs_demo_inv by simp

text \<open>C19: a run of mkdir, touch, write and rm from the initial table, with any arguments, as far as it goes without
  overrunning a buffer, keeps the root entry, gives no two entries the same parent and name, keeps names
  between 1 and 31 characters without a slash and data below 1024 bytes with its size recorded, and keeps every free slot all zero; and in
  every table it reaches, the only operations that overrun a buffer are those whose path is 128 or more characters long or has
  a component of 32 or more.\<close>

theorem fs_run_inv:
  assumes "trace fs_does fs_init ops fs"
  shows "length fs = MAX_FILES \<and> fs ! 0 = \<lparr>fname = ''/'', fparent = [], ftyp = FILE_DIRECTORY, fdata = [], fsize = 0\<rparr> \<and>
    (\<forall>i j. i < MAX_FILES \<and> j < MAX_FILES \<and> ftyp (fs ! i) \<noteq> FILE_UNUSED \<and> ftyp (fs ! j) \<noteq> FILE_UNUSED \<and>
       fparent (fs ! i) = fparent (fs ! j) \<and> fname (fs ! i) = fname (fs ! j) \<longrightarrow> i = j) \<and>
    (\<forall>i. 0 < i \<and> i < MAX_FILES \<longrightarrow>
       (if ftyp (fs ! i) = FILE_UNUSED then fs ! i = blank_entry
        else slash \<notin> set (fname (fs ! i)) \<and> fname (fs ! i) \<noteq> [] \<and> length (fname (fs ! i)) < MAX_NAME_LEN \<and>
             fsize (fs ! i) = length (fdata (fs ! i)) \<and> fsize (fs ! i) < MAX_FILE_DATA)) \<and>
    (\<forall>op e. fs_step fs op = Inl e \<longrightarrow> (\<exists>p. op_path op = Some p \<and> overlong p))"
proof (intro conjI allI impI)
  have inv: "fs_inv fs" using assms fs_init_inv by (rule fsr.trace_keeps)
  then show "length fs = MAX_FILES" "fs ! 0 = \<lparr>fname = ''/'', fparent = [], ftyp = FILE_DIRECTORY, fdata = [], fsize = 0\<rparr>"
    by (simp_all add: fs_inv_def)
  show "i = j" if "i < MAX_FILES \<and> j < MAX_FILES \<and> ftyp (fs ! i) \<noteq> FILE_UNUSED \<and> ftyp (fs ! j) \<noteq> FILE_UNUSED \<and>
       fparent (fs ! i) = fparent (fs ! j) \<and> fname (fs ! i) = fname (fs ! j)" for i j
    using inv that uniq_keysD [of fused fkey fs i j] by (simp add: fs_inv_def)
  show "if ftyp (fs ! i) = FILE_UNUSED then fs ! i = blank_entry
        else slash \<notin> set (fname (fs ! i)) \<and> fname (fs ! i) \<noteq> [] \<and> length (fname (fs ! i)) < MAX_NAME_LEN \<and>
             fsize (fs ! i) = length (fdata (fs ! i)) \<and> fsize (fs ! i) < MAX_FILE_DATA" if "0 < i \<and> i < MAX_FILES" for i
    using inv that by (auto simp: fs_inv_def entry_ok_def)
  show "\<exists>p. op_path op = Some p \<and> overlong p" if "fs_step fs op = Inl e" for op e
    using that by (intro fs_apply_fault [of op fs e]) (auto simp: fs_step_def bind_fault)
qed

text \<open>A run that stops: after a directory, a name of 32 characters overruns the name buffer.\<close>

theorem fs_run_inv_witness:
  "\<exists>fs. trace fs_does fs_init [Mkdir (Some ''/a''), Write (Some ''/a/f'') (Some ''hi''), Rm (Some ''/a'')] fs \<and>
     length (fname (fs ! 2)) < MAX_NAME_LEN \<and> fs_step fs (Touch (Some (CHR ''/'' # replicate 32 CHR ''x''))) = Inl BufferOverflow"
proof -
  let ?d = "\<lparr>fname = ''a'', fparent = ''/'', ftyp = FILE_DIRECTORY, fdata = [], fsize = 0\<rparr>"
  let ?f = "\<lparr>fname = ''f'', fparent = ''/a'', ftyp = FILE_REGULAR, fdata = ''hi'', fsize = 2\<rparr>"
  have s: "fs_step fs_init (Mkdir (Some ''/a'')) = Inr (fs_init[1 := ?d])"
    "fs_step (fs_init[1 := ?d]) (Write (Some ''/a/f'') (Some ''hi'')) = Inr (fs_init[1 := ?d, 2 := ?f])"
    "fs_step (fs_init[1 := ?d, 2 := ?f]) (Rm (Some ''/a'')) = Inr (fs_init[1 := ?d, 2 := ?f])"
    "fs_step (fs_init[1 := ?d, 2 := ?f]) (Touch (Some (CHR ''/'' # replicate 32 CHR ''x''))) = Inl BufferOverflow"
    by code_simp+
  have t: "trace fs_does fs_init [Mkdir (Some ''/a''), Write (Some ''/a/f'') (Some ''hi''), Rm (Some ''/a'')] (fs_init[1 := ?d, 2 := ?f])"
    using s(1-3) unfolding fs_does_def [symmetric] by (blast intro: trace_Cons trace_Nil)
  have u: "ftyp (fs_init[1 := ?d, 2 := ?f] ! 2) \<noteq> FILE_UNUSED" by code_simp
  have "0 < (2 :: nat) \<and> 2 < MAX_FILES" by (simp add: MAX_FILES_def)
  with u fs_run_inv [OF t, THEN conjunct2, THEN conjunct2, THEN conjunct2, THEN conjunct1, THEN spec, of 2]
  have "length (fname (fs_init[1 := ?d, 2 := ?f] ! 2)) < MAX_NAME_LEN" by presburger
  with t s(4) show ?thesis by blast
qed

text \<open>C11: in every table reachable with paths that have no empty component, every file and directory
  lies in an existing directory, so rm never orphans a child.\<close>

theorem fs_tree_reachable:
  assumes "reach (\<lambda>fs. fs = fs_init) fs_next fs" "0 < i" "i < MAX_FILES" "ftyp (fs ! i) \<noteq> FILE_UNUSED"
  shows "fparent (fs ! i) = ''/'' \<or>
         (\<exists>j. 0 < j \<and> j < MAX_FILES \<and> ftyp (fs ! j) = FILE_DIRECTORY \<and>
              join_path (fparent (fs ! j)) (fname (fs ! j)) = fparent (fs ! i))"
  using fstr.reach_ok [OF assms(1)] assms(2-4) by (simp add: fs_tree_def has_parent_def)

theorem fs_tree_reachable_witness:
  "\<exists>fs. fs_step fs_init (Mkdir (Some ''/a'')) = Inr fs \<and> ftyp (fs ! 1) = FILE_DIRECTORY \<and> fparent (fs ! 1) = ''/''"
proof -
  let ?fs = "fs_init[1 := \<lparr>fname = ''a'', fparent = ''/'', ftyp = FILE_DIRECTORY, fdata = [], fsize = 0\<rparr>]"
  have e: "fs_step fs_init (Mkdir (Some ''/a'')) = Inr ?fs" by code_simp
  have "clean_op (Mkdir (Some ''/a''))" by (simp add: clean_op_def clean_path_def strip_slashes.simps)
  with e have "fs_next fs_init ?fs" unfolding fs_next_def by blast
  then have r: "reach (\<lambda>fs. fs = fs_init) fs_next ?fs" by (intro reach_step [OF reach_init]) simp_all
  have t: "ftyp (?fs ! 1) = FILE_DIRECTORY" "fparent (?fs ! 1) = ''/''" "1 < MAX_FILES" by code_simp+
  have "fparent (?fs ! 1) = ''/'' \<or>
     (\<exists>j. 0 < j \<and> j < MAX_FILES \<and> ftyp (?fs ! j) = FILE_DIRECTORY \<and> join_path (fparent (?fs ! j)) (fname (?fs ! j)) = fparent (?fs ! 1))"
    using t by (intro fs_tree_reachable [OF r _ t(3)]) simp_all
  with e t show ?thesis by blast
qed

text \<open>with an empty component the tree breaks: \<^verbatim>\<open>touch /a//b\<close> stores the parent as \<^verbatim>\<open>/a/\<close>, so
  \<^verbatim>\<open>ls /a\<close> does not list it, \<^verbatim>\<open>rm /a\<close> succeeds on the non-empty directory, and the file stays
  readable under a directory that no longer exists.\<close>

theorem double_slash_orphan:
  "bind_res (mkdir (Some ''/a'') fs_init) (\<lambda>(ok1, f1).
   bind_res (touch (Some ''/a//b'') f1) (\<lambda>(ok2, f2).
   bind_res (ls (Some ''/a'') 64 f2) (\<lambda>(count, out).
   bind_res (rm (Some ''/a'') f2) (\<lambda>(ok3, f3).
   bind_res (read_file (Some ''/a//b'') 64 f3) (\<lambda>(ok4, content).
   Inr (ok1, ok2, count, ok3, find_entry ''/'' ''a'' f3, ok4, content))))))
   = Inr (True, True, 0, True, None, True, [])"
  by code_simp

text \<open>a name of 32 characters or more overflows the name buffer in every operation that takes an
  absolute path (the path buffer itself holds 127 characters).\<close>

theorem long_name_overflow:
  assumes "slash \<notin> set nm" "MAX_NAME_LEN \<le> length nm" "length nm + 1 < MAX_PATH_LEN"
  shows "mkdir (Some (slash # nm)) fs = Inl BufferOverflow \<and> touch (Some (slash # nm)) fs = Inl BufferOverflow \<and>
         write_file (Some (slash # nm)) (Some c) fs = Inl BufferOverflow \<and>
         read_file (Some (slash # nm)) n fs = Inl BufferOverflow \<and> rm (Some (slash # nm)) fs = Inl BufferOverflow"
proof -
  have ne: "nm \<noteq> []" using assms(2) by (auto simp: MAX_NAME_LEN_def)
  then have "last (slash # nm) \<noteq> slash" using assms(1) ne by (metis last_ConsR last_in_set)
  then have st: "strip_slashes (slash # nm) = slash # nm" by (intro strip_idem) simp
  then have nrm: "normalize_path (slash # nm) = Inr (slash # nm)" using assms(3) by (simp add: normalize_Inr)
  have "last_slash (slash # nm) (Suc k) = Some 0" if "k \<le> length nm" for k
    using that
  proof (induction k)
    case (Suc k)
    then have "(slash # nm) ! Suc k \<noteq> slash" using assms(1) by (auto simp: in_set_conv_nth)
    with Suc show ?case by simp
  qed simp
  then have "last_slash (slash # nm) (length (slash # nm)) = Some 0" by simp
  then have "split_path (slash # nm) = Inl BufferOverflow"
    using assms(2) by (simp add: split_path_def nrm Let_def)
  then show ?thesis
    using ne by (simp add: mkdir_def touch_def write_file_def read_file_def rm_def invalid_path_def nrm)
qed

theorem long_name_overflow_witness:
  "touch (Some (slash # replicate 40 CHR ''x'')) fs_init = Inl BufferOverflow"
  using long_name_overflow [of "replicate 40 CHR ''x''"] by (simp add: MAX_NAME_LEN_def MAX_PATH_LEN_def)

lemma emit_take: "length out \<le> lim \<Longrightarrow> emit lim out cs = take lim (out @ cs)"
proof (induction cs arbitrary: out)
  case (Cons c cs)
  show ?case
  proof (cases "length out < lim")
    case True
    then show ?thesis using Cons.IH [of "out @ [c]"] by simp
  next
    case False
    with Cons.prems have "length out = lim" by simp
    then show ?thesis using Cons.IH [of out] by simp
  qed
qed simp

lemma ls_loop_spec:
  "length out \<le> lim \<Longrightarrow>
   ls_loop norm lim es k out =
     (k + length (filter (\<lambda>e. fused e \<and> fparent e = norm) es),
      take lim (out @ concat (map ls_line (filter (\<lambda>e. fused e \<and> fparent e = norm) es))))"
proof (induction es arbitrary: k out)
  case (Cons e es)
  have m: "(if str_eq norm ''/'' then str_eq (fparent e) ''/'' else str_eq (fparent e) norm) = (fparent e = norm)" by auto
  show ?case
  proof (cases "fused e \<and> fparent e = norm")
    case True
    have tt: "take lim (take lim xs @ ys) = take lim (xs @ ys)" for xs ys :: string
      by (simp add: min_def)
    have "ls_loop norm lim (e # es) k out = ls_loop norm lim es (k + 1) (take lim (out @ ls_line e))"
      using True emit_take [OF Cons.prems, of "ls_line e"] by (simp add: m del: take_append)
    also have "\<dots> = (k + 1 + length (filter (\<lambda>e. fused e \<and> fparent e = norm) es),
      take lim (take lim (out @ ls_line e) @ concat (map ls_line (filter (\<lambda>e. fused e \<and> fparent e = norm) es))))"
      by (rule Cons.IH) simp
    finally show ?thesis using True unfolding tt by (simp del: take_append)
  next
    case False
    then show ?thesis using Cons.IH [OF Cons.prems, of k] by (auto simp: m)
  qed
qed simp

text \<open>ls returns the number of entries whose parent is the normalised path and the listing of
  exactly those entries, one line each in table order, cut to the buffer; a directory that does
  not exist lists as empty, without an error.\<close>

theorem ls_spec:
  assumes "length p < MAX_PATH_LEN" "n \<noteq> 0"
  shows "ls (Some p) n fs =
     Inr (int (length (filter (\<lambda>e. ftyp e \<noteq> FILE_UNUSED \<and> fparent e = strip_slashes p) fs)),
          take (unat n - 1) (concat (map ls_line (filter (\<lambda>e. ftyp e \<noteq> FILE_UNUSED \<and> fparent e = strip_slashes p) fs))))"
proof -
  have "1 \<le> n" using assms(2) by (simp add: word_le_nat_alt Suc_le_eq unat_gt_0)
  then have u: "unat (n - 1) = unat n - 1" by (simp add: unat_sub)
  have "normalize_path p = Inr (strip_slashes p)" using assms(1) by (simp add: normalize_Inr)
  then show ?thesis using assms(2) by (simp add: ls_def ls_loop_spec u)
qed

theorem ls_spec_witness: "ls (Some ''/nowhere/'') 64 fs_init = Inr (0, [])"
proof -
  have "filter (\<lambda>e. ftyp e \<noteq> FILE_UNUSED \<and> fparent e = strip_slashes ''/nowhere/'') fs_init = []" by code_simp
  then show ?thesis using ls_spec [of "''/nowhere/''" 64 fs_init] by (simp add: MAX_PATH_LEN_def)
qed

lemma rm_removes:
  assumes inv: "fs_inv fs" and nm: "names path parent name" and r: "rm path fs = Inr (b, fs')"
  shows "(if b then file_at parent name fs' = None \<and>
             (\<forall>p n. (p, n) \<noteq> (parent, name) \<longrightarrow> file_at p n fs' = file_at p n fs)
          else fs' = fs) \<and>
         (b \<longleftrightarrow> (\<exists>e. file_at parent name fs = Some e \<and>
                (ftyp e = FILE_DIRECTORY \<longrightarrow>
                 (\<forall>c\<in>set fs. ftyp c \<noteq> FILE_UNUSED \<longrightarrow> fparent c \<noteq> join_path parent name))))"
proof -
  obtain p where p: "path = Some p" "p \<noteq> []" "hd p = slash" "length p < MAX_PATH_LEN"
      "split_path (strip_slashes p) = Inr (parent, name)" using nm by (auto simp: names_def)
  have n: "normalize_path p = Inr (strip_slashes p)" "\<not> invalid_path path"
    using p by (simp_all add: normalize_Inr invalid_path_Some)
  have root: "find_entry parent name fs = None" if "strip_slashes p = ''/''"
  proof (rule ccontr)
    assume "find_entry parent name fs \<noteq> None"
    then obtain i where i: "find_entry parent name fs = Some i" by blast
    note pos = find_entry_pos [OF inv i conjunct1 [OF names_slash [OF nm]]]
    have "split_path ''/'' = Inr (''/'', [])" by code_simp
    with p(5) that have "name = []" by simp
    moreover have "entry_ok (fs ! i)" using inv pos(1,2) by (simp add: fs_inv_def)
    ultimately show False using pos(3,5) by (simp add: entry_ok_def)
  qed
  show ?thesis
  proof (cases b)
    case True
    from r show ?thesis
    proof (cases rule: rm_cases)
      case no
      with True show ?thesis by simp
    next
      case (yes p' n' i)
      have eq: "p' = parent" "n' = name" using names_unique [OF nm yes(2)] by auto
      note pos = find_entry_pos [OF inv yes(3) conjunct1 [OF names_slash [OF yes(2)]]]
      have len: "length fs = MAX_FILES" and u: "uniq_keys fused fkey fs" using inv by (auto simp: fs_inv_def)
      have gone: "file_at parent name fs' = None"
        unfolding lookup_key_None_iff
      proof (intro ballI impI)
        fix e
        assume "e \<in> set fs'" "fused e"
        then obtain k where k: "k < MAX_FILES" "e = fs' ! k" using len yes(5) by (auto simp: in_set_conv_nth)
        with \<open>fused e\<close> have "k \<noteq> i" using yes(5) len by (auto simp: blank_entry_def)
        with k \<open>fused e\<close> show "fkey e \<noteq> (parent, name)"
          using uniq_keysD [OF u, of k i] len pos yes(5) eq by auto
      qed
      have oth: "file_at p n fs' = file_at p n fs" if "(p, n) \<noteq> (parent, name)" for p n
        unfolding yes(5) using that pos(4,5) eq by (intro lookup_key_update_other) (auto simp: blank_entry_def)
      have "file_at parent name fs = Some (fs ! i)" using yes(3) eq by (simp add: find_entry_file_at)
      with True gone oth yes(4) eq show ?thesis by auto
    qed
  next
    case False
    with r have "fs' = fs" by (auto elim: rm_cases)
    moreover have "\<not> (\<exists>e. file_at parent name fs = Some e \<and>
        (ftyp e = FILE_DIRECTORY \<longrightarrow> (\<forall>c\<in>set fs. fused c \<longrightarrow> fparent c \<noteq> join_path parent name)))"
    proof
      assume "\<exists>e. file_at parent name fs = Some e \<and>
        (ftyp e = FILE_DIRECTORY \<longrightarrow> (\<forall>c\<in>set fs. fused c \<longrightarrow> fparent c \<noteq> join_path parent name))"
      then obtain i where i: "find_entry parent name fs = Some i"
        and c: "ftyp (fs ! i) = FILE_DIRECTORY \<longrightarrow> (\<forall>c\<in>set fs. fused c \<longrightarrow> fparent c \<noteq> join_path parent name)"
        by (auto simp: find_entry_file_at)
      have "strip_slashes p \<noteq> ''/''" using root i by auto
      with r i c False n p(1,5) show False
        by (auto simp: rm_def bind_res_Inr split: if_splits dest: full_path_Inr)
    qed
    ultimately show ?thesis using False by simp
  qed
qed

text \<open>rm succeeds exactly on an existing entry that is not a directory with children, then that
  entry is gone and every other entry is as before; otherwise the table is unchanged.\<close>

theorem rm_spec:
  assumes inv: "fs_inv fs" and nm: "names path parent name" and r: "rm path fs = Inr (b, fs')"
  shows "(if b then file_at parent name fs' = None \<and>
             (\<forall>p n. (p, n) \<noteq> (parent, name) \<longrightarrow> file_at p n fs' = file_at p n fs)
          else fs' = fs) \<and>
         (b \<longleftrightarrow> (\<exists>e. file_at parent name fs = Some e \<and>
                (ftyp e = FILE_DIRECTORY \<longrightarrow>
                 (\<forall>c\<in>set fs. ftyp c \<noteq> FILE_UNUSED \<longrightarrow> fparent c \<noteq> join_path parent name))))"
  using assms by (rule rm_removes)

theorem rm_spec_witness:
  "fs_inv fs_demo \<and> file_at ''/'' ''f'' (fs_demo[1 := blank_entry]) = None"
proof -
  have "names (Some ''/f'') ''/'' ''f''" by (simp add: names_def) code_simp
  moreover have "rm (Some ''/f'') fs_demo = Inr (True, fs_demo[1 := blank_entry])" by code_simp
  ultimately show ?thesis using rm_spec [OF fs_demo_inv] fs_demo_inv by fastforce
qed

end
