(* ===== verification/Users.thy ===== *)
theory Users
  imports KString
begin

text \<open>
  User accounts of \<^verbatim>\<open>kernel/users.cpp\<close>: the table of eight accounts, FNV-1a password hashing, the
  current user and the image of the table in disk sector 100. A \<^verbatim>\<open>User*\<close> is an index into the
  table. \<^verbatim>\<open>struct User\<close> is 48 bytes: the name in 32, the hash in 8 at offset 32, three bytes at 40,
  41 and 42, and padding, written as 0. The disk is an argument: \<open>Some bytes\<close> is what
  \<^verbatim>\<open>read_sector(100)\<close> delivers and \<open>wr\<close> the success of \<^verbatim>\<open>write_sector\<close>; \<open>saved\<close> is the last
  sector image written.
\<close>

definition USER_MAGIC :: u32 where "USER_MAGIC = 0x53524551"
definition MAX_USERS :: nat where "MAX_USERS = 8"

type_synonym usecase = u8

definition USECASE_NONE :: usecase where "USECASE_NONE = 0"
definition USECASE_DEV :: usecase where "USECASE_DEV = 1"
definition USECASE_HOSTING :: usecase where "USECASE_HOSTING = 2"
definition USECASE_CLUSTER :: usecase where "USECASE_CLUSTER = 3"
definition USECASE_DAILY :: usecase where "USECASE_DAILY = 4"

record user =
  uname :: string
  pass_hash :: u64
  usecase :: usecase
  onboarded :: bool
  uactive :: bool

record ustate =
  tab :: "user list"
  cur_user :: "nat option"
  saved :: "u8 list option"

definition no_user :: user where
  "no_user = \<lparr>uname = [], pass_hash = 0, usecase = USECASE_NONE, onboarded = False, uactive = False\<rparr>"

section \<open>The sector image\<close>

definition le64 :: "u64 \<Rightarrow> u8 list" where
  "le64 x = map (\<lambda>i. ucast (drop_bit (8 * i) x)) [0..<8]"

definition of_le64 :: "u8 list \<Rightarrow> u64" where
  "of_le64 bs = foldr (\<lambda>b acc. ucast b OR push_bit 8 acc) bs 0"

definition enc_user :: "user \<Rightarrow> u8 list" where
  "enc_user u = pad_name 32 (uname u) @ le64 (pass_hash u) @
     [usecase u, if onboarded u then 1 else 0, if uactive u then 1 else 0] @ replicate 5 0"

definition dec_user :: "u8 list \<Rightarrow> user" where
  "dec_user bs = \<lparr>uname = field_name (take 32 bs), pass_hash = of_le64 (take 8 (drop 32 bs)),
                  usecase = bs ! 40, onboarded = bs ! 41 \<noteq> 0, uactive = bs ! 42 \<noteq> 0\<rparr>"

definition user_sector :: "user list \<Rightarrow> u8 list" where
  "user_sector us = (let body = le32 USER_MAGIC @ le32 1 @ concat (map enc_user us)
                     in body @ replicate (512 - length body) 0)"

definition load_from_disk :: "u8 list option \<Rightarrow> user list option" where
  "load_from_disk disk =
     (case disk of
        None \<Rightarrow> None
      | Some sector \<Rightarrow>
          if of_le32 (take 4 sector) \<noteq> USER_MAGIC then None
          else if of_le32 (take 4 (drop 4 sector)) \<noteq> 1 then None
          else Some (map (\<lambda>i. dec_user (take 48 (drop (8 + 48 * i) sector))) [0..<MAX_USERS]))"

definition save_to_disk :: "bool \<Rightarrow> ustate \<Rightarrow> ustate" where
  "save_to_disk wr s = (if wr then s\<lparr>saved := Some (user_sector (tab s))\<rparr> else s)"

section \<open>Operations\<close>

definition users_init :: "u8 list option \<Rightarrow> ustate" where
  "users_init disk =
     (case load_from_disk disk of
        None \<Rightarrow> \<lparr>tab = replicate MAX_USERS no_user, cur_user = None, saved = disk\<rparr>
      | Some us \<Rightarrow> \<lparr>tab = us, cur_user = None, saved = disk\<rparr>)"

fun hash_loop :: "u64 \<Rightarrow> string \<Rightarrow> u64" where
  "hash_loop h [] = h"
| "hash_loop h (c # cs) = hash_loop ((h XOR ucast (char_byte c)) * 0x100000001b3) cs"

definition hash_password :: "string \<Rightarrow> u64" where
  "hash_password p = hash_loop 0xcbf29ce484222325 p"

definition find_user :: "string option \<Rightarrow> ustate \<Rightarrow> nat option" where
  "find_user name s = (case name of None \<Rightarrow> None
                       | Some n \<Rightarrow> find_idx (\<lambda>u. uactive u \<and> str_eq (uname u) n) (tab s))"

definition create :: "bool \<Rightarrow> string option \<Rightarrow> string option \<Rightarrow> ustate \<Rightarrow> bool \<times> ustate" where
  "create wr name password s =
     (case (name, password) of
        (Some n, Some p) \<Rightarrow>
          if n = [] then (False, s)
          else if find_user (Some n) s \<noteq> None then (False, s)
          else (case find_idx (\<lambda>u. \<not> uactive u) (tab s) of
                  None \<Rightarrow> (False, s)
                | Some i \<Rightarrow> (True, save_to_disk wr (s\<lparr>tab := (tab s)[i :=
                    \<lparr>uname = str_copy n 32, pass_hash = hash_password p, usecase = USECASE_NONE,
                     onboarded = False, uactive = True\<rparr>]\<rparr>)))
      | _ \<Rightarrow> (False, s))"

definition verify :: "string option \<Rightarrow> string \<Rightarrow> ustate \<Rightarrow> bool" where
  "verify name password s =
     (case find_user name s of None \<Rightarrow> False | Some i \<Rightarrow> pass_hash (tab s ! i) = hash_password password)"

definition user_count :: "ustate \<Rightarrow> nat" where
  "user_count s = length (filter uactive (tab s))"

fun get_by_index_loop :: "nat \<Rightarrow> nat \<Rightarrow> nat \<Rightarrow> user list \<Rightarrow> nat option" where
  "get_by_index_loop idx i c [] = None"
| "get_by_index_loop idx i c (u # us) =
     (if uactive u then (if c = idx then Some i else get_by_index_loop idx (i + 1) (c + 1) us)
      else get_by_index_loop idx (i + 1) c us)"

definition get_by_index :: "nat \<Rightarrow> ustate \<Rightarrow> nat option" where
  "get_by_index idx s = get_by_index_loop idx 0 0 (tab s)"

definition set_current :: "nat option \<Rightarrow> ustate \<Rightarrow> ustate" where
  "set_current u s = s\<lparr>cur_user := u\<rparr>"

definition clear_current :: "ustate \<Rightarrow> ustate" where
  "clear_current s = s\<lparr>cur_user := None\<rparr>"

definition set_usecase :: "bool \<Rightarrow> nat option \<Rightarrow> usecase \<Rightarrow> ustate \<Rightarrow> ustate" where
  "set_usecase wr u uc s = (case u of None \<Rightarrow> s
     | Some i \<Rightarrow> save_to_disk wr (s\<lparr>tab := (tab s)[i := (tab s ! i)\<lparr>usecase := uc\<rparr>]\<rparr>))"

definition complete_onboarding :: "bool \<Rightarrow> nat option \<Rightarrow> ustate \<Rightarrow> ustate" where
  "complete_onboarding wr u s = (case u of None \<Rightarrow> s
     | Some i \<Rightarrow> save_to_disk wr (s\<lparr>tab := (tab s)[i := (tab s ! i)\<lparr>onboarded := True\<rparr>]\<rparr>))"

definition usecase_name :: "usecase \<Rightarrow> string" where
  "usecase_name uc =
     (if uc = USECASE_DEV then ''Developer'' else if uc = USECASE_HOSTING then ''Hosting''
      else if uc = USECASE_CLUSTER then ''Cluster'' else if uc = USECASE_DAILY then ''Daily Driver'' else ''None'')"

section \<open>Round trip through the sector\<close>

lemma of_le64_le64 [simp]: "of_le64 (le64 x) = x"
proof (rule bit_word_eqI)
  fix n
  assume n: "n < LENGTH(64)"
  have u: "[0..<8] = [0, 1, 2, 3, 4, 5, 6, 7 :: nat]" by (simp add: upt_rec)
  have "n < 64" using n by simp
  then consider "n < 8" | "8 \<le> n" "n < 16" | "16 \<le> n" "n < 24" | "24 \<le> n" "n < 32" | "32 \<le> n" "n < 40"
    | "40 \<le> n" "n < 48" | "48 \<le> n" "n < 56" | "56 \<le> n" "n < 64" by linarith
  then show "bit (of_le64 (le64 x)) n = bit x n"
    by cases (auto simp: of_le64_def le64_def u bit_simps)
qed

lemma length_le64 [simp]: "length (le64 x) = 8"
  by (simp add: le64_def)

definition user_ok :: "user \<Rightarrow> bool" where
  "user_ok u \<longleftrightarrow> length (uname u) < 32 \<and> no_nul (uname u)"

lemma length_enc_user: "user_ok u \<Longrightarrow> length (enc_user u) = 48"
  by (simp add: enc_user_def length_pad_name user_ok_def)

lemma dec_enc_user:
  assumes "user_ok u"
  shows "dec_user (enc_user u) = u"
proof -
  let ?n = "pad_name 32 (uname u)"
  have l: "length ?n = 32" using assms by (simp add: user_ok_def length_pad_name)
  have f: "field_name (take 32 (enc_user u)) = uname u"
    using assms unfolding enc_user_def append_assoc by (intro field_pad_name) (auto simp: user_ok_def)
  have "take 8 (drop 32 (enc_user u)) = le64 (pass_hash u)" by (simp add: enc_user_def l)
  moreover have "enc_user u ! 40 = usecase u" "enc_user u ! 41 = (if onboarded u then 1 else 0)"
    "enc_user u ! 42 = (if uactive u then 1 else 0)"
    by (simp_all add: enc_user_def nth_append l)
  ultimately show ?thesis by (simp add: dec_user_def f)
qed

lemma concat_enc_slice:
  "\<forall>u\<in>set us. user_ok u \<Longrightarrow> i < length us \<Longrightarrow>
   take 48 (drop (48 * i) (concat (map enc_user us) @ xs)) = enc_user (us ! i)"
proof (induction us arbitrary: i)
  case (Cons u us)
  have l: "length (enc_user u) = 48" using Cons.prems by (simp add: length_enc_user)
  show ?case
  proof (cases i)
    case 0
    then show ?thesis by (simp add: l)
  next
    case (Suc k)
    then show ?thesis using Cons.IH [of k] Cons.prems l by simp
  qed
qed simp

lemma load_user_sector:
  assumes "\<forall>u\<in>set us. user_ok u" "length us = MAX_USERS"
  shows "load_from_disk (Some (user_sector us)) = Some us"
proof -
  define pad where "pad = replicate (512 - length (le32 USER_MAGIC @ le32 1 @ concat (map enc_user us))) (0 :: u8)"
  have s: "user_sector us = le32 USER_MAGIC @ le32 1 @ concat (map enc_user us) @ pad"
    by (simp add: user_sector_def Let_def pad_def)
  have "drop (8 + 48 * i) (user_sector us) = drop (48 * i) (concat (map enc_user us) @ pad)" for i
    unfolding s by simp
  then have "map (\<lambda>i. dec_user (take 48 (drop (8 + 48 * i) (user_sector us)))) [0..<MAX_USERS] = us"
    using assms by (intro nth_equalityI) (auto simp: concat_enc_slice dec_enc_user simp del: drop_append take_append)
  moreover have "take 4 (user_sector us) = le32 USER_MAGIC" "take 4 (drop 4 (user_sector us)) = le32 1"
    unfolding s by simp_all
  ultimately show ?thesis by (simp add: load_from_disk_def)
qed

section \<open>Invariant\<close>

definition users_inv :: "ustate \<Rightarrow> bool" where
  "users_inv s \<longleftrightarrow> length (tab s) = MAX_USERS \<and> (\<forall>u\<in>set (tab s). user_ok u)"

definition users_uniq :: "ustate \<Rightarrow> bool" where
  "users_uniq s \<longleftrightarrow> uniq_keys uactive uname (tab s)"

lemma tab_save [simp]: "tab (save_to_disk wr s) = tab s" "cur_user (save_to_disk wr s) = cur_user s"
  by (simp_all add: save_to_disk_def)

lemma find_user_key: "find_user (Some n) s = find_idx (\<lambda>u. uactive u \<and> uname u = n) (tab s)"
  by (simp add: find_user_def)

lemma create_cases:
  assumes "create wr name password s = (b, s')"
  obtains (no) "\<not> b" "s' = s"
  | (yes) n p i where "b" "name = Some n" "password = Some p" "n \<noteq> []" "find_user (Some n) s = None"
      "find_idx (\<lambda>u. \<not> uactive u) (tab s) = Some i"
      "s' = save_to_disk wr (s\<lparr>tab := (tab s)[i := \<lparr>uname = take 31 n, pass_hash = hash_password p,
               usecase = USECASE_NONE, onboarded = False, uactive = True\<rparr>]\<rparr>)"
proof (cases b)
  case True
  with assms obtain n p where np: "name = Some n" "password = Some p" "n \<noteq> []" "find_user (Some n) s = None"
    by (cases name; cases password) (simp_all add: create_def split: if_splits)
  with True assms obtain i where "find_idx (\<lambda>u. \<not> uactive u) (tab s) = Some i"
    by (cases "find_idx (\<lambda>u. \<not> uactive u) (tab s)") (simp_all add: create_def)
  with np True assms show ?thesis by (intro yes [of n p i]) (simp_all add: create_def)
next
  case False
  with assms have "s' = s"
    by (cases name; cases password; cases "find_idx (\<lambda>u. \<not> uactive u) (tab s)") (simp_all add: create_def split: if_splits)
  with False show ?thesis by (rule no)
qed

lemma user_upd_inv:
  assumes "users_inv s" "user_ok u"
  shows "users_inv (save_to_disk wr (s\<lparr>tab := (tab s)[i := u]\<rparr>))"
  using assms set_update_subset_insert [of "tab s" i u] by (auto simp: users_inv_def)

lemma take_user_ok: "no_nul n \<Longrightarrow> user_ok \<lparr>uname = take 31 n, pass_hash = h, usecase = uc, onboarded = ob, uactive = a\<rparr>"
  by (auto simp: user_ok_def no_nul_def dest: in_set_takeD)

lemma user_create_inv: "users_inv s \<Longrightarrow> (\<And>n. name = Some n \<Longrightarrow> no_nul n) \<Longrightarrow> users_inv (snd (create wr name p s))"
proof -
  assume a: "users_inv s" "\<And>n. name = Some n \<Longrightarrow> no_nul n"
  obtain b s' where c: "create wr name p s = (b, s')" by fastforce
  then show ?thesis
  proof (cases rule: create_cases)
    case no
    with a c show ?thesis by simp
  next
    case (yes n q i)
    with a c show ?thesis by (simp add: user_upd_inv take_user_ok)
  qed
qed

lemma field_upd_inv:
  assumes "users_inv s" "\<And>u. user_ok u \<Longrightarrow> user_ok (f u)"
  shows "users_inv (save_to_disk wr (s\<lparr>tab := (tab s)[i := f (tab s ! i)]\<rparr>))"
proof (cases "i < length (tab s)")
  case True
  then have "user_ok (tab s ! i)" using assms(1) by (auto simp: users_inv_def)
  with assms show ?thesis by (blast intro: user_upd_inv)
next
  case False
  then show ?thesis using assms(1) by (simp add: users_inv_def list_update_beyond)
qed

datatype user_event =
    Create bool string string
  | SetCurrent "nat option"
  | ClearCurrent
  | SetUsecase bool "nat option" usecase
  | Onboard bool "nat option"

definition user_step :: "ustate \<Rightarrow> user_event \<Rightarrow> ustate" where
  "user_step s ev =
     (case ev of
        Create wr n p \<Rightarrow> if no_nul n then snd (create wr (Some n) (Some p) s) else s
      | SetCurrent u \<Rightarrow> set_current u s
      | ClearCurrent \<Rightarrow> clear_current s
      | SetUsecase wr u uc \<Rightarrow> set_usecase wr u uc s
      | Onboard wr u \<Rightarrow> complete_onboarding wr u s)"

lemma user_step_inv: "users_inv s \<Longrightarrow> users_inv (user_step s ev)"
proof (cases ev)
  case (Create wr n p)
  then show "users_inv s \<Longrightarrow> ?thesis" by (auto simp: user_step_def intro: user_create_inv)
next
  case (SetCurrent u)
  then show "users_inv s \<Longrightarrow> ?thesis" by (simp add: user_step_def set_current_def users_inv_def)
next
  case ClearCurrent
  then show "users_inv s \<Longrightarrow> ?thesis" by (simp add: user_step_def clear_current_def users_inv_def)
next
  case (SetUsecase wr u uc)
  then show "users_inv s \<Longrightarrow> ?thesis"
    by (auto simp: user_step_def set_usecase_def user_ok_def split: option.splits intro!: field_upd_inv)
next
  case (Onboard wr u)
  then show "users_inv s \<Longrightarrow> ?thesis"
    by (auto simp: user_step_def complete_onboarding_def user_ok_def split: option.splits intro!: field_upd_inv)
qed

interpretation um: event_machine users_inv user_step
  by unfold_locales (rule user_step_inv)

lemma users_init_None: "users_inv (users_init None)"
  by (simp add: users_inv_def users_init_def load_from_disk_def no_user_def user_ok_def no_nul_def)

section \<open>Properties\<close>

text \<open>after any sequence of operations from a machine without saved accounts, creating an account
  with a working disk writes an image from which the next boot restores exactly the table.\<close>

theorem users_persist:
  assumes "no_nul n" "create True (Some n) (Some p) (foldl user_step (users_init None) evs) = (True, s)"
  shows "tab (users_init (saved s)) = tab s"
proof -
  have "users_inv (foldl user_step (users_init None) evs)" using users_init_None by (rule um.run_inv)
  then have "users_inv s" using user_create_inv [of "foldl user_step (users_init None) evs" "Some n" True "Some p"] assms by simp
  moreover have "saved s = Some (user_sector (tab s))"
    using assms(2) by (cases rule: create_cases) (auto simp: save_to_disk_def)
  ultimately show ?thesis using load_user_sector [of "tab s"] by (simp add: users_init_def users_inv_def)
qed

definition users_demo :: ustate where "users_demo = users_init None"

lemma users_demo_create:
  "create True (Some ''ann'') (Some ''pw'') users_demo =
   (True, save_to_disk True (users_demo\<lparr>tab := (tab users_demo)[0 := \<lparr>uname = ''ann'', pass_hash = hash_password ''pw'',
               usecase = USECASE_NONE, onboarded = False, uactive = True\<rparr>]\<rparr>))"
  by (simp add: create_def find_user_def users_demo_def users_init_def load_from_disk_def no_user_def MAX_USERS_def
      numeral_eq_Suc)

theorem users_persist_witness:
  "uname (tab (users_init (saved (snd (create True (Some ''ann'') (Some ''pw'') users_demo)))) ! 0) = ''ann''"
proof -
  have "no_nul ''ann''" by (simp add: no_nul_def)
  moreover have "create True (Some ''ann'') (Some ''pw'') (foldl user_step (users_init None) []) = 
      (True, snd (create True (Some ''ann'') (Some ''pw'') users_demo))"
    unfolding users_demo_create by (simp add: users_demo_create [unfolded users_demo_def] users_demo_def)
  ultimately have "tab (users_init (saved (snd (create True (Some ''ann'') (Some ''pw'') users_demo))))
      = tab (snd (create True (Some ''ann'') (Some ''pw'') users_demo))"
    by (rule users_persist)
  then show ?thesis
    by (simp add: users_demo_create) (simp add: users_demo_def users_init_def load_from_disk_def MAX_USERS_def)
qed

lemma find_user_lookup:
  "find_user (Some n) s = Some i \<Longrightarrow> i < length (tab s) \<and> uactive (tab s ! i) \<and> uname (tab s ! i) = n"
  using find_idx_SomeD [of _ "tab s" i] by (auto simp: find_user_key)

text \<open>a new account with a name of at most 31 characters is found by its name and accepts exactly the
  passwords with the hash of the given one; the count grows by one and every other account keeps
  its password and stays unique.\<close>

theorem create_verify:
  assumes inv: "users_inv s" and uq: "users_uniq s" and n: "length n \<le> 31"
    and c: "create wr (Some n) (Some p) s = (True, s')"
  shows "(verify (Some n) q s' \<longleftrightarrow> hash_password q = hash_password p) \<and>
         (\<forall>m. m \<noteq> n \<longrightarrow> verify (Some m) q s' = verify (Some m) q s) \<and>
         user_count s' = user_count s + 1 \<and> users_uniq s'"
  using c
proof (cases rule: create_cases)
  case (yes n' p' i)
  then have e: "n' = n" "p' = p" by auto
  let ?u = "\<lparr>uname = n, pass_hash = hash_password p, usecase = USECASE_NONE, onboarded = False, uactive = True\<rparr>"
  have t: "tab s' = (tab s)[i := ?u]" using yes(7) e n by simp
  have i: "i < length (tab s)" "\<not> uactive (tab s ! i)" using find_idx_SomeD [OF yes(6)] by auto
  have fresh: "\<forall>u\<in>set (tab s). uactive u \<longrightarrow> uname u \<noteq> n"
    using yes(5) e by (auto simp: find_user_key find_idx_None_iff)
  have uq': "uniq_keys uactive uname (tab s')"
    unfolding t using uq fresh by (intro uniq_keys_update_fresh) (auto simp: users_uniq_def)
  have v: "verify (Some m) q st = (case lookup_key uactive uname m (tab st) of None \<Rightarrow> False
             | Some u \<Rightarrow> pass_hash u = hash_password q)" for m st
    by (simp add: verify_def lookup_key_def find_user_key split: option.splits)
  have "lookup_key uactive uname (uname ?u) ((tab s)[i := ?u]) = Some ?u"
    using uq' i t by (intro lookup_key_update_hit) auto
  then have "verify (Some n) q s' \<longleftrightarrow> hash_password q = hash_password p" by (auto simp: v t)
  moreover have "lookup_key uactive uname m (tab s') = lookup_key uactive uname m (tab s)" if "m \<noteq> n" for m
    unfolding t using that i by (intro lookup_key_update_other) auto
  moreover have "user_count s' = user_count s + 1"
    using filter_update_inc [of i "tab s" uactive ?u] i by (simp add: user_count_def t)
  ultimately show ?thesis using uq' by (simp add: v users_uniq_def)
qed simp

lemma users_demo_inv: "users_inv users_demo" "users_uniq users_demo"
proof -
  show "users_inv users_demo" unfolding users_demo_def by (rule users_init_None)
  show "users_uniq users_demo"
    by (simp add: users_demo_def users_uniq_def uniq_keys_def users_init_def load_from_disk_def no_user_def)
qed

theorem create_verify_witness:
  "verify (Some ''ann'') ''pw'' (snd (create True (Some ''ann'') (Some ''pw'') users_demo))"
  using create_verify [OF users_demo_inv _ users_demo_create, of "''pw''"] unfolding users_demo_create by simp

text \<open>a longer name is accepted but stored cut to 31 characters, so the account cannot be found or
  logged into under the name it was created with, and the same name can be created again while a
  slot is free.\<close>

theorem create_long_name:
  assumes inv: "users_inv s" and n: "32 \<le> length n" and c: "create wr (Some n) (Some p) s = (True, s')"
  shows "find_user (Some n) s' = None \<and> \<not> verify (Some n) p s' \<and>
         (fst (create wr (Some n) (Some p) s') \<longleftrightarrow> user_count s' < MAX_USERS)"
  using c
proof (cases rule: create_cases)
  case (yes n' p' i)
  let ?u = "\<lparr>uname = take 31 n, pass_hash = hash_password p, usecase = USECASE_NONE, onboarded = False, uactive = True\<rparr>"
  have t: "tab s' = (tab s)[i := ?u]" using yes(2,3,7) by simp
  have "length (uname u) < 32" if "u \<in> set (tab s')" for u
    using that inv set_update_subset_insert [of "tab s" i ?u] unfolding t by (auto simp: users_inv_def user_ok_def)
  then have none: "find_user (Some n) s' = None" using n by (fastforce simp: find_user_key find_idx_None_iff)
  have len: "length (tab s') = MAX_USERS" using inv t by (simp add: users_inv_def)
  have "user_count s' < MAX_USERS \<longleftrightarrow> (\<exists>u\<in>set (tab s'). \<not> uactive u)"
  proof -
    have "(\<exists>u\<in>set (tab s'). \<not> uactive u) \<longleftrightarrow> 0 < length (filter (\<lambda>u. \<not> uactive u) (tab s'))"
      by (simp only: filter_pos_iff)
    then show ?thesis
      using len sum_length_filter_compl [of uactive "tab s'"] unfolding user_count_def by linarith
  qed
  then have "user_count s' < MAX_USERS \<longleftrightarrow> (\<exists>j. find_idx (\<lambda>u. \<not> uactive u) (tab s') = Some j)"
    by (simp add: find_idx_ex)
  then have "fst (create wr (Some n) (Some p) s') \<longleftrightarrow> user_count s' < MAX_USERS"
    using none yes(2,4) by (auto simp: create_def split: option.splits)
  with none show ?thesis by (simp add: verify_def)
qed simp

definition long_name :: string where "long_name = replicate 40 CHR ''x''"

lemma users_demo_long:
  "create True (Some long_name) (Some ''pw'') users_demo = (True, snd (create True (Some long_name) (Some ''pw'') users_demo))"
  by (simp add: create_def find_user_def users_demo_def users_init_def load_from_disk_def no_user_def MAX_USERS_def
      long_name_def numeral_eq_Suc)

theorem create_long_name_witness:
  "\<not> verify (Some long_name) ''pw'' (snd (create True (Some long_name) (Some ''pw'') users_demo))"
  using create_long_name [OF users_demo_inv(1) _ users_demo_long] by (simp add: long_name_def)

end
