(* ===== verification/Clipboard.thy ===== *)
theory Clipboard
  imports KString
begin

text \<open>
  The clipboard of \<^verbatim>\<open>kernel/clipboard.cpp\<close>: a buffer of 4096 bytes and the number of bytes in use. A
  pointer that may be null is an option.
\<close>

definition MAX_SIZE :: nat where "MAX_SIZE = 4096"

record clip =
  cbuf :: string
  clen :: nat

abbreviation NUL :: char where "NUL \<equiv> CHR 0x00"

definition clip_init :: clip where
  "clip_init = \<lparr>cbuf = replicate MAX_SIZE NUL, clen = 0\<rparr>"

definition clip_clear :: "clip \<Rightarrow> clip" where
  "clip_clear s = \<lparr>cbuf = (cbuf s)[0 := NUL], clen = 0\<rparr>"

definition clip_set :: "string option \<Rightarrow> nat \<Rightarrow> clip \<Rightarrow> clip" where
  "clip_set data len s =
     (case data of
        None \<Rightarrow> clip_clear s
      | Some d \<Rightarrow>
          let len = (if len \<ge> MAX_SIZE then MAX_SIZE - 1 else len)
          in \<lparr>cbuf = take len d @ [NUL] @ drop (len + 1) (cbuf s), clen = len\<rparr>)"

definition clip_set_str :: "string option \<Rightarrow> clip \<Rightarrow> clip" where
  "clip_set_str str s = (case str of None \<Rightarrow> clip_clear s | Some t \<Rightarrow> clip_set (Some t) (fs_strlen t) s)"

definition clip_get :: "clip \<Rightarrow> string" where
  "clip_get s = takeWhile (\<lambda>c. c \<noteq> NUL) (cbuf s)"

definition clip_size :: "clip \<Rightarrow> nat" where "clip_size s = clen s"

definition clip_empty :: "clip \<Rightarrow> bool" where "clip_empty s \<longleftrightarrow> clen s = 0"

datatype clip_event = SetClip "string option" nat | SetStr "string option" | Clear

text \<open>A caller of \<^verbatim>\<open>set\<close> passes at least \<open>len\<close> bytes.\<close>

definition clip_step :: "clip \<Rightarrow> clip_event \<Rightarrow> clip" where
  "clip_step s ev = (case ev of
     SetClip d n \<Rightarrow> (if (case d of None \<Rightarrow> True | Some t \<Rightarrow> n \<le> length t) then clip_set d n s else s)
   | SetStr t \<Rightarrow> clip_set_str t s | Clear \<Rightarrow> clip_clear s)"

definition clip_inv :: "clip \<Rightarrow> bool" where
  "clip_inv s \<longleftrightarrow> length (cbuf s) = MAX_SIZE \<and> clen s < MAX_SIZE \<and> cbuf s ! clen s = NUL"

lemma clip_set_inv:
  assumes "clip_inv s" "len \<le> length d"
  shows "clip_inv (clip_set (Some d) len s)"
proof -
  define k where "k = (if len \<ge> MAX_SIZE then MAX_SIZE - 1 else len)"
  have k: "k < MAX_SIZE" "k \<le> length d" using assms(2) by (auto simp: k_def MAX_SIZE_def)
  have "clip_set (Some d) len s = \<lparr>cbuf = take k d @ [NUL] @ drop (k + 1) (cbuf s), clen = k\<rparr>"
    by (simp add: clip_set_def Let_def k_def)
  with k assms(1) show ?thesis by (simp add: clip_inv_def nth_append min_def)
qed

lemma clip_clear_inv: "clip_inv s \<Longrightarrow> clip_inv (clip_clear s)"
  by (simp add: clip_inv_def clip_clear_def MAX_SIZE_def)

lemma clip_step_inv: "clip_inv s \<Longrightarrow> clip_inv (clip_step s ev)"
proof (cases ev)
  case (SetClip d n)
  then show "clip_inv s \<Longrightarrow> ?thesis"
    by (auto simp: clip_step_def clip_set_def [of None] split: option.splits intro: clip_set_inv clip_clear_inv)
next
  case (SetStr t)
  then show "clip_inv s \<Longrightarrow> ?thesis"
    by (auto simp: clip_step_def clip_set_str_def split: option.splits intro: clip_set_inv clip_clear_inv)
next
  case Clear
  then show "clip_inv s \<Longrightarrow> ?thesis" by (simp add: clip_step_def clip_clear_inv)
qed

lemma clip_init_inv: "clip_inv clip_init"
  by (simp add: clip_init_def clip_inv_def MAX_SIZE_def)

interpretation clipm: event_machine clip_inv clip_step
  by unfold_locales (rule clip_step_inv)

lemma set_str_get:
  assumes "NUL \<notin> set t"
  shows "clip_get (clip_set_str (Some t) s0) = take 4095 t" "clip_size (clip_set_str (Some t) s0) = min 4095 (length t)"
proof -
  define k where "k = (if length t \<ge> MAX_SIZE then MAX_SIZE - 1 else length t)"
  have k: "k = min 4095 (length t)" by (simp add: k_def MAX_SIZE_def)
  have e: "clip_set_str (Some t) s0 = \<lparr>cbuf = take k t @ NUL # drop (k + 1) (cbuf s0), clen = k\<rparr>"
    by (simp add: clip_set_str_def clip_set_def Let_def k_def)
  have "NUL \<notin> set (take k t)" using assms by (meson in_set_takeD)
  then have "takeWhile (\<lambda>c. c \<noteq> NUL) (take k t @ NUL # drop (k + 1) (cbuf s0)) = take k t"
    by (subst takeWhile_append2) auto
  moreover have "take k t = take 4095 t" by (simp add: k min_def)
  ultimately show "clip_get (clip_set_str (Some t) s0) = take 4095 t" by (simp add: e clip_get_def)
  show "clip_size (clip_set_str (Some t) s0) = min 4095 (length t)" by (simp add: e clip_size_def k)
qed

text \<open>whatever happened before, after copying a string the clipboard holds its first 4095
  characters, its size is their number, and the buffer is terminated within its 4096 bytes.\<close>

theorem clip_set_get:
  assumes "no_nul t"
  shows "let s = clip_set_str (Some t) (foldl clip_step clip_init evs)
         in clip_get s = take 4095 t \<and> clip_size s = min 4095 (length t) \<and> clip_inv s"
proof -
  define s0 where "s0 = foldl clip_step clip_init evs"
  have i: "clip_inv s0" unfolding s0_def using clip_init_inv by (rule clipm.run_inv)
  have "clip_inv (clip_step s0 (SetStr (Some t)))" using i by (rule clip_step_inv)
  then have inv: "clip_inv (clip_set_str (Some t) s0)" by (simp add: clip_step_def)
  have "NUL \<notin> set t" using assms by (auto simp: no_nul_def)
  from set_str_get [OF this, of s0] inv show ?thesis by (simp add: s0_def [symmetric])
qed

theorem clip_set_get_witness: "clip_get (clip_set_str (Some ''copy'') (clip_step clip_init Clear)) = ''copy''"
  using clip_set_get [of "''copy''" "[Clear]"] by (simp add: no_nul_def Let_def)

end
