(* ===== verification/Ports.thy ===== *)
theory Ports
  imports Prelude
begin

text \<open>
  Port input and output (\<^verbatim>\<open>kernel/io.h\<close>). The hardware behind the ports is not code of the
  repository: it is a parameter \<open>dev\<close> that decides what an input instruction reads from the
  history of every port access so far, newest first. A driver is a function on histories, so a
  statement about it holds for every device, and one about the exact commands it issues is a
  statement about the history it leaves.
\<close>

datatype io =
    Out8 u16 u8
  | Out16 u16 u16
  | Out32 u16 u32
  | In8 u16 u8
  | In16 u16 u16
  | In32 u16 u32

type_synonym hist = "io list"

record dev =
  rd8 :: "hist \<Rightarrow> u16 \<Rightarrow> u8"
  rd16 :: "hist \<Rightarrow> u16 \<Rightarrow> u16"
  rd32 :: "hist \<Rightarrow> u16 \<Rightarrow> u32"

definition outb :: "u16 \<Rightarrow> u8 \<Rightarrow> hist \<Rightarrow> hist" where "outb p v h = Out8 p v # h"
definition outw :: "u16 \<Rightarrow> u16 \<Rightarrow> hist \<Rightarrow> hist" where "outw p v h = Out16 p v # h"
definition outl :: "u16 \<Rightarrow> u32 \<Rightarrow> hist \<Rightarrow> hist" where "outl p v h = Out32 p v # h"

definition inb :: "dev \<Rightarrow> u16 \<Rightarrow> hist \<Rightarrow> u8 \<times> hist" where
  "inb d p h = (rd8 d h p, In8 p (rd8 d h p) # h)"

definition inw :: "dev \<Rightarrow> u16 \<Rightarrow> hist \<Rightarrow> u16 \<times> hist" where
  "inw d p h = (rd16 d h p, In16 p (rd16 d h p) # h)"

definition inl :: "dev \<Rightarrow> u16 \<Rightarrow> hist \<Rightarrow> u32 \<times> hist" where
  "inl d p h = (rd32 d h p, In32 p (rd32 d h p) # h)"

text \<open>Only the outputs of a history, in the order they were made.\<close>

primrec is_out :: "io \<Rightarrow> bool" where
  "is_out (Out8 p v) = True"
| "is_out (Out16 p v) = True"
| "is_out (Out32 p v) = True"
| "is_out (In8 p v) = False"
| "is_out (In16 p v) = False"
| "is_out (In32 p v) = False"

definition outs :: "hist \<Rightarrow> io list" where
  "outs h = rev (filter is_out h)"

lemma outs_simps [simp]:
  "outs (outb p v h) = outs h @ [Out8 p v]"
  "outs (outw p v2 h) = outs h @ [Out16 p v2]"
  "outs (outl p v4 h) = outs h @ [Out32 p v4]"
  "outs (snd (inb d p h)) = outs h"
  "outs (snd (inw d p h)) = outs h"
  "outs (snd (inl d p h)) = outs h"
  by (simp_all add: outs_def outb_def outw_def outl_def inb_def inw_def inl_def)

end
