(* ===== verification/Disk.thy ===== *)
theory Disk
  imports Ports KString
begin

text \<open>
  The ATA PIO driver of \<^verbatim>\<open>kernel/disk.cpp\<close> (LBA28, primary bus, one sector at a time). Every
  function is a function on the port history of \<open>Ports\<close>; the drive is the parameter \<open>dev\<close>. What
  the ATA standard promises of a drive is stated separately, as a state computed from the
  history (\<open>ata_of\<close>) and the predicate \<open>ata_ok\<close>, with busy phases of any length the driver waits for, and is used only
  by the round-trip property. A
  buffer is a list of 16-bit words; a null buffer is \<open>None\<close>.
\<close>

definition ATA_DATA :: u16 where "ATA_DATA = 0x1F0"
definition ATA_SECT_COUNT :: u16 where "ATA_SECT_COUNT = 0x1F2"
definition ATA_LBA_LO :: u16 where "ATA_LBA_LO = 0x1F3"
definition ATA_LBA_MID :: u16 where "ATA_LBA_MID = 0x1F4"
definition ATA_LBA_HI :: u16 where "ATA_LBA_HI = 0x1F5"
definition ATA_DRIVE_HEAD :: u16 where "ATA_DRIVE_HEAD = 0x1F6"
definition ATA_STATUS :: u16 where "ATA_STATUS = 0x1F7"
definition ATA_COMMAND :: u16 where "ATA_COMMAND = 0x1F7"
definition ATA_ALT_STATUS :: u16 where "ATA_ALT_STATUS = 0x3F6"

definition CMD_IDENTIFY :: u8 where "CMD_IDENTIFY = 0xEC"
definition CMD_READ_SECTORS :: u8 where "CMD_READ_SECTORS = 0x20"
definition CMD_WRITE_SECTORS :: u8 where "CMD_WRITE_SECTORS = 0x30"
definition CMD_CACHE_FLUSH :: u8 where "CMD_CACHE_FLUSH = 0xE7"

definition SR_BSY :: u8 where "SR_BSY = 0x80"
definition SR_DRQ :: u8 where "SR_DRQ = 0x08"
definition SR_ERR :: u8 where "SR_ERR = 0x01"

lemmas ata_consts = ATA_DATA_def ATA_SECT_COUNT_def ATA_LBA_LO_def ATA_LBA_MID_def ATA_LBA_HI_def
  ATA_DRIVE_HEAD_def ATA_STATUS_def ATA_COMMAND_def ATA_ALT_STATUS_def CMD_IDENTIFY_def
  CMD_READ_SECTORS_def CMD_WRITE_SECTORS_def CMD_CACHE_FLUSH_def

record drive =
  present :: bool
  model :: string
  serial :: string
  total_sectors :: u32
  size_mb :: u32
  lba_supported :: bool

definition no_drive :: drive where
  "no_drive = \<lparr>present = False, model = [], serial = [], total_sectors = 0, size_mb = 0, lba_supported = False\<rparr>"

section \<open>The driver\<close>

definition ata_400ns :: "dev \<Rightarrow> hist \<Rightarrow> hist" where
  "ata_400ns d h =
     (let h = snd (inb d ATA_ALT_STATUS h); h = snd (inb d ATA_ALT_STATUS h);
          h = snd (inb d ATA_ALT_STATUS h) in snd (inb d ATA_ALT_STATUS h))"

primrec not_busy_loop :: "dev \<Rightarrow> nat \<Rightarrow> hist \<Rightarrow> u8 \<times> hist" where
  "not_busy_loop d 0 h = (0xFF, h)"
| "not_busy_loop d (Suc n) h =
     (let (status, h) = inb d ATA_STATUS h
      in if status AND SR_BSY = 0 then (status, h) else not_busy_loop d n h)"

definition ata_wait_not_busy :: "dev \<Rightarrow> hist \<Rightarrow> u8 \<times> hist" where
  "ata_wait_not_busy d h = not_busy_loop d 100000 h"

primrec drq_loop :: "dev \<Rightarrow> nat \<Rightarrow> hist \<Rightarrow> bool \<times> hist" where
  "drq_loop d 0 h = (False, h)"
| "drq_loop d (Suc n) h =
     (let (status, h) = inb d ATA_STATUS h
      in if status AND SR_ERR \<noteq> 0 then (False, h)
         else if status AND SR_BSY = 0 \<and> status AND SR_DRQ \<noteq> 0 then (True, h)
         else drq_loop d n h)"

definition ata_wait_drq :: "dev \<Rightarrow> hist \<Rightarrow> bool \<times> hist" where
  "ata_wait_drq d h = drq_loop d 100000 (ata_400ns d h)"

primrec read_words :: "dev \<Rightarrow> nat \<Rightarrow> hist \<Rightarrow> u16 list \<times> hist" where
  "read_words d 0 h = ([], h)"
| "read_words d (Suc n) h =
     (let (w, h) = inw d ATA_DATA h; (ws, h) = read_words d n h in (w # ws, h))"

definition write_words :: "u16 list \<Rightarrow> hist \<Rightarrow> hist" where
  "write_words ws h = fold (\<lambda>w h. outw ATA_DATA w h) ws h"

fun trim_spaces :: "string \<Rightarrow> string" where
  "trim_spaces s = rev (dropWhile (\<lambda>c. c = CHR '' '') (rev s))"

definition ata_string :: "u16 list \<Rightarrow> nat \<Rightarrow> nat \<Rightarrow> string" where
  "ata_string data start_word word_count = trim_spaces (concat (map (\<lambda>w.
     [byte_char (ucast (drop_bit 8 (data ! w))), byte_char (ucast (data ! w AND 0xFF))])
     [start_word..<start_word + word_count]))"

definition ata_identify :: "dev \<Rightarrow> hist \<Rightarrow> u16 list option \<times> hist" where
  "ata_identify d h =
     (let h = ata_400ns d (outb ATA_DRIVE_HEAD 0xA0 h);
          h = outb ATA_LBA_HI 0 (outb ATA_LBA_MID 0 (outb ATA_LBA_LO 0 (outb ATA_SECT_COUNT 0 h)));
          h = ata_400ns d (outb ATA_COMMAND CMD_IDENTIFY h);
          (status, h) = inb d ATA_STATUS h
      in if status = 0 then (None, h)
         else
           let (status, h) = ata_wait_not_busy d h
           in if status = 0xFF then (None, h)
              else
                let (mid, h) = inb d ATA_LBA_MID h
                in if mid \<noteq> 0 then (None, h)
                   else
                     let (hi, h) = inb d ATA_LBA_HI h
                     in if hi \<noteq> 0 then (None, h)
                        else
                          let (ok, h) = ata_wait_drq d h
                          in if \<not> ok then (None, h)
                             else let (ws, h) = read_words d 256 h in (Some ws, h))"

definition disk_init :: "dev \<Rightarrow> hist \<Rightarrow> bool \<times> drive \<times> hist" where
  "disk_init d h =
     (case ata_identify d h of
        (None, h) \<Rightarrow> (False, no_drive, h)
      | (Some idd, h) \<Rightarrow>
          let total = ucast (idd ! 60) OR push_bit 16 (ucast (idd ! 61))
          in (True, \<lparr>present = True, model = ata_string idd 27 20, serial = ata_string idd 10 10,
                     total_sectors = total, size_mb = total div 2048,
                     lba_supported = (idd ! 49 AND 0x200 \<noteq> 0)\<rparr>, h))"

definition select_sector :: "u32 \<Rightarrow> hist \<Rightarrow> hist" where
  "select_sector lba h =
     (let h = outb ATA_DRIVE_HEAD (ucast (0xE0 OR (drop_bit 24 lba AND 0x0F))) h;
          h = outb ATA_SECT_COUNT 1 h;
          h = outb ATA_LBA_LO (ucast (lba AND 0xFF)) h;
          h = outb ATA_LBA_MID (ucast (drop_bit 8 lba AND 0xFF)) h
      in outb ATA_LBA_HI (ucast (drop_bit 16 lba AND 0xFF)) h)"

definition sector_ok :: "drive \<Rightarrow> u32 \<Rightarrow> bool" where
  "sector_ok dr lba \<longleftrightarrow> present dr \<and> lba_supported dr \<and> lba < total_sectors dr"

definition read_sector :: "dev \<Rightarrow> drive \<Rightarrow> u32 \<Rightarrow> hist \<Rightarrow> u16 list option \<times> hist" where
  "read_sector d dr lba h =
     (if \<not> sector_ok dr lba then (None, h)
      else let h = outb ATA_COMMAND CMD_READ_SECTORS (select_sector lba h);
               (ok, h) = ata_wait_drq d h
           in if \<not> ok then (None, h)
              else let (ws, h) = read_words d 256 h in (Some ws, h))"

fun read_sectors :: "dev \<Rightarrow> drive \<Rightarrow> u32 \<Rightarrow> nat \<Rightarrow> hist \<Rightarrow> u16 list option \<times> hist" where
  "read_sectors d dr lba 0 h = (Some [], h)"
| "read_sectors d dr lba (Suc n) h =
     (case read_sector d dr lba h of
        (None, h) \<Rightarrow> (None, h)
      | (Some ws, h) \<Rightarrow> (case read_sectors d dr (lba + 1) n h of
                          (None, h) \<Rightarrow> (None, h) | (Some rest, h) \<Rightarrow> (Some (ws @ rest), h)))"

definition write_sector :: "dev \<Rightarrow> drive \<Rightarrow> u32 \<Rightarrow> u16 list option \<Rightarrow> hist \<Rightarrow> bool \<times> hist" where
  "write_sector d dr lba buf h =
     (case buf of
        None \<Rightarrow> (False, h)
      | Some ws \<Rightarrow>
          if \<not> sector_ok dr lba then (False, h)
          else let h = outb ATA_COMMAND CMD_WRITE_SECTORS (select_sector lba h);
                   (ok, h) = ata_wait_drq d h
               in if \<not> ok then (False, h)
                  else let h = write_words (take 256 ws) h;
                           h = outb ATA_COMMAND CMD_CACHE_FLUSH h;
                           (_, h) = ata_wait_not_busy d h
                       in (True, h))"

section \<open>What the standard promises of a drive\<close>

text \<open>
  The drive as the host sees it: its address registers, the sector it transfers in or out, and the medium. While the
  status shows BSY it takes no register write, no command and no data, and a command in the middle of a transfer is not taken either.
\<close>

datatype ata_mode = Idle | DataIn "u16 list" | DataOut u32 "u16 list"

record ata =
  r_lo :: u8
  r_mid :: u8
  r_hi :: u8
  r_dh :: u8
  mode :: ata_mode
  medium :: "u32 \<Rightarrow> u16 list"

definition ata_lba :: "ata \<Rightarrow> u32" where
  "ata_lba a = ucast (r_lo a) OR push_bit 8 (ucast (r_mid a)) OR push_bit 16 (ucast (r_hi a))
     OR push_bit 24 (ucast (r_dh a AND 0x0F))"

fun ata_step :: "io \<Rightarrow> ata \<Rightarrow> ata" where
  "ata_step (Out8 p v) a =
     (if mode a \<noteq> Idle then a
      else if p = ATA_LBA_LO then a\<lparr>r_lo := v\<rparr>
      else if p = ATA_LBA_MID then a\<lparr>r_mid := v\<rparr>
      else if p = ATA_LBA_HI then a\<lparr>r_hi := v\<rparr>
      else if p = ATA_DRIVE_HEAD then a\<lparr>r_dh := v\<rparr>
      else if p = ATA_COMMAND \<and> v = CMD_READ_SECTORS then a\<lparr>mode := DataIn (medium a (ata_lba a))\<rparr>
      else if p = ATA_COMMAND \<and> v = CMD_WRITE_SECTORS then a\<lparr>mode := DataOut (ata_lba a) []\<rparr>
      else a)"
| "ata_step (In16 p v) a =
     (case mode a of
        DataIn (w # ws) \<Rightarrow> if p = ATA_DATA then a\<lparr>mode := (if ws = [] then Idle else DataIn ws)\<rparr> else a
      | _ \<Rightarrow> a)"
| "ata_step (Out16 p v) a =
     (case mode a of
        DataOut l ws \<Rightarrow>
          if p = ATA_DATA
          then (if length ws = 255 then a\<lparr>mode := Idle, medium := (medium a)(l := ws @ [v])\<rparr>
                else a\<lparr>mode := DataOut l (ws @ [v])\<rparr>)
          else a
      | _ \<Rightarrow> a)"
| "ata_step _ a = a"

definition busy :: "dev \<Rightarrow> hist \<Rightarrow> bool" where
  "busy d h \<longleftrightarrow> rd8 d h ATA_STATUS AND SR_BSY \<noteq> 0"

primrec ata_of :: "dev \<Rightarrow> ata \<Rightarrow> hist \<Rightarrow> ata" where
  "ata_of d a0 [] = a0"
| "ata_of d a0 (x # h) = (if busy d h then ata_of d a0 h else ata_step x (ata_of d a0 h))"

text \<open>The accesses that give the drive work to do: a command, and the last word of a sector it takes.\<close>

definition gives_work :: "dev \<Rightarrow> ata \<Rightarrow> io \<Rightarrow> hist \<Rightarrow> bool" where
  "gives_work d a0 x h \<longleftrightarrow> (\<exists>v. x = Out8 ATA_COMMAND v) \<or>
     (\<exists>v. x = Out16 ATA_DATA v \<and> mode (ata_of d a0 h) \<noteq> Idle \<and> mode (ata_of d a0 (x # h)) = Idle)"

definition poll :: "dev \<Rightarrow> hist \<Rightarrow> hist" where "poll d h = snd (inb d ATA_STATUS h)"

text \<open>
  A drive that works: it becomes busy only when it is given work; a busy drive is ready again
  within 100000 reads of the status, the number the driver waits for; no error bit shows in a transfer, be the drive busy or not (the driver looks at it in either case); a drive
  that is in a transfer and not busy asks for data (DRQ) and a data read delivers the next word. The other bits of the status, as
  DRDY, and how long the drive is busy are free, and so is everything it answers outside a transfer.
\<close>

definition ata_ok :: "dev \<Rightarrow> ata \<Rightarrow> bool" where
  "ata_ok d a0 \<longleftrightarrow>
     (\<forall>x h. \<not> busy d h \<and> \<not> gives_work d a0 x h \<longrightarrow> \<not> busy d (x # h)) \<and>
     (\<forall>h. \<exists>k<100000. \<not> busy d ((poll d ^^ k) h)) \<and>
     (\<forall>h. mode (ata_of d a0 h) \<noteq> Idle \<longrightarrow> rd8 d h ATA_STATUS AND SR_ERR = 0) \<and>
     (\<forall>h. mode (ata_of d a0 h) \<noteq> Idle \<and> \<not> busy d h \<longrightarrow> rd8 d h ATA_STATUS AND SR_DRQ \<noteq> 0) \<and>
     (\<forall>h w ws. mode (ata_of d a0 h) = DataIn (w # ws) \<and> \<not> busy d h \<longrightarrow> rd16 d h ATA_DATA = w)"

lemma ata_okD:
  assumes "ata_ok d a0"
  shows "\<not> busy d h \<Longrightarrow> \<not> gives_work d a0 x h \<Longrightarrow> \<not> busy d (x # h)"
    and "\<exists>k<100000. \<not> busy d ((poll d ^^ k) h)"
    and "mode (ata_of d a0 h) \<noteq> Idle \<Longrightarrow> rd8 d h ATA_STATUS AND SR_ERR = 0"
    and "mode (ata_of d a0 h) \<noteq> Idle \<Longrightarrow> \<not> busy d h \<Longrightarrow> rd8 d h ATA_STATUS AND SR_DRQ \<noteq> 0"
    and "mode (ata_of d a0 h) = DataIn (w # ws) \<Longrightarrow> \<not> busy d h \<Longrightarrow> rd16 d h ATA_DATA = w"
  using assms unfolding ata_ok_def by blast+

lemma ata_of_in8 [simp]: "ata_of d a0 (snd (inb d p h)) = ata_of d a0 h"
  by (simp add: inb_def)

lemma ata_of_poll [simp]: "ata_of d a0 (poll d h) = ata_of d a0 h"
  by (simp add: poll_def)

lemma ata_of_400 [simp]: "ata_of d a0 (ata_400ns d h) = ata_of d a0 h"
  by (simp add: ata_400ns_def Let_def)

lemma ready_in8: "ata_ok d a0 \<Longrightarrow> \<not> busy d h \<Longrightarrow> \<not> busy d (snd (inb d p h))"
  unfolding inb_def by (simp add: ata_okD(1) gives_work_def)

text \<open>A write to a register other than the command register finds a ready drive ready and leaves it so.\<close>

lemma ready_outb:
  assumes "ata_ok d a0" "\<not> busy d h"
  shows "ata_of d a0 (outb p v h) = ata_step (Out8 p v) (ata_of d a0 h)" "p \<noteq> ATA_COMMAND \<Longrightarrow> \<not> busy d (outb p v h)"
  using assms ata_okD(1) [OF assms, of "Out8 p v"] by (simp_all add: outb_def gives_work_def)

lemma not_busy_keeps: "ata_of d a0 (snd (not_busy_loop d n h)) = ata_of d a0 h"
proof (induction n arbitrary: h)
  case (Suc n)
  then show ?case using ata_of_in8 [of d a0 ATA_STATUS h] by (auto simp: case_prod_beta Let_def)
qed simp

lemma not_busy_ready:
  assumes "ata_ok d a0"
  shows "\<exists>k<n. \<not> busy d ((poll d ^^ k) h) \<Longrightarrow> \<not> busy d (snd (not_busy_loop d n h))"
proof (induction n arbitrary: h)
  case (Suc n)
  show ?case
  proof (cases "busy d h")
    case True
    from Suc.prems obtain k where k: "k < Suc n" "\<not> busy d ((poll d ^^ k) h)" by blast
    with True obtain k' where "k = Suc k'" by (cases k) auto
    with k have "k' < n \<and> \<not> busy d ((poll d ^^ k') (poll d h))" by (simp add: funpow_swap1)
    then have "\<not> busy d (snd (not_busy_loop d n (poll d h)))" by (intro Suc.IH) blast
    with True show ?thesis by (simp add: case_prod_beta Let_def poll_def inb_def busy_def)
  next
    case False
    with ready_in8 [OF assms False, of ATA_STATUS] show ?thesis by (simp add: case_prod_beta Let_def inb_def busy_def)
  qed
qed simp

lemma wait_not_busy: "ata_ok d a0 \<Longrightarrow> \<not> busy d (snd (ata_wait_not_busy d h))"
  unfolding ata_wait_not_busy_def by (rule not_busy_ready) (auto intro: ata_okD(2))

text \<open>In a transfer the wait for data polls as long as the drive is busy and then succeeds.\<close>

lemma drq_loop_ready:
  assumes ok: "ata_ok d a0"
  shows "\<exists>k<n. \<not> busy d ((poll d ^^ k) h) \<Longrightarrow> mode (ata_of d a0 h) \<noteq> Idle \<Longrightarrow>
    fst (drq_loop d n h) \<and> ata_of d a0 (snd (drq_loop d n h)) = ata_of d a0 h \<and> \<not> busy d (snd (drq_loop d n h))"
proof (induction n arbitrary: h)
  case (Suc n)
  have e: "rd8 d h ATA_STATUS AND SR_ERR = 0" by (rule ata_okD(3) [OF ok Suc.prems(2)])
  show ?case
  proof (cases "busy d h")
    case True
    from Suc.prems(1) obtain k where k: "k < Suc n" "\<not> busy d ((poll d ^^ k) h)" by blast
    with True obtain k' where "k = Suc k'" by (cases k) auto
    with k have "k' < n \<and> \<not> busy d ((poll d ^^ k') (poll d h))" by (simp add: funpow_swap1)
    then have "fst (drq_loop d n (poll d h)) \<and> ata_of d a0 (snd (drq_loop d n (poll d h))) = ata_of d a0 (poll d h) \<and>
        \<not> busy d (snd (drq_loop d n (poll d h)))"
      using Suc.prems(2) by (intro Suc.IH) auto
    moreover have "drq_loop d (Suc n) h = drq_loop d n (poll d h)"
      using True e by (simp add: case_prod_beta Let_def poll_def inb_def busy_def)
    ultimately show ?thesis by simp
  next
    case False
    have "drq_loop d (Suc n) h = (True, poll d h)"
      using False e ata_okD(4) [OF ok Suc.prems(2) False] by (simp add: case_prod_beta Let_def poll_def inb_def busy_def)
    with ready_in8 [OF ok False, of ATA_STATUS] show ?thesis by (simp add: poll_def)
  qed
qed simp

lemma drq_ready:
  assumes "ata_ok d a0" "mode (ata_of d a0 h) \<noteq> Idle"
  shows "fst (ata_wait_drq d h)" "ata_of d a0 (snd (ata_wait_drq d h)) = ata_of d a0 h" "\<not> busy d (snd (ata_wait_drq d h))"
  using drq_loop_ready [OF assms(1) ata_okD(2) [OF assms(1)], of "ata_400ns d h"] assms(2) by (simp_all add: ata_wait_drq_def)

lemma ata_select:
  assumes ok: "ata_ok d a0" and r: "\<not> busy d h" "mode (ata_of d a0 h) = Idle"
  shows "ata_of d a0 (select_sector lba h) = (ata_of d a0 h)\<lparr>r_lo := ucast (lba AND 0xFF),
     r_mid := ucast (drop_bit 8 lba AND 0xFF), r_hi := ucast (drop_bit 16 lba AND 0xFF),
     r_dh := ucast (0xE0 OR (drop_bit 24 lba AND 0x0F))\<rparr>"
    and "\<not> busy d (select_sector lba h)"
proof -
  have n: "ATA_DRIVE_HEAD \<noteq> ATA_COMMAND" "ATA_SECT_COUNT \<noteq> ATA_COMMAND" "ATA_LBA_LO \<noteq> ATA_COMMAND" "ATA_LBA_MID \<noteq> ATA_COMMAND"
    "ATA_LBA_HI \<noteq> ATA_COMMAND" by (simp_all add: ata_consts)
  note o = ready_outb [OF ok]
  note b1 = o(2) [OF r(1) n(1)]
  note b2 = o(2) [OF b1 n(2)]
  note b3 = o(2) [OF b2 n(3)]
  note b4 = o(2) [OF b3 n(4)]
  show "\<not> busy d (select_sector lba h)" unfolding select_sector_def Let_def by (rule o(2) [OF b4 n(5)])
  show "ata_of d a0 (select_sector lba h) = (ata_of d a0 h)\<lparr>r_lo := ucast (lba AND 0xFF),
     r_mid := ucast (drop_bit 8 lba AND 0xFF), r_hi := ucast (drop_bit 16 lba AND 0xFF),
     r_dh := ucast (0xE0 OR (drop_bit 24 lba AND 0x0F))\<rparr>"
    unfolding select_sector_def Let_def o(1) [OF b4] o(1) [OF b3] o(1) [OF b2] o(1) [OF b1] o(1) [OF r(1)]
    using r(2) by (simp add: ata_consts)
qed

lemma ata_lba_select:
  assumes "ata_ok d a0" "\<not> busy d h" "mode (ata_of d a0 h) = Idle"
  shows "ata_lba (ata_of d a0 (select_sector lba h)) = lba AND 0x0FFFFFFF"
proof -
  have m: "(0xFF :: u32) = mask 8" "(0x0F :: u32) = mask 4" "(0x0FFFFFFF :: u32) = mask 28" "(0x0F :: u8) = mask 4"
    by (simp_all add: mask_eq_exp_minus_1)
  have e: "(0xE0 :: u32) = push_bit 5 (mask 3)" by (simp add: mask_eq_exp_minus_1 push_bit_eq_mult)
  show ?thesis
  proof (rule bit_word_eqI)
    fix n
    assume "n < LENGTH(32)"
    then consider "n < 8" | "8 \<le> n" "n < 16" | "16 \<le> n" "n < 24" | "24 \<le> n" "n < 28" | "28 \<le> n" "n < 32"
      by fastforce
    then show "bit (ata_lba (ata_of d a0 (select_sector lba h))) n = bit (lba AND 0x0FFFFFFF) n"
      unfolding ata_lba_def ata_select(1) [OF assms] m e by cases (auto simp: bit_simps)
  qed
qed

lemma ata_command:
  assumes "ata_ok d a0" "\<not> busy d h" "mode (ata_of d a0 h) = Idle"
  shows "ata_of d a0 (outb ATA_COMMAND CMD_WRITE_SECTORS (select_sector lba h)) =
      (ata_of d a0 (select_sector lba h))\<lparr>mode := DataOut (lba AND 0x0FFFFFFF) []\<rparr>"
    and "ata_of d a0 (outb ATA_COMMAND CMD_READ_SECTORS (select_sector lba h)) =
      (ata_of d a0 (select_sector lba h))\<lparr>mode := DataIn (medium (ata_of d a0 h) (lba AND 0x0FFFFFFF))\<rparr>"
proof -
  note sel = ata_select [OF assms, of lba]
  have m: "mode (ata_of d a0 (select_sector lba h)) = Idle" "medium (ata_of d a0 (select_sector lba h)) = medium (ata_of d a0 h)"
    unfolding sel(1) using assms(3) by simp_all
  show "ata_of d a0 (outb ATA_COMMAND CMD_WRITE_SECTORS (select_sector lba h)) =
      (ata_of d a0 (select_sector lba h))\<lparr>mode := DataOut (lba AND 0x0FFFFFFF) []\<rparr>"
    unfolding ready_outb(1) [OF assms(1) sel(2)] ata_step.simps m(1) ata_lba_select [OF assms] by (simp add: ata_consts)
  show "ata_of d a0 (outb ATA_COMMAND CMD_READ_SECTORS (select_sector lba h)) =
      (ata_of d a0 (select_sector lba h))\<lparr>mode := DataIn (medium (ata_of d a0 h) (lba AND 0x0FFFFFFF))\<rparr>"
    unfolding ready_outb(1) [OF assms(1) sel(2)] ata_step.simps m(1) ata_lba_select [OF assms] m(2) by (simp add: ata_consts)
qed

text \<open>Reading and writing the words of a sector, with the drive ready all along.\<close>

lemma ready_data:
  assumes "ata_ok d a0" "\<not> busy d h"
  shows "\<not> busy d (snd (inw d ATA_DATA h))"
    and "mode (ata_of d a0 h) = DataOut l acc \<Longrightarrow> length acc \<noteq> 255 \<Longrightarrow> \<not> busy d (outw ATA_DATA w h)"
  using ata_okD(1) [OF assms] assms(2) by (simp_all add: inw_def outw_def gives_work_def)

lemma read_words_all:
  "ata_ok d a0 \<Longrightarrow> mode (ata_of d a0 h) = DataIn ws \<Longrightarrow> ws \<noteq> [] \<Longrightarrow> \<not> busy d h \<Longrightarrow>
   fst (read_words d (length ws) h) = ws \<and>
   ata_of d a0 (snd (read_words d (length ws) h)) = (ata_of d a0 h)\<lparr>mode := Idle\<rparr> \<and> \<not> busy d (snd (read_words d (length ws) h))"
proof (induction ws arbitrary: h)
  case (Cons w ws)
  let ?h = "snd (inw d ATA_DATA h)"
  have w: "fst (inw d ATA_DATA h) = w" using ata_okD(5) [OF Cons.prems(1,2,4)] by (simp add: inw_def)
  have st: "ata_of d a0 ?h = (ata_of d a0 h)\<lparr>mode := (if ws = [] then Idle else DataIn ws)\<rparr>"
    using Cons.prems(2,4) by (simp add: inw_def)
  have r: "\<not> busy d ?h" by (rule ready_data(1) [OF Cons.prems(1,4)])
  show ?case
  proof (cases "ws = []")
    case True
    then show ?thesis using w st r by (simp add: case_prod_beta)
  next
    case False
    then have "mode (ata_of d a0 ?h) = DataIn ws" using st by simp
    from Cons.IH [OF Cons.prems(1) this False r] show ?thesis using w st by (simp add: case_prod_beta)
  qed
qed simp

lemma write_words_all:
  "ata_ok d a0 \<Longrightarrow> mode (ata_of d a0 h) = DataOut l acc \<Longrightarrow> \<not> busy d h \<Longrightarrow> ws \<noteq> [] \<Longrightarrow> length acc + length ws = 256 \<Longrightarrow>
   ata_of d a0 (write_words ws h) = (ata_of d a0 h)\<lparr>mode := Idle, medium := (medium (ata_of d a0 h))(l := acc @ ws)\<rparr>"
proof (induction ws arbitrary: h acc)
  case (Cons w ws)
  have o: "ata_of d a0 (outw ATA_DATA w h) = ata_step (Out16 ATA_DATA w) (ata_of d a0 h)"
    using Cons.prems(3) by (simp add: outw_def)
  show ?case
  proof (cases "ws = []")
    case True
    then show ?thesis using Cons.prems by (simp add: write_words_def o fun_upd_def)
  next
    case False
    then have l: "length acc \<noteq> 255" using Cons.prems(5) by (cases ws) simp_all
    have s: "ata_of d a0 (outw ATA_DATA w h) = (ata_of d a0 h)\<lparr>mode := DataOut l (acc @ [w])\<rparr>"
      using l Cons.prems(2) by (simp add: o)
    from Cons.IH [of "outw ATA_DATA w h" "acc @ [w]"] False Cons.prems ready_data(2) [OF Cons.prems(1,3,2) l] show ?thesis
      by (simp add: write_words_def s)
  qed
qed simp

section \<open>Properties\<close>

lemma outs_400 [simp]: "outs (ata_400ns d h) = outs h"
  by (simp add: ata_400ns_def Let_def)

lemma outs_not_busy [simp]: "outs (snd (not_busy_loop d n h)) = outs h"
proof (induction n arbitrary: h)
  case (Suc n)
  then show ?case using outs_simps(4) [of d ATA_STATUS h] by (auto simp: case_prod_beta Let_def)
qed simp

lemma outs_drq [simp]: "outs (snd (drq_loop d n h)) = outs h"
proof (induction n arbitrary: h)
  case (Suc n)
  then show ?case using outs_simps(4) [of d ATA_STATUS h] by (auto simp: case_prod_beta Let_def)
qed simp

lemma outs_write_words [simp]: "outs (write_words ws h) = outs h @ map (Out16 ATA_DATA) ws"
  by (induction ws arbitrary: h) (simp_all add: write_words_def)

lemma outs_select [simp]:
  "outs (select_sector lba h) = outs h @
     [Out8 ATA_DRIVE_HEAD (ucast (0xE0 OR (drop_bit 24 lba AND 0x0F))), Out8 ATA_SECT_COUNT 1,
      Out8 ATA_LBA_LO (ucast (lba AND 0xFF)), Out8 ATA_LBA_MID (ucast (drop_bit 8 lba AND 0xFF)),
      Out8 ATA_LBA_HI (ucast (drop_bit 16 lba AND 0xFF))]"
  by (simp add: select_sector_def Let_def)

text \<open>whatever the drive answers, a successful write of a sector issues exactly the five address
  bytes, the WRITE command, the 256 words in order and the cache flush, and a write without a drive,
  without LBA, beyond the last sector or from a null buffer touches no port at all.\<close>

theorem write_sector_commands:
  assumes "write_sector d dr lba buf h = (ok, h')"
  shows "if present dr \<and> lba_supported dr \<and> lba < total_sectors dr \<and> buf \<noteq> None
         then ok = (fst (ata_wait_drq d (outb ATA_COMMAND CMD_WRITE_SECTORS (select_sector lba h)))) \<and>
              outs h' = outs h @
                [Out8 ATA_DRIVE_HEAD (ucast (0xE0 OR (drop_bit 24 lba AND 0x0F))), Out8 ATA_SECT_COUNT 1,
                 Out8 ATA_LBA_LO (ucast (lba AND 0xFF)), Out8 ATA_LBA_MID (ucast (drop_bit 8 lba AND 0xFF)),
                 Out8 ATA_LBA_HI (ucast (drop_bit 16 lba AND 0xFF)), Out8 ATA_COMMAND CMD_WRITE_SECTORS] @
                (if ok then map (Out16 ATA_DATA) (take 256 (the buf)) @ [Out8 ATA_COMMAND CMD_CACHE_FLUSH] else [])
         else \<not> ok \<and> h' = h"
proof (cases "sector_ok dr lba \<and> buf \<noteq> None")
  case True
  then obtain ws where ws: "buf = Some ws" by auto
  obtain b h1 where b: "ata_wait_drq d (outb ATA_COMMAND CMD_WRITE_SECTORS (select_sector lba h)) = (b, h1)"
    by fastforce
  have "outs (snd (ata_wait_drq d (outb ATA_COMMAND CMD_WRITE_SECTORS (select_sector lba h)))) =
        outs (outb ATA_COMMAND CMD_WRITE_SECTORS (select_sector lba h))"
    by (simp add: ata_wait_drq_def)
  then have o1: "outs h1 = outs (outb ATA_COMMAND CMD_WRITE_SECTORS (select_sector lba h))" by (simp add: b)
  have nb: "outs (snd (ata_wait_not_busy d x)) = outs x" for x by (simp add: ata_wait_not_busy_def)
  from assms True ws b have "ok = b" and
    "h' = (if b then snd (ata_wait_not_busy d (outb ATA_COMMAND CMD_CACHE_FLUSH (write_words (take 256 ws) h1))) else h1)"
    by (auto simp: write_sector_def Let_def case_prod_beta split: if_splits)
  with True ws b o1 show ?thesis by (auto simp: sector_ok_def nb)
next
  case False
  then have "write_sector d dr lba buf h = (False, h)" by (cases buf) (simp_all add: write_sector_def)
  with assms have "\<not> ok" "h' = h" by simp_all
  moreover from False have "\<not> (present dr \<and> lba_supported dr \<and> lba < total_sectors dr \<and> buf \<noteq> None)"
    by (simp add: sector_ok_def)
  ultimately show ?thesis by (simp only: if_False) simp
qed

text \<open>C23: on a drive that works and is ready, writing a sector in range succeeds, however long, within the driver's 100000
  polls, the drive is busy after each command; the drive is then ready again, reading the sector back returns the same 256 words, and the only sector of the medium
  that changes is the one addressed by the low 28 bits of the LBA.\<close>

theorem write_read_sector:
  assumes dev: "ata_ok d a0" and ok: "sector_ok dr lba" and ws: "length ws = 256"
    and r: "\<not> busy d h" "mode (ata_of d a0 h) = Idle"
  shows "\<exists>h1 h2. write_sector d dr lba (Some ws) h = (True, h1) \<and> \<not> busy d h1 \<and>
                 medium (ata_of d a0 h1) = (medium (ata_of d a0 h))(lba AND 0x0FFFFFFF := ws) \<and>
                 read_sector d dr lba h1 = (Some ws, h2) \<and> medium (ata_of d a0 h2) = medium (ata_of d a0 h1)"
proof -
  have ne: "ws \<noteq> []" using ws by auto
  define hc where "hc = outb ATA_COMMAND CMD_WRITE_SECTORS (select_sector lba h)"
  have hc: "ata_of d a0 hc = (ata_of d a0 (select_sector lba h))\<lparr>mode := DataOut (lba AND 0x0FFFFFFF) []\<rparr>"
    unfolding hc_def by (rule ata_command(1) [OF dev r])
  have m: "mode (ata_of d a0 hc) \<noteq> Idle" by (simp add: hc)
  define hd where "hd = snd (ata_wait_drq d hc)"
  have hd: "ata_wait_drq d hc = (True, hd)" "ata_of d a0 hd = ata_of d a0 hc" "\<not> busy d hd"
    using drq_ready [OF dev m] by (auto simp: hd_def prod_eq_iff)
  define hw where "hw = write_words ws hd"
  have hw: "ata_of d a0 hw = (ata_of d a0 hd)\<lparr>mode := Idle, medium := (medium (ata_of d a0 hd))(lba AND 0x0FFFFFFF := ws)\<rparr>"
    using write_words_all [OF dev _ hd(3) ne, of "lba AND 0x0FFFFFFF" "[]"] ws by (simp add: hw_def hd(2) hc)
  define h1 where "h1 = snd (ata_wait_not_busy d (outb ATA_COMMAND CMD_CACHE_FLUSH hw))"
  have h1: "ata_of d a0 h1 = ata_of d a0 hw"
    unfolding h1_def ata_wait_not_busy_def not_busy_keeps by (simp add: ata_consts outb_def)
  have r1: "\<not> busy d h1" "mode (ata_of d a0 h1) = Idle" using wait_not_busy [OF dev] by (simp_all add: h1_def [symmetric] h1 hw) (simp add: h1_def)
  have w: "write_sector d dr lba (Some ws) h = (True, h1)"
    using ok hd(1) ws by (simp add: write_sector_def hc_def [symmetric] hw_def [symmetric] h1_def case_prod_beta)
  have med: "medium (ata_of d a0 h1) = (medium (ata_of d a0 h))(lba AND 0x0FFFFFFF := ws)"
    by (simp add: h1 hw hd(2) hc ata_select(1) [OF dev r])
  define rc where "rc = outb ATA_COMMAND CMD_READ_SECTORS (select_sector lba h1)"
  have rc: "ata_of d a0 rc = (ata_of d a0 (select_sector lba h1))\<lparr>mode := DataIn ws\<rparr>"
    using ata_command(2) [OF dev r1, of lba] by (simp add: rc_def med)
  have rm: "mode (ata_of d a0 rc) \<noteq> Idle" by (simp add: rc)
  define rd where "rd = snd (ata_wait_drq d rc)"
  have rd: "ata_wait_drq d rc = (True, rd)" "ata_of d a0 rd = ata_of d a0 rc" "\<not> busy d rd"
    using drq_ready [OF dev rm] by (auto simp: rd_def prod_eq_iff)
  have "mode (ata_of d a0 rd) = DataIn ws" by (simp add: rd(2) rc)
  from read_words_all [OF dev this ne rd(3)] have rw: "fst (read_words d 256 rd) = ws"
    "ata_of d a0 (snd (read_words d 256 rd)) = (ata_of d a0 rd)\<lparr>mode := Idle\<rparr>" by (simp_all add: ws)
  then have "read_sector d dr lba h1 = (Some ws, snd (read_words d 256 rd))"
    using ok rd(1) unfolding read_sector_def rc_def [symmetric] by (simp add: Let_def case_prod_beta)
  moreover have "medium (ata_of d a0 (snd (read_words d 256 rd))) = medium (ata_of d a0 h1)"
    by (simp add: rw(2) rd(2) rc ata_select(1) [OF dev r1])
  ultimately show ?thesis using w med r1(1) by blast
qed

text \<open>
  A drive for the examples: it is busy for three reads of the status after each command it takes and after the last word of a sector, shows
  DRDY and DSC otherwise, and DRQ with them in a transfer.
\<close>

definition ata_blank :: ata where
  "ata_blank = \<lparr>r_lo = 0, r_mid = 0, r_hi = 0, r_dh = 0, mode = Idle, medium = (\<lambda>_. replicate 256 0)\<rparr>"

definition demo_step :: "io \<Rightarrow> ata \<times> nat \<Rightarrow> ata \<times> nat" where
  "demo_step x st =
     (let (a, n) = st; a' = (if n > 0 then a else ata_step x a)
      in (a', case x of
                In8 p v \<Rightarrow> if p = ATA_STATUS then n - 1 else n
              | Out8 p v \<Rightarrow> if p = ATA_COMMAND \<and> n = 0 then 3 else n
              | Out16 p v \<Rightarrow> if p = ATA_DATA \<and> n = 0 \<and> mode a \<noteq> Idle \<and> mode a' = Idle then 3 else n
              | _ \<Rightarrow> n))"

definition demo_state :: "hist \<Rightarrow> ata \<times> nat" where
  "demo_state h = foldr demo_step h (ata_blank, 0)"

definition ata_dev :: dev where
  "ata_dev = \<lparr>rd8 = (\<lambda>h p. let (a, n) = demo_state h in if n > 0 then 0xD0 else if mode a = Idle then 0x50 else 0x58),
     rd16 = (\<lambda>h p. case mode (fst (demo_state h)) of DataIn (w # ws) \<Rightarrow> w | _ \<Rightarrow> 0), rd32 = (\<lambda>h p. 0)\<rparr>"

definition drive_demo :: drive where
  "drive_demo = \<lparr>present = True, model = ''QEMU'', serial = ''1'', total_sectors = 20480, size_mb = 10, lba_supported = True\<rparr>"

lemma busy_demo: "busy ata_dev h \<longleftrightarrow> snd (demo_state h) > 0"
  by (simp add: busy_def ata_dev_def case_prod_beta SR_BSY_def)

lemma demo_Cons: "demo_state (x # h) = demo_step x (demo_state h)"
  by (simp add: demo_state_def)

lemma ata_of_demo: "ata_of ata_dev ata_blank h = fst (demo_state h)"
  by (induction h) (simp_all add: busy_demo demo_Cons demo_step_def case_prod_beta Let_def, simp add: demo_state_def)

lemma demo_polls: "snd (demo_state ((poll ata_dev ^^ k) h)) = snd (demo_state h) - k"
  by (induction k) (simp_all add: poll_def inb_def demo_Cons demo_step_def case_prod_beta Let_def)

lemma demo_short: "snd (demo_state h) \<le> 3"
proof (induction h)
  case (Cons x h)
  then show ?case by (cases x) (auto simp: demo_Cons demo_step_def case_prod_beta Let_def)
qed (simp add: demo_state_def)

lemma ata_dev_ok: "ata_ok ata_dev ata_blank"
  unfolding ata_ok_def ata_of_demo
proof (intro conjI allI impI)
  show "\<not> busy ata_dev (x # h)" if "\<not> busy ata_dev h \<and> \<not> gives_work ata_dev ata_blank x h" for x h
    using that by (cases x) (auto simp: busy_demo gives_work_def ata_of_demo demo_Cons demo_step_def case_prod_beta Let_def)
  show "\<exists>k<100000. \<not> busy ata_dev ((poll ata_dev ^^ k) h)" for h
    using demo_short [of h] by (intro exI [of _ 3]) (simp add: busy_demo demo_polls)
  show "rd8 ata_dev h ATA_STATUS AND SR_ERR = 0" for h by (simp add: ata_dev_def case_prod_beta SR_ERR_def)
  show "rd8 ata_dev h ATA_STATUS AND SR_DRQ \<noteq> 0" if "mode (fst (demo_state h)) \<noteq> Idle \<and> \<not> busy ata_dev h" for h
    using that by (simp add: busy_demo) (simp add: ata_dev_def case_prod_beta SR_DRQ_def)
  show "rd16 ata_dev h ATA_DATA = w" if "mode (fst (demo_state h)) = DataIn (w # ws) \<and> \<not> busy ata_dev h" for h w ws
    using that by (simp add: ata_dev_def)
qed

theorem write_read_sector_witness:
  "\<exists>h1 h2. write_sector ata_dev drive_demo 100 (Some (replicate 256 7)) [] = (True, h1) \<and>
           read_sector ata_dev drive_demo 100 h1 = (Some (replicate 256 7), h2)"
  using write_read_sector [OF ata_dev_ok, of drive_demo 100 "replicate 256 7" "[]"]
  by (auto simp: sector_ok_def drive_demo_def busy_demo demo_state_def ata_blank_def)

theorem write_sector_commands_witness:
  "\<not> fst (write_sector ata_dev drive_demo 20480 (Some []) [])"
proof -
  obtain ok h' where w: "write_sector ata_dev drive_demo 20480 (Some []) [] = (ok, h')" by fastforce
  from write_sector_commands [OF w] w show ?thesis by (simp add: drive_demo_def)
qed

end
