(* ===== verification/Scheduler.thy ===== *)
theory Scheduler
  imports KString
begin

text \<open>
  The preemptive round-robin scheduler of \<^verbatim>\<open>kernel/scheduler.cpp\<close>: sixteen task slots, the saved stack
  pointer of each, and the decisions made on a timer tick, a yield, a sleep, a creation, a kill and the
  return of a task function. The stack contents the code writes itself, the fake interrupt frame of
  a new task, are kept in \<open>frames\<close> by address; what the assembly stubs push is outside. Small counters
  are \<open>nat\<close>; ids, times and stack pointers are words. A function pointer is a number, 0 for null.
\<close>

definition MAX_TASKS :: nat where "MAX_TASKS = 16"
definition TIME_SLICE_MS :: nat where "TIME_SLICE_MS = 10"
definition STACK_SIZE :: u64 where "STACK_SIZE = 16384"

datatype task_state = TASK_UNUSED | TASK_READY | TASK_RUNNING | TASK_SLEEPING | TASK_DEAD

datatype code_addr = No_code | Task_entry_wrapper

record iframe =
  rip :: code_addr
  cs :: u64
  rflags :: u64
  frsp :: u64
  ss :: u64
  gp :: "u64 list"

record task =
  rsp :: u64
  tstate :: task_state
  tname :: string
  tid :: u32
  entry :: nat
  ticks_used :: u64
  wake_at :: u64
  slice :: nat

record sched =
  tasks :: "task list"
  cur :: nat
  task_count :: nat
  idle_id :: nat
  next_id :: u32
  inited :: bool
  frames :: "u64 \<Rightarrow> iframe"
  stacks_at :: u64

definition set_task :: "nat \<Rightarrow> task \<Rightarrow> sched \<Rightarrow> sched" where
  "set_task i t s = s\<lparr>tasks := (tasks s)[i := t]\<rparr>"

section \<open>Choosing and switching\<close>

text \<open>The \<^verbatim>\<open>do ... while (i != start)\<close> loop visits the sixteen slots from \<open>start\<close> around.\<close>

fun pick_loop :: "sched \<Rightarrow> nat \<Rightarrow> nat \<Rightarrow> nat" where
  "pick_loop s 0 i = idle_id s"
| "pick_loop s (Suc n) i =
     (if i \<noteq> idle_id s \<and> tstate (tasks s ! i) = TASK_READY then i
      else pick_loop s n ((i + 1) mod MAX_TASKS))"

definition pick_next :: "sched \<Rightarrow> nat" where
  "pick_next s = pick_loop s MAX_TASKS ((cur s + 1) mod MAX_TASKS)"

definition save_current :: "u64 \<Rightarrow> sched \<Rightarrow> sched" where
  "save_current sp s =
     (let t = (tasks s ! cur s)\<lparr>rsp := sp\<rparr>
      in set_task (cur s) (if tstate t = TASK_RUNNING then t\<lparr>tstate := TASK_READY\<rparr> else t) s)"

definition do_schedule :: "u64 \<Rightarrow> sched \<Rightarrow> u64 \<times> sched" where
  "do_schedule sp s0 =
     (let s = save_current sp s0;
          next = pick_next s
      in if next = cur s \<and> tstate (tasks s ! cur s) = TASK_READY
         then (sp, set_task (cur s) ((tasks s ! cur s)\<lparr>tstate := TASK_RUNNING, slice := TIME_SLICE_MS\<rparr>) s)
         else
           let s = s\<lparr>cur := next\<rparr>;
               s = set_task next ((tasks s ! next)\<lparr>tstate := TASK_RUNNING, slice := TIME_SLICE_MS\<rparr>) s
           in (rsp (tasks s ! next), s))"

section \<open>Tasks\<close>

definition stack_top :: "sched \<Rightarrow> nat \<Rightarrow> u64" where
  "stack_top s i = stacks_at s + of_nat (i + 1) * STACK_SIZE"

definition FRAME_SIZE :: u64 where "FRAME_SIZE = 176"

definition create_task_internal :: "string option \<Rightarrow> nat \<Rightarrow> bool \<Rightarrow> sched \<Rightarrow> int \<times> sched" where
  "create_task_internal name ent is_idle s =
     (let start = (if is_idle then 0 else 1)
      in case find_idx (\<lambda>t. tstate t = TASK_UNUSED) (drop start (tasks s)) of
           None \<Rightarrow> (-1, s)
         | Some k \<Rightarrow>
             let i = start + k;
                 top = stack_top s i;
                 nm = (case name of None \<Rightarrow> [] | Some n \<Rightarrow> str_copy n 32);
                 fr = \<lparr>rip = Task_entry_wrapper, cs = 0x28, rflags = 0x202, frsp = top, ss = 0x30,
                       gp = replicate 17 0\<rparr>;
                 t = \<lparr>rsp = top - FRAME_SIZE, tstate = TASK_READY, tname = nm, tid = next_id s, entry = ent,
                      ticks_used = 0, wake_at = 0, slice = TIME_SLICE_MS\<rparr>
             in (int i, (set_task i t s)\<lparr>next_id := next_id s + 1, task_count := task_count s + 1,
                          frames := (frames s)(top - FRAME_SIZE := fr)\<rparr>))"

definition unused_task :: task where
  "unused_task = \<lparr>rsp = 0, tstate = TASK_UNUSED, tname = [], tid = 0, entry = 0, ticks_used = 0, wake_at = 0,
                  slice = TIME_SLICE_MS\<rparr>"

definition idle_entry :: nat where "idle_entry = 1"

definition sched_init :: "sched \<Rightarrow> sched" where
  "sched_init s0 =
     (let s = s0\<lparr>tasks := (replicate MAX_TASKS unused_task)
                   [0 := unused_task\<lparr>tstate := TASK_RUNNING, tid := 0, tname := ''kernel''\<rparr>],
                 next_id := 1, cur := 0, task_count := 1\<rparr>;
          (slot, s) = create_task_internal (Some ''idle'') idle_entry True s
      in (if slot \<ge> 0 then s\<lparr>idle_id := nat slot\<rparr> else s)\<lparr>inited := True\<rparr>)"

definition create_task :: "string option \<Rightarrow> nat \<Rightarrow> sched \<Rightarrow> int \<times> sched" where
  "create_task name ent s =
     (if \<not> inited s \<or> ent = 0 then (-1, s) else create_task_internal name ent False s)"

definition kill_task :: "nat \<Rightarrow> sched \<Rightarrow> bool \<times> sched" where
  "kill_task i s =
     (if i \<ge> MAX_TASKS \<or> i = 0 \<or> i = idle_id s \<or> tstate (tasks s ! i) = TASK_UNUSED then (False, s)
      else (True, (set_task i ((tasks s ! i)\<lparr>tstate := TASK_UNUSED\<rparr>) s)
                  \<lparr>task_count := (if task_count s > 0 then task_count s - 1 else task_count s)\<rparr>))"

definition wake :: "u64 \<Rightarrow> task \<Rightarrow> task" where
  "wake now t = (if tstate t = TASK_SLEEPING \<and> now \<ge> wake_at t then t\<lparr>tstate := TASK_READY\<rparr> else t)"

definition reap :: "nat \<Rightarrow> task list \<Rightarrow> task list" where
  "reap c ts = map (\<lambda>(i, t). if tstate t = TASK_DEAD \<and> i \<noteq> c then t\<lparr>tstate := TASK_UNUSED\<rparr> else t)
                 (enumerate 0 ts)"

definition timer_tick :: "u64 \<Rightarrow> u64 \<Rightarrow> sched \<Rightarrow> u64 \<times> sched" where
  "timer_tick now sp s0 =
     (if \<not> inited s0 then (sp, s0)
      else
        let s = s0\<lparr>tasks := reap (cur s0) (map (wake now) (tasks s0))\<rparr>;
            s = set_task (cur s) ((tasks s ! cur s)\<lparr>ticks_used := ticks_used (tasks s ! cur s) + 1\<rparr>) s
        in if tstate (tasks s ! cur s) \<noteq> TASK_RUNNING then do_schedule sp s
           else
             let s = set_task (cur s) ((tasks s ! cur s)\<lparr>slice := slice (tasks s ! cur s) - 1\<rparr>) s
             in if slice (tasks s ! cur s) > 0 then (sp, s) else do_schedule sp s)"

definition sched_yield :: "u64 \<Rightarrow> sched \<Rightarrow> u64 \<times> sched" where
  "sched_yield sp s = (if \<not> inited s then (sp, s) else do_schedule sp s)"

text \<open>\<^verbatim>\<open>sleep_ms\<close> and the end of \<^verbatim>\<open>task_entry_wrapper\<close> yield by \<^verbatim>\<open>int 0x80\<close>, whose handler calls \<^verbatim>\<open>yield\<close>
  with the stack pointer it saved.\<close>

definition sleep_ms :: "u64 \<Rightarrow> u32 \<Rightarrow> u64 \<Rightarrow> sched \<Rightarrow> u64 \<times> sched" where
  "sleep_ms now ms sp s =
     (if \<not> inited s then (sp, s)
      else sched_yield sp (set_task (cur s) ((tasks s ! cur s)
             \<lparr>wake_at := now + ucast ms, tstate := TASK_SLEEPING\<rparr>) s))"

definition task_exit :: "u64 \<Rightarrow> sched \<Rightarrow> u64 \<times> sched" where
  "task_exit sp s =
     sched_yield sp ((set_task (cur s) ((tasks s ! cur s)\<lparr>tstate := TASK_DEAD\<rparr>) s)
       \<lparr>task_count := (if task_count s > 0 then task_count s - 1 else task_count s)\<rparr>)"

section \<open>Invariant\<close>

abbreviation alive :: "task \<Rightarrow> bool" where
  "alive t \<equiv> tstate t \<in> {TASK_READY, TASK_RUNNING, TASK_SLEEPING}"

definition sched_inv :: "sched \<Rightarrow> bool" where
  "sched_inv s \<longleftrightarrow>
     length (tasks s) = MAX_TASKS \<and> cur s < MAX_TASKS \<and> idle_id s = 1 \<and> inited s \<and>
     tstate (tasks s ! 1) \<in> {TASK_READY, TASK_RUNNING} \<and>
     (\<forall>i<MAX_TASKS. tstate (tasks s ! i) = TASK_RUNNING \<longrightarrow> i = cur s) \<and>
     task_count s = length (filter alive (tasks s))"

lemma pick_loop_cases:
  assumes "i < MAX_TASKS"
  shows "pick_loop s n i = idle_id s \<or>
         (pick_loop s n i < MAX_TASKS \<and> pick_loop s n i \<noteq> idle_id s \<and> tstate (tasks s ! pick_loop s n i) = TASK_READY)"
  using assms by (induction s n i rule: pick_loop.induct) (auto simp: MAX_TASKS_def)

lemma pick_next_cases:
  "pick_next s = idle_id s \<or>
   (pick_next s < MAX_TASKS \<and> pick_next s \<noteq> idle_id s \<and> tstate (tasks s ! pick_next s) = TASK_READY)"
  unfolding pick_next_def by (rule pick_loop_cases) (simp add: MAX_TASKS_def)

lemma set_task_simps [simp]:
  "tasks (set_task i t s) = (tasks s)[i := t]" "cur (set_task i t s) = cur s"
  "task_count (set_task i t s) = task_count s" "idle_id (set_task i t s) = idle_id s"
  "inited (set_task i t s) = inited s" "next_id (set_task i t s) = next_id s"
  "frames (set_task i t s) = frames s" "stacks_at (set_task i t s) = stacks_at s"
  by (simp_all add: set_task_def)

lemma do_schedule_eq:
  assumes "length (tasks s) = MAX_TASKS" "cur s < MAX_TASKS"
  shows "do_schedule sp s =
    (let s1 = save_current sp s; n = pick_next s1
     in (rsp (tasks s1 ! n), set_task n ((tasks s1 ! n)\<lparr>tstate := TASK_RUNNING, slice := TIME_SLICE_MS\<rparr>) (s1\<lparr>cur := n\<rparr>)))"
proof -
  let ?s = "save_current sp s"
  have c: "cur ?s = cur s" "rsp (tasks ?s ! cur s) = sp" "length (tasks ?s) = MAX_TASKS"
    using assms by (auto simp: save_current_def Let_def)
  have n: "pick_next ?s < MAX_TASKS \<or> pick_next ?s = idle_id ?s" using pick_next_cases [of ?s] by auto
  show ?thesis
  proof (cases "pick_next ?s = cur ?s \<and> tstate (tasks ?s ! cur ?s) = TASK_READY")
    case True
    then show ?thesis using c by (simp add: do_schedule_def Let_def set_task_def)
  next
    case False
    have "do_schedule sp s = (rsp ((tasks ?s)[pick_next ?s := (tasks ?s ! pick_next ?s)
        \<lparr>tstate := TASK_RUNNING, slice := TIME_SLICE_MS\<rparr>] ! pick_next ?s),
        set_task (pick_next ?s) ((tasks ?s ! pick_next ?s)\<lparr>tstate := TASK_RUNNING, slice := TIME_SLICE_MS\<rparr>)
          (?s\<lparr>cur := pick_next ?s\<rparr>))"
      unfolding do_schedule_def Let_def if_not_P [OF False] by simp
    moreover have "rsp ((tasks ?s)[pick_next ?s := (tasks ?s ! pick_next ?s)
        \<lparr>tstate := TASK_RUNNING, slice := TIME_SLICE_MS\<rparr>] ! pick_next ?s) = rsp (tasks ?s ! pick_next ?s)"
      by (cases "pick_next ?s < length (tasks ?s)") (simp_all add: list_update_beyond)
    ultimately show ?thesis by (simp add: Let_def)
  qed
qed

lemma save_current_spec:
  assumes inv: "sched_inv s"
  shows "length (tasks (save_current sp s)) = MAX_TASKS"
    "cur (save_current sp s) = cur s" "idle_id (save_current sp s) = 1" "inited (save_current sp s)"
    "rsp (tasks (save_current sp s) ! cur s) = sp"
    "tstate (tasks (save_current sp s) ! cur s) =
       (if tstate (tasks s ! cur s) = TASK_RUNNING then TASK_READY else tstate (tasks s ! cur s))"
    "j \<noteq> cur s \<Longrightarrow> tasks (save_current sp s) ! j = tasks s ! j"
    "length (filter alive (tasks (save_current sp s))) = length (filter alive (tasks s))"
    "j < MAX_TASKS \<Longrightarrow> tstate (tasks (save_current sp s) ! j) \<noteq> TASK_RUNNING"
    "tstate (tasks (save_current sp s) ! 1) = TASK_READY"
    "task_count (save_current sp s) = task_count s"
proof -
  have i: "length (tasks s) = MAX_TASKS" "cur s < MAX_TASKS"
    "\<And>i. i < MAX_TASKS \<Longrightarrow> tstate (tasks s ! i) = TASK_RUNNING \<Longrightarrow> i = cur s"
    using inv by (auto simp: sched_inv_def)
  let ?t = "(tasks s ! cur s)\<lparr>rsp := sp\<rparr>"
  let ?u = "if tstate ?t = TASK_RUNNING then ?t\<lparr>tstate := TASK_READY\<rparr> else ?t"
  have e: "save_current sp s = set_task (cur s) ?u s" by (simp add: save_current_def Let_def)
  show "length (tasks (save_current sp s)) = MAX_TASKS" "cur (save_current sp s) = cur s"
    "task_count (save_current sp s) = task_count s" "idle_id (save_current sp s) = 1" "inited (save_current sp s)"
    using i(1,2) inv by (simp_all add: e sched_inv_def)
  show st: "tstate (tasks (save_current sp s) ! cur s) =
       (if tstate (tasks s ! cur s) = TASK_RUNNING then TASK_READY else tstate (tasks s ! cur s))"
    and "rsp (tasks (save_current sp s) ! cur s) = sp"
    using i(1,2) by (simp_all add: e)
  show o: "j \<noteq> cur s \<Longrightarrow> tasks (save_current sp s) ! j = tasks s ! j" for j by (simp add: e)
  show nr: "j < MAX_TASKS \<Longrightarrow> tstate (tasks (save_current sp s) ! j) \<noteq> TASK_RUNNING" for j
    using i(3) [of j] st o [of j] by (cases "j = cur s") (auto split: if_splits)
  show "length (filter alive (tasks (save_current sp s))) = length (filter alive (tasks s))"
    unfolding e set_task_simps by (rule filter_update_same) (cases "tstate (tasks s ! cur s)"; simp)
  have "tstate (tasks s ! 1) \<in> {TASK_READY, TASK_RUNNING}" using inv by (simp add: sched_inv_def)
  then show "tstate (tasks (save_current sp s) ! 1) = TASK_READY"
    using st o [of 1] nr [of 1] by (cases "cur s = 1") (auto simp: MAX_TASKS_def split: if_splits)
qed

lemma do_schedule_spec:
  assumes inv: "sched_inv s" and r: "do_schedule sp s = (r, s')"
  shows "sched_inv s'" "cur s' = pick_next (save_current sp s)"
    "tstate (tasks s' ! cur s') = TASK_RUNNING" "slice (tasks s' ! cur s') = TIME_SLICE_MS"
    "r = (if cur s' = cur s then sp else rsp (tasks s ! cur s'))"
    "j \<noteq> cur s \<Longrightarrow> rsp (tasks s' ! j) = rsp (tasks s ! j)"
    "rsp (tasks s' ! cur s) = sp"
    "j \<noteq> cur s' \<Longrightarrow> tasks s' ! j = tasks (save_current sp s) ! j"
proof -
  define s1 where "s1 = save_current sp s"
  define n where "n = pick_next s1"
  note sv = save_current_spec [OF inv, where sp = sp, folded s1_def]
  have l: "length (tasks s) = MAX_TASKS" "cur s < MAX_TASKS" using inv by (auto simp: sched_inv_def)
  have s': "r = rsp (tasks s1 ! n)"
    "s' = set_task n ((tasks s1 ! n)\<lparr>tstate := TASK_RUNNING, slice := TIME_SLICE_MS\<rparr>) (s1\<lparr>cur := n\<rparr>)"
    using r unfolding do_schedule_eq [OF l] Let_def s1_def [symmetric] n_def [symmetric] by simp_all
  have n: "n < MAX_TASKS" "tstate (tasks s1 ! n) = TASK_READY"
    using pick_next_cases [of s1] sv(3,10) by (auto simp: n_def MAX_TASKS_def)
  have "length (filter alive (tasks s')) = length (filter alive (tasks s1))"
    unfolding s'(2) by (simp, intro filter_update_same, simp add: n(2))
  then show "sched_inv s'"
    using inv sv(1,3,4,8,9,10,11) n
    unfolding sched_inv_def s'(2) by (auto simp: nth_list_update)
  show "cur s' = pick_next (save_current sp s)" "tstate (tasks s' ! cur s') = TASK_RUNNING"
    "slice (tasks s' ! cur s') = TIME_SLICE_MS" using sv(1) n by (simp_all add: s'(2) n_def s1_def)
  show "r = (if cur s' = cur s then sp else rsp (tasks s ! cur s'))"
    using sv(5) sv(7) [of n] by (simp add: s')
  have rs: "rsp (tasks s' ! j) = rsp (tasks s1 ! j)" for j
    using sv(1) n by (cases "j = n") (simp_all add: s'(2))
  show "j \<noteq> cur s \<Longrightarrow> rsp (tasks s' ! j) = rsp (tasks s ! j)" "rsp (tasks s' ! cur s) = sp"
    using sv(5) sv(7) [of j] by (simp_all add: rs)
  show "j \<noteq> cur s' \<Longrightarrow> tasks s' ! j = tasks (save_current sp s) ! j"
    by (simp add: s'(2) s1_def [symmetric])
qed

lemma filter_length_cong:
  "length xs = length ys \<Longrightarrow> (\<And>i. i < length xs \<Longrightarrow> P (xs ! i) = Q (ys ! i)) \<Longrightarrow>
   length (filter P xs) = length (filter Q ys)"
proof (induction xs ys rule: list_induct2)
  case (Cons x xs y ys)
  have "P x = Q y" using Cons.prems [of 0] by simp
  moreover have "length (filter P xs) = length (filter Q ys)"
  proof (rule Cons.IH)
    fix i
    assume "i < length xs"
    then show "P (xs ! i) = Q (ys ! i)" using Cons.prems [of "Suc i"] by simp
  qed
  ultimately show ?case by simp
qed simp

lemma sched_inv_tasks:
  assumes inv: "sched_inv s" and l: "length ts = MAX_TASKS"
    and a: "\<And>i. i < MAX_TASKS \<Longrightarrow> alive (ts ! i) = alive (tasks s ! i)"
    and r: "\<And>i. i < MAX_TASKS \<Longrightarrow> tstate (ts ! i) = TASK_RUNNING \<Longrightarrow> tstate (tasks s ! i) = TASK_RUNNING"
    and idle: "tstate (ts ! 1) \<in> {TASK_READY, TASK_RUNNING}"
  shows "sched_inv (s\<lparr>tasks := ts\<rparr>)"
proof -
  have "length (filter alive ts) = length (filter alive (tasks s))"
    using inv l a by (intro filter_length_cong) (auto simp: sched_inv_def)
  then show ?thesis using inv l r idle by (simp add: sched_inv_def)
qed

lemma length_reap [simp]: "length (reap c ts) = length ts"
  by (simp add: reap_def)

lemma nth_reap: "i < length ts \<Longrightarrow> reap c ts ! i =
   (if tstate (ts ! i) = TASK_DEAD \<and> i \<noteq> c then (ts ! i)\<lparr>tstate := TASK_UNUSED\<rparr> else ts ! i)"
  by (simp add: reap_def nth_enumerate_eq)

lemma tick_prelude_inv:
  assumes "sched_inv s"
  shows "sched_inv (s\<lparr>tasks := reap (cur s) (map (wake now) (tasks s))\<rparr>)"
proof (rule sched_inv_tasks [OF assms])
  have l: "length (tasks s) = MAX_TASKS" using assms by (simp add: sched_inv_def)
  then show "length (reap (cur s) (map (wake now) (tasks s))) = MAX_TASKS" by simp
  fix i
  assume i: "i < MAX_TASKS"
  show "alive (reap (cur s) (map (wake now) (tasks s)) ! i) = alive (tasks s ! i)"
    using i l by (auto simp: nth_reap wake_def)
  show "tstate (reap (cur s) (map (wake now) (tasks s)) ! i) = TASK_RUNNING \<Longrightarrow> tstate (tasks s ! i) = TASK_RUNNING"
    using i l by (auto simp: nth_reap wake_def split: if_splits)
next
  have l: "length (tasks s) = MAX_TASKS" "tstate (tasks s ! 1) \<in> {TASK_READY, TASK_RUNNING}"
    using assms by (simp_all add: sched_inv_def)
  then show "tstate (reap (cur s) (map (wake now) (tasks s)) ! 1) \<in> {TASK_READY, TASK_RUNNING}"
    by (auto simp: nth_reap wake_def MAX_TASKS_def)
qed

lemma set_task_inv:
  assumes inv: "sched_inv s" and a: "alive t = alive (tasks s ! i)"
    and r: "tstate t = TASK_RUNNING \<Longrightarrow> tstate (tasks s ! i) = TASK_RUNNING"
    and idle: "i = 1 \<Longrightarrow> tstate t \<in> {TASK_READY, TASK_RUNNING}"
  shows "sched_inv (set_task i t s)"
  unfolding set_task_def
proof (rule sched_inv_tasks [OF inv])
  have l: "length (tasks s) = MAX_TASKS" "tstate (tasks s ! 1) \<in> {TASK_READY, TASK_RUNNING}"
    using inv by (simp_all add: sched_inv_def)
  show "length ((tasks s)[i := t]) = MAX_TASKS" using l by simp
  show "alive ((tasks s)[i := t] ! j) = alive (tasks s ! j)"
    "tstate ((tasks s)[i := t] ! j) = TASK_RUNNING \<Longrightarrow> tstate (tasks s ! j) = TASK_RUNNING" if "j < MAX_TASKS" for j
    using a r that l by (cases "j = i"; simp)+
  show "tstate ((tasks s)[i := t] ! 1) \<in> {TASK_READY, TASK_RUNNING}"
    using idle l by (cases "i = 1") (auto simp: MAX_TASKS_def)
qed

lemma do_schedule_inv: "sched_inv s \<Longrightarrow> sched_inv (snd (do_schedule sp s))"
  using do_schedule_spec(1) by (cases "do_schedule sp s") auto

lemma timer_tick_inv:
  assumes inv: "sched_inv s"
  shows "sched_inv (snd (timer_tick now sp s))"
proof -
  define s1 where "s1 = s\<lparr>tasks := reap (cur s) (map (wake now) (tasks s))\<rparr>"
  have i1: "sched_inv s1" unfolding s1_def using inv by (rule tick_prelude_inv)
  define s2 where "s2 = set_task (cur s1) ((tasks s1 ! cur s1)\<lparr>ticks_used := ticks_used (tasks s1 ! cur s1) + 1\<rparr>) s1"
  have id1: "tstate (tasks s1 ! 1) \<in> {TASK_READY, TASK_RUNNING}" using i1 by (simp add: sched_inv_def)
  have i2: "sched_inv s2" unfolding s2_def using id1 by (intro set_task_inv i1) auto
  have id2: "tstate (tasks s2 ! 1) \<in> {TASK_READY, TASK_RUNNING}" using i2 by (simp add: sched_inv_def)
  define s3 where "s3 = set_task (cur s2) ((tasks s2 ! cur s2)\<lparr>slice := slice (tasks s2 ! cur s2) - 1\<rparr>) s2"
  have i3: "sched_inv s3" unfolding s3_def using id2 by (intro set_task_inv i2) auto
  have "inited s" using inv by (simp add: sched_inv_def)
  then have "timer_tick now sp s = (if tstate (tasks s2 ! cur s2) \<noteq> TASK_RUNNING then do_schedule sp s2
       else if slice (tasks s3 ! cur s3) > 0 then (sp, s3) else do_schedule sp s3)"
    unfolding timer_tick_def Let_def s1_def [symmetric] s2_def [symmetric] s3_def [symmetric] by simp
  then show ?thesis using i3 do_schedule_inv [OF i2] do_schedule_inv [OF i3] by simp
qed

lemma create_inv:
  assumes inv: "sched_inv s"
  shows "sched_inv (snd (create_task name ent s))"
proof (cases "ent = 0 \<or> find_idx (\<lambda>t. tstate t = TASK_UNUSED) (drop 1 (tasks s)) = None")
  case True
  then have "snd (create_task name ent s) = s" by (auto simp: create_task_def create_task_internal_def)
  with inv show ?thesis by simp
next
  case False
  then obtain k where k: "find_idx (\<lambda>t. tstate t = TASK_UNUSED) (drop 1 (tasks s)) = Some k" and e: "ent \<noteq> 0" by auto
  note f = find_idx_SomeD [OF k]
  have l: "length (tasks s) = MAX_TASKS" using inv by (simp add: sched_inv_def)
  have i: "Suc k < MAX_TASKS" "tstate (tasks s ! Suc k) = TASK_UNUSED" using f l by auto
  then have ne: "k \<noteq> 0" using inv by (cases k) (auto simp: sched_inv_def)
  define t where "t = \<lparr>rsp = stack_top s (1 + k) - FRAME_SIZE, tstate = TASK_READY,
     tname = (case name of None \<Rightarrow> [] | Some n \<Rightarrow> str_copy n 32), tid = next_id s, entry = ent,
     ticks_used = 0, wake_at = 0, slice = TIME_SLICE_MS\<rparr>"
  have c: "tasks (snd (create_task name ent s)) = (tasks s)[Suc k := t]"
    "task_count (snd (create_task name ent s)) = Suc (task_count s)"
    "cur (snd (create_task name ent s)) = cur s" "idle_id (snd (create_task name ent s)) = idle_id s"
    "inited (snd (create_task name ent s)) = inited s"
    using k e inv by (simp_all add: create_task_def create_task_internal_def Let_def t_def sched_inv_def)
  have "length (filter alive ((tasks s)[Suc k := t])) = Suc (length (filter alive (tasks s)))"
    using i l by (intro filter_update_inc) (simp_all add: t_def)
  then show ?thesis
    using inv i l ne unfolding sched_inv_def c by (auto simp: nth_list_update t_def)
qed

lemma kill_eq:
  assumes "fst (kill_task i s)"
  shows "i < MAX_TASKS" "i \<noteq> 0" "i \<noteq> idle_id s" "tstate (tasks s ! i) \<noteq> TASK_UNUSED"
    "snd (kill_task i s) = (set_task i ((tasks s ! i)\<lparr>tstate := TASK_UNUSED\<rparr>) s)\<lparr>task_count := task_count s - 1\<rparr>"
  using assms by (auto simp: kill_task_def split: if_splits)

lemma drop_task_inv:
  assumes inv: "sched_inv s" and i: "i < MAX_TASKS" "i \<noteq> 1" "alive (tasks s ! i)" and t: "\<not> alive t"
  shows "sched_inv ((set_task i t s)\<lparr>task_count := task_count s - 1\<rparr>)"
proof -
  have l: "length (tasks s) = MAX_TASKS" using inv by (simp add: sched_inv_def)
  have "Suc (length (filter alive ((tasks s)[i := t]))) = length (filter alive (tasks s))"
    using i t l by (intro filter_update_dec) auto
  then show ?thesis using inv i t l unfolding sched_inv_def by (auto simp: nth_list_update)
qed

section \<open>Runs\<close>

datatype sched_event =
    Tick u64 u64
  | Yield u64
  | Spawn "string option" nat
  | Kill nat
  | Sleep u64 u32 u64
  | Exit u64

text \<open>
  What the program can do next. The idle loop only halts, so idle never sleeps or returns, and the boot task, slot 0, has no
  function to return from. Every other event can happen in every state, the kill of a slot whose task has already
  returned and of the running task included.
\<close>

definition can_happen :: "sched \<Rightarrow> sched_event \<Rightarrow> bool" where
  "can_happen s ev =
     (case ev of
        Sleep now ms sp \<Rightarrow> cur s \<noteq> idle_id s
      | Exit sp \<Rightarrow> cur s \<noteq> idle_id s \<and> cur s \<noteq> 0
      | _ \<Rightarrow> True)"

definition sched_step :: "sched \<Rightarrow> sched_event \<Rightarrow> sched option" where
  "sched_step s ev =
     (if \<not> can_happen s ev then None
      else Some (case ev of
        Tick now sp \<Rightarrow> snd (timer_tick now sp s)
      | Yield sp \<Rightarrow> snd (sched_yield sp s)
      | Spawn name ent \<Rightarrow> snd (create_task name ent s)
      | Kill i \<Rightarrow> snd (kill_task i s)
      | Sleep now ms sp \<Rightarrow> snd (sleep_ms now ms sp s)
      | Exit sp \<Rightarrow> snd (task_exit sp s)))"

definition sched_next :: "sched \<Rightarrow> sched_event \<Rightarrow> sched \<Rightarrow> bool" where
  "sched_next s ev t \<longleftrightarrow> sched_step s ev = Some t"

text \<open>A step in which no running task and no task that has returned is killed.\<close>

definition clean_next :: "sched \<Rightarrow> sched_event \<Rightarrow> sched \<Rightarrow> bool" where
  "clean_next s ev t \<longleftrightarrow> sched_next s ev t \<and>
     (case ev of Kill i \<Rightarrow> i \<noteq> cur s \<and> (i < MAX_TASKS \<longrightarrow> tstate (tasks s ! i) \<noteq> TASK_DEAD) | _ \<Rightarrow> True)"

lemma sched_init_tasks:
  "tasks (sched_init s0) = (replicate MAX_TASKS unused_task)
     [0 := unused_task\<lparr>tstate := TASK_RUNNING, tid := 0, tname := ''kernel''\<rparr>,
      1 := \<lparr>rsp = stack_top s0 1 - FRAME_SIZE, tstate = TASK_READY, tname = ''idle'', tid = 1, entry = idle_entry,
            ticks_used = 0, wake_at = 0, slice = TIME_SLICE_MS\<rparr>]"
  "cur (sched_init s0) = 0" "idle_id (sched_init s0) = 1" "inited (sched_init s0)" "task_count (sched_init s0) = 2"
proof -
  have f: "find_idx (\<lambda>t. tstate t = TASK_UNUSED) (drop 0 ((replicate MAX_TASKS unused_task)
        [0 := unused_task\<lparr>tstate := TASK_RUNNING, tid := 0, tname := ''kernel''\<rparr>])) = Some 1"
    by (rule find_idx_eqI) (auto simp: MAX_TASKS_def nth_list_update unused_task_def less_Suc_eq)
  show "tasks (sched_init s0) = (replicate MAX_TASKS unused_task)
     [0 := unused_task\<lparr>tstate := TASK_RUNNING, tid := 0, tname := ''kernel''\<rparr>,
      1 := \<lparr>rsp = stack_top s0 1 - FRAME_SIZE, tstate = TASK_READY, tname = ''idle'', tid = 1, entry = idle_entry,
            ticks_used = 0, wake_at = 0, slice = TIME_SLICE_MS\<rparr>]"
  "cur (sched_init s0) = 0" "idle_id (sched_init s0) = 1" "inited (sched_init s0)" "task_count (sched_init s0) = 2"
    using f by (simp_all add: sched_init_def create_task_internal_def Let_def stack_top_def)
qed

lemma sched_init_inv: "sched_inv (sched_init s0)"
proof -
  let ?t0 = "unused_task\<lparr>tstate := TASK_RUNNING, tid := 0, tname := ''kernel''\<rparr>"
  let ?t1 = "\<lparr>rsp = stack_top s0 1 - FRAME_SIZE, tstate = TASK_READY, tname = ''idle'', tid = 1, entry = idle_entry,
            ticks_used = 0, wake_at = 0, slice = TIME_SLICE_MS\<rparr>"
  have "length (filter alive (replicate MAX_TASKS unused_task)) = 0" by (simp add: unused_task_def)
  moreover have "length (filter alive ((replicate MAX_TASKS unused_task)[0 := ?t0]))
      = Suc (length (filter alive (replicate MAX_TASKS unused_task)))"
    by (rule filter_update_inc) (simp_all add: MAX_TASKS_def unused_task_def)
  moreover have "length (filter alive ((replicate MAX_TASKS unused_task)[0 := ?t0, 1 := ?t1]))
      = Suc (length (filter alive ((replicate MAX_TASKS unused_task)[0 := ?t0])))"
    by (rule filter_update_inc) (simp_all add: MAX_TASKS_def unused_task_def)
  ultimately have c: "length (filter alive (tasks (sched_init s0))) = 2" by (simp only: sched_init_tasks)
  have n: "tasks (sched_init s0) ! i = (if i = 0 then ?t0 else if i = 1 then ?t1 else unused_task)" if "i < MAX_TASKS" for i
    using that by (simp add: sched_init_tasks nth_list_update)
  have "i < MAX_TASKS \<Longrightarrow> tstate (tasks (sched_init s0) ! i) = TASK_RUNNING \<Longrightarrow> i = 0" for i
    by (auto simp: n unused_task_def split: if_splits)
  moreover have "tstate (tasks (sched_init s0) ! 1) = TASK_READY" using n [of 1] by (simp add: MAX_TASKS_def)
  moreover have "length (tasks (sched_init s0)) = MAX_TASKS" by (simp add: sched_init_tasks)
  ultimately show ?thesis using c by (simp add: sched_inv_def sched_init_tasks(2-5) MAX_TASKS_def)
qed

section \<open>Properties\<close>

text \<open>a context switch saves the stack pointer of the task that gives up the CPU, makes exactly one
  task running with a full time slice, returns the stack pointer that task was last suspended with, and
  changes no other saved stack pointer.\<close>

theorem context_switch:
  assumes "sched_inv s" "do_schedule sp s = (r, s')"
  shows "tstate (tasks s' ! cur s') = TASK_RUNNING \<and> slice (tasks s' ! cur s') = TIME_SLICE_MS \<and>
         (\<forall>i<MAX_TASKS. tstate (tasks s' ! i) = TASK_RUNNING \<longrightarrow> i = cur s') \<and>
         rsp (tasks s' ! cur s) = sp \<and> (\<forall>i. i \<noteq> cur s \<longrightarrow> rsp (tasks s' ! i) = rsp (tasks s ! i)) \<and>
         r = rsp (tasks s' ! cur s') \<and>
         (cur s' \<noteq> idle_id s \<longrightarrow> cur s' = cur s \<or> tstate (tasks s ! cur s') = TASK_READY)"
proof -
  note d = do_schedule_spec [OF assms]
  have "tstate (tasks s' ! i) = TASK_RUNNING \<longrightarrow> i = cur s'" if "i < MAX_TASKS" for i
    using d(1) that by (simp add: sched_inv_def)
  moreover have "r = rsp (tasks s' ! cur s')" using d(5) d(6) [of "cur s'"] d(7) by (auto split: if_splits)
  moreover have "cur s' = cur s \<or> tstate (tasks s ! cur s') = TASK_READY" if "cur s' \<noteq> idle_id s"
  proof -
    have "idle_id s = 1" using assms(1) by (simp add: sched_inv_def)
    with that pick_next_cases [of "save_current sp s"] save_current_spec(3) [OF assms(1), of sp] d(2)
    have "tstate (tasks (save_current sp s) ! cur s') = TASK_READY" by simp
    then show ?thesis using save_current_spec(7) [OF assms(1), of "cur s'" sp] by (cases "cur s' = cur s") auto
  qed
  ultimately show ?thesis using d(3,4,6,7) by blast
qed

lemma pick_loop_dist:
  "i \<noteq> idle_id s \<Longrightarrow> tstate (tasks s ! i) = TASK_READY \<Longrightarrow> d < n \<Longrightarrow> (j + d) mod MAX_TASKS = i \<Longrightarrow> j < MAX_TASKS \<Longrightarrow>
   \<exists>e\<le>d. pick_loop s n j = (j + e) mod MAX_TASKS"
proof (induction s n j arbitrary: d rule: pick_loop.induct)
  case (1 s i')
  then show ?case by simp
next
  case (2 s n j)
  show ?case
  proof (cases "j \<noteq> idle_id s \<and> tstate (tasks s ! j) = TASK_READY")
    case True
    then show ?thesis using 2(6) by (intro exI [of _ 0]) simp
  next
    case False
    with 2(2,3,5,6) have "d \<noteq> 0" by (cases d) auto
    then obtain d' where d': "d = Suc d'" by (cases d) auto
    have eq: "((j + 1) mod MAX_TASKS + e) mod MAX_TASKS = (j + Suc e) mod MAX_TASKS" for e by (simp add: mod_add_left_eq)
    have "\<exists>e\<le>d'. pick_loop s n ((j + 1) mod MAX_TASKS) = ((j + 1) mod MAX_TASKS + e) mod MAX_TASKS"
      using 2(2,3,4,5) d' by (intro "2.IH" [OF False]) (simp_all only: eq, auto simp: MAX_TASKS_def)
    then obtain e where "e \<le> d'" "pick_loop s n ((j + 1) mod MAX_TASKS) = (j + Suc e) mod MAX_TASKS" unfolding eq by blast
    moreover have "pick_loop s (Suc n) j = pick_loop s n ((j + 1) mod MAX_TASKS)" using False by auto
    ultimately show ?thesis using d' by (intro exI [of _ "Suc e"]) simp
  qed
qed

text \<open>How many slots the search passes before it reaches slot \<open>i\<close>.\<close>

definition dist_to :: "nat \<Rightarrow> sched \<Rightarrow> nat" where
  "dist_to i s = (if cur s < i then i - cur s - 1 else i + 15 - cur s)"

lemma wrap16: "n < 32 \<Longrightarrow> n mod 16 = (if n < 16 then n else n - (16 :: nat))"
  by (simp add: mod_if)

lemma dist_lt: "cur s < 16 \<Longrightarrow> i < 16 \<Longrightarrow> dist_to i s < 16"
  by (auto simp: dist_to_def)

lemma dist_reaches:
  assumes "cur s < 16" "i < 16"
  shows "((cur s + 1) mod 16 + dist_to i s) mod 16 = i"
proof -
  have "((cur s + 1) mod 16 + dist_to i s) mod 16 = (cur s + 1 + dist_to i s) mod 16"
    by (simp add: mod_add_left_eq)
  also have "\<dots> = i" using assms dist_lt [OF assms] unfolding dist_to_def by (subst wrap16) auto
  finally show ?thesis .
qed

lemma dist_closer:
  assumes "cur s < 16" "i < 16" "e \<le> dist_to i s" "cur s' = (cur s + 1 + e) mod 16"
  shows "cur s' = i \<or> dist_to i s' < dist_to i s"
proof -
  have c: "cur s' = (if cur s + 1 + e < 16 then cur s + 1 + e else cur s + 1 + e - 16)"
    using assms(1,3) dist_lt [OF assms(1,2)] unfolding assms(4) by (intro wrap16) linarith
  show ?thesis
  proof (cases "cur s < i")
    case True
    with assms c show ?thesis by (auto simp: dist_to_def)
  next
    case False
    then have e: "e \<le> i + 15 - cur s" using assms(3) by (simp add: dist_to_def)
    show ?thesis
    proof (cases "cur s + 1 + e < 16")
      case True
      with False c e assms(1,2) show ?thesis by (simp add: dist_to_def)
    next
      case wrap: False
      with c have "cur s' = cur s + 1 + e - 16" by simp
      with False wrap e assms(1,2) show ?thesis by (simp add: dist_to_def) linarith
    qed
  qed
qed

lemma switch_closer:
  assumes inv: "sched_inv s" and i: "i < MAX_TASKS" "i \<noteq> idle_id s"
    and st: "tstate (tasks s ! i) = TASK_READY \<or> (i = cur s \<and> tstate (tasks s ! i) = TASK_RUNNING)"
    and d: "do_schedule sp s = (r, s')"
  shows "cur s' = i \<or> (tstate (tasks s' ! i) = TASK_READY \<and> dist_to i s' < dist_to i s)"
proof -
  note sp = do_schedule_spec [OF inv d]
  let ?s = "save_current sp s"
  have c: "cur s < 16" "i < 16" "idle_id ?s = 1" "idle_id s = 1" "cur ?s = cur s"
    using inv i save_current_spec [OF inv, where sp = sp] by (auto simp: sched_inv_def MAX_TASKS_def)
  have rdy: "tstate (tasks ?s ! i) = TASK_READY"
    using st save_current_spec(6,7) [OF inv, where sp = sp] by (cases "i = cur s") auto
  have "i \<noteq> idle_id ?s" using i(2) c by simp
  moreover have "dist_to i s < MAX_TASKS" using dist_lt [OF c(1,2)] by (simp add: MAX_TASKS_def)
  moreover have "((cur s + 1) mod MAX_TASKS + dist_to i s) mod MAX_TASKS = i"
    using dist_reaches [OF c(1,2)] by (simp only: MAX_TASKS_def)
  moreover have "(cur s + 1) mod MAX_TASKS < MAX_TASKS" by (simp add: MAX_TASKS_def)
  ultimately obtain e where e: "e \<le> dist_to i s"
      "pick_loop ?s MAX_TASKS ((cur s + 1) mod MAX_TASKS) = ((cur s + 1) mod MAX_TASKS + e) mod MAX_TASKS"
    using pick_loop_dist [OF _ rdy] by blast
  have "cur s' = ((cur s + 1) mod 16 + e) mod 16" using sp(2) e(2) c(5) by (simp add: pick_next_def MAX_TASKS_def)
  then have "cur s' = (cur s + 1 + e) mod 16" by (simp add: mod_add_left_eq)
  from dist_closer [OF c(1,2) e(1) this] show ?thesis using sp(8) [of i] rdy by auto
qed

text \<open>C37: no starvation. A runnable task other than idle becomes the current task within sixteen context
  switches, whatever the other tasks are and whatever stack pointers they are suspended with.\<close>

theorem no_starvation:
  assumes "sched_inv s" "i < MAX_TASKS" "i \<noteq> idle_id s" "tstate (tasks s ! i) = TASK_READY" "16 \<le> length sps"
  shows "\<exists>k. 0 < k \<and> k \<le> 16 \<and> cur (foldl (\<lambda>s sp. snd (do_schedule sp s)) s (take k sps)) = i"
proof -
  have "dist_to i s < length sps \<Longrightarrow>
        \<exists>k. 0 < k \<and> k \<le> Suc (dist_to i s) \<and> cur (foldl (\<lambda>s sp. snd (do_schedule sp s)) s (take k sps)) = i"
    using assms(1-4)
  proof (induction sps arbitrary: s)
    case (Cons sp sps)
    obtain r s' where d: "do_schedule sp s = (r, s')" by fastforce
    note inv' = do_schedule_spec(1) [OF Cons.prems(2) d]
    have id: "idle_id s' = 1" "idle_id s = 1" using inv' Cons.prems(2) by (simp_all add: sched_inv_def)
    from switch_closer [OF Cons.prems(2-4) disjI1 [OF Cons.prems(5)] d] show ?case
    proof
      assume "cur s' = i"
      then show ?thesis using d by (intro exI [of _ 1]) simp
    next
      assume c: "tstate (tasks s' ! i) = TASK_READY \<and> dist_to i s' < dist_to i s"
      with Cons.IH [of s'] Cons.prems inv' id obtain k where
        "0 < k" "k \<le> Suc (dist_to i s')" "cur (foldl (\<lambda>s sp. snd (do_schedule sp s)) s' (take k sps)) = i" by auto
      then show ?thesis using d c by (intro exI [of _ "Suc k"]) simp
    qed
  qed simp
  moreover have "dist_to i s < 16" using assms(1,2) by (intro dist_lt) (simp_all add: sched_inv_def MAX_TASKS_def)
  ultimately obtain k where "0 < k" "k \<le> Suc (dist_to i s)" "cur (foldl (\<lambda>s sp. snd (do_schedule sp s)) s (take k sps)) = i"
    using assms(5) by auto
  with \<open>dist_to i s < 16\<close> show ?thesis by (intro exI [of _ k]) simp
qed

lemma create_task_cases:
  assumes inv: "sched_inv s" and e: "ent \<noteq> 0" and c: "create_task name ent s = (slot, s')"
  shows "if slot < 0 then s' = s \<and> (\<forall>i. 1 \<le> i \<and> i < MAX_TASKS \<longrightarrow> tstate (tasks s ! i) \<noteq> TASK_UNUSED)
         else \<exists>i t. slot = int i \<and> 1 < i \<and> i < MAX_TASKS \<and> tstate (tasks s ! i) = TASK_UNUSED \<and>
              tasks s' = (tasks s)[i := t] \<and> tstate t = TASK_READY \<and> entry t = ent \<and> tid t = next_id s \<and>
              rip (frames s' (rsp t)) = Task_entry_wrapper \<and> bit (rflags (frames s' (rsp t))) 9 \<and>
              frsp (frames s' (rsp t)) = rsp t + FRAME_SIZE \<and> task_count s' = task_count s + 1"
proof (cases "find_idx (\<lambda>t. tstate t = TASK_UNUSED) (drop 1 (tasks s))")
  case None
  then have n: "slot = -1" "s' = s"
    using c e inv by (simp_all add: create_task_def create_task_internal_def sched_inv_def)
  have l: "length (tasks s) = MAX_TASKS" using inv by (simp add: sched_inv_def)
  have "tstate (tasks s ! i) \<noteq> TASK_UNUSED" if i: "1 \<le> i" "i < MAX_TASKS" for i
  proof -
    have "tasks s ! i = drop 1 (tasks s) ! (i - 1)" "i - 1 < length (drop 1 (tasks s))" using i l by simp_all
    then have "tasks s ! i \<in> set (drop 1 (tasks s))" by (metis nth_mem)
    with None show ?thesis by (simp add: find_idx_None_iff)
  qed
  with n show ?thesis by simp
next
  case (Some k)
  note f = find_idx_SomeD [OF Some]
  have l: "length (tasks s) = MAX_TASKS" using inv by (simp add: sched_inv_def)
  have i: "Suc k < MAX_TASKS" "tstate (tasks s ! Suc k) = TASK_UNUSED" using f l by auto
  have "tstate (tasks s ! 1) \<in> {TASK_READY, TASK_RUNNING}" using inv by (simp add: sched_inv_def)
  with i(2) have ne: "0 < k" by (cases k) auto
  have b: "bit (0x202 :: u64) 9" by (simp add: bit_iff_odd)
  define t where "t = \<lparr>rsp = stack_top s (Suc k) - FRAME_SIZE, tstate = TASK_READY,
        tname = (case name of None \<Rightarrow> [] | Some n \<Rightarrow> str_copy n 32), tid = next_id s, entry = ent,
        ticks_used = 0, wake_at = 0, slice = TIME_SLICE_MS\<rparr>"
  have ini: "inited s" using inv by (simp add: sched_inv_def)
  have sl: "slot = int (Suc k)" and ts: "tasks s' = (tasks s)[Suc k := t]" "task_count s' = task_count s + 1"
    and fr: "frames s' (rsp t) = \<lparr>rip = Task_entry_wrapper, cs = 0x28, rflags = 0x202, frsp = stack_top s (Suc k),
               ss = 0x30, gp = replicate 17 0\<rparr>"
    using c Some e ini by (auto simp: create_task_def create_task_internal_def Let_def t_def)
  have t: "tstate t = TASK_READY" "entry t = ent" "tid t = next_id s" "rsp t + FRAME_SIZE = stack_top s (Suc k)"
    by (simp_all add: t_def)
  have "\<not> slot < 0" using sl by simp
  then show ?thesis
    unfolding if_not_P [OF \<open>\<not> slot < 0\<close>] using sl ts fr t i ne b
    by (intro exI [of _ "Suc k"] exI [of _ t]) simp
qed

lemma do_schedule_keeps:
  assumes inv: "sched_inv s" and j: "j < MAX_TASKS" "alive (tasks s ! j)"
  shows "alive (tasks (snd (do_schedule sp s)) ! j) \<and> entry (tasks (snd (do_schedule sp s)) ! j) = entry (tasks s ! j)"
proof -
  have l: "length (tasks s) = MAX_TASKS" "cur s < MAX_TASKS" using inv by (auto simp: sched_inv_def)
  have sv: "length (tasks (save_current sp s)) = MAX_TASKS" by (rule save_current_spec [OF inv])
  have "alive (tasks (save_current sp s) ! j) \<and> entry (tasks (save_current sp s) ! j) = entry (tasks s ! j)"
    using j l by (cases "j = cur s") (auto simp: save_current_def Let_def)
  then show ?thesis
    unfolding do_schedule_eq [OF l] Let_def using sv j by (cases "j = pick_next (save_current sp s)") simp_all
qed

lemma timer_tick_keeps:
  assumes inv: "sched_inv s" and j: "j < MAX_TASKS" "alive (tasks s ! j)"
  shows "alive (tasks (snd (timer_tick now sp s)) ! j) \<and> entry (tasks (snd (timer_tick now sp s)) ! j) = entry (tasks s ! j)"
proof -
  define s1 where "s1 = s\<lparr>tasks := reap (cur s) (map (wake now) (tasks s))\<rparr>"
  have l: "length (tasks s) = MAX_TASKS" using inv by (simp add: sched_inv_def)
  have i1: "sched_inv s1" unfolding s1_def using inv by (rule tick_prelude_inv)
  have k1: "alive (tasks s1 ! j) \<and> entry (tasks s1 ! j) = entry (tasks s ! j)"
    using j l by (auto simp: s1_def nth_reap wake_def)
  define s2 where "s2 = set_task (cur s1) ((tasks s1 ! cur s1)\<lparr>ticks_used := ticks_used (tasks s1 ! cur s1) + 1\<rparr>) s1"
  have id1: "tstate (tasks s1 ! 1) \<in> {TASK_READY, TASK_RUNNING}" using i1 by (simp add: sched_inv_def)
  have i2: "sched_inv s2" unfolding s2_def using id1 by (intro set_task_inv i1) auto
  have k2: "alive (tasks s2 ! j) \<and> entry (tasks s2 ! j) = entry (tasks s ! j)"
    using k1 j i1 by (auto simp: s2_def sched_inv_def nth_list_update)
  have id2: "tstate (tasks s2 ! 1) \<in> {TASK_READY, TASK_RUNNING}" using i2 by (simp add: sched_inv_def)
  define s3 where "s3 = set_task (cur s2) ((tasks s2 ! cur s2)\<lparr>slice := slice (tasks s2 ! cur s2) - 1\<rparr>) s2"
  have i3: "sched_inv s3" unfolding s3_def using id2 by (intro set_task_inv i2) auto
  have k3: "alive (tasks s3 ! j) \<and> entry (tasks s3 ! j) = entry (tasks s ! j)"
    using k2 j i2 by (auto simp: s3_def sched_inv_def nth_list_update)
  have "inited s" using inv by (simp add: sched_inv_def)
  then have "timer_tick now sp s = (if tstate (tasks s2 ! cur s2) \<noteq> TASK_RUNNING then do_schedule sp s2
       else if slice (tasks s3 ! cur s3) > 0 then (sp, s3) else do_schedule sp s3)"
    unfolding timer_tick_def Let_def s1_def [symmetric] s2_def [symmetric] s3_def [symmetric] by simp
  moreover have "alive (tasks (snd (do_schedule sp s2)) ! j)" "entry (tasks (snd (do_schedule sp s2)) ! j) = entry (tasks s ! j)"
    using do_schedule_keeps [OF i2 j(1)] k2 by auto
  moreover have "alive (tasks (snd (do_schedule sp s3)) ! j)" "entry (tasks (snd (do_schedule sp s3)) ! j) = entry (tasks s ! j)"
    using do_schedule_keeps [OF i3 j(1)] k3 by auto
  ultimately show ?thesis using k3 by simp
qed

lemma kill_task_live:
  assumes inv: "sched_inv s" and i: "1 < i" "i < MAX_TASKS" "alive (tasks s ! i)"
  shows "snd (kill_task i s) = (set_task i ((tasks s ! i)\<lparr>tstate := TASK_UNUSED\<rparr>) s)\<lparr>task_count := task_count s - 1\<rparr>"
    and "sched_inv (snd (kill_task i s))"
proof -
  show e: "snd (kill_task i s) = (set_task i ((tasks s ! i)\<lparr>tstate := TASK_UNUSED\<rparr>) s)\<lparr>task_count := task_count s - 1\<rparr>"
    using inv i by (auto simp: kill_task_def sched_inv_def)
  show "sched_inv (snd (kill_task i s))"
    unfolding e by (rule drop_task_inv [OF inv]) (use i in auto)
qed

section \<open>Every run\<close>

abbreviation live :: "sched \<Rightarrow> nat" where "live s \<equiv> length (filter alive (tasks s))"

text \<open>The invariant without the task count.\<close>

definition sched_core :: "sched \<Rightarrow> bool" where
  "sched_core s \<longleftrightarrow>
     length (tasks s) = MAX_TASKS \<and> cur s < MAX_TASKS \<and> idle_id s = 1 \<and> inited s \<and>
     tstate (tasks s ! 1) \<in> {TASK_READY, TASK_RUNNING} \<and>
     (\<forall>i<MAX_TASKS. tstate (tasks s ! i) = TASK_RUNNING \<longrightarrow> i = cur s)"

definition sched_safe :: "sched \<Rightarrow> bool" where
  "sched_safe s \<longleftrightarrow> sched_core s \<and> alive (tasks s ! 0) \<and> task_count s \<le> live s"

definition sched_clean :: "sched \<Rightarrow> bool" where
  "sched_clean s \<longleftrightarrow> sched_inv s \<and> tstate (tasks s ! cur s) = TASK_RUNNING"

lemma core_count [simp]: "sched_core (s\<lparr>task_count := c\<rparr>) = sched_core s"
  by (simp add: sched_core_def)

lemma core_fixed: "sched_core s \<longleftrightarrow> sched_inv (s\<lparr>task_count := live s\<rparr>)"
  by (auto simp: sched_core_def sched_inv_def)

lemma inv_core: "sched_inv s \<longleftrightarrow> sched_core s \<and> task_count s = live s"
  by (auto simp: sched_core_def sched_inv_def)

lemma core_set:
  assumes "sched_core s" "i \<noteq> 1" "tstate t \<noteq> TASK_RUNNING"
  shows "sched_core (set_task i t s)"
proof -
  have "j = cur s" if "j < MAX_TASKS" "tstate ((tasks s)[i := t] ! j) = TASK_RUNNING" for j
    using assms that by (cases "j = i") (auto simp: sched_core_def)
  with assms show ?thesis by (simp add: sched_core_def)
qed

lemma live_set:
  assumes "sched_core s" "i < MAX_TASKS"
  shows "live (set_task i t s) + (if alive (tasks s ! i) then 1 else 0) = live s + (if alive t then 1 else 0)"
  using filter_update_count [of i "tasks s" alive t] assms by (simp add: sched_core_def)

lemma pick_loop_count: "pick_loop (s\<lparr>task_count := c\<rparr>) n i = pick_loop s n i"
  by (induction n arbitrary: i) simp_all

lemma set_task_count: "set_task i t (s\<lparr>task_count := c\<rparr>) = (set_task i t s)\<lparr>task_count := c\<rparr>"
  by (simp add: set_task_def)

lemma save_current_count: "save_current sp (s\<lparr>task_count := c\<rparr>) = (save_current sp s)\<lparr>task_count := c\<rparr>"
  by (simp add: save_current_def Let_def set_task_count)

lemma pick_next_count: "pick_next (s\<lparr>task_count := c\<rparr>) = pick_next s"
  by (simp add: pick_next_def pick_loop_count)

lemma do_schedule_count: "do_schedule sp (s\<lparr>task_count := c\<rparr>) = map_prod id (\<lambda>t. t\<lparr>task_count := c\<rparr>) (do_schedule sp s)"
proof -
  have "s\<lparr>task_count := c, cur := n\<rparr> = s\<lparr>cur := n\<rparr>\<lparr>task_count := c\<rparr>" for s :: sched and n by simp
  then show ?thesis by (simp only: do_schedule_def Let_def save_current_count pick_next_count set_task_count) (simp add: set_task_count)
qed

lemma timer_tick_count: "timer_tick now sp (s\<lparr>task_count := c\<rparr>) = map_prod id (\<lambda>t. t\<lparr>task_count := c\<rparr>) (timer_tick now sp s)"
proof -
  have "s\<lparr>task_count := c, tasks := ts\<rparr> = s\<lparr>tasks := ts\<rparr>\<lparr>task_count := c\<rparr>" for ts by simp
  then show ?thesis by (simp only: timer_tick_def Let_def) (simp add: do_schedule_count set_task_count)
qed

text \<open>A switch, by a tick or a yield, keeps the invariant and the count, and no live task is lost in it.\<close>

definition switches :: "(sched \<Rightarrow> sched) \<Rightarrow> bool" where
  "switches f \<longleftrightarrow> (\<forall>s c. f (s\<lparr>task_count := c\<rparr>) = (f s)\<lparr>task_count := c\<rparr>) \<and>
     (\<forall>s. sched_inv s \<longrightarrow> sched_inv (f s) \<and> (\<forall>j<MAX_TASKS. alive (tasks s ! j) \<longrightarrow> alive (tasks (f s) ! j)))"

lemma switch_core:
  assumes f: "switches f" and c: "sched_core s"
  shows "sched_core (f s)" "live (f s) = live s" "task_count (f s) = task_count s" "alive (tasks s ! 0) \<Longrightarrow> alive (tasks (f s) ! 0)"
proof -
  let ?s = "s\<lparr>task_count := live s\<rparr>"
  have i: "sched_inv ?s" using c by (simp add: core_fixed)
  have z: "0 < MAX_TASKS" by (simp add: MAX_TASKS_def)
  have j: "sched_inv (f ?s)" using f i unfolding switches_def by blast
  have "alive (tasks ?s ! 0) \<longrightarrow> alive (tasks (f ?s) ! 0)" using f i z unfolding switches_def by blast
  then have k: "alive (tasks s ! 0) \<longrightarrow> alive (tasks (f ?s) ! 0)" by simp
  have e: "f ?s = (f s)\<lparr>task_count := live s\<rparr>" using f unfolding switches_def by blast
  show "sched_core (f s)" "live (f s) = live s" using j unfolding e inv_core by simp_all
  show "alive (tasks s ! 0) \<Longrightarrow> alive (tasks (f s) ! 0)" using k unfolding e by simp
  have "f (s\<lparr>task_count := task_count s\<rparr>) = (f s)\<lparr>task_count := task_count s\<rparr>" using f unfolding switches_def by blast
  then have "task_count (f s) = task_count ((f s)\<lparr>task_count := task_count s\<rparr>)" by simp
  then show "task_count (f s) = task_count s" by simp
qed

lemma schedule_switches: "switches (\<lambda>s. snd (do_schedule sp s))"
  using do_schedule_keeps do_schedule_inv by (simp add: switches_def do_schedule_count)

lemma tick_switches: "switches (\<lambda>s. snd (timer_tick now sp s))"
  using timer_tick_keeps timer_tick_inv by (simp add: switches_def timer_tick_count)

lemma switch_safe: "switches f \<Longrightarrow> sched_core s \<Longrightarrow> alive (tasks s ! 0) \<Longrightarrow> task_count s \<le> live s \<Longrightarrow> sched_safe (f s)"
  unfolding sched_safe_def using switch_core [of f s] by auto

lemma create_shape:
  assumes "length (tasks s) = MAX_TASKS"
  obtains (no) "snd (create_task name ent s) = s"
  | (yes) k t u where "snd (create_task name ent s) = u" "Suc k < MAX_TASKS" "tstate (tasks s ! Suc k) = TASK_UNUSED"
      "tstate t = TASK_READY" "tasks u = (tasks s)[Suc k := t]" "task_count u = task_count s + 1" "cur u = cur s"
      "idle_id u = idle_id s" "inited u = inited s"
proof (cases "\<not> inited s \<or> ent = 0 \<or> find_idx (\<lambda>t. tstate t = TASK_UNUSED) (drop 1 (tasks s)) = None")
  case True
  then have "snd (create_task name ent s) = s" by (auto simp: create_task_def create_task_internal_def)
  then show ?thesis by (rule no)
next
  case False
  then obtain k where k: "find_idx (\<lambda>t. tstate t = TASK_UNUSED) (drop 1 (tasks s)) = Some k" and e: "ent \<noteq> 0" "inited s" by auto
  have i: "Suc k < MAX_TASKS" "tstate (tasks s ! Suc k) = TASK_UNUSED" using find_idx_SomeD [OF k] assms by auto
  define u where "u = snd (create_task name ent s)"
  define t where "t = tasks u ! Suc k"
  have "tstate t = TASK_READY" "tasks u = (tasks s)[Suc k := t]"
    "task_count u = task_count s + 1" "cur u = cur s" "idle_id u = idle_id s" "inited u = inited s"
    using k e i assms by (simp_all add: t_def u_def create_task_def create_task_internal_def Let_def)
  then show ?thesis using i by (intro yes [of u k t]) (simp_all add: u_def)
qed

lemma create_safe:
  assumes "sched_safe s"
  shows "sched_safe (snd (create_task name ent s))"
proof -
  have c: "sched_core s" "length (tasks s) = MAX_TASKS" using assms by (simp_all add: sched_safe_def sched_core_def)
  from c(2) show ?thesis
  proof (cases rule: create_shape [of _ name ent])
    case no
    with assms show ?thesis by simp
  next
    case (yes k t u)
    have "live u = live s + 1" using live_set [OF c(1) yes(2), of t] yes by simp
    moreover have "sched_core u" using c yes by (auto simp: sched_core_def nth_list_update)
    ultimately show ?thesis using assms yes by (simp add: sched_safe_def)
  qed
qed

lemma kill_safe:
  assumes "sched_safe s"
  shows "sched_safe (snd (kill_task i s))"
proof (cases "fst (kill_task i s)")
  case True
  note e = kill_eq [OF True]
  let ?t = "(tasks s ! i)\<lparr>tstate := TASK_UNUSED\<rparr>"
  have c: "sched_core s" "idle_id s = 1" using assms by (simp_all add: sched_safe_def sched_core_def)
  have "sched_core (set_task i ?t s)" using c e(3) by (intro core_set) auto
  then show ?thesis
    using assms e(1,2) live_set [OF c(1) e(1), of ?t] by (auto simp: sched_safe_def e(5) split: if_splits)
next
  case False
  then have "snd (kill_task i s) = s" by (auto simp: kill_task_def split: if_splits)
  with assms show ?thesis by simp
qed

lemma sleep_safe:
  assumes s: "sched_safe s" and n: "cur s \<noteq> idle_id s"
  shows "sched_safe (snd (sleep_ms now ms sp s))"
proof -
  let ?t = "(tasks s ! cur s)\<lparr>wake_at := now + ucast ms, tstate := TASK_SLEEPING\<rparr>"
  have c: "sched_core s" "idle_id s = 1" "inited s" "cur s < MAX_TASKS" "length (tasks s) = MAX_TASKS"
    using s by (simp_all add: sched_safe_def sched_core_def)
  have "sched_core (set_task (cur s) ?t s)" using c n by (intro core_set) auto
  moreover have "live s \<le> live (set_task (cur s) ?t s)" using live_set [OF c(1,4), of ?t] by (auto split: if_splits)
  moreover have "alive (tasks (set_task (cur s) ?t s) ! 0)" using s c by (cases "cur s = 0") (simp_all add: sched_safe_def)
  ultimately have "sched_safe (snd (do_schedule sp (set_task (cur s) ?t s)))"
    using s by (intro switch_safe [OF schedule_switches]) (auto simp: sched_safe_def)
  then show ?thesis using c(3) by (simp add: sleep_ms_def sched_yield_def)
qed

lemma exit_safe:
  assumes s: "sched_safe s" and n: "cur s \<noteq> idle_id s" "cur s \<noteq> 0"
  shows "sched_safe (snd (task_exit sp s))"
proof -
  let ?u = "(set_task (cur s) ((tasks s ! cur s)\<lparr>tstate := TASK_DEAD\<rparr>) s)\<lparr>task_count := task_count s - 1\<rparr>"
  have c: "sched_core s" "idle_id s = 1" "inited s" "cur s < MAX_TASKS" using s by (simp_all add: sched_safe_def sched_core_def)
  have "sched_core ?u" using c n by (simp add: core_set)
  moreover have "task_count ?u \<le> live ?u"
    using s live_set [OF c(1,4), of "(tasks s ! cur s)\<lparr>tstate := TASK_DEAD\<rparr>"] by (auto simp: sched_safe_def split: if_splits)
  moreover have "alive (tasks ?u ! 0)" using s n by (simp add: sched_safe_def)
  ultimately have "sched_safe (snd (do_schedule sp ?u))" by (intro switch_safe [OF schedule_switches])
  moreover have "(if task_count s > 0 then task_count s - 1 else task_count s) = task_count s - 1" by simp
  ultimately show ?thesis using c(3) by (simp add: task_exit_def sched_yield_def)
qed

lemma sched_next_safe:
  assumes s: "sched_safe s" and n: "sched_next s ev t"
  shows "sched_safe t"
proof -
  have c: "sched_core s" "alive (tasks s ! 0)" "task_count s \<le> live s" "inited s"
    using s by (simp_all add: sched_safe_def sched_core_def)
  have h: "can_happen s ev" using n by (auto simp: sched_next_def sched_step_def split: if_splits)
  show ?thesis
    using n h switch_safe [OF schedule_switches c(1-3)] switch_safe [OF tick_switches c(1-3)] create_safe [OF s] kill_safe [OF s]
      sleep_safe [OF s] exit_safe [OF s] c(4)
    by (cases ev) (auto simp: sched_next_def sched_step_def can_happen_def sched_yield_def)
qed

text \<open>Where no running or returned task is killed, the current task is running between any two steps and the count is exact.\<close>

lemma do_schedule_clean: "sched_inv s \<Longrightarrow> sched_clean (snd (do_schedule sp s))"
  using do_schedule_spec(1,3) [of s sp] by (cases "do_schedule sp s") (simp add: sched_clean_def)

lemma timer_tick_clean:
  assumes s: "sched_clean s"
  shows "sched_clean (snd (timer_tick now sp s))"
proof -
  define s1 where "s1 = s\<lparr>tasks := reap (cur s) (map (wake now) (tasks s))\<rparr>"
  define s2 where "s2 = set_task (cur s1) ((tasks s1 ! cur s1)\<lparr>ticks_used := ticks_used (tasks s1 ! cur s1) + 1\<rparr>) s1"
  define s3 where "s3 = set_task (cur s2) ((tasks s2 ! cur s2)\<lparr>slice := slice (tasks s2 ! cur s2) - 1\<rparr>) s2"
  have inv: "sched_inv s" and r: "tstate (tasks s ! cur s) = TASK_RUNNING" and l: "length (tasks s) = MAX_TASKS" "cur s < MAX_TASKS"
    using s by (simp_all add: sched_clean_def sched_inv_def)
  have i1: "sched_inv s1" unfolding s1_def using inv by (rule tick_prelude_inv)
  have r1: "tstate (tasks s1 ! cur s1) = TASK_RUNNING" "cur s1 = cur s" "length (tasks s1) = MAX_TASKS"
    using r l by (auto simp: s1_def nth_reap wake_def)
  have i2: "sched_inv s2" unfolding s2_def using r1 by (intro set_task_inv i1) auto
  have r2: "tstate (tasks s2 ! cur s2) = TASK_RUNNING" "cur s2 = cur s" "length (tasks s2) = MAX_TASKS"
    using r1 l by (simp_all add: s2_def)
  have i3: "sched_inv s3" unfolding s3_def using r2 by (intro set_task_inv i2) auto
  have r3: "tstate (tasks s3 ! cur s3) = TASK_RUNNING" using r2 l by (simp add: s3_def)
  have "timer_tick now sp s = (if slice (tasks s3 ! cur s3) > 0 then (sp, s3) else do_schedule sp s3)"
    using inv r2(1) unfolding timer_tick_def Let_def s1_def [symmetric] s2_def [symmetric] s3_def [symmetric]
    by (simp add: sched_inv_def)
  then show ?thesis using i3 r3 do_schedule_clean [OF i3, of sp] by (simp add: sched_clean_def)
qed

lemma clean_next_clean:
  assumes s: "sched_clean s" and n: "clean_next s ev t"
  shows "sched_clean t"
proof -
  have inv: "sched_inv s" and r: "tstate (tasks s ! cur s) = TASK_RUNNING" using s by (simp_all add: sched_clean_def)
  have c: "length (tasks s) = MAX_TASKS" "cur s < MAX_TASKS" "idle_id s = 1" "inited s" using inv by (simp_all add: sched_inv_def)
  have t: "sched_next s ev t" using n by (simp add: clean_next_def)
  show ?thesis
  proof (cases ev)
    case (Tick now sp)
    then show ?thesis using t timer_tick_clean [OF s] by (auto simp: sched_next_def sched_step_def can_happen_def)
  next
    case (Yield sp)
    then show ?thesis
      using t c do_schedule_clean [OF inv, of sp] by (auto simp: sched_next_def sched_step_def can_happen_def sched_yield_def)
  next
    case (Spawn name ent)
    then have e: "t = snd (create_task name ent s)" using t by (simp add: sched_next_def sched_step_def can_happen_def)
    have "tstate (tasks t ! cur t) = TASK_RUNNING"
      using c(1)
    proof (cases rule: create_shape [of _ name ent])
      case no
      with r e show ?thesis by simp
    next
      case (yes k w u)
      then have "Suc k \<noteq> cur s" using r by auto
      with yes e r show ?thesis by simp
    qed
    with create_inv [OF inv] e show ?thesis by (simp add: sched_clean_def)
  next
    case (Kill i)
    then have e: "t = snd (kill_task i s)" "i \<noteq> cur s" "i < MAX_TASKS \<Longrightarrow> tstate (tasks s ! i) \<noteq> TASK_DEAD"
      using n by (simp_all add: clean_next_def sched_next_def sched_step_def can_happen_def)
    show ?thesis
    proof (cases "fst (kill_task i s)")
      case True
      note k = kill_eq [OF True]
      have "alive (tasks s ! i)" using k e by (cases "tstate (tasks s ! i)") auto
      then have "sched_inv t" unfolding e(1) k(5) using k c by (intro drop_task_inv inv) auto
      then show ?thesis using r e(2) by (simp add: sched_clean_def e(1) k(5))
    next
      case False
      then have "snd (kill_task i s) = s" by (auto simp: kill_task_def split: if_splits)
      with s e show ?thesis by simp
    qed
  next
    case (Sleep now ms sp)
    let ?s = "set_task (cur s) ((tasks s ! cur s)\<lparr>wake_at := now + ucast ms, tstate := TASK_SLEEPING\<rparr>) s"
    have h: "cur s \<noteq> idle_id s" "t = snd (sleep_ms now ms sp s)"
      using t Sleep by (auto simp: sched_next_def sched_step_def can_happen_def split: if_splits)
    have "sched_inv ?s" using h r c by (intro set_task_inv inv) auto
    from do_schedule_clean [OF this] show ?thesis using h c by (simp add: sleep_ms_def sched_yield_def)
  next
    case (Exit sp)
    let ?s = "(set_task (cur s) ((tasks s ! cur s)\<lparr>tstate := TASK_DEAD\<rparr>) s)\<lparr>task_count := task_count s - 1\<rparr>"
    have h: "cur s \<noteq> idle_id s" "t = snd (task_exit sp s)"
      using t Exit by (auto simp: sched_next_def sched_step_def can_happen_def split: if_splits)
    have "sched_inv ?s" using h r c by (intro drop_task_inv inv) auto
    from do_schedule_clean [OF this] have "sched_clean (snd (sched_yield sp ?s))" using c by (simp add: sched_yield_def)
    moreover have "(if task_count s > 0 then task_count s - 1 else task_count s) = task_count s - 1" by simp
    ultimately show ?thesis using h by (simp add: task_exit_def)
  qed
qed

interpretation safe_runs: event_system sched_safe sched_next
  by unfold_locales (rule sched_next_safe)

interpretation clean_runs: event_system sched_clean clean_next
  by unfold_locales (rule clean_next_clean)

lemma sched_init_state:
  "sched_core (sched_init s0)" "task_count (sched_init s0) = live (sched_init s0)" "cur (sched_init s0) = 0"
  "tstate (tasks (sched_init s0) ! 0) = TASK_RUNNING"
  using sched_init_inv [of s0] by (simp_all add: inv_core sched_init_tasks(1,2) MAX_TASKS_def)

text \<open>C29: after any sequence of timer ticks, yields, creations, kills, sleeps and returns of tasks from
  boot, at most the current task is running, idle is runnable, the kernel's task 0 is alive, every index is in range, and
  the task count is at most the number of live tasks. In a sequence in which no kill hits the task that is running
  or one that has returned and waits to be reaped, the current task is running and the count is exactly the number of live tasks.\<close>

theorem sched_run_inv:
  assumes "trace sched_next (sched_init s0) evs s"
  shows "cur s < MAX_TASKS \<and> (\<forall>i<MAX_TASKS. tstate (tasks s ! i) = TASK_RUNNING \<longrightarrow> i = cur s) \<and>
    tstate (tasks s ! idle_id s) \<in> {TASK_READY, TASK_RUNNING} \<and>
    tstate (tasks s ! 0) \<in> {TASK_READY, TASK_RUNNING, TASK_SLEEPING} \<and>
    task_count s \<le> length (filter alive (tasks s)) \<and>
    (trace clean_next (sched_init s0) evs s \<longrightarrow>
       tstate (tasks s ! cur s) = TASK_RUNNING \<and> task_count s = length (filter alive (tasks s)))"
proof -
  have "sched_safe (sched_init s0)" "sched_clean (sched_init s0)"
    using sched_init_state [of s0] sched_init_inv [of s0] by (simp_all add: sched_safe_def sched_clean_def)
  with safe_runs.trace_keeps [OF assms] clean_runs.trace_keeps [of "sched_init s0" evs s]
  have "sched_safe s" "trace clean_next (sched_init s0) evs s \<Longrightarrow> sched_clean s" by simp_all
  then show ?thesis by (auto simp: sched_safe_def sched_core_def sched_clean_def sched_inv_def)
qed

text \<open>A task that is killed while it runs, as from the shell in the keyboard interrupt, and sleeps before the next
  tick comes back: its slot is sleeping again and is woken like any other, and the task count is one less than the number of live tasks.\<close>

theorem killed_task_comes_back:
  assumes inv: "sched_inv s" and c: "1 < cur s" "tstate (tasks s ! cur s) = TASK_RUNNING"
    and k: "kill_task (cur s) s = (True, s1)" and sl: "sleep_ms now ms sp s1 = (r, s2)"
  shows "tstate (tasks s1 ! cur s) = TASK_UNUSED \<and> tstate (tasks s2 ! cur s) = TASK_SLEEPING \<and>
    tstate (wake (now + ucast ms) (tasks s2 ! cur s)) = TASK_READY \<and> task_count s2 + 1 = length (filter alive (tasks s2))"
proof -
  let ?i = "cur s"
  have l: "?i < MAX_TASKS" "length (tasks s) = MAX_TASKS" "idle_id s = 1" "inited s" using inv by (simp_all add: sched_inv_def)
  have a: "alive (tasks s ! ?i)" using c(2) by simp
  have s1: "s1 = (set_task ?i ((tasks s ! ?i)\<lparr>tstate := TASK_UNUSED\<rparr>) s)\<lparr>task_count := task_count s - 1\<rparr>"
    using kill_task_live(1) [OF inv c(1) l(1) a] k by simp
  define t where "t = (tasks s ! ?i)\<lparr>wake_at := now + ucast ms, tstate := TASK_SLEEPING\<rparr>"
  define u where "u = set_task ?i t s"
  have ui: "sched_inv u" unfolding u_def t_def using inv c by (intro set_task_inv) auto
  have "set_task ?i t (set_task ?i v s) = u" for v by (simp add: u_def set_task_def)
  then have "set_task (cur s1) ((tasks s1 ! cur s1)\<lparr>wake_at := now + ucast ms, tstate := TASK_SLEEPING\<rparr>) s1 =
      u\<lparr>task_count := task_count s - 1\<rparr>"
    using l by (simp add: s1 set_task_count t_def)
  then have "sleep_ms now ms sp s1 = do_schedule sp (u\<lparr>task_count := task_count s - 1\<rparr>)"
    using l by (simp add: sleep_ms_def sched_yield_def) (simp add: s1 u_def)
  then obtain v where v: "do_schedule sp u = (r, v)" "s2 = v\<lparr>task_count := task_count s - 1\<rparr>"
    using sl by (cases "do_schedule sp u") (simp add: do_schedule_count)
  note d = do_schedule_spec [OF ui v(1)]
  have sv: "tasks (save_current sp u) ! ?i = t\<lparr>rsp := sp\<rparr>" "save_current sp u = set_task ?i (t\<lparr>rsp := sp\<rparr>) u"
    using l by (simp_all add: save_current_def u_def t_def Let_def)
  have "cur v \<noteq> ?i"
    using pick_next_cases [of "save_current sp u"] d(2) sv c l by (auto simp: u_def t_def)
  then have "tasks v ! ?i = t\<lparr>rsp := sp\<rparr>" using d(8) [of ?i] sv by simp
  moreover have "live v = task_count s" "0 < task_count s"
  proof -
    have "length (filter alive ((tasks s)[?i := t])) = length (filter alive (tasks s))"
      by (rule filter_update_same) (simp add: t_def c(2))
    moreover have "task_count v = task_count u"
      using switch_core(3) [OF schedule_switches, of u sp] ui v(1) by (simp add: inv_core)
    ultimately show "live v = task_count s" using d(1) by (simp add: inv_core u_def)
    have "tasks s ! ?i \<in> set (tasks s)" using l by simp
    then have "0 < length (filter alive (tasks s))" using a unfolding filter_pos_iff by blast
    then show "0 < task_count s" using inv by (simp add: sched_inv_def)
  qed
  ultimately show ?thesis using l v(2) by (simp add: s1 t_def wake_def)
qed

text \<open>create_task either finds no unused slot and changes nothing, or takes one unused slot, never
  kernel's or idle's, makes it ready with the next id, and leaves at its saved stack pointer an
  interrupt frame that resumes in the task wrapper with interrupts enabled; every other task is unchanged.\<close>

theorem create_task_spec:
  assumes inv: "sched_inv s" and e: "ent \<noteq> 0" and c: "create_task name ent s = (slot, s')"
  shows "if slot < 0 then s' = s \<and> (\<forall>i. 1 \<le> i \<and> i < MAX_TASKS \<longrightarrow> tstate (tasks s ! i) \<noteq> TASK_UNUSED)
         else \<exists>i t. slot = int i \<and> 1 < i \<and> i < MAX_TASKS \<and> tstate (tasks s ! i) = TASK_UNUSED \<and>
              tasks s' = (tasks s)[i := t] \<and> tstate t = TASK_READY \<and> entry t = ent \<and> tid t = next_id s \<and>
              rip (frames s' (rsp t)) = Task_entry_wrapper \<and> bit (rflags (frames s' (rsp t))) 9 \<and>
              frsp (frames s' (rsp t)) = rsp t + FRAME_SIZE \<and> task_count s' = task_count s + 1"
  using create_task_cases [OF assms] .

definition sched_zero :: sched where
  "sched_zero = \<lparr>tasks = [], cur = 0, task_count = 0, idle_id = 0, next_id = 0, inited = False,
     frames = (\<lambda>_. \<lparr>rip = No_code, cs = 0, rflags = 0, frsp = 0, ss = 0, gp = []\<rparr>), stacks_at = 0x100000\<rparr>"

definition sched_demo :: sched where "sched_demo = snd (create_task (Some ''job'') 7 (sched_init sched_zero))"

lemma sched_demo_inv: "sched_inv sched_demo"
  unfolding sched_demo_def using sched_init_inv by (rule create_inv)

lemma sched_demo_find: "find_idx (\<lambda>t. tstate t = TASK_UNUSED) (drop 1 (tasks (sched_init sched_zero))) = Some 1"
  by (rule find_idx_eqI) (auto simp: sched_init_tasks MAX_TASKS_def nth_list_update unused_task_def)

lemma sched_demo_ready: "tstate (tasks sched_demo ! 2) = TASK_READY" "cur sched_demo = 0"
  using sched_demo_find
  by (simp_all add: sched_demo_def create_task_def create_task_internal_def Let_def sched_init_tasks(1,2,4) MAX_TASKS_def
      nth_list_update numeral_2_eq_2)

theorem create_task_spec_witness:
  "tstate (tasks sched_demo ! 2) = TASK_READY \<and> fst (create_task (Some ''job'') 7 (sched_init sched_zero)) = 2"
proof -
  obtain slot s' where c: "create_task (Some ''job'') 7 (sched_init sched_zero) = (slot, s')" by fastforce
  have "slot = 2"
    using c sched_demo_find by (simp add: create_task_def create_task_internal_def Let_def sched_init_tasks(4))
  with create_task_spec [OF sched_init_inv _ c] c sched_demo_ready show ?thesis by simp
qed

theorem context_switch_witness:
  "tstate (tasks (snd (do_schedule 0x5000 sched_demo)) ! cur (snd (do_schedule 0x5000 sched_demo))) = TASK_RUNNING \<and>
   rsp (tasks (snd (do_schedule 0x5000 sched_demo)) ! 0) = 0x5000"
  using context_switch [OF sched_demo_inv, of "0x5000"] sched_demo_ready(2)
  by (cases "do_schedule 0x5000 sched_demo") simp

theorem no_starvation_witness:
  "\<exists>k\<le>16. cur (foldl (\<lambda>s sp. snd (do_schedule sp s)) sched_demo (take k (replicate 16 0))) = 2"
  using no_starvation [OF sched_demo_inv, of 2 "replicate 16 0"] sched_demo_ready sched_demo_inv
  by (auto simp: MAX_TASKS_def sched_inv_def)

theorem sched_run_inv_witness:
  "\<exists>s. trace sched_next (sched_init sched_zero) [Spawn (Some ''job'') 7, Sleep 0 10 0x5000] s \<and>
     task_count s = length (filter alive (tasks s)) \<and> tstate (tasks s ! 0) \<in> {TASK_READY, TASK_RUNNING, TASK_SLEEPING}"
proof -
  let ?t = "snd (sleep_ms 0 10 0x5000 sched_demo)"
  have n: "cur sched_demo \<noteq> idle_id sched_demo" using sched_demo_ready(2) sched_demo_inv by (simp add: sched_inv_def)
  then have s: "sched_next (sched_init sched_zero) (Spawn (Some ''job'') 7) sched_demo" "sched_next sched_demo (Sleep 0 10 0x5000) ?t"
    by (simp_all add: sched_next_def sched_step_def can_happen_def sched_demo_def)
  then have t: "trace sched_next (sched_init sched_zero) [Spawn (Some ''job'') 7, Sleep 0 10 0x5000] ?t"
    by (rule trace_Cons [OF _ trace_Cons [OF _ trace_Nil]])
  have "trace clean_next (sched_init sched_zero) [Spawn (Some ''job'') 7, Sleep 0 10 0x5000] ?t"
    using s by (intro trace_Cons [OF _ trace_Cons [OF _ trace_Nil]]) (simp_all add: clean_next_def)
  with t sched_run_inv [OF t] show ?thesis by blast
qed

definition job_runs :: sched where "job_runs = snd (do_schedule 0x5000 sched_demo)"

theorem killed_task_comes_back_witness:
  "\<exists>s1 r s2. kill_task 2 job_runs = (True, s1) \<and> sleep_ms 0 10 0x6000 s1 = (r, s2) \<and> tstate (tasks s2 ! 2) = TASK_SLEEPING"
proof -
  obtain r t where d: "do_schedule 0x5000 sched_demo = (r, t)" by (metis surj_pair)
  then have t: "job_runs = t" by (simp add: job_runs_def)
  note ds = do_schedule_spec [OF sched_demo_inv d]
  have i: "inited sched_demo" "idle_id sched_demo = 1" "tstate (tasks sched_demo ! 1) \<in> {TASK_READY, TASK_RUNNING}"
    using sched_demo_inv by (simp_all add: sched_inv_def)
  have c: "cur job_runs = 2" by code_simp
  have inv: "sched_inv job_runs" unfolding t by (rule ds(1))
  have r: "tstate (tasks job_runs ! 2) = TASK_RUNNING" using ds(3) c unfolding t by simp
  obtain s1 where k: "kill_task (cur job_runs) job_runs = (True, s1)"
    using inv r c by (simp add: kill_task_def sched_inv_def MAX_TASKS_def)
  obtain q s2 where s2: "sleep_ms 0 10 0x6000 s1 = (q, s2)" by (metis surj_pair)
  from killed_task_comes_back [OF inv _ _ k s2] c r k s2 show ?thesis by auto
qed

text \<open>killing a slot whose task has returned but has not been reaped yet subtracts it from the task
  count a second time: the count is then one less than the number of live tasks.\<close>

theorem kill_dead_miscounts:
  assumes "sched_inv s" "i < MAX_TASKS" "i \<noteq> 0" "tstate (tasks s ! i) = TASK_DEAD"
  shows "fst (kill_task i s) \<and> task_count (snd (kill_task i s)) + 1 = length (filter alive (tasks (snd (kill_task i s))))"
proof -
  have i1: "i \<noteq> 1" and l: "length (tasks s) = MAX_TASKS" "idle_id s = 1" and c: "task_count s = length (filter alive (tasks s))"
    using assms(1,4) by (auto simp: sched_inv_def)
  have "tasks s ! 1 \<in> set (tasks s)" "alive (tasks s ! 1)"
    using assms(1) l by (auto simp: sched_inv_def MAX_TASKS_def)
  then have pos: "0 < length (filter alive (tasks s))" unfolding filter_pos_iff by blast
  have "length (filter alive ((tasks s)[i := (tasks s ! i)\<lparr>tstate := TASK_UNUSED\<rparr>])) = length (filter alive (tasks s))"
    by (rule filter_update_same) (simp add: assms(4))
  then show ?thesis using assms i1 l c pos by (simp add: kill_task_def)
qed

definition sched_dead :: sched where
  "sched_dead = set_task 2 (unused_task\<lparr>tstate := TASK_DEAD\<rparr>) (sched_init sched_zero)"

theorem kill_dead_miscounts_witness:
  "sched_inv sched_dead \<and> fst (kill_task 2 sched_dead)"
proof -
  have "tasks (sched_init sched_zero) ! 2 = unused_task" by (simp add: sched_init_tasks MAX_TASKS_def)
  then have inv: "sched_inv sched_dead"
    unfolding sched_dead_def using sched_init_inv by (intro set_task_inv) (simp_all add: unused_task_def)
  have "tstate (tasks sched_dead ! 2) = TASK_DEAD" by (simp add: sched_dead_def sched_init_tasks MAX_TASKS_def)
  from kill_dead_miscounts [OF inv _ _ this] inv show ?thesis by (simp add: MAX_TASKS_def)
qed

end
