(* ===== verification/Network.thy ===== *)
theory Network
  imports KString
begin

text \<open>
  The network stack of \<^verbatim>\<open>kernel/network.cpp\<close> and \<^verbatim>\<open>network.h\<close>: Ethernet, the ARP cache, IPv4 and UDP. A
  received frame sits in the 2048 bytes of \<^verbatim>\<open>recv_buf\<close>, of which the first \<open>len\<close> belong to the frame, so a
  pointer into it is an offset and a read beyond the buffer is \<open>Inl OutOfBounds\<close>. The network card is a
  parameter: \<open>wire\<close> collects the frames given to \<^verbatim>\<open>E1000::send\<close> and \<open>nic\<close> is its answer. A handler is a
  number (0 for null); \<open>inbox\<close> collects the calls made to handlers.
\<close>

definition htons :: "u16 \<Rightarrow> u16" where
  "htons x = drop_bit 8 x OR push_bit 8 x"

definition htonl :: "u32 \<Rightarrow> u32" where
  "htonl x = (drop_bit 24 x AND 0xFF) OR (drop_bit 8 x AND 0xFF00) OR (push_bit 8 x AND 0xFF0000)
     OR (push_bit 24 x AND 0xFF000000)"

abbreviation ntohs :: "u16 \<Rightarrow> u16" where "ntohs \<equiv> htons"

definition ARP_TABLE_SIZE :: nat where "ARP_TABLE_SIZE = 16"
definition MAX_UDP_HANDLERS :: nat where "MAX_UDP_HANDLERS = 8"
definition SEND_BUF :: nat where "SEND_BUF = 2048"
definition RECV_BUF :: nat where "RECV_BUF = 2048"
definition BROADCAST_MAC :: "u8 list" where "BROADCAST_MAC = replicate 6 0xFF"

record arp_entry =
  aip :: u32
  amac :: "u8 list"
  avalid :: bool

record udp_binding =
  bport :: u16
  bhandler :: nat

record delivery =
  d_handler :: nat
  d_src_ip :: u32
  d_src_port :: u16
  d_data :: "u8 list"

record net =
  our_mac :: "u8 list"
  our_ip :: u32
  net_ready :: bool
  pkts_sent :: u64
  pkts_recv :: u64
  arp_table :: "arp_entry list"
  udp_handlers :: "udp_binding list"
  ip_id :: u16
  wire :: "u8 list list"
  inbox :: "delivery list"

section \<open>Helpers\<close>

fun sum_words :: "u8 list \<Rightarrow> nat" where
  "sum_words (a # b # bs) = unat (of_le16 [a, b]) + sum_words bs"
| "sum_words [a] = unat a"
| "sum_words [] = 0"

lemma fold_carry_less: "(s::nat) div 65536 \<noteq> 0 \<Longrightarrow> s mod 65536 + s div 65536 < s"
  using div_mult_mod_eq [of s 65536] by linarith

function fold_carry :: "nat \<Rightarrow> nat" where
  "fold_carry s = (if s div 65536 \<noteq> 0 then fold_carry (s mod 65536 + s div 65536) else s)"
  by auto
termination fold_carry
  by (relation "measure id") (auto simp: fold_carry_less simp del: div_eq_0_iff)

declare fold_carry.simps [simp del]

definition ip_checksum :: "u8 list \<Rightarrow> u16" where
  "ip_checksum data = NOT (of_nat (fold_carry (sum_words data mod 2 ^ 32)))"

section \<open>ARP\<close>

definition arp_store :: "u32 \<Rightarrow> u8 list \<Rightarrow> net \<Rightarrow> net" where
  "arp_store ip mac s = s\<lparr>arp_table := upsert avalid aip (\<lambda>e. e\<lparr>amac := mac\<rparr>)
     (\<lambda>e. e\<lparr>aip := ip, amac := mac, avalid := True\<rparr>) ip (arp_table s)\<rparr>"

definition arp_lookup :: "u32 \<Rightarrow> net \<Rightarrow> u8 list option" where
  "arp_lookup ip s = map_option (\<lambda>i. amac (arp_table s ! i)) (find_idx (\<lambda>e. avalid e \<and> aip e = ip) (arp_table s))"

text \<open>\<^verbatim>\<open>E1000::send\<close> gets the frame, whatever it answers.\<close>

definition nic_send :: "u8 list \<Rightarrow> net \<Rightarrow> net" where
  "nic_send fr s = s\<lparr>wire := wire s @ [fr]\<rparr>"

definition eth_header :: "u8 list \<Rightarrow> u8 list \<Rightarrow> u16 \<Rightarrow> u8 list" where
  "eth_header dst src ety = dst @ src @ le16 (htons ety)"

definition arp_packet :: "u16 \<Rightarrow> u8 list \<Rightarrow> u32 \<Rightarrow> u8 list \<Rightarrow> u32 \<Rightarrow> u8 list" where
  "arp_packet oper sha spa tha tpa =
     le16 (htons 1) @ le16 (htons 0x0800) @ [6, 4] @ le16 (htons oper) @ sha @ le32 spa @ tha @ le32 tpa"

definition arp_send_request :: "u32 \<Rightarrow> net \<Rightarrow> net" where
  "arp_send_request target_ip s = nic_send (eth_header BROADCAST_MAC (our_mac s) 0x0806 @
     arp_packet 1 (our_mac s) (our_ip s) (replicate 6 0) target_ip) s"

definition arp_send_reply :: "u32 \<Rightarrow> u8 list \<Rightarrow> net \<Rightarrow> net" where
  "arp_send_reply target_ip target_mac s = nic_send (eth_header target_mac (our_mac s) 0x0806 @
     arp_packet 2 (our_mac s) (our_ip s) target_mac target_ip) s"

text \<open>Reads from the receive buffer, at an offset.\<close>

definition get16 :: "u8 list \<Rightarrow> nat \<Rightarrow> u16" where "get16 buf off = of_le16 (bytes_at buf off 2)"
definition get32 :: "u8 list \<Rightarrow> nat \<Rightarrow> u32" where "get32 buf off = of_le32 (bytes_at buf off 4)"

definition handle_arp :: "u8 list \<Rightarrow> nat \<Rightarrow> u16 \<Rightarrow> net \<Rightarrow> net" where
  "handle_arp buf off len s =
     (if len < 28 then s
      else let oper = ntohs (get16 buf (off + 6));
               sha = bytes_at buf (off + 8) 6; spa = get32 buf (off + 14); tpa = get32 buf (off + 24);
               s = arp_store spa sha s
           in if oper = 1 \<and> tpa = our_ip s then arp_send_reply spa sha s else s)"

section \<open>IPv4 and UDP\<close>

definition handle_udp :: "u32 \<Rightarrow> u8 list \<Rightarrow> nat \<Rightarrow> u16 \<Rightarrow> net \<Rightarrow> net res" where
  "handle_udp src_ip buf off len s =
     (if len < 8 then Inr s
      else if off + 8 > RECV_BUF then Inl OutOfBounds
      else
        let src_port = ntohs (get16 buf off); dst_port = ntohs (get16 buf (off + 2)); udp_len = ntohs (get16 buf (off + 4))
        in if udp_len < 8 \<or> udp_len > len then Inr s
           else case find_idx (\<lambda>b. bhandler b \<noteq> 0 \<and> bport b = dst_port) (udp_handlers s) of
                  None \<Rightarrow> Inr s
                | Some i \<Rightarrow>
                    if off + unat udp_len > RECV_BUF then Inl OutOfBounds
                    else Inr (s\<lparr>inbox := inbox s @ [\<lparr>d_handler = bhandler (udp_handlers s ! i), d_src_ip = src_ip,
                           d_src_port = src_port, d_data = bytes_at buf (off + 8) (unat (udp_len - 8))\<rparr>]\<rparr>))"

definition handle_ipv4 :: "u8 list \<Rightarrow> nat \<Rightarrow> u16 \<Rightarrow> net \<Rightarrow> net res" where
  "handle_ipv4 buf off len s =
     (if len < 20 then Inr s
      else
        let dst = get32 buf (off + 16); src = get32 buf (off + 12)
        in if dst \<noteq> our_ip s \<and> dst \<noteq> 0xFFFFFFFF \<and> dst \<noteq> our_ip s OR htonl 0xFF then Inr s
           else
             let hdr_len = ucast (buf ! off AND 0x0F) * 4
             in if buf ! (off + 9) = 17 then handle_udp src buf (off + unat hdr_len) (len - hdr_len) s
                else Inr s)"

definition process_packet :: "u8 list \<Rightarrow> u16 \<Rightarrow> net \<Rightarrow> net res" where
  "process_packet buf len s =
     (if len < 14 then Inr s
      else
        let s = s\<lparr>pkts_recv := pkts_recv s + 1\<rparr>; ety = ntohs (get16 buf 12); plen = len - 14
        in if ety = 0x0806 then Inr (handle_arp buf 14 plen s)
           else if ety = 0x0800 then handle_ipv4 buf 14 plen s
           else Inr s)"

text \<open>\<^verbatim>\<open>poll\<close> handles every frame the card has; a frame overwrites the start of the receive buffer.\<close>

fun poll :: "u8 list \<Rightarrow> u8 list list \<Rightarrow> net \<Rightarrow> (u8 list \<times> net) res" where
  "poll buf [] s = Inr (buf, s)"
| "poll buf (fr # frs) s =
     (let buf = take RECV_BUF (fr @ drop (length fr) buf)
      in bind_res (process_packet buf (of_nat (length fr)) s) (\<lambda>s. poll buf frs s))"

definition net_init :: "u8 list option \<Rightarrow> net \<Rightarrow> bool \<times> net" where
  "net_init mac s0 =
     (let s = s0\<lparr>arp_table := replicate ARP_TABLE_SIZE \<lparr>aip = 0, amac = replicate 6 0, avalid = False\<rparr>,
                 udp_handlers := replicate MAX_UDP_HANDLERS \<lparr>bport = 0, bhandler = 0\<rparr>\<rparr>
      in case mac of
           None \<Rightarrow> (False, s)
         | Some m \<Rightarrow> (True, s\<lparr>our_mac := m, our_ip := htonl (0x0A000000 OR ucast (m ! 5)), net_ready := True\<rparr>))"

definition send_raw :: "(u8 list \<Rightarrow> bool) \<Rightarrow> u8 list \<Rightarrow> u16 \<Rightarrow> u8 list \<Rightarrow> net \<Rightarrow> bool \<times> net" where
  "send_raw nic dst_mac ety payload s =
     (if \<not> net_ready s \<or> length payload + 14 > SEND_BUF then (False, s)
      else let fr = eth_header dst_mac (our_mac s) ety @ payload
           in (nic fr, nic_send fr (s\<lparr>pkts_sent := pkts_sent s + 1\<rparr>)))"

definition ip_header :: "u16 \<Rightarrow> u16 \<Rightarrow> u16 \<Rightarrow> u32 \<Rightarrow> u32 \<Rightarrow> u8 list" where
  "ip_header tot ident csum src dst =
     [0x45, 0] @ le16 (htons tot) @ le16 (htons ident) @ le16 0 @ [64, 17] @ le16 csum @ le32 src @ le32 dst"

definition udp_header :: "u16 \<Rightarrow> u16 \<Rightarrow> u16 \<Rightarrow> u8 list" where
  "udp_header src_port dst_port tot =
     le16 (htons src_port) @ le16 (htons dst_port) @ le16 (htons tot) @ le16 0"

definition udp_frame :: "u8 list \<Rightarrow> u32 \<Rightarrow> u16 \<Rightarrow> u16 \<Rightarrow> u8 list \<Rightarrow> net \<Rightarrow> u8 list" where
  "udp_frame dst_mac dst_ip dst_port src_port data s =
     (let udp_total = 8 + of_nat (length data); ip_total = 20 + udp_total;
          csum = ip_checksum (ip_header ip_total (ip_id s) 0 (our_ip s) dst_ip)
      in eth_header dst_mac (our_mac s) 0x0800 @ ip_header ip_total (ip_id s) csum (our_ip s) dst_ip @
         udp_header src_port dst_port udp_total @ data)"

text \<open>The length is a \<^verbatim>\<open>uint16_t\<close>, so \<open>length data < 65536\<close>; the three totals are computed in 16 bits.\<close>

definition send_udp :: "(u8 list \<Rightarrow> bool) \<Rightarrow> u32 \<Rightarrow> u16 \<Rightarrow> u16 \<Rightarrow> u8 list \<Rightarrow> net \<Rightarrow> (bool \<times> net) res" where
  "send_udp nic dst_ip dst_port src_port data s =
     (if \<not> net_ready s then Inr (False, s)
      else
        let is_broadcast = (dst_ip = 0xFFFFFFFF \<or> dst_ip = our_ip s OR htonl 0xFF);
            mac = (if is_broadcast then Some BROADCAST_MAC else arp_lookup dst_ip s)
        in case mac of
             None \<Rightarrow> Inr (False, arp_send_request dst_ip s)
           | Some m \<Rightarrow>
               let pkt_total = 14 + (20 + (8 + of_nat (length data))) :: u16
               in if unat pkt_total > SEND_BUF then Inr (False, s)
                  else if 42 + length data > SEND_BUF then Inl BufferOverflow
                  else let fr = udp_frame m dst_ip dst_port src_port data s
                       in Inr (nic fr, nic_send fr (s\<lparr>ip_id := ip_id s + 1, pkts_sent := pkts_sent s + 1\<rparr>)))"

definition register_udp_handler :: "u16 \<Rightarrow> nat \<Rightarrow> net \<Rightarrow> net" where
  "register_udp_handler port handler s =
     (case find_idx (\<lambda>b. bhandler b = 0) (udp_handlers s) of
        None \<Rightarrow> s
      | Some i \<Rightarrow> s\<lparr>udp_handlers := (udp_handlers s)[i := \<lparr>bport = port, bhandler = handler\<rparr>]\<rparr>)"

section \<open>Byte order and checksum\<close>

lemma htons_htons [simp]: "htons (htons x) = x"
proof (rule bit_word_eqI)
  fix n
  assume "n < LENGTH(16)"
  then show "bit (htons (htons x)) n = bit x n"
    by (cases "n < 8") (auto simp: htons_def bit_simps)
qed

section \<open>The header checksum\<close>

lemma unat_u16: "unat (x :: u16) \<le> 65535"
proof -
  have "unat x < 2 ^ LENGTH(16)" by (rule unsigned_less)
  then show ?thesis by simp
qed

lemma unat_of_le16: "unat (of_le16 bs) \<le> 65535"
  by (rule unat_u16)

lemma sum_words_append: "even (length a) \<Longrightarrow> sum_words (a @ b) = sum_words a + sum_words b"
  by (induction a rule: sum_words.induct) auto

lemma sum_words_le: "even (length bs) \<Longrightarrow> sum_words bs \<le> 65535 * (length bs div 2)"
proof (induction bs rule: sum_words.induct)
  case (1 a b bs)
  with unat_of_le16 [of "[a, b]"] show ?case by simp
qed auto

lemma sum_words_le16 [simp]: "sum_words (le16 c) = unat c"
proof -
  have "le16 c = [le16 c ! 0, le16 c ! 1]" by (simp add: le16_def)
  then have "sum_words (le16 c) = unat (of_le16 [le16 c ! 0, le16 c ! 1])"
    by (metis sum_words.simps(1) sum_words.simps(3) add.right_neutral)
  also have "[le16 c ! 0, le16 c ! 1] = le16 c" by (simp add: le16_def)
  finally show ?thesis by simp
qed

lemma fold_carry_stop: "s < 65536 \<Longrightarrow> fold_carry s = s"
  by (simp add: fold_carry.simps [of s])

lemma fold_carry_more: "\<not> s < 65536 \<Longrightarrow> fold_carry s = fold_carry (s mod 65536 + s div 65536)"
  by (subst fold_carry.simps) (simp add: div_eq_0_iff del: fold_carry.simps)

lemma fold_carry_induct [case_names stop more]:
  assumes "\<And>s :: nat. s < 65536 \<Longrightarrow> P s"
    and "\<And>s. \<not> s < 65536 \<Longrightarrow> P (s mod 65536 + s div 65536) \<Longrightarrow> P s"
  shows "P s"
proof (induction s rule: less_induct)
  case (less s)
  show ?case
  proof (cases "s < 65536")
    case False
    then have "s div 65536 \<noteq> 0" by (simp add: div_eq_0_iff)
    then show ?thesis using assms(2) [OF False less.IH [OF fold_carry_less]] by blast
  qed (rule assms(1))
qed

lemma fold_carry_bound: "fold_carry s < 65536"
  by (induction s rule: fold_carry_induct) (simp_all add: fold_carry_stop fold_carry_more)

lemma carry_mod: "(s mod 65536 + s div 65536) mod 65535 = s mod (65535::nat)"
proof -
  have "s = s div 65536 * 65535 + (s mod 65536 + s div 65536)" using div_mult_mod_eq [of s 65536] by simp
  then show ?thesis by (metis mod_mult_self3)
qed

lemma fold_carry_mod: "fold_carry s mod 65535 = s mod 65535"
proof (induction s rule: fold_carry_induct)
  case (more s)
  then show ?case by (metis fold_carry_more carry_mod)
qed (simp add: fold_carry_stop)

lemma fold_carry_pos: "0 < s \<Longrightarrow> 0 < fold_carry s"
proof (induction s rule: fold_carry_induct)
  case (stop s)
  then show ?case by (simp add: fold_carry_stop)
next
  case (more s)
  have "0 < s div 65536" using more(1) by (simp add: div_greater_zero_iff)
  then have "0 < s mod 65536 + s div 65536" by linarith
  with more(2) have "0 < fold_carry (s mod 65536 + s div 65536)" by blast
  then show ?case by (simp only: fold_carry_more [OF more(1)])
qed

lemma fold_carry_full:
  assumes "s mod 65535 = 0" "0 < s"
  shows "fold_carry s = 65535"
proof -
  have "65535 dvd fold_carry s" using assms(1) fold_carry_mod [of s] by (simp add: mod_eq_0_iff_dvd)
  then obtain k where k: "fold_carry s = 65535 * k" by (elim dvdE)
  then have "k = 1" using fold_carry_pos [OF assms(2)] fold_carry_bound [of s] by (cases k) auto
  with k show ?thesis by simp
qed

lemma mod_cancel:
  assumes "f mod 65535 = s mod 65535" "f < 65536"
  shows "(s + (65535 - f)) mod 65535 = (0 :: nat)"
proof -
  have "(s + (65535 - f)) mod 65535 = (f + (65535 - f)) mod 65535" using assms(1) by (metis mod_add_left_eq)
  also have "f + (65535 - f) = 65535" using assms(2) by simp
  finally show ?thesis by simp
qed

lemma length_ip_header [simp]: "length (ip_header tot ident csum src dst) = 20"
  by (simp add: ip_header_def)

lemma unat_not16: "unat (NOT (x :: u16)) = 65535 - unat x"
proof -
  have "NOT x = - 1 - x" by (simp add: not_eq_complement)
  also have "unat (- 1 - x) = unat (- 1 :: u16) - unat x" by (rule unat_sub) simp
  also have "unat (- 1 :: u16) = 65535" by (simp add: unsigned_minus_1_eq_mask mask_eq_exp_minus_1)
  finally show ?thesis .
qed

lemma sum_ip_header:
  "sum_words (ip_header tot ident csum src dst) = sum_words (ip_header tot ident 0 src dst) + unat csum"
  by (simp add: ip_header_def sum_words_append)

text \<open>The checksum \<^verbatim>\<open>send_udp\<close> puts into an IPv4 header is the one every receiver accepts: the one's complement
  sum over the header that contains it folds to zero.
\<close>

lemma ip_checksum_verifies:
  "ip_checksum (ip_header tot ident (ip_checksum (ip_header tot ident 0 src dst)) src dst) = 0"
proof -
  let ?s = "sum_words (ip_header tot ident 0 src dst)"
  let ?c = "ip_checksum (ip_header tot ident 0 src dst)"
  have b: "sum_words (ip_header tot ident c src dst) \<le> 655350" for c
    using sum_words_le [of "ip_header tot ident c src dst"] by simp
  have f: "fold_carry ?s < 65536" by (rule fold_carry_bound)
  have "unat ?c = 65535 - fold_carry ?s"
    using b [of 0] f by (simp add: ip_checksum_def unat_not16 unat_of_nat)
  then have s: "sum_words (ip_header tot ident ?c src dst) = ?s + (65535 - fold_carry ?s)"
    by (subst sum_ip_header) simp
  have pos: "0 < ?s" by (simp add: ip_header_def sum_words_append of_le16_def)
  have "(?s + (65535 - fold_carry ?s)) mod 65535 = 0"
    using mod_cancel [OF fold_carry_mod f] .
  then have "fold_carry (sum_words (ip_header tot ident ?c src dst)) = 65535"
    using pos unfolding s by (intro fold_carry_full) auto
  then show ?thesis
    using b [of ?c] by (simp add: ip_checksum_def [of "ip_header tot ident ?c src dst"])
qed

section \<open>The ARP cache is a soft-state table\<close>

definition arp_ok :: "net \<Rightarrow> bool" where
  "arp_ok s \<longleftrightarrow> uniq_keys avalid aip (arp_table s)"

definition arp_room :: "net \<Rightarrow> bool" where
  "arp_room s \<longleftrightarrow> (\<exists>e\<in>set (arp_table s). \<not> avalid e)"

lemma arp_lookup_key: "arp_lookup ip s = map_option amac (lookup_key avalid aip ip (arp_table s))"
  by (simp add: arp_lookup_def lookup_key_def option.map_comp o_def)

interpretation arp: soft_table arp_ok "\<lambda>s ip. arp_lookup ip s" arp_store arp_room
proof
  fix s :: net and k :: u32 and v
  assume inv: "arp_ok s"
  then show "arp_ok (arp_store k v s)" by (auto simp: arp_ok_def arp_store_def intro!: upsert_uniq)
  show "arp_lookup k (arp_store k v s) = Some v" if "arp_lookup k s \<noteq> None \<or> arp_room s"
  proof -
    have "\<exists>e. lookup_key avalid aip k (upsert avalid aip (\<lambda>e. e\<lparr>amac := v\<rparr>)
                (\<lambda>e. e\<lparr>aip := k, amac := v, avalid := True\<rparr>) k (arp_table s)) = Some e \<and>
             (case lookup_key avalid aip k (arp_table s) of Some e0 \<Rightarrow> e = e0\<lparr>amac := v\<rparr>
              | None \<Rightarrow> \<exists>e0\<in>set (arp_table s). \<not> avalid e0 \<and> e = e0\<lparr>aip := k, amac := v, avalid := True\<rparr>)"
      by (rule upsert_lookup_same) (use inv that in \<open>auto simp: arp_ok_def arp_lookup_key arp_room_def\<close>)
    then show ?thesis by (auto simp: arp_lookup_key arp_store_def split: option.splits)
  qed
  show "arp_store k v s = s" if "arp_lookup k s = None" "\<not> arp_room s"
  proof -
    have "upsert avalid aip (\<lambda>e. e\<lparr>amac := v\<rparr>) (\<lambda>e. e\<lparr>aip := k, amac := v, avalid := True\<rparr>) k (arp_table s) = arp_table s"
      by (rule upsert_full) (use that in \<open>auto simp: arp_lookup_key arp_room_def\<close>)
    then show ?thesis by (simp add: arp_store_def)
  qed
  show "arp_lookup k' (arp_store k v s) = arp_lookup k' s" if "k' \<noteq> k" for k'
    using that by (simp add: arp_lookup_key arp_store_def upsert_lookup_other)
qed

section \<open>Frames\<close>

definition net_inv :: "net \<Rightarrow> bool" where
  "net_inv s \<longleftrightarrow> arp_ok s \<and> length (arp_table s) = ARP_TABLE_SIZE \<and> length (udp_handlers s) = MAX_UDP_HANDLERS
     \<and> length (our_mac s) = 6 \<and> (\<forall>e\<in>set (arp_table s). length (amac e) = 6)"

lemma arp_store_inv: "net_inv s \<Longrightarrow> length mac = 6 \<Longrightarrow> net_inv (arp_store ip mac s)"
proof -
  assume a: "net_inv s" "length mac = 6"
  have "arp_ok (arp_store ip mac s)" using a(1) by (intro arp.inv_put) (simp add: net_inv_def)
  moreover have "\<forall>e\<in>set (arp_table (arp_store ip mac s)). length (amac e) = 6"
    using a unfolding net_inv_def arp_store_def upsert_def
    by (auto dest!: set_update_subset_insert [THEN subsetD] split: option.splits)
  ultimately show ?thesis using a(1) by (simp add: net_inv_def arp_store_def)
qed

lemma length_eth_header [simp]: "length d = 6 \<Longrightarrow> length m = 6 \<Longrightarrow> length (eth_header d m t) = 14"
  by (simp add: eth_header_def)

lemma length_arp_packet [simp]: "length sha = 6 \<Longrightarrow> length tha = 6 \<Longrightarrow> length (arp_packet oper sha spa tha tpa) = 28"
  by (simp add: arp_packet_def)

lemma length_udp_header [simp]: "length (udp_header a b t) = 8"
  by (simp add: udp_header_def)

lemma eth_type:
  "length d = 6 \<Longrightarrow> length m = 6 \<Longrightarrow> ntohs (get16 (eth_header d m t @ p) 12) = t"
  by (simp add: eth_header_def get16_def bytes_at_simps)

lemma eth_payload:
  "length d = 6 \<Longrightarrow> length m = 6 \<Longrightarrow> 14 \<le> off \<Longrightarrow> bytes_at (eth_header d m t @ p) off n = bytes_at p (off - 14) n"
  by (simp add: bytes_at_simps)

lemma arp_fields:
  assumes "length sha = 6" "length tha = 6"
  shows "ntohs (of_le16 (bytes_at (arp_packet oper sha spa tha tpa @ r) 6 2)) = oper"
    and "bytes_at (arp_packet oper sha spa tha tpa @ r) 8 6 = sha"
    and "of_le32 (bytes_at (arp_packet oper sha spa tha tpa @ r) 14 4) = spa"
    and "of_le32 (bytes_at (arp_packet oper sha spa tha tpa @ r) 24 4) = tpa"
  using assms by (simp_all add: arp_packet_def bytes_at_simps)

lemma ip_fields:
  shows "of_le32 (bytes_at (ip_header tot ident c src dst @ r) 12 4) = src"
    and "of_le32 (bytes_at (ip_header tot ident c src dst @ r) 16 4) = dst"
    and "(ip_header tot ident c src dst @ r) ! 0 = 0x45"
    and "(ip_header tot ident c src dst @ r) ! 9 = 17"
  by (simp_all add: ip_header_def bytes_at_simps nth_append)

lemma udp_fields:
  shows "ntohs (of_le16 (bytes_at (udp_header sp dp t @ r) 0 2)) = sp"
    and "ntohs (of_le16 (bytes_at (udp_header sp dp t @ r) 2 2)) = dp"
    and "ntohs (of_le16 (bytes_at (udp_header sp dp t @ r) 4 2)) = t"
  by (simp_all add: udp_header_def bytes_at_simps)

section \<open>From one machine to another\<close>

definition accepts :: "net \<Rightarrow> u32 \<Rightarrow> bool" where
  "accepts s dst \<longleftrightarrow> dst = our_ip s \<or> dst = 0xFFFFFFFF \<or> dst = our_ip s OR htonl 0xFF"

lemma length_udp_frame [simp]:
  "length m = 6 \<Longrightarrow> length (our_mac s) = 6 \<Longrightarrow> length (udp_frame m ip dp sp data s) = 42 + length data"
  by (simp add: udp_frame_def Let_def)

lemma unat_small16: "n < 65536 \<Longrightarrow> unat (of_nat n :: u16) = n"
  by (simp add: unat_of_nat)

lemma of_nat_minus16: "k \<le> n \<Longrightarrow> (of_nat n :: u16) - of_nat k = of_nat (n - k)"
  by (simp add: of_nat_diff)

lemma receive_udp_frame:
  assumes len: "length m = 6" "length (our_mac sA) = 6" "length data \<le> 2006"
    and acc: "accepts sB dst" and h: "find_idx (\<lambda>b. bhandler b \<noteq> 0 \<and> bport b = dp) (udp_handlers sB) = Some i"
  shows "process_packet (udp_frame m dst dp sp data sA @ junk) (of_nat (42 + length data)) sB =
    Inr (sB\<lparr>pkts_recv := pkts_recv sB + 1, inbox := inbox sB @
      [\<lparr>d_handler = bhandler (udp_handlers sB ! i), d_src_ip = our_ip sA, d_src_port = sp, d_data = data\<rparr>]\<rparr>)"
proof -
  define n where "n = length data"
  define L :: u16 where "L = of_nat (42 + n)"
  define tot :: u16 where "tot = 20 + (8 + of_nat n)"
  define c where "c = ip_checksum (ip_header tot (ip_id sA) 0 (our_ip sA) dst)"
  define U where "U = udp_header sp dp (8 + of_nat n) @ data @ junk"
  define I where "I = ip_header tot (ip_id sA) c (our_ip sA) dst @ U"
  define F where "F = eth_header m (our_mac sA) 0x0800 @ I"
  have n: "n \<le> 2006" using len by (simp add: n_def)
  have uL: "unat L = 42 + n" using n unfolding L_def by (subst unat_small16) simp_all
  have uL14: "unat (L - 14) = 28 + n" using n of_nat_minus16 [of 14 "42 + n"] unfolding L_def
    by (simp only: of_nat_numeral) (subst unat_small16, simp_all)
  have "L - 14 - 20 = of_nat (8 + n)" by (simp add: L_def)
  then have uL34: "unat (L - 34) = 8 + n" using n unat_small16 [of "8 + n"] by simp
  have u8: "unat (8 + of_nat n :: u16) = 8 + n" using n unat_small16 [of "8 + n"] by simp
  have Feq: "udp_frame m dst dp sp data sA @ junk = F"
    by (simp add: F_def I_def U_def c_def tot_def n_def udp_frame_def Let_def)
  have ety: "ntohs (get16 F 12) = 0x0800" using len by (simp add: F_def eth_type)
  have F14: "bytes_at F off k = bytes_at I (off - 14) k" if "14 \<le> off" for off k
    using len that by (simp add: F_def eth_payload)
  have nth: "F ! off = I ! (off - 14)" if "14 \<le> off" for off
    using len that by (simp add: F_def nth_append)
  have I20: "bytes_at I off k = bytes_at U (off - 20) k" if "20 \<le> off" for off k
    using that by (simp add: I_def bytes_at_simps)
  have dat: "bytes_at U 8 n = data" by (simp add: U_def bytes_at_simps n_def)
  have L14: "\<not> L < 14" "\<not> L - 14 < 20" "\<not> L - 34 < 8"
    unfolding word_less_nat_alt uL uL14 uL34 by simp_all
  have src: "get32 F 26 = our_ip sA" and dst: "get32 F 30 = dst"
    by (simp_all add: get32_def F14 I_def ip_fields)
  have ihl: "ucast (F ! 14 AND 0x0F) * 4 = (20 :: u16)" and prot: "F ! 23 = 17"
    by (simp_all add: nth I_def ip_fields)
  have udp: "ntohs (get16 F 34) = sp" "ntohs (get16 F 36) = dp" "ntohs (get16 F 38) = 8 + of_nat n"
    by (simp_all add: get16_def F14 I20 U_def udp_fields)
  have u: "handle_udp (our_ip sA) F 34 (L - 34) t =
      Inr (t\<lparr>inbox := inbox t @ [\<lparr>d_handler = bhandler (udp_handlers sB ! i), d_src_ip = our_ip sA,
        d_src_port = sp, d_data = data\<rparr>]\<rparr>)" if "udp_handlers t = udp_handlers sB" for t
    using n h that L14(3) by (simp add: handle_udp_def udp RECV_BUF_def word_less_nat_alt u8 uL34 unat_small16 F14 I20 dat Let_def)
  show ?thesis
    unfolding Feq n_def [symmetric] L_def [symmetric]
    using L14 acc
    by (auto simp add: process_packet_def ety handle_ipv4_def src dst ihl prot u accepts_def Let_def)
qed

definition resolves :: "net \<Rightarrow> u32 \<Rightarrow> u8 list option" where
  "resolves s dst = (if dst = 0xFFFFFFFF \<or> dst = our_ip s OR htonl 0xFF then Some BROADCAST_MAC else arp_lookup dst s)"

lemma send_udp_resolved:
  assumes "net_ready s" "resolves s dst = Some m" "length data \<le> 2006"
  shows "send_udp nic dst dp sp data s = (let fr = udp_frame m dst dp sp data s
           in Inr (nic fr, nic_send fr (s\<lparr>ip_id := ip_id s + 1, pkts_sent := pkts_sent s + 1\<rparr>)))"
proof -
  have "unat (14 + (20 + (8 + of_nat (length data))) :: u16) = 42 + length data"
    using assms(3) unat_small16 [of "42 + length data"] by simp
  then show ?thesis using assms by (simp add: send_udp_def resolves_def SEND_BUF_def Let_def split: if_splits)
qed

lemma send_udp_unresolved:
  "net_ready s \<Longrightarrow> resolves s dst = None \<Longrightarrow> send_udp nic dst dp sp data s = Inr (False, arp_send_request dst s)"
  by (auto simp: send_udp_def resolves_def Let_def split: if_splits)

lemma resolves_length: "net_inv s \<Longrightarrow> resolves s dst = Some m \<Longrightarrow> length m = 6"
  by (auto simp: resolves_def BROADCAST_MAC_def net_inv_def arp_lookup_def dest!: find_idx_len split: if_splits)

text \<open>C39: A datagram sent on one machine arrives on another unchanged: whenever \<^verbatim>\<open>send_udp\<close> can resolve the
  destination and the data fits a frame, exactly one frame goes to the card, and a machine the frame is
  addressed to (or broadcast to) that has a handler on the port calls that handler once, with the sender's
  address and port and exactly the bytes sent, whatever was in the receive buffer before.
\<close>

lemma udp_end_to_end:
  assumes "net_inv sA" "net_ready sA" "resolves sA dst = Some m" "length data \<le> 2006"
    and "accepts sB dst" and "find_idx (\<lambda>b. bhandler b \<noteq> 0 \<and> bport b = dp) (udp_handlers sB) = Some i"
  shows "\<exists>fr sA'. send_udp nic dst dp sp data sA = Inr (nic fr, sA') \<and> wire sA' = wire sA @ [fr] \<and>
    length fr = 42 + length data \<and>
    process_packet (fr @ junk) (of_nat (length fr)) sB =
      Inr (sB\<lparr>pkts_recv := pkts_recv sB + 1, inbox := inbox sB @
        [\<lparr>d_handler = bhandler (udp_handlers sB ! i), d_src_ip = our_ip sA, d_src_port = sp, d_data = data\<rparr>]\<rparr>)"
proof -
  have m: "length m = 6" "length (our_mac sA) = 6"
    using assms(1) resolves_length [OF assms(1,3)] by (simp_all add: net_inv_def)
  let ?fr = "udp_frame m dst dp sp data sA"
  have l: "length ?fr = 42 + length data" using m by simp
  show ?thesis
    using send_udp_resolved [OF assms(2-4), of nic dp sp] receive_udp_frame [OF m assms(4-6), of sp junk] l
    by (intro exI [of _ ?fr] exI [of _ "nic_send ?fr (sA\<lparr>ip_id := ip_id sA + 1, pkts_sent := pkts_sent sA + 1\<rparr>)"])
      (simp only: Let_def nic_send_def l net.simps simp_thms, simp)
qed

text \<open>A concrete network: two machines, the second with a handler on port 9000.\<close>

definition host :: "u8 \<Rightarrow> net" where
  "host k = \<lparr>our_mac = [2, 0, 0, 0, 0, k], our_ip = htonl (0x0A000000 OR ucast k), net_ready = True, pkts_sent = 0,
     pkts_recv = 0, arp_table = replicate ARP_TABLE_SIZE \<lparr>aip = 0, amac = replicate 6 0, avalid = False\<rparr>,
     udp_handlers = \<lparr>bport = 9000, bhandler = 1\<rparr> # replicate 7 \<lparr>bport = 0, bhandler = 0\<rparr>, ip_id = 1, wire = [], inbox = []\<rparr>"

lemma host_inv: "net_inv (host k)"
  by (simp add: net_inv_def host_def arp_ok_def uniq_keys_def ARP_TABLE_SIZE_def MAX_UDP_HANDLERS_def)

lemma udp_end_to_end_witness:
  "\<exists>fr sA'. send_udp (\<lambda>_. True) 0xFFFFFFFF 9000 9000 [1, 2, 3] (host 1) = Inr (True, sA') \<and> wire sA' = [fr] \<and>
     process_packet (fr @ [7, 7]) (of_nat (length fr)) (host 2) = Inr ((host 2)\<lparr>pkts_recv := 1, inbox :=
       [\<lparr>d_handler = 1, d_src_ip = our_ip (host 1), d_src_port = 9000, d_data = [1, 2, 3]\<rparr>]\<rparr>)"
proof -
  have h: "find_idx (\<lambda>b. bhandler b \<noteq> 0 \<and> bport b = 9000) (udp_handlers (host 2)) = Some 0"
    by (simp add: host_def)
  have r: "resolves (host 1) 0xFFFFFFFF = Some BROADCAST_MAC" by (simp add: resolves_def)
  have a: "accepts (host 2) 0xFFFFFFFF" by (simp add: accepts_def)
  have "net_ready (host 1)" "length [1, 2, 3 :: u8] \<le> 2006" by (simp_all add: host_def)
  from udp_end_to_end [OF host_inv this(1) r this(2) a h, of "\<lambda>_. True" 9000 "[7, 7]"]
  show ?thesis by (auto simp: host_def)
qed

section \<open>Address resolution\<close>

lemma receive_arp:
  assumes len: "length d = 6" "length sha = 6" "length tha = 6"
  shows "process_packet (eth_header d sha 0x0806 @ arp_packet oper sha spa tha tpa @ junk) 42 s =
    Inr (let s' = arp_store spa sha (s\<lparr>pkts_recv := pkts_recv s + 1\<rparr>)
         in if oper = 1 \<and> tpa = our_ip s then arp_send_reply spa sha s' else s')"
proof -
  let ?P = "arp_packet oper sha spa tha tpa @ junk"
  let ?F = "eth_header d sha 0x0806 @ ?P"
  have ety: "ntohs (get16 ?F 12) = 0x0806" using len by (simp add: eth_type)
  have f: "bytes_at ?F off k = bytes_at ?P (off - 14) k" if "14 \<le> off" for off k
    using len that by (simp add: eth_payload)
  have "ntohs (get16 ?F 20) = oper" "bytes_at ?F 22 6 = sha" "get32 ?F 28 = spa" "get32 ?F 38 = tpa"
    using len by (simp_all add: get16_def get32_def f arp_fields)
  then show ?thesis
    by (simp add: process_packet_def ety handle_arp_def arp_store_def Let_def)
qed

text \<open>Address resolution works: the request \<^verbatim>\<open>send_udp\<close> broadcasts for an unresolved address makes the machine
  with that address learn the sender and answer it with one frame; after that frame the sender resolves the
  address to that machine's MAC, and its other entries are as before. The only condition is room in its table.
\<close>

lemma arp_exchange:
  assumes "net_inv sA" "net_inv sB" "net_ready sA" "resolves sA (our_ip sB) = None" "arp_room sA"
    and "our_ip sB \<noteq> our_ip sA"
  shows "\<exists>req rep sA1 sB1 sA2. send_udp nic (our_ip sB) dp sp data sA = Inr (False, sA1) \<and> wire sA1 = wire sA @ [req] \<and>
    process_packet (req @ junk) 42 sB = Inr sB1 \<and> wire sB1 = wire sB @ [rep] \<and> (arp_room sB \<longrightarrow> arp_lookup (our_ip sA) sB1 = Some (our_mac sA)) \<and>
    process_packet (rep @ junk') 42 sA1 = Inr sA2 \<and> wire sA2 = wire sA1 \<and> resolves sA2 (our_ip sB) = Some (our_mac sB) \<and>
    (\<forall>ip. ip \<noteq> our_ip sB \<longrightarrow> arp_lookup ip sA2 = arp_lookup ip sA)"
proof -
  have len: "length (our_mac sA) = 6" "length (our_mac sB) = 6" "length BROADCAST_MAC = 6"
    using assms(1,2) by (simp_all add: net_inv_def BROADCAST_MAC_def)
  define req where "req = eth_header BROADCAST_MAC (our_mac sA) 0x0806 @
    arp_packet 1 (our_mac sA) (our_ip sA) (replicate 6 0) (our_ip sB)"
  define rep where "rep = eth_header (our_mac sA) (our_mac sB) 0x0806 @
    arp_packet 2 (our_mac sB) (our_ip sB) (our_mac sA) (our_ip sA)"
  define sA1 where "sA1 = nic_send req sA"
  define sBs where "sBs = arp_store (our_ip sA) (our_mac sA) (sB\<lparr>pkts_recv := pkts_recv sB + 1\<rparr>)"
  define sB1 where "sB1 = nic_send rep sBs"
  define sA0 where "sA0 = sA1\<lparr>pkts_recv := pkts_recv sA1 + 1\<rparr>"
  define sA2 where "sA2 = arp_store (our_ip sB) (our_mac sB) sA0"
  have 1: "send_udp nic (our_ip sB) dp sp data sA = Inr (False, sA1)"
    using assms(3,4) by (simp add: send_udp_unresolved arp_send_request_def sA1_def req_def)
  have 2: "process_packet (req @ junk) 42 sB = Inr sB1"
    using receive_arp [OF len(3) len(1), of "replicate 6 0" 1 "our_ip sA" "our_ip sB" junk sB]
    by (simp add: req_def sB1_def sBs_def arp_send_reply_def rep_def arp_store_def Let_def)
  have 3: "process_packet (rep @ junk') 42 sA1 = Inr sA2"
    using receive_arp [OF len(1) len(2) len(1), of 2 "our_ip sB" "our_ip sA" junk' sA1]
    by (simp add: rep_def sA2_def sA0_def Let_def)
  have okA: "arp_ok sA0" "arp_room sA0" "arp_lookup k sA0 = arp_lookup k sA" for k
    using assms(1,5) by (simp_all add: sA0_def sA1_def nic_send_def net_inv_def arp_ok_def arp_room_def arp_lookup_def)
  have 4: "arp_lookup (our_ip sB) sA2 = Some (our_mac sB)"
    unfolding sA2_def using okA by (intro arp.get_put_same) auto
  have 5: "arp_lookup ip sA2 = arp_lookup ip sA" if "ip \<noteq> our_ip sB" for ip
    unfolding sA2_def using okA that by (simp add: arp.get_put_other)
  have okB: "arp_ok (sB\<lparr>pkts_recv := pkts_recv sB + 1\<rparr>)" using assms(2) by (simp add: net_inv_def arp_ok_def)
  have 6: "arp_lookup (our_ip sA) sB1 = Some (our_mac sA)" if "arp_room sB"
  proof -
    have "arp_lookup (our_ip sA) sBs = Some (our_mac sA)"
      unfolding sBs_def using okB that by (intro arp.get_put_same) (auto simp: arp_room_def)
    then show ?thesis by (simp add: sB1_def nic_send_def arp_lookup_def)
  qed
  have w: "wire sA1 = wire sA @ [req]" "wire sB1 = wire sB @ [rep]" "wire sA2 = wire sA1" "our_ip sA2 = our_ip sA"
    by (simp_all add: sA1_def sB1_def sBs_def sA2_def sA0_def nic_send_def arp_store_def)
  have r: "resolves sA2 (our_ip sB) = Some (our_mac sB)"
    using assms(4) 4 w(4) by (simp add: resolves_def split: if_splits)
  show ?thesis using 1 2 3 5 6 w r by blast
qed

lemma arp_exchange_witness:
  "\<exists>req rep sA1 sB1 sA2. send_udp (\<lambda>_. True) (our_ip (host 2)) 9000 9000 [] (host 1) = Inr (False, sA1) \<and>
     wire sA1 = [req] \<and> process_packet req 42 (host 2) = Inr sB1 \<and> wire sB1 = [rep] \<and>
     process_packet rep 42 sA1 = Inr sA2 \<and> resolves sA2 (our_ip (host 2)) = Some [2, 0, 0, 0, 0, 2]"
proof -
  have r: "net_ready (host 1)" "resolves (host 1) (our_ip (host 2)) = None" "arp_room (host 1)"
    "our_ip (host 2) \<noteq> our_ip (host 1)" "wire (host 1) = []" "wire (host 2) = []" "our_mac (host 2) = [2, 0, 0, 0, 0, 2]"
    by code_simp+
  from arp_exchange [OF host_inv host_inv r(1-4), of "\<lambda>_. True" 9000 9000 "[]" "[]" "[]"] r(5-7)
  show ?thesis by (elim exE conjE) (intro exI conjI, assumption, simp_all)
qed

section \<open>What goes wrong\<close>

text \<open>An IPv4 frame of 34 bytes whose header length field says 60.\<close>

definition long_header_frame :: "u8 list" where
  "long_header_frame = replicate 12 0 @ [8, 0, 0x4F] @ replicate 8 0 @ [17, 0, 0, 1, 2, 3, 4, 255, 255, 255, 255]"

text \<open>The lengths are trusted more than they should be. A 34-byte IPv4 frame whose header length field says 60
  makes \<^verbatim>\<open>len - hdr_len\<close> wrap, so the datagram is taken from the stale bytes behind the frame and handed to the
  handler; with a large length field there it leads past the receive buffer. A datagram of 65494 bytes or
  more, sent to a resolved address, wraps the 16-bit total and overruns the send buffer.
\<close>

lemma length_wraps:
  "length long_header_frame = 34 \<and>
   process_packet (long_header_frame @ replicate 40 0 @ [0x23, 0x28, 0x23, 0x28, 0, 12, 0, 0, 115, 116, 97, 108]) 34 (host 1) =
     Inr ((host 1)\<lparr>pkts_recv := 1,
       inbox := [\<lparr>d_handler = 1, d_src_ip = 0x04030201, d_src_port = 9000, d_data = [115, 116, 97, 108]\<rparr>]\<rparr>) \<and>
   process_packet (long_header_frame @ replicate 40 0 @ [0x23, 0x28, 0x23, 0x28, 0x10, 0, 0, 0]) 34 (host 1) = Inl OutOfBounds \<and>
   (\<forall>data. 65494 \<le> length data \<and> length data < 65536 \<and> net_ready s \<and> resolves s dst \<noteq> None
      \<longrightarrow> send_udp nic dst dp sp data s = Inl BufferOverflow)"
proof (intro conjI allI impI)
  fix data :: "u8 list"
  assume a: "65494 \<le> length data \<and> length data < 65536 \<and> net_ready s \<and> resolves s dst \<noteq> None"
  then obtain k where k: "length data + 42 = 65536 + k" "k < 2048" using le_Suc_ex [of 65494 "length data"] by auto
  have "(14 + (20 + (8 + of_nat (length data))) :: u16) = of_nat (length data + 42)" by simp
  also have "\<dots> = of_nat k" unfolding k(1) of_nat_add by simp
  finally have "unat (14 + (20 + (8 + of_nat (length data))) :: u16) = k"
    using k(2) unat_small16 [of k] by simp
  then show "send_udp nic dst dp sp data s = Inl BufferOverflow"
    using a k by (auto simp: send_udp_def resolves_def SEND_BUF_def Let_def split: if_splits option.splits)
qed code_simp+

lemma length_wraps_witness:
  "send_udp (\<lambda>_. True) 0xFFFFFFFF 9000 9000 (replicate 65500 0) (host 1) = Inl BufferOverflow"
  by (rule length_wraps [THEN conjunct2, THEN conjunct2, THEN conjunct2, rule_format]) (simp add: host_def resolves_def)

end
