(* ===== verification/Peers.thy ===== *)
theory Peers
  imports Network Scheduler
begin

text \<open>
  What a node knows of the cluster and what it sends on its own account (\<^verbatim>\<open>kernel/cluster.cpp\<close>): the table of
  peers, discovery, load reports, expiry and the submission of a job. The messages travel in UDP datagrams of
  \<open>Network\<close>. A name is the string before its terminating zero.
\<close>

definition MSG_DISCOVER :: u8 where "MSG_DISCOVER = 0x01"
definition MSG_DISCOVER_ACK :: u8 where "MSG_DISCOVER_ACK = 0x02"
definition MSG_JOB_SUBMIT :: u8 where "MSG_JOB_SUBMIT = 0x03"
definition MSG_JOB_RESULT :: u8 where "MSG_JOB_RESULT = 0x04"
definition MSG_LOAD_REPORT :: u8 where "MSG_LOAD_REPORT = 0x05"
definition MAX_NODES :: nat where "MAX_NODES = 8"
definition CLUSTER_PORT :: u16 where "CLUSTER_PORT = 9000"

record node =
  n_ip :: u32
  n_mac :: "u8 list"
  n_name :: string
  n_seen :: u64
  n_active :: bool

record job_result =
  jr_id :: u32
  jr_completed :: bool
  jr_result :: u32

record cluster =
  peers :: "node list"
  peer_count :: nat
  cl_inited :: bool
  local_name :: string
  local_ip :: u32
  wire_job_id :: u32
  last_result :: job_result

section \<open>The peer table\<close>

definition refresh_peer :: "u64 \<Rightarrow> node \<Rightarrow> node" where
  "refresh_peer now e = e\<lparr>n_seen := now\<rparr>"

definition new_peer :: "u64 \<Rightarrow> u32 \<Rightarrow> string \<Rightarrow> node \<Rightarrow> node" where
  "new_peer now ip name e = e\<lparr>n_ip := ip, n_active := True, n_seen := now, n_name := str_copy name 16\<rparr>"

definition add_or_update_peer :: "u64 \<Rightarrow> u32 \<Rightarrow> string \<Rightarrow> cluster \<Rightarrow> cluster" where
  "add_or_update_peer now ip name s =
     (if ip = local_ip s then s
      else case find_idx (\<lambda>e. n_active e \<and> n_ip e = ip) (peers s) of
             Some i \<Rightarrow> s\<lparr>peers := (peers s)[i := refresh_peer now (peers s ! i)]\<rparr>
           | None \<Rightarrow> (case find_idx (\<lambda>e. \<not> n_active e) (peers s) of
               Some i \<Rightarrow> s\<lparr>peers := (peers s)[i := new_peer now ip name (peers s ! i)], peer_count := peer_count s + 1\<rparr>
             | None \<Rightarrow> s))"

definition stale :: "u64 \<Rightarrow> node \<Rightarrow> bool" where
  "stale now e \<longleftrightarrow> n_active e \<and> now - n_seen e > 10000"

definition expire_peers :: "u64 \<Rightarrow> cluster \<Rightarrow> cluster" where
  "expire_peers now s = s\<lparr>peers := map (\<lambda>e. if stale now e then e\<lparr>n_active := False\<rparr> else e) (peers s),
                          peer_count := peer_count s - length (filter (stale now) (peers s))\<rparr>"

fun get_peer_loop :: "nat \<Rightarrow> node list \<Rightarrow> node option" where
  "get_peer_loop k [] = None"
| "get_peer_loop k (e # es) =
     (if n_active e then if k = 0 then Some e else get_peer_loop (k - 1) es else get_peer_loop k es)"

definition get_peer :: "nat \<Rightarrow> cluster \<Rightarrow> node option" where
  "get_peer idx s = get_peer_loop idx (peers s)"

section \<open>Messages\<close>

definition cluster_send ::
  "(u8 list \<Rightarrow> bool) \<Rightarrow> u32 \<Rightarrow> u8 list \<Rightarrow> net \<Rightarrow> (bool \<times> net) res" where
  "cluster_send nic dst msg n = send_udp nic dst CLUSTER_PORT CLUSTER_PORT msg n"

definition name_msg :: "u8 \<Rightarrow> string \<Rightarrow> u8 list" where
  "name_msg ty nm = (let nlen = min (fs_strlen nm) 15 in [ty, 0, of_nat nlen, 0] @ map char_byte (take nlen nm))"

definition send_discover :: "(u8 list \<Rightarrow> bool) \<Rightarrow> cluster \<Rightarrow> net \<Rightarrow> net res" where
  "send_discover nic s n =
     (if \<not> cl_inited s then Inr n
      else bind_res (cluster_send nic (local_ip s OR htonl 0xFF) (name_msg MSG_DISCOVER (local_name s)) n)
             (\<lambda>(_, n). Inr n))"

definition load_msg :: "u32 \<Rightarrow> u8 list" where
  "load_msg load = [MSG_LOAD_REPORT, 0, 4, 0] @ le32 load"

fun send_to_peers :: "(u8 list \<Rightarrow> bool) \<Rightarrow> u8 list \<Rightarrow> node list \<Rightarrow> net \<Rightarrow> net res" where
  "send_to_peers nic msg [] n = Inr n"
| "send_to_peers nic msg (e # es) n =
     (if n_active e then bind_res (cluster_send nic (n_ip e) msg n) (\<lambda>(_, n). send_to_peers nic msg es n)
      else send_to_peers nic msg es n)"

definition send_load_report :: "(u8 list \<Rightarrow> bool) \<Rightarrow> u32 \<Rightarrow> cluster \<Rightarrow> net \<Rightarrow> net res" where
  "send_load_report nic load s n =
     (if \<not> cl_inited s \<or> peer_count s = 0 then Inr n else send_to_peers nic (load_msg load) (peers s) n)"

text \<open>One round of \<^verbatim>\<open>heartbeat_task_entry\<close>, between two sleeps.\<close>

definition heartbeat ::
  "(u8 list \<Rightarrow> bool) \<Rightarrow> u64 \<Rightarrow> u32 \<Rightarrow> cluster \<Rightarrow> net \<Rightarrow> (cluster \<times> net) res" where
  "heartbeat nic now load s n =
     bind_res (send_discover nic s n) (\<lambda>n.
     bind_res (send_load_report nic load s n) (\<lambda>n. Inr (expire_peers now s, n)))"

definition job_msg :: "u32 \<Rightarrow> u8 \<Rightarrow> u8 list \<Rightarrow> u8 list" where
  "job_msg ident ty data = [MSG_JOB_SUBMIT, 0] @ le16 (5 + of_nat (length data)) @ le32 ident @ [ty] @ data"

definition submit_job ::
  "(u8 list \<Rightarrow> bool) \<Rightarrow> u32 \<Rightarrow> u8 \<Rightarrow> u8 list \<Rightarrow> cluster \<Rightarrow> net \<Rightarrow> (bool \<times> cluster \<times> net) res" where
  "submit_job nic target ty data s n =
     (if \<not> cl_inited s \<or> length data > 240 then Inr (False, s, n)
      else let ident = wire_job_id s;
               s = s\<lparr>wire_job_id := wire_job_id s + 1, last_result := (last_result s)\<lparr>jr_completed := False\<rparr>\<rparr>
           in bind_res (cluster_send nic target (job_msg ident ty data) n) (\<lambda>(ok, n). Inr (ok, s, n)))"

definition cluster_handler :: nat where "cluster_handler = 1"
definition poll_task_entry :: nat where "poll_task_entry = 2"
definition heartbeat_task_entry :: nat where "heartbeat_task_entry = 3"

definition cluster_init :: "cluster \<Rightarrow> net \<Rightarrow> sched \<Rightarrow> (bool \<times> cluster \<times> net \<times> sched) res" where
  "cluster_init s0 n sc =
     (let s = s0\<lparr>peers := map (\<lambda>e. e\<lparr>n_active := False\<rparr>) (peers s0), peer_count := 0\<rparr>
      in if \<not> net_ready n then Inr (False, s, n, sc)
         else
           let ip = our_ip n; dec = itoa (ucast (htonl ip AND 0xFF))
           in if fs_strlen dec + 1 > 8 then Inl BufferOverflow
              else
                let s = s\<lparr>local_ip := ip, local_name := ''node'' @ take 11 dec, cl_inited := True\<rparr>;
                    n = register_udp_handler CLUSTER_PORT cluster_handler n;
                    sc = snd (create_task (Some ''net-poll'') poll_task_entry sc);
                    sc = snd (create_task (Some ''cluster-hb'') heartbeat_task_entry sc)
                in Inr (True, s, n, sc))"

section \<open>The table is sound\<close>

definition cluster_inv :: "cluster \<Rightarrow> bool" where
  "cluster_inv s \<longleftrightarrow> length (peers s) = MAX_NODES \<and> uniq_keys n_active n_ip (peers s) \<and>
     peer_count s = length (filter n_active (peers s)) \<and> (\<forall>e\<in>set (peers s). n_active e \<longrightarrow> n_ip e \<noteq> local_ip s)"

lemma peer_simps [simp]:
  "n_active (refresh_peer now e) = n_active e" "n_ip (refresh_peer now e) = n_ip e"
  "n_seen (refresh_peer now e) = now" "n_name (refresh_peer now e) = n_name e"
  "n_active (new_peer now ip name e)" "n_ip (new_peer now ip name e) = ip"
  "n_seen (new_peer now ip name e) = now" "n_name (new_peer now ip name e) = take 15 name"
  by (simp_all add: refresh_peer_def new_peer_def)

lemma add_peer_upsert:
  "ip \<noteq> local_ip s \<Longrightarrow> peers (add_or_update_peer now ip name s) =
     upsert n_active n_ip (refresh_peer now) (new_peer now ip name) ip (peers s)"
  by (simp add: add_or_update_peer_def upsert_def split: option.splits)

lemma add_peer_inv:
  assumes "cluster_inv s"
  shows "cluster_inv (add_or_update_peer now ip name s)"
proof (cases "ip = local_ip s")
  case True
  with assms show ?thesis by (simp add: add_or_update_peer_def)
next
  case False
  note inv = assms [unfolded cluster_inv_def]
  let ?s = "add_or_update_peer now ip name s"
  have l: "local_ip ?s = local_ip s"
    by (simp add: add_or_update_peer_def split: option.splits)
  have u: "uniq_keys n_active n_ip (peers ?s)"
    unfolding add_peer_upsert [OF False] using inv by (intro upsert_uniq) auto
  have n: "length (peers ?s) = MAX_NODES" using inv by (simp add: add_peer_upsert [OF False])
  have c: "peer_count ?s = length (filter n_active (peers ?s))"
  proof (cases "find_idx (\<lambda>e. n_active e \<and> n_ip e = ip) (peers s)")
    case None
    show ?thesis
    proof (cases "find_idx (\<lambda>e. \<not> n_active e) (peers s)")
      case (Some i)
      show ?thesis
        using inv False None Some find_idx_SomeD [OF Some]
          filter_update_inc [of i "peers s" n_active "new_peer now ip name (peers s ! i)"]
        by (simp add: add_or_update_peer_def)
    qed (use inv False None in \<open>simp add: add_or_update_peer_def\<close>)
  next
    case (Some i)
    then show ?thesis
      using inv False by (simp add: add_or_update_peer_def filter_update_same)
  qed
  have "n_ip e \<noteq> local_ip s" if "e \<in> set (peers ?s)" "n_active e" for e
    using that inv False unfolding add_or_update_peer_def
    by (auto dest!: set_update_subset_insert [THEN subsetD] find_idx_SomeD split: option.splits if_splits)
  with u n c l show ?thesis by (simp add: cluster_inv_def)
qed

lemma expire_inv:
  assumes "cluster_inv s"
  shows "cluster_inv (expire_peers now s)"
proof -
  let ?f = "\<lambda>e. if stale now e then e\<lparr>n_active := False\<rparr> else e"
  have c: "length (filter n_active (map ?f es)) = length (filter n_active es) - length (filter (stale now) es)"
    and le: "length (filter (stale now) es) \<le> length (filter n_active es)" for es
  proof (induction es)
    case (Cons e es)
    case 1
    then show ?case using Cons by (auto simp: stale_def Suc_diff_le)
    case 2
    then show ?case using Cons by (auto simp: stale_def)
  qed simp_all
  have u: "uniq_keys n_active n_ip (map ?f (peers s))"
    by (rule uniq_keys_map_kill) (use assms in \<open>auto simp: cluster_inv_def split: if_splits\<close>)
  show ?thesis
    using assms c [of "peers s"] u
    by (auto simp: cluster_inv_def expire_peers_def split: if_splits)
qed

definition peer_put :: "string \<Rightarrow> u32 \<Rightarrow> u64 \<Rightarrow> node list \<Rightarrow> node list" where
  "peer_put name ip now t = peers (add_or_update_peer now ip name
     \<lparr>peers = t, peer_count = 0, cl_inited = True, local_name = [], local_ip = ip + 1, wire_job_id = 0,
      last_result = \<lparr>jr_id = 0, jr_completed = False, jr_result = 0\<rparr>\<rparr>)"

lemma peer_put_upsert:
  "peer_put name ip now t = upsert n_active n_ip (refresh_peer now) (new_peer now ip name) ip t"
  by (simp add: peer_put_def add_peer_upsert)

definition peer_seen :: "node list \<Rightarrow> u32 \<Rightarrow> u64 option" where
  "peer_seen t ip = map_option n_seen (lookup_key n_active n_ip ip t)"

interpretation pt: soft_table "uniq_keys n_active n_ip" peer_seen "peer_put name" "\<lambda>t. \<exists>e\<in>set t. \<not> n_active e"
  for name :: string
proof
  fix t :: "node list" and k :: u32 and v :: u64
  assume inv: "uniq_keys n_active n_ip t"
  then show "uniq_keys n_active n_ip (peer_put name k v t)" by (auto simp: peer_put_upsert intro!: upsert_uniq)
  show "peer_seen (peer_put name k v t) k = Some v" if "peer_seen t k \<noteq> None \<or> (\<exists>e\<in>set t. \<not> n_active e)"
  proof -
    have "\<exists>e. lookup_key n_active n_ip k (upsert n_active n_ip (refresh_peer v) (new_peer v k name) k t) = Some e \<and>
             (case lookup_key n_active n_ip k t of Some e0 \<Rightarrow> e = refresh_peer v e0
              | None \<Rightarrow> \<exists>e0\<in>set t. \<not> n_active e0 \<and> e = new_peer v k name e0)"
      by (rule upsert_lookup_same) (use inv that in \<open>auto simp: peer_seen_def\<close>)
    then show ?thesis by (auto simp: peer_seen_def peer_put_upsert split: option.splits)
  qed
  show "peer_put name k v t = t" if "peer_seen t k = None" "\<not> (\<exists>e\<in>set t. \<not> n_active e)"
    unfolding peer_put_upsert by (rule upsert_full) (use that in \<open>auto simp: peer_seen_def\<close>)
  show "peer_seen (peer_put name k v t) k' = peer_seen t k'" if "k' \<noteq> k" for k'
    using that by (simp add: peer_seen_def peer_put_upsert upsert_lookup_other)
qed

lemma add_peer_put:
  "ip \<noteq> local_ip s \<Longrightarrow> peers (add_or_update_peer now ip name s) = peer_put name ip now (peers s)"
  by (simp add: add_peer_upsert peer_put_upsert)

text \<open>A peer that was heard of is forgotten exactly when it has been silent for more than ten seconds.\<close>

lemma expire_lookup:
  assumes "uniq_keys n_active n_ip (peers s)"
  shows "peer_seen (peers (expire_peers now s)) ip =
           (case peer_seen (peers s) ip of None \<Rightarrow> None | Some t \<Rightarrow> if now - t > 10000 then None else Some t)"
proof -
  let ?f = "\<lambda>e. if stale now e then e\<lparr>n_active := False\<rparr> else e"
  have u: "uniq_keys n_active n_ip (map ?f (peers s))"
    using assms by (rule uniq_keys_map_kill) (auto split: if_splits)
  show ?thesis
  proof (cases "find_idx (\<lambda>e. n_active e \<and> n_ip e = ip) (peers s)")
    case None
    then have "find_idx (\<lambda>e. n_active e \<and> n_ip e = ip) (map ?f (peers s)) = None"
      by (auto simp: find_idx_None_iff)
    with None show ?thesis by (simp add: peer_seen_def lookup_key_def expire_peers_def)
  next
    case (Some i)
    show ?thesis
    proof (cases "stale now (peers s ! i)")
      case True
      have "\<not> (n_active (?f e) \<and> n_ip (?f e) = ip)" if mem: "e \<in> set (peers s)" for e
      proof
        assume a: "n_active (?f e) \<and> n_ip (?f e) = ip"
        then have "\<not> stale now e" by (cases "stale now e") simp_all
        with a have e: "n_active e" "n_ip e = ip" "\<not> stale now e" by simp_all
        obtain j where j: "j < length (peers s)" "e = peers s ! j" using mem by (metis in_set_conv_nth)
        have "j = i"
          by (rule uniq_keysD [OF assms j(1) find_idx_len [OF Some]]) (use e(1,2) j(2) find_idx_sat [OF Some] in simp_all)
        with True e j show False by simp
      qed
      then have "find_idx (\<lambda>e. n_active e \<and> n_ip e = ip) (map ?f (peers s)) = None"
        unfolding find_idx_None_iff set_map ball_simps by blast
      with Some True show ?thesis by (simp add: peer_seen_def lookup_key_def expire_peers_def stale_def)
    next
      case False
      then have "find_idx (\<lambda>e. n_active e \<and> n_ip e = ip) (map ?f (peers s)) = Some i"
        using find_idx_len [OF Some] find_idx_sat [OF Some] uniq_keys_find [OF u, of i] by simp
      with Some False find_idx_len [OF Some] find_idx_sat [OF Some] show ?thesis by (simp add: peer_seen_def lookup_key_def expire_peers_def stale_def)
    qed
  qed
qed

lemma add_peer_known:
  assumes "cluster_inv s" "ip \<noteq> local_ip s"
    and "lookup_key n_active n_ip ip (peers s) \<noteq> None \<or> (\<exists>e\<in>set (peers s). \<not> n_active e)"
  shows "\<exists>e. lookup_key n_active n_ip ip (peers (add_or_update_peer now ip name s)) = Some e \<and> n_seen e = now \<and>
           (lookup_key n_active n_ip ip (peers s) = None \<longrightarrow> n_name e = take 15 name)"
proof -
  have u: "uniq_keys n_active n_ip (peers s)" using assms(1) by (simp add: cluster_inv_def)
  have "\<exists>e. lookup_key n_active n_ip ip (upsert n_active n_ip (refresh_peer now) (new_peer now ip name) ip (peers s)) = Some e \<and>
          (case lookup_key n_active n_ip ip (peers s) of Some e0 \<Rightarrow> e = refresh_peer now e0
           | None \<Rightarrow> \<exists>e0\<in>set (peers s). \<not> n_active e0 \<and> e = new_peer now ip name e0)"
    by (rule upsert_lookup_same [OF u]) (use assms(3) in auto)
  then show ?thesis unfolding add_peer_upsert [OF assms(2)] by (auto split: option.splits)
qed

end
