(* ===== verification/DJob.thy ===== *)
theory DJob
  imports Peers
begin

text \<open>
  The job engine and the distributed job scheduler (\<^verbatim>\<open>kernel/djob.cpp\<close>, \<^verbatim>\<open>jobs.h\<close>): executing a job on its
  payload, the table of node loads, the choice of a node, and the ring of the last sixteen jobs. The loops of
  the prime counter work on 32-bit words and need not end, so \<open>execute\<close> returns an option: \<open>None\<close> is a call that
  never returns.
\<close>

definition JOB_SUM :: u8 where "JOB_SUM = 1"
definition JOB_PRODUCT :: u8 where "JOB_PRODUCT = 2"
definition JOB_MAX :: u8 where "JOB_MAX = 3"
definition JOB_PRIME :: u8 where "JOB_PRIME = 4"
definition JOB_ECHO :: u8 where "JOB_ECHO = 5"
definition MAX_PAYLOAD :: nat where "MAX_PAYLOAD = 240"
definition MAX_HISTORY :: nat where "MAX_HISTORY = 16"

datatype job_status = STATUS_PENDING | STATUS_RUNNING | STATUS_COMPLETED | STATUS_FAILED

record job =
  j_id :: u32
  j_type :: u8
  j_status :: job_status
  j_result :: u32
  j_target :: u32
  j_submitted :: u64
  j_completed :: u64
  j_payload :: "u8 list"
  j_len :: u16

record node_load =
  l_ip :: u32
  l_tasks :: u32
  l_updated :: u64
  l_valid :: bool

record djob =
  node_loads :: "node_load list"
  history :: "job list"
  hist_write :: nat
  hist_count :: nat
  next_job :: u32
  dj_inited :: bool
  round_robin :: u32

section \<open>Executing a job\<close>

text \<open>The little-endian words of a payload; up to three bytes at the end are ignored.\<close>

fun job_words :: "u8 list \<Rightarrow> u32 list" where
  "job_words (a # b # c # d # bs) = of_le32 [a, b, c, d] # job_words bs"
| "job_words _ = []"

partial_function (option) prime_loop :: "u32 \<Rightarrow> u32 \<Rightarrow> bool option" where
  "prime_loop i j =
     (if j * j \<le> i then (if i mod j = 0 then Some False else prime_loop i (j + 1)) else Some True)"

partial_function (option) count_loop :: "u32 \<Rightarrow> u32 \<Rightarrow> u32 \<Rightarrow> u32 option" where
  "count_loop n i p =
     (if i \<le> n then Option.bind (prime_loop i 2) (\<lambda>b. count_loop n (i + 1) (if b then p + 1 else p)) else Some p)"

definition execute :: "u8 \<Rightarrow> u8 list \<Rightarrow> u32 option" where
  "execute ty data =
     (let ws = job_words data in
      if ty = JOB_SUM then Some (fold (\<lambda>v s. s + v) ws 0)
      else if ty = JOB_PRODUCT then Some (fold (\<lambda>v s. s * v) ws 1)
      else if ty = JOB_MAX then Some (fold (\<lambda>v m. if v > m then v else m) ws 0)
      else if ty = JOB_PRIME then
        (case ws of [] \<Rightarrow> Some 0 | n # _ \<Rightarrow> if n < 2 then Some 0 else count_loop n 2 0)
      else if ty = JOB_ECHO then Some (of_nat (length data))
      else Some 0)"

definition job_type_name :: "u8 \<Rightarrow> string" where
  "job_type_name ty =
     (if ty = JOB_SUM then ''sum'' else if ty = JOB_PRODUCT then ''product'' else if ty = JOB_MAX then ''max''
      else if ty = JOB_PRIME then ''prime'' else if ty = JOB_ECHO then ''echo'' else ''unknown'')"

section \<open>Node loads and the choice of a node\<close>

definition update_node_load :: "u64 \<Rightarrow> u32 \<Rightarrow> u32 \<Rightarrow> djob \<Rightarrow> djob" where
  "update_node_load now ip count s =
     (case find_idx (\<lambda>e. l_valid e \<and> l_ip e = ip) (node_loads s) of
        Some i \<Rightarrow> s\<lparr>node_loads := (node_loads s)[i := (node_loads s ! i)\<lparr>l_tasks := count, l_updated := now\<rparr>]\<rparr>
      | None \<Rightarrow> (case find_idx (\<lambda>e. \<not> l_valid e) (node_loads s) of
          Some i \<Rightarrow> s\<lparr>node_loads := (node_loads s)
            [i := (node_loads s ! i)\<lparr>l_ip := ip, l_tasks := count, l_updated := now, l_valid := True\<rparr>]\<rparr>
        | None \<Rightarrow> s))"

definition candidates :: "u64 \<Rightarrow> djob \<Rightarrow> (u32 \<times> u32) list" where
  "candidates now s =
     map (\<lambda>e. (l_ip e, l_tasks e)) (filter (\<lambda>e. l_valid e \<and> \<not> now - l_updated e > 10000) (node_loads s))"

definition pick_target :: "u64 \<Rightarrow> u32 \<Rightarrow> djob \<Rightarrow> u32 \<times> djob" where
  "pick_target now load s =
     (let cands = candidates now s in
      if cands = [] then (0, s)
      else case find_idx (\<lambda>(ip, l). l < load) cands of
             Some i \<Rightarrow> (fst (cands ! i), s)
           | None \<Rightarrow>
               let s = s\<lparr>round_robin := round_robin s + 1\<rparr>;
                   pick = unat (round_robin s) mod (1 + length cands)
               in if pick = 0 then (0, s) else (fst (cands ! ((pick - 1) mod length cands)), s))"

section \<open>The job history\<close>

definition set_job :: "nat \<Rightarrow> job \<Rightarrow> djob \<Rightarrow> djob" where
  "set_job k j s = s\<lparr>history := (history s)[k := j]\<rparr>"

definition record_job :: "u64 \<Rightarrow> u32 \<Rightarrow> u8 \<Rightarrow> u8 list \<Rightarrow> u32 \<Rightarrow> djob \<Rightarrow> djob" where
  "record_job now ident ty data target s =
     (let k = hist_write s; old = history s ! k;
          j = \<lparr>j_id = ident, j_type = ty, j_status = STATUS_PENDING, j_result = 0, j_target = target,
               j_submitted = now, j_completed = 0,
               j_payload = take MAX_PAYLOAD data @ drop (length data) (j_payload old),
               j_len = of_nat (length data)\<rparr>
      in (set_job k j s)\<lparr>hist_write := (k + 1) mod MAX_HISTORY,
           hist_count := (if hist_count s < MAX_HISTORY then hist_count s + 1 else hist_count s)\<rparr>)"

definition find_job :: "u32 \<Rightarrow> djob \<Rightarrow> nat option" where
  "find_job ident s = find_idx (\<lambda>j. j_id j = ident \<and> j_id j \<noteq> 0) (history s)"

definition djob_init :: "djob \<Rightarrow> djob" where
  "djob_init s = s\<lparr>node_loads := map (\<lambda>e. e\<lparr>l_valid := False\<rparr>) (node_loads s),
     history := map (\<lambda>j. j\<lparr>j_id := 0, j_status := STATUS_PENDING\<rparr>) (history s),
     hist_write := 0, hist_count := 0, next_job := 1, dj_inited := True\<rparr>"

definition submit ::
  "(u8 list \<Rightarrow> bool) \<Rightarrow> u64 \<Rightarrow> u32 \<Rightarrow> u8 \<Rightarrow> u8 list \<Rightarrow> djob \<Rightarrow> cluster \<Rightarrow> net \<Rightarrow>
   (u32 \<times> djob \<times> cluster \<times> net) res option" where
  "submit nic now load ty data s c n =
     (if \<not> dj_inited s then Some (Inr (0, s, c, n))
      else
        let ident = next_job s;
            (target, s) = pick_target now load (s\<lparr>next_job := ident + 1\<rparr>);
            k = hist_write s;
            s = record_job now ident ty data target s;
            s = set_job k ((history s ! k)\<lparr>j_status := STATUS_RUNNING\<rparr>) s
        in if target = 0
           then map_option (\<lambda>r. Inr (ident, set_job k ((history s ! k)\<lparr>j_result := r, j_status := STATUS_COMPLETED,
                  j_completed := now\<rparr>) s, c, n)) (execute ty data)
           else Some (bind_res (submit_job nic target ty data c n) (\<lambda>(ok, c, n).
                  Inr (ident, if ok then s else set_job k ((history s ! k)\<lparr>j_status := STATUS_FAILED\<rparr>) s, c, n))))"

definition on_remote_result :: "u64 \<Rightarrow> u32 \<Rightarrow> u32 \<Rightarrow> djob \<Rightarrow> djob" where
  "on_remote_result now ident r s =
     (case find_job ident s of
        None \<Rightarrow> s
      | Some k \<Rightarrow> if j_status (history s ! k) = STATUS_RUNNING
                   then set_job k ((history s ! k)\<lparr>j_result := r, j_status := STATUS_COMPLETED, j_completed := now\<rparr>) s
                   else s)"

definition get_job :: "u32 \<Rightarrow> djob \<Rightarrow> job option" where
  "get_job ident s = map_option (\<lambda>k. history s ! k) (find_job ident s)"

definition get_last_completed :: "djob \<Rightarrow> job option" where
  "get_last_completed s =
     (let js = map (\<lambda>i. history s ! ((hist_write s + i) mod MAX_HISTORY)) (rev [0..<MAX_HISTORY])
      in map_option (\<lambda>k. js ! k) (find_idx (\<lambda>j. j_id j \<noteq> 0 \<and> j_status j = STATUS_COMPLETED) js))"

definition get_history :: "nat \<Rightarrow> djob \<Rightarrow> job option" where
  "get_history idx s =
     (if idx \<ge> hist_count s then None
      else if hist_count s < MAX_HISTORY then Some (history s ! idx)
      else Some (history s ! ((hist_write s + idx) mod MAX_HISTORY)))"

section \<open>The engine computes what it says\<close>

lemma fold_add: "fold (\<lambda>v s. s + v) ws (a :: u32) = a + of_nat (sum_list (map unat ws))"
  by (induction ws arbitrary: a) (simp_all add: algebra_simps)

lemma fold_mult: "fold (\<lambda>v s. s * v) ws (a :: u32) = a * of_nat (prod_list (map unat ws))"
  by (induction ws arbitrary: a) (simp_all add: algebra_simps)

lemma fold_max_word: "fold (\<lambda>v m. if v > m then v else m) ws (a :: u32) = Max (set (a # ws))"
proof -
  have "(\<lambda>v m. if v > m then v else m) = (max :: u32 \<Rightarrow> u32 \<Rightarrow> u32)" by (auto simp: fun_eq_iff max_def)
  then show ?thesis by (simp only: Max.set_eq_fold)
qed

definition is_prime :: "nat \<Rightarrow> bool" where
  "is_prime n \<longleftrightarrow> 1 < n \<and> (\<forall>d. d dvd n \<longrightarrow> d = 1 \<or> d = n)"

lemma is_prime_trial:
  assumes "2 \<le> n"
  shows "is_prime n \<longleftrightarrow> (\<forall>d. 2 \<le> d \<and> d * d \<le> n \<longrightarrow> \<not> d dvd n)"
proof
  assume p: "is_prime n"
  show "\<forall>d. 2 \<le> d \<and> d * d \<le> n \<longrightarrow> \<not> d dvd n"
  proof (intro allI impI notI)
    fix d
    assume d: "2 \<le> d \<and> d * d \<le> n" "d dvd n"
    with p have "d = 1 \<or> d = n" unfolding is_prime_def by blast
    moreover have "d < d * d" using d(1) by simp
    ultimately show False using d(1) by simp
  qed
next
  assume t: "\<forall>d. 2 \<le> d \<and> d * d \<le> n \<longrightarrow> \<not> d dvd n"
  have "d = 1 \<or> d = n" if dvd: "d dvd n" for d
  proof (rule ccontr)
    assume "\<not> (d = 1 \<or> d = n)"
    obtain e where e: "n = d * e" using dvd by (elim dvdE)
    with assms \<open>\<not> (d = 1 \<or> d = n)\<close> have "2 \<le> d" "2 \<le> e" by (cases d; cases e; auto)+
    moreover have "d * d \<le> n \<or> e * e \<le> n" unfolding e by (cases "d \<le> e") auto
    ultimately show False using t e by auto
  qed
  with assms show "is_prime n" by (simp add: is_prime_def)
qed

lemma unat_u32_of_nat: "k < 4294967296 \<Longrightarrow> unat (of_nat k :: u32) = k"
  by (simp add: unat_of_nat)

lemma u32_le_iff: "a < 4294967296 \<Longrightarrow> b < 4294967296 \<Longrightarrow> (of_nat a :: u32) \<le> of_nat b \<longleftrightarrow> a \<le> b"
  by (simp add: word_le_nat_alt unat_u32_of_nat)

lemma u32_mod_iff:
  "a < 4294967296 \<Longrightarrow> b < 4294967296 \<Longrightarrow> (of_nat a :: u32) mod of_nat b = 0 \<longleftrightarrow> b dvd a"
  unfolding unat_0_iff [symmetric] unat_mod by (simp add: unat_u32_of_nat dvd_eq_mod_eq_0)

lemma prime_loop_ok:
  assumes "i < 4294836225" "2 \<le> j" "j \<le> 65535" "\<And>d. 2 \<le> d \<Longrightarrow> d < j \<Longrightarrow> \<not> d dvd i"
  shows "prime_loop (of_nat i) (of_nat j) = Some (\<forall>d. 2 \<le> d \<and> d * d \<le> i \<longrightarrow> \<not> d dvd i)"
  using assms(2-4)
proof (induction "65535 - j" arbitrary: j rule: less_induct)
  case less
  have jj: "j * j \<le> 65535 * 65535" using less.prems(2) by (intro mult_le_mono)
  have le: "(of_nat j * of_nat j :: u32) \<le> of_nat i \<longleftrightarrow> j * j \<le> i"
    using jj assms(1) u32_le_iff [of "j * j" i] by simp
  show ?case
  proof (cases "j * j \<le> i")
    case False
    have "\<not> d dvd i" if "2 \<le> d" "d * d \<le> i" for d
    proof -
      have "d < j" using that(2) False by (metis mult_le_mono le_trans not_le_imp_less)
      with that(1) less.prems(3) show ?thesis by blast
    qed
    moreover have "prime_loop (of_nat i) (of_nat j) = Some True"
      by (subst prime_loop.simps) (simp add: le False)
    ultimately show ?thesis by auto
  next
    case True
    show ?thesis
    proof (cases "j dvd i")
      case d: True
      then have "prime_loop (of_nat i) (of_nat j) = Some False"
        using True assms(1) less.prems(2) by (subst prime_loop.simps) (simp add: le u32_mod_iff)
      moreover have "\<not> (\<forall>d. 2 \<le> d \<and> d * d \<le> i \<longrightarrow> \<not> d dvd i)" using d True less.prems(1) by blast
      ultimately show ?thesis by simp
    next
      case nd: False
      have lt: "j < 65535"
      proof (rule ccontr)
        assume "\<not> j < 65535"
        then have "j = 65535" using less.prems(2) by simp
        with True assms(1) show False by simp
      qed
      have "prime_loop (of_nat i) (of_nat j) = prime_loop (of_nat i) (of_nat (Suc j))"
        using True nd assms(1) less.prems(2)
        by (subst prime_loop.simps) (simp add: le u32_mod_iff add.commute)
      also have "\<dots> = Some (\<forall>d. 2 \<le> d \<and> d * d \<le> i \<longrightarrow> \<not> d dvd i)"
      proof (rule less.hyps)
        show "\<not> d dvd i" if "2 \<le> d" "d < Suc j" for d
          using that less.prems(3) nd by (cases "d = j") auto
      qed (use lt less.prems in auto)
      finally show ?thesis .
    qed
  qed
qed

lemma prime_loop_prime: "2 \<le> i \<Longrightarrow> i < 4294836225 \<Longrightarrow> prime_loop (of_nat i) 2 = Some (is_prime i)"
  using prime_loop_ok [of i 2] by (simp add: is_prime_trial)

lemma count_loop_ok:
  assumes "n < 4294836225" "2 \<le> i" "i \<le> Suc n"
  shows "count_loop (of_nat n) (of_nat i) p = Some (p + of_nat (card {k. i \<le> k \<and> k \<le> n \<and> is_prime k}))"
  using assms(2,3)
proof (induction "Suc n - i" arbitrary: i p)
  case 0
  then have i: "i = Suc n" by simp
  have "\<not> (of_nat (Suc n) :: u32) \<le> of_nat n" using assms(1) by (subst u32_le_iff) auto
  moreover have "{k. Suc n \<le> k \<and> k \<le> n \<and> is_prime k} = {}" by auto
  ultimately show ?case unfolding i by (subst count_loop.simps) (simp only: if_False card.empty of_nat_0 add_0_right semiring_1_class.of_nat_0)
next
  case (Suc m)
  then have le: "i \<le> n" by simp
  have fin: "finite {k. Suc i \<le> k \<and> k \<le> n \<and> is_prime k}" by (rule finite_subset [of _ "{..n}"]) auto
  have set: "{k. i \<le> k \<and> k \<le> n \<and> is_prime k} =
      (if is_prime i then insert i {k. Suc i \<le> k \<and> k \<le> n \<and> is_prime k} else {k. Suc i \<le> k \<and> k \<le> n \<and> is_prime k})"
    using le by (auto simp: Suc_le_eq le_less)
  have "count_loop (of_nat n) (of_nat i) p =
      count_loop (of_nat n) (of_nat (Suc i)) (if is_prime i then p + 1 else p)"
    using le assms(1) Suc.prems
    by (subst count_loop.simps) (simp add: u32_le_iff prime_loop_prime add.commute)
  also have "\<dots> = Some ((if is_prime i then p + 1 else p) + of_nat (card {k. Suc i \<le> k \<and> k \<le> n \<and> is_prime k}))"
    using Suc.hyps(2) Suc.prems by (intro Suc.hyps(1)) auto
  finally show ?case using fin by (simp add: set)
qed

lemma count_loop_returns: "count_loop n i p = Some y \<Longrightarrow> n \<noteq> 0xFFFFFFFF"
proof (erule count_loop.raw_induct [where P = "\<lambda>n i p y. n \<noteq> 0xFFFFFFFF", rotated])
  fix f :: "u32 \<Rightarrow> u32 \<Rightarrow> u32 \<Rightarrow> u32 option" and n i p y
  assume ih: "\<And>n i p y. f n i p = Some y \<Longrightarrow> n \<noteq> 0xFFFFFFFF"
    and eq: "(if i \<le> n then Option.bind (prime_loop i 2) (\<lambda>b. f n (i + 1) (if b then p + 1 else p)) else Some p) = Some y"
  show "n \<noteq> 0xFFFFFFFF"
  proof
    assume n: "n = 0xFFFFFFFF"
    have "(0xFFFFFFFF :: u32) = - 1" by simp
    then have "i \<le> n" unfolding n using word_order.extremum [of i] by (simp only:)
    with eq obtain b where "f n (i + 1) (if b then p + 1 else p) = Some y" by (auto simp: bind_eq_Some_conv)
    from ih [OF this] n show False by simp
  qed
qed

lemma count_loop_never: "count_loop 0xFFFFFFFF i p = None"
  using count_loop_returns by (cases "count_loop 0xFFFFFFFF i p") auto

lemma job_words_code: "job_words (concat (map le32 ws)) = ws"
proof (induction ws)
  case (Cons w ws)
  have "job_words (le32 w @ bs) = of_le32 (le32 w) # job_words bs" for bs by (simp add: le32_def)
  with Cons show ?case by simp
qed simp

lemma length_job_words: "length (job_words data) = length data div 4"
  by (induction data rule: job_words.induct) auto

text \<open>C31: Whatever bytes arrive, a sum or product job returns the sum or product of its little-endian words
  modulo \<open>2 ^ 32\<close>, a maximum job their maximum (0 for none), an echo job the payload length, an unknown type 0,
  and a prime job returns the number of primes up to its first word, for every word below \<open>65535 ^ 2\<close>.\<close>

theorem execute_spec:
  shows "execute JOB_SUM data = Some (of_nat (sum_list (map unat (job_words data)))) \<and>
    execute JOB_PRODUCT data = Some (of_nat (prod_list (map unat (job_words data)))) \<and>
    execute JOB_MAX data = Some (Max (insert 0 (set (job_words data)))) \<and>
    execute JOB_ECHO data = Some (of_nat (length data)) \<and>
    (ty \<notin> {JOB_SUM, JOB_PRODUCT, JOB_MAX, JOB_PRIME, JOB_ECHO} \<longrightarrow> execute ty data = Some 0) \<and>
    (\<forall>n ws. job_words data = n # ws \<and> unat n < 65535 ^ 2 \<longrightarrow>
       execute JOB_PRIME data = Some (of_nat (card {k. k \<le> unat n \<and> is_prime k})))"
proof (intro conjI allI impI)
  fix n ws
  assume n: "job_words data = n # ws \<and> unat n < 65535 ^ 2"
  have cset: "{k. k \<le> unat n \<and> is_prime k} = {k. 2 \<le> k \<and> k \<le> unat n \<and> is_prime k}"
    by (auto simp: is_prime_def)
  have "execute JOB_PRIME data = (if n < 2 then Some 0 else count_loop n 2 0)"
    using n by (simp add: execute_def JOB_SUM_def JOB_PRODUCT_def JOB_MAX_def JOB_PRIME_def)
  moreover have "card {k. 2 \<le> k \<and> k \<le> unat n \<and> is_prime k} = 0" if "n < 2"
  proof -
    have "{k. 2 \<le> k \<and> k \<le> unat n \<and> is_prime k} = {}" using that by (auto simp: word_less_nat_alt)
    then show ?thesis by (simp only: card.empty)
  qed
  moreover have "count_loop n 2 0 = Some (of_nat (card {k. 2 \<le> k \<and> k \<le> unat n \<and> is_prime k}))" if "\<not> n < 2"
    using n that count_loop_ok [of "unat n" 2 0] by (simp add: word_less_nat_alt)
  ultimately show "execute JOB_PRIME data = Some (of_nat (card {k. k \<le> unat n \<and> is_prime k}))"
    unfolding cset by (cases "n < 2") (simp_all only: if_True if_False not_False_eq_True semiring_1_class.of_nat_0 simp_thms)
qed (simp_all add: execute_def JOB_SUM_def JOB_PRODUCT_def JOB_MAX_def JOB_PRIME_def JOB_ECHO_def fold_add fold_mult
  fold_max_word)

theorem execute_spec_witness:
  "execute JOB_PRIME (concat (map le32 [100])) = Some (of_nat (card {k. k \<le> 100 \<and> is_prime k})) \<and> execute 9 [1] = Some 0"
  using execute_spec [of "concat (map le32 [100])" 9] execute_spec [of "[1]" 9]
  by (simp only: job_words_code) (simp add: JOB_SUM_def JOB_PRODUCT_def JOB_MAX_def JOB_PRIME_def JOB_ECHO_def)

text \<open>A prime job for \<open>2 ^ 32 - 1\<close> never returns: the counter \<open>i <= n\<close> wraps before it can exceed \<open>n\<close>. As the
  job runs on the task that polls the network, the node that received it is off the network for good.\<close>

theorem prime_job_never_returns: "execute JOB_PRIME (le32 0xFFFFFFFF @ rest) = None"
proof -
  have "job_words (le32 0xFFFFFFFF @ rest) = of_le32 (le32 0xFFFFFFFF) # job_words rest" by (simp add: le32_def)
  then show ?thesis
    by (simp add: execute_def JOB_SUM_def JOB_PRODUCT_def JOB_MAX_def JOB_PRIME_def count_loop_never)
qed

section \<open>The ring of jobs is a queue of the last sixteen\<close>

definition hist_inv :: "djob \<Rightarrow> bool" where
  "hist_inv s \<longleftrightarrow> length (history s) = MAX_HISTORY \<and> hist_write s < MAX_HISTORY \<and> hist_count s \<le> MAX_HISTORY \<and>
     (hist_count s < MAX_HISTORY \<longrightarrow> hist_write s = hist_count s \<and>
        (\<forall>k. hist_count s \<le> k \<and> k < MAX_HISTORY \<longrightarrow> j_id (history s ! k) = 0))"

text \<open>The recorded jobs, oldest first.\<close>

definition hist_abs :: "djob \<Rightarrow> job list" where
  "hist_abs s = map (\<lambda>k. history s ! ((hist_write s + (MAX_HISTORY - hist_count s) + k) mod MAX_HISTORY)) [0..<hist_count s]"

lemma length_hist_abs [simp]: "length (hist_abs s) = hist_count s"
  by (simp add: hist_abs_def)

lemma hist_abs_part: "hist_inv s \<Longrightarrow> hist_count s < MAX_HISTORY \<Longrightarrow> hist_abs s = take (hist_count s) (history s)"
  by (rule nth_equalityI) (auto simp: hist_inv_def hist_abs_def)

lemma hist_abs_full:
  "hist_inv s \<Longrightarrow> hist_count s = MAX_HISTORY \<Longrightarrow>
   hist_abs s = map (\<lambda>k. history s ! ((hist_write s + k) mod MAX_HISTORY)) [0..<MAX_HISTORY]"
  by (simp add: hist_abs_def)

lemma djob_init_inv: "length (history s) = MAX_HISTORY \<Longrightarrow> hist_inv (djob_init s)"
  by (simp add: hist_inv_def djob_init_def MAX_HISTORY_def)

lemma set_job_hist:
  "hist_inv s \<Longrightarrow> (j_id j = 0 \<longleftrightarrow> j_id (history s ! k) = 0) \<Longrightarrow> hist_inv (set_job k j s)"
  by (cases "k < length (history s)") (auto simp: hist_inv_def set_job_def nth_list_update list_update_beyond)

definition new_job :: "u64 \<Rightarrow> u32 \<Rightarrow> u8 \<Rightarrow> u8 list \<Rightarrow> u32 \<Rightarrow> djob \<Rightarrow> job" where
  "new_job now ident ty data target s = \<lparr>j_id = ident, j_type = ty, j_status = STATUS_PENDING, j_result = 0,
     j_target = target, j_submitted = now, j_completed = 0,
     j_payload = take MAX_PAYLOAD data @ drop (length data) (j_payload (history s ! hist_write s)),
     j_len = of_nat (length data)\<rparr>"

lemma record_job_eq:
  "record_job now ident ty data target s =
     (set_job (hist_write s) (new_job now ident ty data target s) s)
       \<lparr>hist_write := (hist_write s + 1) mod MAX_HISTORY,
        hist_count := (if hist_count s < MAX_HISTORY then hist_count s + 1 else hist_count s)\<rparr>"
  by (simp add: record_job_def new_job_def Let_def)

lemma record_job_inv: "hist_inv s \<Longrightarrow> hist_inv (record_job now ident ty data target s)"
  by (auto simp: hist_inv_def record_job_eq set_job_def MAX_HISTORY_def)

lemma ring_index: "w < N \<Longrightarrow> k < N \<Longrightarrow> (w + k) mod N = w \<longleftrightarrow> k = (0 :: nat)"
  by (cases "w + k < N") (auto simp: mod_if)

lemma record_job_abs:
  assumes inv: "hist_inv s"
  shows "hist_abs (record_job now ident ty data target s) =
           (if hist_count s < MAX_HISTORY then hist_abs s else tl (hist_abs s)) @ [new_job now ident ty data target s]"
proof -
  let ?t = "record_job now ident ty data target s" and ?w = "hist_write s" and ?j = "new_job now ident ty data target s"
  have inv': "hist_inv ?t" by (rule record_job_inv [OF inv])
  have h: "history ?t = (history s)[?w := ?j]" by (simp add: record_job_eq set_job_def)
  show ?thesis
  proof (cases "hist_count s < MAX_HISTORY")
    case True
    then have w: "?w = hist_count s" and c: "hist_count ?t = Suc (hist_count s)"
      using inv by (simp_all add: hist_inv_def record_job_eq)
    have "hist_abs ?t = take (Suc (hist_count s)) (history ?t)"
    proof (cases "hist_count ?t < MAX_HISTORY")
      case True
      then show ?thesis using hist_abs_part [OF inv' True] c by simp
    next
      case False
      then have f: "hist_count ?t = MAX_HISTORY" using inv' by (simp add: hist_inv_def)
      then have "hist_write ?t = 0" using c w by (simp add: record_job_eq)
      then have "hist_abs ?t = map (\<lambda>k. history ?t ! k) [0..<MAX_HISTORY]"
        using hist_abs_full [OF inv' f] by simp
      then show ?thesis using f c inv' map_nth [of "history ?t"] by (simp add: hist_inv_def)
    qed
    then show ?thesis
      using True w h hist_abs_part [OF inv True] inv by (simp add: hist_inv_def take_Suc_conv_app_nth)
  next
    case False
    then have c: "hist_count s = MAX_HISTORY" "hist_count ?t = MAX_HISTORY" "hist_write ?t = (?w + 1) mod MAX_HISTORY"
      using inv by (simp_all add: hist_inv_def record_job_eq)
    have wl: "?w < MAX_HISTORY" "length (history s) = MAX_HISTORY" using inv by (simp_all add: hist_inv_def)
    show ?thesis
    proof (rule nth_equalityI)
      show "length (hist_abs ?t) = length ((if hist_count s < MAX_HISTORY then hist_abs s else tl (hist_abs s)) @ [?j])"
        using c by (simp add: MAX_HISTORY_def)
      fix k
      assume "k < length (hist_abs ?t)"
      then have k: "k < MAX_HISTORY" using c by simp
      have e: "hist_abs ?t ! k = (history s)[?w := ?j] ! ((?w + Suc k) mod MAX_HISTORY)"
        using k unfolding hist_abs_full [OF inv' c(2)] h c(3) by (simp add: mod_add_left_eq)
      show "hist_abs ?t ! k = ((if hist_count s < MAX_HISTORY then hist_abs s else tl (hist_abs s)) @ [?j]) ! k"
      proof (cases "Suc k = MAX_HISTORY")
        case True
        then have "k = hist_count s - 1" using c by simp
        then show ?thesis using e True wl c by (simp add: nth_append)
      next
        case False
        with k have sk: "Suc k < MAX_HISTORY" by simp
        then have "(?w + Suc k) mod MAX_HISTORY \<noteq> ?w" using wl ring_index [of ?w MAX_HISTORY "Suc k"] by simp
        then have "hist_abs ?t ! k = hist_abs s ! Suc k"
          using e sk unfolding hist_abs_full [OF inv c(1)] by simp
        then show ?thesis using sk c by (simp add: nth_append nth_tl)
      qed
    qed
  qed
qed

lemma find_append: "List.find P (xs @ ys) = (case List.find P xs of None \<Rightarrow> List.find P ys | r \<Rightarrow> r)"
  by (induction xs) auto

lemma last_completed_abs:
  assumes inv: "hist_inv s"
  shows "get_last_completed s = List.find (\<lambda>j. j_id j \<noteq> 0 \<and> j_status j = STATUS_COMPLETED) (rev (hist_abs s))"
proof -
  let ?P = "\<lambda>j. j_id j \<noteq> 0 \<and> j_status j = STATUS_COMPLETED"
  let ?g = "\<lambda>i. history s ! ((hist_write s + i) mod MAX_HISTORY)"
  have e: "get_last_completed s = List.find ?P (map ?g (rev [0..<MAX_HISTORY]))"
    by (simp add: get_last_completed_def Let_def find_idx_find)
  show ?thesis
  proof (cases "hist_count s < MAX_HISTORY")
    case False
    then have c: "hist_count s = MAX_HISTORY" using inv by (simp add: hist_inv_def)
    show ?thesis unfolding e hist_abs_full [OF inv c] by (simp add: rev_map)
  next
    case True
    let ?c = "hist_count s" and ?d = "MAX_HISTORY - hist_count s"
    have w: "hist_write s = ?c" using inv True by (simp add: hist_inv_def)
    have split: "[0..<MAX_HISTORY] = [0..<?d] @ [?d..<MAX_HISTORY]"
      by (metis diff_le_self le0 upt_add_eq_append le_add_diff_inverse)
    have old: "List.find ?P (map ?g (rev [0..<?d])) = None"
      using inv True w by (auto simp: find_None_iff hist_inv_def)
    have new: "map ?g [?d..<MAX_HISTORY] = hist_abs s"
      using True w by (intro nth_equalityI) (auto simp: hist_abs_def algebra_simps)
    have "List.find ?P (map ?g (rev [0..<MAX_HISTORY])) = List.find ?P (rev (hist_abs s) @ map ?g (rev [0..<?d]))"
      unfolding split by (simp add: rev_map [symmetric] new [symmetric])
    then show ?thesis unfolding e find_append old by (simp split: option.splits)
  qed
qed

lemma get_history_abs: "hist_inv s \<Longrightarrow> get_history k s = (if k < hist_count s then Some (hist_abs s ! k) else None)"
  by (cases "hist_count s < MAX_HISTORY") (auto simp: get_history_def hist_abs_part hist_abs_full hist_inv_def not_less)

text \<open>C27: The history ring refines a queue of the last sixteen jobs: recording a job appends it and, when sixteen
  are held, drops the oldest; \<^verbatim>\<open>get_history\<close> reads the queue by age, and \<^verbatim>\<open>get_last_completed\<close> is its newest
  completed job.\<close>

theorem job_history_refines:
  assumes "hist_inv s"
  shows "hist_inv (record_job now ident ty data target s) \<and>
    hist_abs (record_job now ident ty data target s) =
      (if hist_count s < MAX_HISTORY then hist_abs s else tl (hist_abs s)) @ [new_job now ident ty data target s] \<and>
    get_history k s = (if k < length (hist_abs s) then Some (hist_abs s ! k) else None) \<and>
    get_last_completed s = List.find (\<lambda>j. j_id j \<noteq> 0 \<and> j_status j = STATUS_COMPLETED) (rev (hist_abs s))"
  using record_job_inv [OF assms] record_job_abs [OF assms] get_history_abs [OF assms] last_completed_abs [OF assms]
  by simp

definition blank_job :: job where
  "blank_job = \<lparr>j_id = 0, j_type = 0, j_status = STATUS_PENDING, j_result = 0, j_target = 0, j_submitted = 0,
     j_completed = 0, j_payload = replicate MAX_PAYLOAD 0, j_len = 0\<rparr>"

definition djob_demo :: djob where
  "djob_demo = djob_init \<lparr>node_loads = replicate 8 \<lparr>l_ip = 0, l_tasks = 0, l_updated = 0, l_valid = False\<rparr>,
     history = replicate MAX_HISTORY blank_job, hist_write = 0, hist_count = 0, next_job = 0, dj_inited = False, round_robin = 0\<rparr>"

lemma djob_demo_inv: "hist_inv djob_demo"
  unfolding djob_demo_def by (rule djob_init_inv) simp

theorem job_history_refines_witness:
  "map j_id (hist_abs (record_job 5 1 JOB_SUM [1] 0 djob_demo)) = [1] \<and> get_last_completed djob_demo = None"
  using job_history_refines [OF djob_demo_inv, of 5 1 JOB_SUM "[1]" 0]
  by (simp add: djob_demo_def djob_init_def hist_abs_def new_job_def MAX_HISTORY_def)

section \<open>Node loads\<close>

definition load_ok :: "djob \<Rightarrow> bool" where
  "load_ok s \<longleftrightarrow> uniq_keys l_valid l_ip (node_loads s)"

definition get_load :: "djob \<Rightarrow> u32 \<Rightarrow> (u64 \<times> u32) option" where
  "get_load s ip = map_option (\<lambda>e. (l_updated e, l_tasks e)) (lookup_key l_valid l_ip ip (node_loads s))"

lemma update_load_upsert:
  "node_loads (update_node_load now ip c s) = upsert l_valid l_ip (\<lambda>e. e\<lparr>l_tasks := c, l_updated := now\<rparr>)
     (\<lambda>e. e\<lparr>l_ip := ip, l_tasks := c, l_updated := now, l_valid := True\<rparr>) ip (node_loads s)"
  by (simp add: update_node_load_def upsert_def split: option.splits)

lemma update_load_same: "node_loads (update_node_load now ip c s) = node_loads s \<Longrightarrow> update_node_load now ip c s = s"
  by (auto simp: update_node_load_def split: option.splits)

interpretation ld: soft_table load_ok get_load "\<lambda>ip (now, c). update_node_load now ip c" "\<lambda>s. \<exists>e\<in>set (node_loads s). \<not> l_valid e"
proof (unfold_locales, unfold case_prod_unfold)
  fix s :: djob and k :: u32 and v :: "u64 \<times> u32"
  let ?upd = "\<lambda>e. e\<lparr>l_tasks := snd v, l_updated := fst v\<rparr>"
  let ?new = "\<lambda>e. e\<lparr>l_ip := k, l_tasks := snd v, l_updated := fst v, l_valid := True\<rparr>"
  assume inv: "load_ok s"
  then show "load_ok (update_node_load (fst v) k (snd v) s)"
    by (auto simp: load_ok_def update_load_upsert intro!: upsert_uniq)
  show "get_load (update_node_load (fst v) k (snd v) s) k = Some v"
    if "get_load s k \<noteq> None \<or> (\<exists>e\<in>set (node_loads s). \<not> l_valid e)"
  proof -
    have "\<exists>e. lookup_key l_valid l_ip k (upsert l_valid l_ip ?upd ?new k (node_loads s)) = Some e \<and>
             (case lookup_key l_valid l_ip k (node_loads s) of Some e0 \<Rightarrow> e = ?upd e0
              | None \<Rightarrow> \<exists>e0\<in>set (node_loads s). \<not> l_valid e0 \<and> e = ?new e0)"
      by (rule upsert_lookup_same) (use inv that in \<open>auto simp: load_ok_def get_load_def\<close>)
    then show ?thesis by (auto simp: get_load_def update_load_upsert split: option.splits)
  qed
  show "get_load (update_node_load (fst v) k (snd v) s) k' = get_load s k'" if "k' \<noteq> k" for k'
    using that by (simp add: get_load_def update_load_upsert upsert_lookup_other)
  show "update_node_load (fst v) k (snd v) s = s"
    if "get_load s k = None" "\<not> (\<exists>e\<in>set (node_loads s). \<not> l_valid e)"
    by (rule update_load_same, unfold update_load_upsert, rule upsert_full)
      (use that in \<open>auto simp: get_load_def\<close>)
qed

lemma pick_target_frame:
  assumes "pick_target now load s = (t, s')"
  obtains r where "s' = s\<lparr>round_robin := r\<rparr>"
proof -
  have "s = s\<lparr>round_robin := round_robin s\<rparr>" by simp
  then show ?thesis
    using assms that [of "round_robin s"] that [of "round_robin s + 1"]
    by (auto simp: pick_target_def Let_def split: if_splits option.splits)
qed

lemma counters_simps [simp]:
  "hist_inv (s\<lparr>next_job := x, round_robin := y\<rparr>) = hist_inv s"
  "find_job i (s\<lparr>next_job := x, round_robin := y\<rparr>) = find_job i s"
  by (simp_all add: hist_inv_def find_job_def)

lemma find_job_set:
  assumes "j_id j = j_id (history s ! k)"
  shows "find_job i (set_job k j s) = find_job i s"
proof -
  have "j_id ((history s)[k := j] ! m) = j_id (history s ! m)" for m
    using assms by (cases "m = k"; cases "k < length (history s)") (simp_all add: list_update_beyond)
  then show ?thesis
    unfolding find_job_def set_job_def by (intro find_idx_cong) simp_all
qed

text \<open>The balancer only ever names this node or a peer heard of in the last ten seconds; it keeps the job only
  when no such peer reports fewer tasks, and when one does it picks such a peer. It changes nothing but the
  round-robin counter.\<close>

theorem pick_target_spec:
  assumes "pick_target now load s = (t, s')"
  shows "(t = 0 \<or> (\<exists>e\<in>set (node_loads s). l_valid e \<and> \<not> now - l_updated e > 10000 \<and> l_ip e = t)) \<and>
    (\<forall>e\<in>set (node_loads s). l_valid e \<and> \<not> now - l_updated e > 10000 \<and> l_tasks e < load \<longrightarrow>
       (\<exists>e\<in>set (node_loads s). l_valid e \<and> l_tasks e < load \<and> l_ip e = t)) \<and>
    s' = s\<lparr>round_robin := round_robin s'\<rparr>"
proof -
  let ?C = "candidates now s"
  have mem: "\<exists>e\<in>set (node_loads s). l_valid e \<and> \<not> now - l_updated e > 10000 \<and> l_ip e = fst c \<and> l_tasks e = snd c"
    if "c \<in> set ?C" for c using that by (auto simp: candidates_def)
  have cand: "(l_ip e, l_tasks e) \<in> set ?C"
    if "e \<in> set (node_loads s)" "l_valid e" "\<not> now - l_updated e > 10000" for e
    using that by (auto simp: candidates_def)
  show ?thesis
  proof (cases "find_idx (\<lambda>(ip, l). l < load) ?C")
    case (Some i)
    then have c: "?C ! i \<in> set ?C" "snd (?C ! i) < load" "?C \<noteq> []"
      using find_idx_SomeD [OF Some] by (auto split: prod.splits)
    have "t = fst (?C ! i)" "s' = s" using assms c(3) Some by (auto simp: pick_target_def Let_def)
    with mem [OF c(1)] c(2) show ?thesis by auto
  next
    case None
    then have none: "\<not> l_tasks e < load" if "e \<in> set (node_loads s)" "l_valid e" "\<not> now - l_updated e > 10000" for e
      using cand [OF that] by (auto simp: find_idx_None_iff)
    have "t = 0 \<or> t \<in> fst ` set ?C"
    proof (cases "?C = []")
      case False
      then have "(p - 1) mod length ?C < length ?C" for p by simp
      then show ?thesis using assms None False by (auto simp: pick_target_def Let_def split: if_splits)
    qed (use assms in \<open>simp add: pick_target_def Let_def\<close>)
    moreover have "s' = s\<lparr>round_robin := round_robin s'\<rparr>"
      using assms None by (auto simp: pick_target_def Let_def split: if_splits)
    ultimately show ?thesis using mem none by blast
  qed
qed

definition loads_demo :: djob where
  "loads_demo = update_node_load 5 0x0200000A 1 (update_node_load 5 0x0300000A 3 djob_demo)"

theorem pick_target_spec_witness:
  "\<exists>s'. pick_target 6 5 loads_demo = (0x0300000A, s') \<and>
     (\<exists>e\<in>set (node_loads loads_demo). l_valid e \<and> l_tasks e < 5 \<and> l_ip e = 0x0300000A)"
proof -
  have p: "pick_target 6 5 loads_demo = (0x0300000A, loads_demo)" by code_simp
  have n: "node_loads loads_demo = \<lparr>l_ip = 0x0300000A, l_tasks = 3, l_updated = 5, l_valid = True\<rparr> #
      \<lparr>l_ip = 0x0200000A, l_tasks = 1, l_updated = 5, l_valid = True\<rparr> #
      replicate 6 \<lparr>l_ip = 0, l_tasks = 0, l_updated = 0, l_valid = False\<rparr>" by code_simp
  from pick_target_spec [OF p] p n show ?thesis by simp
qed

text \<open>Contrary to its description the balancer does not pick the node with the fewest tasks: of two peers with
  three tasks and one it picks the first, and with a single peer that reports a hundred tasks every second job
  of a node with one task is sent there.\<close>

theorem pick_target_not_fewest:
  "fst (pick_target 6 5 loads_demo) = 0x0300000A \<and>
   fst (pick_target 6 1 (update_node_load 5 0x0200000A 100 djob_demo)) = 0x0200000A"
  by code_simp

end
