(* ===== verification/Process.thy ===== *)
theory Process
  imports Peers
begin

text \<open>
  The distributed process manager (\<^verbatim>\<open>kernel/process.cpp\<close>): a table of sixteen processes, each backed by a
  scheduler task of this node or tracking one on another node. A message is the bytes given to
  \<^verbatim>\<open>Network::send_udp\<close>. Entry points are the numbers the scheduler keeps; one turn of an entry's loop, up to its
  sleep, is a function on the table.
\<close>

definition MAX_PROCS :: nat where "MAX_PROCS = 16"

datatype proc_state = PROC_UNUSED | PROC_RUNNING | PROC_SLEEPING | PROC_EXITING | PROC_DEAD

definition TYPE_COUNTER :: u8 where "TYPE_COUNTER = 1"
definition TYPE_STRESS :: u8 where "TYPE_STRESS = 2"
definition TYPE_MONITOR :: u8 where "TYPE_MONITOR = 3"
definition TYPE_WORKER :: u8 where "TYPE_WORKER = 4"

definition counter_entry :: nat where "counter_entry = 4"
definition stress_entry :: nat where "stress_entry = 5"
definition monitor_entry :: nat where "monitor_entry = 6"
definition worker_entry :: nat where "worker_entry = 7"
definition status_report_entry :: nat where "status_report_entry = 8"

record proc =
  p_pid :: u32
  p_type :: u8
  p_state :: proc_state
  p_node :: u32
  p_owner :: u32
  p_name :: string
  p_started :: u64
  p_cpu :: u64
  p_slot :: int

record ptable =
  procs :: "proc list"
  next_pid :: u32
  pr_inited :: bool
  stop_flags :: "bool list"
  spawn_rr :: u32

definition set_proc :: "nat \<Rightarrow> proc \<Rightarrow> ptable \<Rightarrow> ptable" where
  "set_proc i p s = s\<lparr>procs := (procs s)[i := p]\<rparr>"

definition set_stop :: "nat \<Rightarrow> bool \<Rightarrow> ptable \<Rightarrow> ptable" where
  "set_stop i b s = s\<lparr>stop_flags := (stop_flags s)[i := b]\<rparr>"

section \<open>Process bodies\<close>

definition find_my_slot :: "sched \<Rightarrow> ptable \<Rightarrow> nat option" where
  "find_my_slot sc s = find_idx (\<lambda>p. p_state p = PROC_RUNNING \<and> p_slot p = int (cur sc)) (procs s)"

text \<open>One turn of the body in slot \<open>k\<close> with the local counter \<open>n\<close>; the first component says that the body ends.\<close>

definition body_turn :: "u8 \<Rightarrow> nat \<Rightarrow> u64 \<Rightarrow> ptable \<Rightarrow> bool \<times> u64 \<times> ptable" where
  "body_turn ty k n s =
     (let p = procs s ! k
      in if stop_flags s ! k then (True, n, set_proc k (p\<lparr>p_state := PROC_DEAD\<rparr>) s)
         else if ty = TYPE_COUNTER then
           (let n = ucast (ucast n + 1 :: u32) in (False, n, set_proc k (p\<lparr>p_cpu := n\<rparr>) s))
         else if ty = TYPE_STRESS then (False, n + 1, set_proc k (p\<lparr>p_cpu := n + 1\<rparr>) s)
         else (False, n, set_proc k (p\<lparr>p_cpu := p_cpu p + 1\<rparr>) s))"

definition get_entry :: "u8 \<Rightarrow> nat" where
  "get_entry ty = (if ty = TYPE_COUNTER then counter_entry else if ty = TYPE_STRESS then stress_entry
     else if ty = TYPE_MONITOR then monitor_entry else if ty = TYPE_WORKER then worker_entry else 0)"

definition parse_type :: "string \<Rightarrow> u8" where
  "parse_type nm = (if str_eq nm ''counter'' then TYPE_COUNTER else if str_eq nm ''stress'' then TYPE_STRESS
     else if str_eq nm ''monitor'' then TYPE_MONITOR else if str_eq nm ''worker'' then TYPE_WORKER else 0)"

definition proc_type_name :: "u8 \<Rightarrow> string" where
  "proc_type_name ty = (if ty = TYPE_COUNTER then ''counter'' else if ty = TYPE_STRESS then ''stress''
     else if ty = TYPE_MONITOR then ''monitor'' else if ty = TYPE_WORKER then ''worker'' else ''unknown'')"

section \<open>Spawning\<close>

definition find_free :: "ptable \<Rightarrow> nat option" where
  "find_free s = find_idx (\<lambda>p. p_state p = PROC_UNUSED \<or> p_state p = PROC_DEAD) (procs s)"

definition full_name :: "string \<Rightarrow> string \<Rightarrow> string" where
  "full_name name pid = (let nm = str_copy name 16 in nm @ '':'' @ take (23 - (fs_strlen nm + 1)) pid)"

definition spawn_local ::
  "u64 \<Rightarrow> u8 \<Rightarrow> string \<Rightarrow> u32 \<Rightarrow> ptable \<Rightarrow> sched \<Rightarrow> (u32 \<times> ptable \<times> sched) res" where
  "spawn_local now ty name owner s sc =
     (case find_free s of
        None \<Rightarrow> Inr (0, s, sc)
      | Some k \<Rightarrow>
          if get_entry ty = 0 then Inr (0, s, sc)
          else
            let pid = next_pid s; dec = itoa (ucast pid)
            in if fs_strlen dec + 1 > 8 then Inl BufferOverflow
               else
                 let nm = full_name name dec;
                     p = (procs s ! k)\<lparr>p_pid := pid, p_type := ty, p_state := PROC_RUNNING, p_node := 0, p_owner := owner,
                           p_started := now, p_cpu := 0, p_name := str_copy nm 24\<rparr>;
                     s = set_stop k False (s\<lparr>next_pid := pid + 1\<rparr>);
                     (slot, sc) = create_task (Some nm) (get_entry ty) sc
                 in if slot < 0 then Inr (0, set_proc k (p\<lparr>p_state := PROC_UNUSED\<rparr>) s, sc)
                    else Inr (pid, set_proc k (p\<lparr>p_slot := slot\<rparr>) s, sc))"

definition spawn_msg :: "u8 \<Rightarrow> u32 \<Rightarrow> u8 list" where
  "spawn_msg ty pid = [0x10, 0, 5, 0] @ [ty] @ le32 pid"

definition kill_msg :: "u32 \<Rightarrow> u8 list" where
  "kill_msg pid = [0x12, 0, 4, 0] @ le32 pid"

definition spawned_msg :: "u32 \<Rightarrow> u32 \<Rightarrow> u8 list" where
  "spawned_msg remote_pid local_pid = [0x11, 0, 8, 0] @ le32 remote_pid @ le32 local_pid"

definition spawn_on ::
  "(u8 list \<Rightarrow> bool) \<Rightarrow> u64 \<Rightarrow> string \<Rightarrow> u32 \<Rightarrow> ptable \<Rightarrow> sched \<Rightarrow> net \<Rightarrow> (u32 \<times> ptable \<times> sched \<times> net) res" where
  "spawn_on nic now name ip s sc n =
     (let ty = parse_type name
      in if \<not> pr_inited s \<or> ty = 0 then Inr (0, s, sc, n)
         else if ip = 0 \<or> ip = our_ip n
         then bind_res (spawn_local now ty name 0 s sc) (\<lambda>(pid, s, sc). Inr (pid, s, sc, n))
         else case find_free s of
                None \<Rightarrow> Inr (0, s, sc, n)
              | Some k \<Rightarrow>
                  let pid = next_pid s;
                      p = (procs s ! k)\<lparr>p_pid := pid, p_type := ty, p_state := PROC_RUNNING, p_node := ip,
                            p_owner := our_ip n, p_started := now, p_cpu := 0, p_slot := -1, p_name := str_copy name 16\<rparr>;
                      s = set_proc k p (s\<lparr>next_pid := pid + 1\<rparr>)
                  in bind_res (cluster_send nic ip (spawn_msg ty pid) n) (\<lambda>(ok, n). Inr (pid, s, sc, n)))"

definition spawn ::
  "(u8 list \<Rightarrow> bool) \<Rightarrow> u64 \<Rightarrow> string \<Rightarrow> cluster \<Rightarrow> ptable \<Rightarrow> sched \<Rightarrow> net \<Rightarrow> (u32 \<times> ptable \<times> sched \<times> net) res" where
  "spawn nic now name c s sc n =
     (if \<not> pr_inited s \<or> parse_type name = 0 then Inr (0, s, sc, n)
      else case find_idx (\<lambda>i. get_peer i c \<noteq> None) [0..<peer_count c] of
             None \<Rightarrow> spawn_on nic now name 0 s sc n
           | Some i \<Rightarrow>
               let s = s\<lparr>spawn_rr := spawn_rr s + 1\<rparr>
               in spawn_on nic now name
                    (if spawn_rr s mod 2 = 0 \<and> peer_count c > 0 then n_ip (the (get_peer i c)) else 0) s sc n)"

section \<open>Killing\<close>

definition in_use :: "proc \<Rightarrow> bool" where
  "in_use p \<longleftrightarrow> p_state p = PROC_RUNNING \<or> p_state p = PROC_SLEEPING \<or> p_state p = PROC_EXITING"

definition stop_task :: "proc \<Rightarrow> sched \<Rightarrow> sched" where
  "stop_task p sc = (if p_slot p \<ge> 0 then snd (kill_task (nat (p_slot p)) sc) else sc)"

definition proc_kill ::
  "(u8 list \<Rightarrow> bool) \<Rightarrow> u32 \<Rightarrow> ptable \<Rightarrow> sched \<Rightarrow> net \<Rightarrow> (bool \<times> ptable \<times> sched \<times> net) res" where
  "proc_kill nic pid s sc n =
     (case find_idx (\<lambda>p. p_pid p = pid \<and> in_use p) (procs s) of
        None \<Rightarrow> Inr (False, s, sc, n)
      | Some k \<Rightarrow>
          let p = procs s ! k
          in if p_node p = 0
             then Inr (True, set_proc k (p\<lparr>p_state := PROC_DEAD, p_slot := -1\<rparr>) (set_stop k True s), stop_task p sc, n)
             else bind_res (cluster_send nic (p_node p) (kill_msg pid) n)
                    (\<lambda>(ok, n). Inr (True, set_proc k (p\<lparr>p_state := PROC_EXITING\<rparr>) s, sc, n)))"

definition proc_count :: "ptable \<Rightarrow> nat" where
  "proc_count s = length (filter in_use (procs s))"

fun nth_used :: "nat \<Rightarrow> proc list \<Rightarrow> proc option" where
  "nth_used k [] = None"
| "nth_used k (p # ps) =
     (if p_state p \<noteq> PROC_UNUSED \<and> p_state p \<noteq> PROC_DEAD then if k = 0 then Some p else nth_used (k - 1) ps
      else nth_used k ps)"

definition proc_by_index :: "nat \<Rightarrow> ptable \<Rightarrow> proc option" where
  "proc_by_index k s = nth_used k (procs s)"

definition find_pid :: "u32 \<Rightarrow> ptable \<Rightarrow> proc option" where
  "find_pid pid s = map_option (\<lambda>k. procs s ! k) (find_idx (\<lambda>p. p_pid p = pid \<and> p_state p \<noteq> PROC_UNUSED) (procs s))"

section \<open>Requests from other nodes\<close>

definition on_remote_spawn_request ::
  "(u8 list \<Rightarrow> bool) \<Rightarrow> u64 \<Rightarrow> u32 \<Rightarrow> u8 \<Rightarrow> u32 \<Rightarrow> ptable \<Rightarrow> sched \<Rightarrow> net \<Rightarrow> (ptable \<times> sched \<times> net) res" where
  "on_remote_spawn_request nic now from_ip ty remote_pid s sc n =
     bind_res (spawn_local now ty (proc_type_name ty) from_ip s sc) (\<lambda>(pid, s, sc).
     bind_res (cluster_send nic from_ip (spawned_msg remote_pid pid) n) (\<lambda>(ok, n). Inr (s, sc, n)))"

definition on_remote_kill_request :: "u32 \<Rightarrow> ptable \<Rightarrow> sched \<Rightarrow> ptable \<times> sched" where
  "on_remote_kill_request pid s sc =
     (case find_idx (\<lambda>p. p_pid p = pid \<and> p_state p = PROC_RUNNING \<and> p_node p = 0) (procs s) of
        None \<Rightarrow> (s, sc)
      | Some k \<Rightarrow> (set_proc k ((procs s ! k)\<lparr>p_state := PROC_DEAD\<rparr>) (set_stop k True s), stop_task (procs s ! k) sc))"

definition on_remote_spawned :: "u32 \<Rightarrow> u32 \<Rightarrow> ptable \<Rightarrow> ptable" where
  "on_remote_spawned pid ip s = s"

definition on_remote_died :: "u32 \<Rightarrow> u32 \<Rightarrow> ptable \<Rightarrow> ptable" where
  "on_remote_died pid ip s =
     (case find_idx (\<lambda>p. p_pid p = pid \<and> p_node p = ip) (procs s) of
        None \<Rightarrow> s
      | Some k \<Rightarrow> set_proc k ((procs s ! k)\<lparr>p_state := PROC_DEAD\<rparr>) s)"

definition on_remote_status :: "u32 \<Rightarrow> u32 \<Rightarrow> proc_state \<Rightarrow> u64 \<Rightarrow> ptable \<Rightarrow> ptable" where
  "on_remote_status pid ip st cpu s =
     (case find_idx (\<lambda>p. p_pid p = pid \<and> p_node p = ip) (procs s) of
        None \<Rightarrow> s
      | Some k \<Rightarrow> let p = (procs s ! k)\<lparr>p_cpu := cpu\<rparr>
                   in set_proc k (if st = PROC_DEAD then p\<lparr>p_state := PROC_DEAD\<rparr> else p) s)"

text \<open>One turn of \<^verbatim>\<open>status_report_entry\<close>, between two sleeps.\<close>

definition status_turn :: "ptable \<Rightarrow> ptable" where
  "status_turn s = s\<lparr>procs := map (\<lambda>p. if p_state p = PROC_DEAD \<and> p_node p = 0
                                       then p\<lparr>p_state := PROC_UNUSED, p_pid := 0\<rparr> else p) (procs s)\<rparr>"

definition proc_init :: "ptable \<Rightarrow> sched \<Rightarrow> ptable \<times> sched" where
  "proc_init s sc =
     (s\<lparr>procs := map (\<lambda>p. p\<lparr>p_state := PROC_UNUSED, p_pid := 0, p_slot := -1\<rparr>) (procs s),
        stop_flags := map (\<lambda>_. False) (stop_flags s), next_pid := 1, pr_inited := True\<rparr>,
      snd (create_task (Some ''proc-stat'') status_report_entry sc))"

section \<open>Processes and their tasks\<close>

definition here :: "proc \<Rightarrow> bool" where
  "here p \<longleftrightarrow> p_state p = PROC_RUNNING \<and> p_node p = 0"

lemma here_in_use: "here p \<Longrightarrow> in_use p"
  by (simp add: here_def in_use_def)

definition has_task :: "sched \<Rightarrow> proc \<Rightarrow> bool" where
  "has_task sc p \<longleftrightarrow> (\<exists>i. p_slot p = int i \<and> 1 < i \<and> i < MAX_TASKS \<and> alive (tasks sc ! i) \<and>
                          entry (tasks sc ! i) = get_entry (p_type p))"

definition table_inv :: "ptable \<Rightarrow> bool" where
  "table_inv s \<longleftrightarrow> length (procs s) = MAX_PROCS \<and> length (stop_flags s) = MAX_PROCS \<and>
     uniq_keys in_use p_pid (procs s) \<and> uniq_keys here p_slot (procs s) \<and>
     (\<forall>k<MAX_PROCS. in_use (procs s ! k) \<longrightarrow> unat (p_pid (procs s ! k)) < unat (next_pid s)) \<and>
     (\<forall>k<MAX_PROCS. in_use (procs s ! k) \<and> p_node (procs s ! k) = 0 \<longrightarrow>
        p_state (procs s ! k) = PROC_RUNNING \<and> \<not> stop_flags s ! k)"

definition proc_inv :: "ptable \<Rightarrow> sched \<Rightarrow> bool" where
  "proc_inv s sc \<longleftrightarrow> sched_inv sc \<and> table_inv s \<and> (\<forall>k<MAX_PROCS. here (procs s ! k) \<longrightarrow> has_task sc (procs s ! k))"

lemma set_proc_simps [simp]:
  "procs (set_proc k p s) = (procs s)[k := p]" "next_pid (set_proc k p s) = next_pid s"
  "stop_flags (set_proc k p s) = stop_flags s" "pr_inited (set_proc k p s) = pr_inited s"
  "spawn_rr (set_proc k p s) = spawn_rr s"
  "procs (set_stop k b s) = procs s" "next_pid (set_stop k b s) = next_pid s"
  "stop_flags (set_stop k b s) = (stop_flags s)[k := b]" "pr_inited (set_stop k b s) = pr_inited s"
  "spawn_rr (set_stop k b s) = spawn_rr s"
  by (simp_all add: set_proc_def set_stop_def)

lemma proc_inv_sched:
  assumes "proc_inv s sc" "sched_inv sc'"
    and "\<And>j. j < MAX_TASKS \<Longrightarrow> alive (tasks sc ! j) \<Longrightarrow> alive (tasks sc' ! j) \<and> entry (tasks sc' ! j) = entry (tasks sc ! j)"
  shows "proc_inv s sc'"
proof -
  have "has_task sc' p" if "has_task sc p" for p
    using that assms(3) unfolding has_task_def by metis
  then show ?thesis using assms(1,2) by (simp add: proc_inv_def)
qed

lemma find_free_SomeD: "find_free s = Some k \<Longrightarrow> k < length (procs s) \<and> \<not> in_use (procs s ! k)"
  unfolding find_free_def by (auto simp: in_use_def dest!: find_idx_SomeD)

text \<open>A dead entry, whatever else it holds, disturbs nothing.\<close>

lemma table_inv_dead:
  assumes "table_inv s" "\<not> in_use p"
  shows "table_inv (set_proc k p s)"
  using assms here_in_use [of p] unfolding table_inv_def set_proc_simps
  by (intro conjI uniq_keys_update_dead allI impI) (auto simp: nth_update_lt split: if_splits)

lemma proc_inv_dead:
  assumes "proc_inv s sc" "\<not> in_use p"
  shows "proc_inv (set_proc k p s) sc"
  using assms table_inv_dead [of s p k] here_in_use [of p] unfolding proc_inv_def
  by (auto simp: nth_update_lt table_inv_def split: if_splits)

lemma table_inv_stop:
  "table_inv s \<Longrightarrow> \<not> in_use (procs s ! k) \<Longrightarrow> table_inv (set_stop k b s)"
  unfolding table_inv_def by (auto simp: nth_update_lt)

lemma pid_next: "unat (m :: u32) + 1 < 4294967296 \<Longrightarrow> unat (m + 1) = unat m + 1"
  by (simp add: unat_word_ariths)

lemma table_inv_next:
  assumes "table_inv s" "unat (next_pid s) + 1 < 4294967296"
  shows "table_inv (s\<lparr>next_pid := next_pid s + 1\<rparr>)"
  using assms pid_next [OF assms(2)] unfolding table_inv_def by (auto simp: less_Suc_eq)

lemma table_inv_add:
  assumes inv: "table_inv s" and k: "find_free s = Some k" and m: "unat (next_pid s) + 1 < 4294967296"
    and p: "p_pid p = next_pid s" "p_node p = 0 \<Longrightarrow> p_state p = PROC_RUNNING"
    and stop: "p_node p = 0 \<Longrightarrow> \<not> b"
    and slot: "\<And>q. q \<in> set (procs s) \<Longrightarrow> here q \<Longrightarrow> here p \<Longrightarrow> p_slot q \<noteq> p_slot p"
  shows "table_inv (set_proc k p (set_stop k b (s\<lparr>next_pid := next_pid s + 1\<rparr>)))"
proof -
  note f = find_free_SomeD [OF k]
  have fresh: "p_pid q \<noteq> p_pid p" if q: "q \<in> set (procs s)" "in_use q" for q
  proof -
    obtain j where "j < length (procs s)" "q = procs s ! j" using q(1) by (metis in_set_conv_nth)
    then show ?thesis using inv q(2) p(1) unfolding table_inv_def by fastforce
  qed
  have "uniq_keys in_use p_pid ((procs s)[k := p])"
    using inv fresh by (intro uniq_keys_update_fresh) (auto simp: table_inv_def)
  moreover have "uniq_keys here p_slot ((procs s)[k := p])"
  proof (cases "here p")
    case True
    then show ?thesis using inv slot by (intro uniq_keys_update_fresh) (auto simp: table_inv_def)
  next
    case False
    then show ?thesis using inv by (intro uniq_keys_update_dead) (auto simp: table_inv_def)
  qed
  ultimately show ?thesis
    using inv p stop f pid_next [OF m] unfolding table_inv_def set_proc_simps
    by (auto simp: nth_update_lt less_Suc_eq)
qed

text \<open>What a local spawn does, in every case in which it returns.\<close>

lemma spawn_local_cases:
  assumes inv: "sched_inv sc" and r: "spawn_local now ty name owner s sc = Inr (pid, s', sc')"
  obtains (none) "pid = 0" "s' = s" "sc' = sc"
  | (full) k p where "find_free s = Some k" "pid = 0" "\<not> in_use p" "sc' = sc"
      "s' = set_proc k p (set_stop k False (s\<lparr>next_pid := next_pid s + 1\<rparr>))"
  | (ok) k p i t where "find_free s = Some k" "pid = next_pid s" "get_entry ty \<noteq> 0"
      "s' = set_proc k p (set_stop k False (s\<lparr>next_pid := next_pid s + 1\<rparr>))"
      "p_pid p = pid" "p_type p = ty" "p_state p = PROC_RUNNING" "p_node p = 0" "p_owner p = owner" "p_started p = now"
      "p_name p = full_name name (itoa (ucast pid))" "p_slot p = int i" "1 < i" "i < MAX_TASKS"
      "tstate (tasks sc ! i) = TASK_UNUSED" "tasks sc' = (tasks sc)[i := t]" "tstate t = TASK_READY"
      "entry t = get_entry ty" "task_count sc' = task_count sc + 1" "sched_inv sc'"
proof (cases "find_free s")
  case None
  then show ?thesis using r none by (simp add: spawn_local_def)
next
  case (Some k)
  show ?thesis
  proof (cases "get_entry ty = 0")
    case True
    then show ?thesis using r none Some by (simp add: spawn_local_def)
  next
    case False
    define dec where "dec = itoa (ucast (next_pid s))"
    define nm where "nm = full_name name dec"
    define p where "p = (procs s ! k)\<lparr>p_pid := next_pid s, p_type := ty, p_state := PROC_RUNNING, p_node := 0,
      p_owner := owner, p_started := now, p_cpu := 0, p_name := str_copy nm 24\<rparr>"
    obtain slot sc2 where c: "create_task (Some nm) (get_entry ty) sc = (slot, sc2)" by (cases "create_task (Some nm) (get_entry ty) sc")
    have nl: "length nm \<le> 23" by (auto simp: nm_def full_name_def Let_def)
    have r': "if slot < 0 then pid = 0 \<and> s' = set_proc k (p\<lparr>p_state := PROC_UNUSED\<rparr>) (set_stop k False (s\<lparr>next_pid := next_pid s + 1\<rparr>)) \<and> sc' = sc2
        else pid = next_pid s \<and> s' = set_proc k (p\<lparr>p_slot := slot\<rparr>) (set_stop k False (s\<lparr>next_pid := next_pid s + 1\<rparr>)) \<and> sc' = sc2"
      using r Some False c unfolding spawn_local_def dec_def nm_def p_def
      by (auto simp: Let_def split: if_splits)
    note ct = create_task_cases [OF inv False c]
    show ?thesis
    proof (cases "slot < 0")
      case True
      then show ?thesis using r' ct Some by (intro full [of k "p\<lparr>p_state := PROC_UNUSED\<rparr>"]) (simp_all add: in_use_def)
    next
      case pos: False
      with ct obtain i t where i: "slot = int i" "1 < i" "i < MAX_TASKS" "tstate (tasks sc ! i) = TASK_UNUSED"
        "tasks sc2 = (tasks sc)[i := t]" "tstate t = TASK_READY" "entry t = get_entry ty" "task_count sc2 = task_count sc + 1"
        by auto
      have "sched_inv sc2" using create_inv [OF inv, of "Some nm" "get_entry ty"] c by simp
      then show ?thesis
        using pos r' Some False i nl
        by (intro ok [of k "p\<lparr>p_slot := slot\<rparr>" i t]) (simp_all add: p_def nm_def dec_def)
    qed
  qed
qed

lemma spawn_local_inv:
  assumes inv: "proc_inv s sc" and m: "unat (next_pid s) + 1 < 4294967296"
    and r: "spawn_local now ty name owner s sc = Inr (pid, s', sc')"
  shows "proc_inv s' sc'"
proof -
  have si: "sched_inv sc" and ti: "table_inv s" and ht: "\<And>k. k < MAX_PROCS \<Longrightarrow> here (procs s ! k) \<Longrightarrow> has_task sc (procs s ! k)"
    using inv by (auto simp: proc_inv_def)
  have l: "length (procs s) = MAX_PROCS" using ti by (simp add: table_inv_def)
  have htm: "has_task sc q" if "q \<in> set (procs s)" "here q" for q
    using that ht l by (metis in_set_conv_nth)
  from si r show ?thesis
  proof (cases rule: spawn_local_cases)
    case none
    then show ?thesis using inv by simp
  next
    case (full k p)
    have "table_inv (set_stop k False (s\<lparr>next_pid := next_pid s + 1\<rparr>))"
      using table_inv_next [OF ti m] find_free_SomeD [OF full(1)] by (intro table_inv_stop) auto
    then have "proc_inv (set_stop k False (s\<lparr>next_pid := next_pid s + 1\<rparr>)) sc"
      using si ht by (simp add: proc_inv_def)
    then show ?thesis using full by (simp add: proc_inv_dead)
  next
    case (ok k p i t)
    have ne: "p_slot q \<noteq> int i" if "q \<in> set (procs s)" "here q" for q
      using htm [OF that] ok(15) by (auto simp: has_task_def)
    have t: "table_inv s'"
      unfolding ok(4) using ok ne by (intro table_inv_add [OF ti ok(1) m]) auto
    have "has_task sc' q" if q: "q \<in> set (procs s)" "here q" for q
    proof -
      from htm [OF q] obtain j where j: "p_slot q = int j" "1 < j" "j < MAX_TASKS" "alive (tasks sc ! j)"
        "entry (tasks sc ! j) = get_entry (p_type q)" by (auto simp: has_task_def)
      then have "j \<noteq> i" using ne [OF q] by auto
      then show ?thesis using j ok(16) by (auto simp: has_task_def)
    qed
    moreover have "has_task sc' p"
    proof -
      have "length (tasks sc) = MAX_TASKS" using si by (simp add: sched_inv_def)
      then show ?thesis using ok by (auto simp: has_task_def)
    qed
    ultimately show ?thesis
      using t ok(4,20) l by (auto simp: proc_inv_def nth_update_lt)
  qed
qed

lemma set_stop_proc: "set_proc k p (set_stop k b s) = set_stop k b (set_proc k p s)"
  by (simp add: set_proc_def set_stop_def)

text \<open>Killing the local process of an entry frees its task and no other.\<close>

lemma stop_task_spec:
  assumes inv: "sched_inv sc" and p: "has_task sc p"
  obtains i where "p_slot p = int i" "1 < i" "i < MAX_TASKS" "alive (tasks sc ! i)" "entry (tasks sc ! i) = get_entry (p_type p)"
    "tasks (stop_task p sc) = (tasks sc)[i := (tasks sc ! i)\<lparr>tstate := TASK_UNUSED\<rparr>]"
    "task_count (stop_task p sc) = task_count sc - 1" "sched_inv (stop_task p sc)"
proof -
  from p obtain i where i: "p_slot p = int i" "1 < i" "i < MAX_TASKS" "alive (tasks sc ! i)"
    "entry (tasks sc ! i) = get_entry (p_type p)" by (auto simp: has_task_def)
  then show ?thesis
    using kill_task_live [OF inv i(2-4)] by (intro that [of i]) (simp_all add: stop_task_def)
qed

lemma kill_entry_inv:
  assumes inv: "proc_inv s sc" and k: "k < MAX_PROCS" "here (procs s ! k)" and p: "\<not> in_use p"
  shows "proc_inv (set_proc k p (set_stop k True s)) (stop_task (procs s ! k) sc)"
proof -
  have si: "sched_inv sc" and ti: "table_inv s" and ht: "\<And>k. k < MAX_PROCS \<Longrightarrow> here (procs s ! k) \<Longrightarrow> has_task sc (procs s ! k)"
    using inv by (auto simp: proc_inv_def)
  have l: "length (procs s) = MAX_PROCS" using ti by (simp add: table_inv_def)
  have dead: "table_inv (set_proc k p s)" using ti p by (rule table_inv_dead)
  have t: "table_inv (set_proc k p (set_stop k True s))"
    unfolding set_stop_proc using dead by (rule table_inv_stop) (use p k l in simp)
  from si ht [OF k] obtain i where i: "p_slot (procs s ! k) = int i" "1 < i" "i < MAX_TASKS"
    "tasks (stop_task (procs s ! k) sc) = (tasks sc)[i := (tasks sc ! i)\<lparr>tstate := TASK_UNUSED\<rparr>]"
    "sched_inv (stop_task (procs s ! k) sc)" by (rule stop_task_spec)
  have "has_task (stop_task (procs s ! k) sc) (procs s ! j)" if j: "j < MAX_PROCS" "j \<noteq> k" "here (procs s ! j)" for j
  proof -
    have "uniq_keys here p_slot (procs s)" using ti by (simp add: table_inv_def)
    then have "p_slot (procs s ! j) \<noteq> p_slot (procs s ! k)" using j k l by (metis uniq_keysD)
    with ht [OF j(1,3)] i(1) show ?thesis unfolding has_task_def i(4) by auto
  qed
  moreover have "\<not> here p" using p here_in_use by blast
  ultimately show ?thesis using t i(5) l k by (auto simp: proc_inv_def nth_update_lt)
qed

lemma find_entry_lt: "table_inv s \<Longrightarrow> find_idx P (procs s) = Some k \<Longrightarrow> k < MAX_PROCS \<and> P (procs s ! k)"
  using find_idx_SomeD [of P "procs s" k] by (simp add: table_inv_def)

lemma proc_kill_inv:
  assumes inv: "proc_inv s sc" and r: "proc_kill nic pid s sc n = Inr (b, s', sc', n')"
  shows "proc_inv s' sc'"
proof (cases "find_idx (\<lambda>p. p_pid p = pid \<and> in_use p) (procs s)")
  case None
  then show ?thesis using inv r by (simp add: proc_kill_def)
next
  case (Some k)
  have ti: "table_inv s" using inv by (simp add: proc_inv_def)
  have k: "k < MAX_PROCS" "in_use (procs s ! k)" using find_entry_lt [OF ti Some] by auto
  show ?thesis
  proof (cases "p_node (procs s ! k) = 0")
    case True
    then have h: "here (procs s ! k)" using ti k by (auto simp: table_inv_def here_def)
    show ?thesis
      using r Some True kill_entry_inv [OF inv k(1) h, of "(procs s ! k)\<lparr>p_state := PROC_DEAD, p_slot := -1\<rparr>"]
      by (auto simp: proc_kill_def Let_def in_use_def)
  next
    case False
    let ?p = "(procs s ! k)\<lparr>p_state := PROC_EXITING\<rparr>"
    have s': "s' = set_proc k ?p s" "sc' = sc" using r Some False by (auto simp: proc_kill_def Let_def bind_res_Inr)
    have nh: "\<not> here ?p" "\<not> here (procs s ! k)" using False by (auto simp: here_def)
    have "uniq_keys in_use p_pid ((procs s)[k := ?p])"
      using ti k by (intro uniq_keys_update_same) (auto simp: table_inv_def)
    moreover have "uniq_keys here p_slot ((procs s)[k := ?p])"
      using ti nh by (intro uniq_keys_update_dead) (auto simp: table_inv_def)
    ultimately have "table_inv s'"
      using ti k False unfolding s' table_inv_def set_proc_simps by (auto simp: nth_update_lt)
    then show ?thesis
      using inv nh unfolding proc_inv_def s' by (auto simp: nth_update_lt table_inv_def)
  qed
qed

lemma remote_kill_inv:
  assumes inv: "proc_inv s sc"
  shows "proc_inv (fst (on_remote_kill_request pid s sc)) (snd (on_remote_kill_request pid s sc))"
proof (cases "find_idx (\<lambda>p. p_pid p = pid \<and> p_state p = PROC_RUNNING \<and> p_node p = 0) (procs s)")
  case None
  then show ?thesis using inv by (simp add: on_remote_kill_request_def)
next
  case (Some k)
  have ti: "table_inv s" using inv by (simp add: proc_inv_def)
  have k: "k < MAX_PROCS" "here (procs s ! k)" using find_entry_lt [OF ti Some] by (auto simp: here_def)
  show ?thesis
    using Some kill_entry_inv [OF inv k, of "(procs s ! k)\<lparr>p_state := PROC_DEAD\<rparr>"]
    by (simp add: on_remote_kill_request_def in_use_def)
qed

lemma spawn_on_inv:
  assumes inv: "proc_inv s sc" and m: "unat (next_pid s) + 1 < 4294967296"
    and r: "spawn_on nic now name ip s sc n = Inr (pid, s', sc', n')"
  shows "proc_inv s' sc'"
proof (cases "\<not> pr_inited s \<or> parse_type name = 0")
  case True
  then show ?thesis using r inv by (simp add: spawn_on_def Let_def)
next
  case False
  show ?thesis
  proof (cases "ip = 0 \<or> ip = our_ip n")
    case True
    with r False obtain q where "spawn_local now (parse_type name) name 0 s sc = Inr (q, s', sc')"
      by (auto simp: spawn_on_def Let_def bind_res_Inr)
    with inv m show ?thesis by (rule spawn_local_inv)
  next
    case away: False
    show ?thesis
    proof (cases "find_free s")
      case None
      then show ?thesis using r inv False away by (simp add: spawn_on_def Let_def)
    next
      case (Some k)
      define p where "p = (procs s ! k)\<lparr>p_pid := next_pid s, p_type := parse_type name, p_state := PROC_RUNNING, p_node := ip,
        p_owner := our_ip n, p_started := now, p_cpu := 0, p_slot := -1, p_name := str_copy name 16\<rparr>"
      have s': "s' = set_proc k p (s\<lparr>next_pid := next_pid s + 1\<rparr>)" "sc' = sc"
        using r False away Some by (auto simp: spawn_on_def Let_def bind_res_Inr p_def)
      have ti: "table_inv s" using inv by (simp add: proc_inv_def)
      have b: "set_stop k (stop_flags s ! k) (s\<lparr>next_pid := next_pid s + 1\<rparr>) = s\<lparr>next_pid := next_pid s + 1\<rparr>"
        by (simp add: set_stop_def)
      have nh: "\<not> here p" using away by (simp add: p_def here_def)
      have "table_inv s'"
        unfolding s' using table_inv_add [OF ti Some m, of p "stop_flags s ! k"] away nh unfolding b
        by (simp add: p_def)
      then show ?thesis using inv nh unfolding proc_inv_def s' by (auto simp: nth_update_lt table_inv_def)
    qed
  qed
qed

lemma body_turn_inv:
  assumes inv: "proc_inv s sc" and k: "k < MAX_PROCS" "here (procs s ! k)"
  shows "proc_inv (snd (snd (body_turn ty k n s))) sc \<and> \<not> fst (body_turn ty k n s)"
proof -
  have ti: "table_inv s" using inv by (simp add: proc_inv_def)
  then have ns: "\<not> stop_flags s ! k" "length (procs s) = MAX_PROCS" using k by (auto simp: table_inv_def here_def in_use_def)
  have "\<exists>c. snd (snd (body_turn ty k n s)) = set_proc k ((procs s ! k)\<lparr>p_cpu := c\<rparr>) s \<and> \<not> fst (body_turn ty k n s)"
    using ns by (cases "ty = TYPE_COUNTER"; cases "ty = TYPE_STRESS") (auto simp: body_turn_def Let_def)
  then obtain c where c: "snd (snd (body_turn ty k n s)) = set_proc k ((procs s ! k)\<lparr>p_cpu := c\<rparr>) s" "\<not> fst (body_turn ty k n s)"
    by blast
  let ?p = "(procs s ! k)\<lparr>p_cpu := c\<rparr>"
  have same: "in_use ?p = in_use (procs s ! k)" "here ?p = here (procs s ! k)" "has_task sc ?p = has_task sc (procs s ! k)"
    by (simp_all add: in_use_def here_def has_task_def)
  have "uniq_keys in_use p_pid ((procs s)[k := ?p])" "uniq_keys here p_slot ((procs s)[k := ?p])"
    using ti same by (auto simp: table_inv_def intro!: uniq_keys_update_same)
  then have "table_inv (set_proc k ?p s)"
    using ti ns same unfolding table_inv_def set_proc_simps by (auto simp: nth_update_lt)
  then show ?thesis using inv ns same c unfolding proc_inv_def by (auto simp: nth_update_lt)
qed

lemma status_turn_inv: "proc_inv s sc \<Longrightarrow> proc_inv (status_turn s) sc"
proof -
  assume inv: "proc_inv s sc"
  let ?f = "\<lambda>p. if p_state p = PROC_DEAD \<and> p_node p = 0 then p\<lparr>p_state := PROC_UNUSED, p_pid := 0\<rparr> else p"
  have f: "in_use (?f p) = in_use p" "here (?f p) = here p" "in_use p \<Longrightarrow> ?f p = p" "here p \<Longrightarrow> ?f p = p" for p
    by (auto simp: in_use_def here_def)
  have "uniq_keys in_use p_pid (map ?f (procs s))" "uniq_keys here p_slot (map ?f (procs s))"
    using inv f by (auto simp: proc_inv_def table_inv_def intro!: uniq_keys_map_kill)
  then show ?thesis
    using inv f unfolding proc_inv_def table_inv_def status_turn_def by auto
qed

lemma cpu_inv:
  assumes inv: "proc_inv s sc"
  shows "proc_inv (set_proc k ((procs s ! k)\<lparr>p_cpu := c\<rparr>) s) sc"
proof (cases "k < MAX_PROCS")
  case False
  have "length (procs s) = MAX_PROCS" using inv by (simp add: proc_inv_def table_inv_def)
  with False have "set_proc k ((procs s ! k)\<lparr>p_cpu := c\<rparr>) s = s" by (simp add: set_proc_def list_update_beyond)
  with inv show ?thesis by simp
next
  case k: True
  have ti: "table_inv s" using inv by (simp add: proc_inv_def)
  then have l: "length (procs s) = MAX_PROCS" by (simp add: table_inv_def)
  let ?p = "(procs s ! k)\<lparr>p_cpu := c\<rparr>"
  have same: "in_use ?p = in_use (procs s ! k)" "here ?p = here (procs s ! k)" "has_task sc ?p = has_task sc (procs s ! k)"
    by (simp_all add: in_use_def here_def has_task_def)
  have "uniq_keys in_use p_pid ((procs s)[k := ?p])" "uniq_keys here p_slot ((procs s)[k := ?p])"
    using ti same by (auto simp: table_inv_def intro!: uniq_keys_update_same)
  then have "table_inv (set_proc k ?p s)"
    using ti l same unfolding table_inv_def set_proc_simps by (auto simp: nth_update_lt)
  then show ?thesis using inv l same unfolding proc_inv_def by (auto simp: nth_update_lt)
qed

text \<open>A turn of a body changes the time of its entry, or finds it marked to stop and leaves it dead.\<close>

lemma body_any_inv: "proc_inv s sc \<Longrightarrow> proc_inv (snd (snd (body_turn ty k n s))) sc"
  using cpu_inv [of s sc k] proc_inv_dead [of s sc "(procs s ! k)\<lparr>p_state := PROC_DEAD\<rparr>" k]
  by (simp add: body_turn_def Let_def in_use_def)

lemma died_inv: "proc_inv s sc \<Longrightarrow> proc_inv (on_remote_died pid ip s) sc"
  using proc_inv_dead [of s sc "p\<lparr>p_state := PROC_DEAD\<rparr>" for p]
  by (auto simp: on_remote_died_def in_use_def split: option.split)

lemma status_msg_inv: "proc_inv s sc \<Longrightarrow> proc_inv (on_remote_status pid ip st c s) sc"
  using proc_inv_dead [of s sc "p\<lparr>p_state := PROC_DEAD\<rparr>" for p] cpu_inv [of s sc]
  by (auto simp: on_remote_status_def Let_def in_use_def split: option.split)

section \<open>Runs of the process manager\<close>

datatype proc_event =
    PSpawn u64 string u32
  | PKill u32
  | PRemoteSpawn u64 u32 u8 u32
  | PRemoteKill u32
  | PRemoteDied u32 u32
  | PRemoteStatus u32 u32 proc_state u64
  | PBody nat u64
  | PStatus
  | PTick u64 u64
  | PYield u64
  | PSleep u64 u32 u64
  | PExit u64

text \<open>
  What can happen. Idle neither sleeps nor returns, and the boot task does not return. A task returns when its body has seen
  the stop flag of its process, whose entry is dead by then; that a new process has meanwhile got the slot of a task
  that was killed while it ran and has not given up the processor yet is left out.
\<close>

definition proc_can :: "proc_event \<Rightarrow> ptable \<times> sched \<times> net \<Rightarrow> bool" where
  "proc_can ev st =
     (let (s, sc, n) = st in
      case ev of
        PBody k c \<Rightarrow> k < MAX_PROCS
      | PSleep now ms sp \<Rightarrow> cur sc \<noteq> idle_id sc
      | PExit sp \<Rightarrow> cur sc \<noteq> idle_id sc \<and> cur sc \<noteq> 0 \<and> (\<forall>p\<in>set (procs s). here p \<longrightarrow> p_slot p \<noteq> int (cur sc))
      | _ \<Rightarrow> True)"

definition proc_step ::
  "(u8 list \<Rightarrow> bool) \<Rightarrow> ptable \<times> sched \<times> net \<Rightarrow> proc_event \<Rightarrow> (ptable \<times> sched \<times> net) res" where
  "proc_step nic st ev =
     (let (s, sc, n) = st in
      case ev of
        PSpawn now name ip \<Rightarrow> bind_res (spawn_on nic now name ip s sc n) (\<lambda>(pid, s, sc, n). Inr (s, sc, n))
      | PKill pid \<Rightarrow> bind_res (proc_kill nic pid s sc n) (\<lambda>(ok, s, sc, n). Inr (s, sc, n))
      | PRemoteSpawn now ip ty rpid \<Rightarrow> on_remote_spawn_request nic now ip ty rpid s sc n
      | PRemoteKill pid \<Rightarrow> (let (s, sc) = on_remote_kill_request pid s sc in Inr (s, sc, n))
      | PRemoteDied pid ip \<Rightarrow> Inr (on_remote_died pid ip s, sc, n)
      | PRemoteStatus pid ip state cpu \<Rightarrow> Inr (on_remote_status pid ip state cpu s, sc, n)
      | PBody k c \<Rightarrow> Inr (snd (snd (body_turn (p_type (procs s ! k)) k c s)), sc, n)
      | PStatus \<Rightarrow> Inr (status_turn s, sc, n)
      | PTick now sp \<Rightarrow> Inr (s, snd (timer_tick now sp sc), n)
      | PYield sp \<Rightarrow> Inr (s, snd (sched_yield sp sc), n)
      | PSleep now ms sp \<Rightarrow> Inr (s, snd (sleep_ms now ms sp sc), n)
      | PExit sp \<Rightarrow> Inr (s, snd (task_exit sp sc), n))"

text \<open>A step that faults has no state after it.\<close>

definition proc_next ::
  "(u8 list \<Rightarrow> bool) \<Rightarrow> ptable \<times> sched \<times> net \<Rightarrow> proc_event \<Rightarrow> ptable \<times> sched \<times> net \<Rightarrow> bool" where
  "proc_next nic st ev st' \<longleftrightarrow> proc_can ev st \<and> proc_step nic st ev = Inr st'"

fun spawning :: "proc_event \<Rightarrow> bool" where
  "spawning (PSpawn now name ip) = True"
| "spawning (PRemoteSpawn now ip ty rpid) = True"
| "spawning _ = False"

fun gives_up :: "proc_event \<Rightarrow> bool" where
  "gives_up (PSleep now ms sp) = True"
| "gives_up (PExit sp) = True"
| "gives_up _ = False"

lemma pid_room: "(m :: u32) + 1 \<noteq> 0 \<Longrightarrow> unat m + 1 < 4294967296"
proof (rule ccontr)
  assume a: "m + 1 \<noteq> 0" "\<not> unat m + 1 < 4294967296"
  have "unat m < 2 ^ LENGTH(32)" by (rule unsigned_less)
  with a(2) have "unat m = 4294967295" by simp
  then have "m = of_nat 4294967295" by (metis of_nat_unat ucast_id)
  with a(1) show False by simp
qed

lemma yield_proc_inv: "proc_inv s sc \<Longrightarrow> proc_inv s (snd (sched_yield sp sc))"
proof -
  assume p: "proc_inv s sc"
  then have i: "sched_inv sc" by (simp add: proc_inv_def)
  then have y: "sched_yield sp sc = do_schedule sp sc" by (simp add: sched_yield_def sched_inv_def)
  show ?thesis
    unfolding y using p do_schedule_inv [OF i] by (rule proc_inv_sched) (rule do_schedule_keeps [OF i])
qed

lemma tick_proc_inv: "proc_inv s sc \<Longrightarrow> proc_inv s (snd (timer_tick now sp sc))"
proof -
  assume p: "proc_inv s sc"
  then have i: "sched_inv sc" by (simp add: proc_inv_def)
  show ?thesis using p timer_tick_inv [OF i] by (rule proc_inv_sched) (rule timer_tick_keeps [OF i])
qed

text \<open>A step in which the running task does not give itself up keeps the full invariant, the exact task count included.\<close>

lemma proc_step_inv:
  assumes inv: "proc_inv s sc" and m: "spawning ev \<Longrightarrow> unat (next_pid s) + 1 < 4294967296" and g: "\<not> gives_up ev"
    and r: "proc_step nic (s, sc, n) ev = Inr (s', sc', n')"
  shows "proc_inv s' sc'"
proof (cases ev)
  case (PSpawn now name ip)
  then show ?thesis using r m spawn_on_inv [OF inv] by (auto simp: proc_step_def bind_res_Inr)
next
  case (PKill pid)
  then show ?thesis using r proc_kill_inv [OF inv] by (auto simp: proc_step_def bind_res_Inr)
next
  case (PRemoteSpawn now ip ty rpid)
  then show ?thesis
    using r m spawn_local_inv [OF inv] by (auto simp: proc_step_def on_remote_spawn_request_def bind_res_Inr)
next
  case (PRemoteKill pid)
  then show ?thesis using r remote_kill_inv [OF inv, of pid] by (auto simp: proc_step_def split: prod.splits)
qed (use r g inv status_turn_inv [OF inv] tick_proc_inv [OF inv] yield_proc_inv [OF inv] body_any_inv [OF inv] died_inv [OF inv]
       status_msg_inv [OF inv] in \<open>auto simp: proc_step_def\<close>)

lemma proc_init_inv:
  assumes "sched_inv sc" "length (procs s) = MAX_PROCS" "length (stop_flags s) = MAX_PROCS"
  shows "proc_inv (fst (proc_init s sc)) (snd (proc_init s sc))"
  using assms create_inv [OF assms(1)]
  by (auto simp: proc_inv_def table_inv_def proc_init_def uniq_keys_def in_use_def here_def)

text \<open>
  The same without the task count, which a kill of the running task can leave too low: nothing the process manager
  does looks at it.
\<close>

definition proc_core :: "ptable \<Rightarrow> sched \<Rightarrow> bool" where
  "proc_core s sc \<longleftrightarrow> proc_inv s (sc\<lparr>task_count := live sc\<rparr>)"

lemma proc_core_iff:
  "proc_core s sc \<longleftrightarrow> sched_core sc \<and> table_inv s \<and> (\<forall>k<MAX_PROCS. here (procs s ! k) \<longrightarrow> has_task sc (procs s ! k))"
  by (simp add: proc_core_def proc_inv_def core_fixed has_task_def)

lemma proc_inv_core: "proc_inv s (sc\<lparr>task_count := c\<rparr>) \<Longrightarrow> proc_core s sc"
  by (simp add: proc_core_iff proc_inv_def inv_core has_task_def)

lemma create_task_count: "\<exists>c'. create_task nm e (sc\<lparr>task_count := c\<rparr>) = map_prod id (\<lambda>t. t\<lparr>task_count := c'\<rparr>) (create_task nm e sc)"
proof (cases "inited sc \<and> e \<noteq> 0 \<and> find_idx (\<lambda>t. tstate t = TASK_UNUSED) (drop 1 (tasks sc)) \<noteq> None")
  case True
  then show ?thesis
    by (intro exI [of _ "c + 1"]) (auto simp: create_task_def create_task_internal_def Let_def stack_top_def intro!: sched.equality)
next
  case False
  then show ?thesis by (intro exI [of _ c]) (auto simp: create_task_def create_task_internal_def)
qed

lemma kill_task_count: "\<exists>c'. snd (kill_task i (sc\<lparr>task_count := c\<rparr>)) = (snd (kill_task i sc))\<lparr>task_count := c'\<rparr>"
  by (cases "i \<ge> MAX_TASKS \<or> i = 0 \<or> i = idle_id sc \<or> tstate (tasks sc ! i) = TASK_UNUSED")
    (auto simp: kill_task_def set_task_count)

lemma stop_task_count: "\<exists>c'. stop_task p (sc\<lparr>task_count := c\<rparr>) = (stop_task p sc)\<lparr>task_count := c'\<rparr>"
  using kill_task_count by (auto simp: stop_task_def)

lemma spawn_local_count:
  assumes "spawn_local now ty nm ow s sc = Inr (pid, s', sc')"
  shows "\<exists>c'. spawn_local now ty nm ow s (sc\<lparr>task_count := c\<rparr>) = Inr (pid, s', sc'\<lparr>task_count := c'\<rparr>)"
proof -
  let ?nm = "full_name nm (itoa (ucast (next_pid s)))"
  obtain c' where c: "create_task (Some ?nm) (get_entry ty) (sc\<lparr>task_count := c\<rparr>) =
      map_prod id (\<lambda>t. t\<lparr>task_count := c'\<rparr>) (create_task (Some ?nm) (get_entry ty) sc)"
    using create_task_count by blast
  show ?thesis
    using assms c
    by (cases "create_task (Some ?nm) (get_entry ty) sc") (auto simp: spawn_local_def Let_def split: option.splits if_splits)
qed

lemma spawn_on_count:
  assumes "spawn_on nic now nm ip s sc n = Inr (pid, s', sc', n')"
  shows "\<exists>c'. spawn_on nic now nm ip s (sc\<lparr>task_count := c\<rparr>) n = Inr (pid, s', sc'\<lparr>task_count := c'\<rparr>, n')"
proof (cases "pr_inited s \<and> parse_type nm \<noteq> 0 \<and> (ip = 0 \<or> ip = our_ip n)")
  case True
  then have "spawn_local now (parse_type nm) nm 0 s sc = Inr (pid, s', sc')" "n' = n"
    using assms by (auto simp: spawn_on_def Let_def bind_res_Inr)
  with True spawn_local_count [where c = c] show ?thesis by (fastforce simp: spawn_on_def Let_def)
next
  case False
  with assms show ?thesis
    by (intro exI [of _ c]) (auto simp: spawn_on_def Let_def bind_res_Inr split: option.splits if_splits)
qed

lemma proc_step_count:
  assumes "proc_step nic (s, sc, n) ev = Inr (s', sc', n')" "\<not> gives_up ev" "inited sc"
  shows "\<exists>c'. proc_step nic (s, sc\<lparr>task_count := c\<rparr>, n) ev = Inr (s', sc'\<lparr>task_count := c'\<rparr>, n')"
proof (cases ev)
  case (PSpawn now nm ip)
  then obtain pid where "spawn_on nic now nm ip s sc n = Inr (pid, s', sc', n')" using assms(1) by (auto simp: proc_step_def bind_res_Inr)
  from spawn_on_count [OF this, of c] PSpawn show ?thesis by (auto simp: proc_step_def)
next
  case (PKill pid)
  then show ?thesis
    using assms(1) stop_task_count [where sc = sc and c = c]
    by (cases "find_idx (\<lambda>p. p_pid p = pid \<and> in_use p) (procs s)")
      (auto simp: proc_step_def bind_res_Inr proc_kill_def Let_def split: if_splits)
next
  case (PRemoteSpawn now ip ty rpid)
  then obtain pid ok where l: "spawn_local now ty (proc_type_name ty) ip s sc = Inr (pid, s', sc')"
    "cluster_send nic ip (spawned_msg rpid pid) n = Inr (ok, n')"
    using assms(1) by (auto simp: proc_step_def on_remote_spawn_request_def bind_res_Inr)
  from spawn_local_count [OF l(1), of c] l(2) PRemoteSpawn show ?thesis
    by (auto simp: proc_step_def on_remote_spawn_request_def)
next
  case (PRemoteKill pid)
  then show ?thesis
    using assms(1) stop_task_count [where sc = sc and c = c]
    by (cases "find_idx (\<lambda>p. p_pid p = pid \<and> p_state p = PROC_RUNNING \<and> p_node p = 0) (procs s)")
      (auto simp: proc_step_def on_remote_kill_request_def)
qed (use assms in \<open>auto simp: proc_step_def timer_tick_count do_schedule_count sched_yield_def\<close>)

lemma sleep_core:
  assumes p: "proc_core s sc" and n: "cur sc \<noteq> idle_id sc"
  shows "proc_core s (snd (sleep_ms now ms sp sc))"
proof -
  let ?t = "(tasks sc ! cur sc)\<lparr>wake_at := now + ucast ms, tstate := TASK_SLEEPING\<rparr>"
  let ?u = "set_task (cur sc) ?t sc"
  have c: "sched_core sc" "idle_id sc = 1" "inited sc" "length (tasks sc) = MAX_TASKS"
    using p by (simp_all add: proc_core_iff sched_core_def)
  have u: "sched_core ?u" using c n by (intro core_set) auto
  have "has_task ?u q" if "has_task sc q" for q
    using that c(4) unfolding has_task_def by (auto simp: nth_update_lt)
  then have "proc_core s ?u" using p u by (auto simp: proc_core_iff)
  then have "proc_inv s (snd (sched_yield sp (?u\<lparr>task_count := live ?u\<rparr>)))"
    unfolding proc_core_def by (rule yield_proc_inv)
  then have "proc_core s (snd (do_schedule sp ?u))"
    using c(3) by (intro proc_inv_core [where c = "live ?u"]) (simp add: sched_yield_def do_schedule_count)
  then show ?thesis using c(3) by (simp add: sleep_ms_def sched_yield_def)
qed

lemma exit_core:
  assumes p: "proc_core s sc" and n: "cur sc \<noteq> idle_id sc" "cur sc \<noteq> 0" "\<forall>q\<in>set (procs s). here q \<longrightarrow> p_slot q \<noteq> int (cur sc)"
  shows "proc_core s (snd (task_exit sp sc))"
proof -
  let ?u = "(set_task (cur sc) ((tasks sc ! cur sc)\<lparr>tstate := TASK_DEAD\<rparr>) sc)
    \<lparr>task_count := (if task_count sc > 0 then task_count sc - 1 else task_count sc)\<rparr>"
  have c: "sched_core sc" "idle_id sc = 1" "inited sc" "length (tasks sc) = MAX_TASKS" "length (procs s) = MAX_PROCS"
    using p by (simp_all add: proc_core_iff sched_core_def table_inv_def)
  have u: "sched_core ?u" using c n by (simp add: core_set)
  have "has_task ?u (procs s ! k)" if k: "k < MAX_PROCS" "here (procs s ! k)" for k
  proof -
    have "p_slot (procs s ! k) \<noteq> int (cur sc)" using n(3) k c(5) by (metis nth_mem)
    moreover have "has_task sc (procs s ! k)" using p k by (simp add: proc_core_iff)
    ultimately show ?thesis using c(4) unfolding has_task_def by (auto simp: nth_update_lt)
  qed
  then have "proc_core s ?u" using p u by (simp add: proc_core_iff)
  then have "proc_inv s (snd (sched_yield sp (?u\<lparr>task_count := live ?u\<rparr>)))"
    unfolding proc_core_def by (rule yield_proc_inv)
  then have "proc_core s (snd (do_schedule sp ?u))"
    using c(3) by (intro proc_inv_core [where c = "live ?u"]) (simp add: sched_yield_def do_schedule_count)
  then show ?thesis using c(3) by (simp add: task_exit_def sched_yield_def)
qed

lemma proc_next_core:
  assumes p: "proc_core s sc" and m: "spawning ev \<Longrightarrow> unat (next_pid s) + 1 < 4294967296"
    and n: "proc_next nic (s, sc, n) ev (s', sc', n')"
  shows "proc_core s' sc'"
proof (cases "gives_up ev")
  case True
  then show ?thesis
    using n sleep_core [OF p] exit_core [OF p] by (cases ev) (auto simp: proc_next_def proc_can_def proc_step_def)
next
  case False
  have r: "proc_step nic (s, sc, n) ev = Inr (s', sc', n')" using n by (simp add: proc_next_def)
  have "inited sc" using p by (simp add: proc_core_iff sched_core_def)
  from proc_step_count [OF r False this] obtain c' where
    "proc_step nic (s, sc\<lparr>task_count := live sc\<rparr>, n) ev = Inr (s', sc'\<lparr>task_count := c'\<rparr>, n')" by blast
  from proc_step_inv [OF p [unfolded proc_core_def] m False this] show ?thesis by (rule proc_inv_core)
qed

text \<open>Process ids are used up one by one.\<close>

lemma spawn_local_pid: "spawn_local now ty nm ow s sc = Inr (pid, s', sc') \<Longrightarrow> next_pid s' = next_pid s \<or> next_pid s' = next_pid s + 1"
  by (auto simp: spawn_local_def Let_def split: option.splits if_splits prod.splits)

lemma proc_step_pid:
  "proc_step nic (s, sc, n) ev = Inr (s', sc', n') \<Longrightarrow> next_pid s' = next_pid s \<or> spawning ev \<and> next_pid s' = next_pid s + 1"
  by (cases ev)
    (auto simp: proc_step_def bind_res_Inr spawn_on_def on_remote_spawn_request_def proc_kill_def on_remote_kill_request_def
      on_remote_died_def on_remote_status_def body_turn_def status_turn_def Let_def
      dest: spawn_local_pid split: option.splits if_splits)

lemma proc_trace_core:
  "trace (proc_next nic) st evs st' \<Longrightarrow> proc_core (fst st) (fst (snd st)) \<Longrightarrow>
   unat (next_pid (fst st)) + length (filter spawning evs) < 4294967296 \<Longrightarrow> proc_core (fst st') (fst (snd st'))"
proof (induction rule: trace.induct)
  case (trace_Cons st ev st1 evs st')
  obtain s sc n s1 sc1 n1 where st: "st = (s, sc, n)" "st1 = (s1, sc1, n1)" by (metis surj_pair)
  have n: "proc_next nic (s, sc, n) ev (s1, sc1, n1)" using trace_Cons.hyps(1) by (simp add: st)
  have "unat (next_pid s1) + length (filter spawning evs) < 4294967296"
    using proc_step_pid [of nic s sc n ev s1 sc1 n1] n trace_Cons.prems(2) pid_next [of "next_pid s"]
    by (auto simp: proc_next_def st split: if_splits)
  moreover have "proc_core s1 sc1"
    using trace_Cons.prems by (intro proc_next_core [OF _ _ n]) (auto simp: st split: if_splits)
  ultimately show ?case using trace_Cons.IH by (simp add: st)
qed simp

text \<open>C18: From boot, after any sequence of local and remote spawns, kills, body turns, reports, clean-ups, timer ticks, yields,
  sleeps and task ends in which nothing overruns a buffer, fewer than 2^32 - 1 spawns are asked for and no task returns while its
  process still runs (a body loops until its stop flag is set, and then the entry is dead), any two
  entries in use have different process ids, and every process that runs here has a scheduler task of its own, alive and started
  at the entry of its type, and is not marked to stop.\<close>

theorem proc_run_inv:
  assumes "length (procs s0) = MAX_PROCS" "length (stop_flags s0) = MAX_PROCS"
    and "trace (proc_next nic) (fst (proc_init s0 (sched_init sc0)), snd (proc_init s0 (sched_init sc0)), n0) evs (s, sc, n)"
    and "length (filter spawning evs) < 2 ^ 32 - 1"
  shows "(\<forall>j k. j < MAX_PROCS \<and> k < MAX_PROCS \<and> in_use (procs s ! j) \<and> in_use (procs s ! k) \<and>
            p_pid (procs s ! j) = p_pid (procs s ! k) \<longrightarrow> j = k) \<and>
    (\<forall>k. k < MAX_PROCS \<and> p_state (procs s ! k) = PROC_RUNNING \<and> p_node (procs s ! k) = 0 \<longrightarrow>
       (\<exists>i. p_slot (procs s ! k) = int i \<and> 1 < i \<and> i < MAX_TASKS \<and>
            tstate (tasks sc ! i) \<in> {TASK_READY, TASK_RUNNING, TASK_SLEEPING} \<and>
            entry (tasks sc ! i) = get_entry (p_type (procs s ! k))) \<and> \<not> stop_flags s ! k) \<and>
    (\<forall>j k. j < MAX_PROCS \<and> k < MAX_PROCS \<and> p_state (procs s ! j) = PROC_RUNNING \<and> p_node (procs s ! j) = 0 \<and>
       p_state (procs s ! k) = PROC_RUNNING \<and> p_node (procs s ! k) = 0 \<and> p_slot (procs s ! j) = p_slot (procs s ! k) \<longrightarrow> j = k)"
proof -
  let ?st = "(fst (proc_init s0 (sched_init sc0)), snd (proc_init s0 (sched_init sc0)), n0)"
  have "proc_inv (fst ?st) (fst (snd ?st))" using proc_init_inv [OF sched_init_inv assms(1,2)] by simp
  then have "proc_core (fst ?st) (fst (snd ?st))" by (auto simp: proc_core_iff proc_inv_def inv_core)
  with proc_trace_core [OF assms(3)] assms(4) have "proc_core s sc" by (simp add: proc_init_def)
  then have ti: "table_inv s" and ht: "\<And>k. k < MAX_PROCS \<Longrightarrow> here (procs s ! k) \<Longrightarrow> has_task sc (procs s ! k)"
    by (simp_all add: proc_core_iff)
  have u: "uniq_keys in_use p_pid (procs s)" "uniq_keys here p_slot (procs s)" "length (procs s) = MAX_PROCS"
    using ti by (simp_all add: table_inv_def)
  show ?thesis
  proof (intro conjI allI impI; elim conjE)
    show "j = k" if "j < MAX_PROCS" "k < MAX_PROCS" "in_use (procs s ! j)" "in_use (procs s ! k)"
      "p_pid (procs s ! j) = p_pid (procs s ! k)" for j k
      using uniq_keysD [OF u(1), of j k] that u(3) by simp
    show "j = k" if "j < MAX_PROCS" "k < MAX_PROCS" "p_state (procs s ! j) = PROC_RUNNING" "p_node (procs s ! j) = 0"
      "p_state (procs s ! k) = PROC_RUNNING" "p_node (procs s ! k) = 0" "p_slot (procs s ! j) = p_slot (procs s ! k)" for j k
      using uniq_keysD [OF u(2), of j k] that u(3) by (simp add: here_def)
    fix k
    assume k: "k < MAX_PROCS" "p_state (procs s ! k) = PROC_RUNNING" "p_node (procs s ! k) = 0"
    then show "\<exists>i. p_slot (procs s ! k) = int i \<and> 1 < i \<and> i < MAX_TASKS \<and>
            tstate (tasks sc ! i) \<in> {TASK_READY, TASK_RUNNING, TASK_SLEEPING} \<and>
            entry (tasks sc ! i) = get_entry (p_type (procs s ! k))"
      using ht [of k] by (simp add: has_task_def here_def)
    show "\<not> stop_flags s ! k" using k ti by (simp add: table_inv_def in_use_def)
  qed
qed

definition ptable_demo :: ptable where
  "ptable_demo = \<lparr>procs = replicate MAX_PROCS \<lparr>p_pid = 0, p_type = 0, p_state = PROC_UNUSED, p_node = 0, p_owner = 0,
     p_name = [], p_started = 0, p_cpu = 0, p_slot = -1\<rparr>, next_pid = 1, pr_inited = True,
     stop_flags = replicate MAX_PROCS False, spawn_rr = 0\<rparr>"

definition boot_demo :: "ptable \<times> sched" where
  "boot_demo = proc_init ptable_demo (sched_init sched_zero)"

lemma boot_demo_inv: "proc_inv (fst boot_demo) (snd boot_demo)"
  unfolding boot_demo_def by (rule proc_init_inv [OF sched_init_inv]) (simp_all add: ptable_demo_def)

lemma boot_demo_spawn:
  "case spawn_local 5 TYPE_COUNTER ''counter'' 0 (fst boot_demo) (snd boot_demo) of
     Inr (pid, s, sc) \<Rightarrow> pid = 1 \<and> map p_pid (procs s) = 1 # replicate 15 0 | Inl _ \<Rightarrow> False"
  by code_simp

text \<open>Spawning and killing are inverse on the scheduler: a local spawn that returns a process id takes a free table
  entry and one unused task slot, starts the entry of its type there and touches no other process or task;
  killing that id then succeeds, frees exactly that slot, restores the task count, and leaves a dead entry.\<close>

theorem spawn_kill:
  assumes inv: "proc_inv s sc" and r: "spawn_local now ty name owner s sc = Inr (pid, s', sc')" and pid: "pid \<noteq> 0"
    and m: "unat (next_pid s) + 1 < 4294967296"
  shows "\<exists>k i s'' sc''. k < MAX_PROCS \<and> 1 < i \<and> i < MAX_TASKS \<and> \<not> in_use (procs s ! k) \<and> tstate (tasks sc ! i) = TASK_UNUSED \<and>
    p_pid (procs s' ! k) = pid \<and> p_type (procs s' ! k) = ty \<and> p_state (procs s' ! k) = PROC_RUNNING \<and> p_owner (procs s' ! k) = owner \<and>
    p_slot (procs s' ! k) = int i \<and> tstate (tasks sc' ! i) = TASK_READY \<and> entry (tasks sc' ! i) = get_entry ty \<and>
    (\<forall>j. j \<noteq> k \<longrightarrow> procs s' ! j = procs s ! j) \<and> (\<forall>j. j \<noteq> i \<longrightarrow> tasks sc' ! j = tasks sc ! j) \<and>
    proc_kill nic pid s' sc' n = Inr (True, s'', sc'', n) \<and>
    p_state (procs s'' ! k) = PROC_DEAD \<and> (\<forall>j. j \<noteq> k \<longrightarrow> procs s'' ! j = procs s ! j) \<and>
    tstate (tasks sc'' ! i) = TASK_UNUSED \<and> (\<forall>j. j \<noteq> i \<longrightarrow> tasks sc'' ! j = tasks sc ! j) \<and> task_count sc'' = task_count sc"
proof -
  have si: "sched_inv sc" and ti: "table_inv s" using inv by (auto simp: proc_inv_def)
  have l: "length (procs s) = MAX_PROCS" "length (tasks sc) = MAX_TASKS" using ti si by (simp_all add: table_inv_def sched_inv_def)
  have inv': "proc_inv s' sc'" by (rule spawn_local_inv [OF inv m r])
  from si r show ?thesis
  proof (cases rule: spawn_local_cases)
    case (ok k p i t)
    have k: "k < MAX_PROCS" "\<not> in_use (procs s ! k)" using find_free_SomeD [OF ok(1)] l by auto
    have pk: "procs s' ! k = p" "length (procs s') = MAX_PROCS" "\<And>j. j \<noteq> k \<Longrightarrow> procs s' ! j = procs s ! j"
      using k l by (simp_all add: ok(4))
    have uq: "uniq_keys in_use p_pid (procs s')" using inv' by (simp add: proc_inv_def table_inv_def)
    have iu: "in_use p" "here p" using ok by (simp_all add: in_use_def here_def)
    have f: "find_idx (\<lambda>p. p_pid p = pid \<and> in_use p) (procs s') = Some k"
      using k pk iu ok(5) uq by (intro find_idx_only) (auto dest: uniq_keysD)
    let ?s'' = "set_proc k (p\<lparr>p_state := PROC_DEAD, p_slot := -1\<rparr>) (set_stop k True s')"
    have kill: "proc_kill nic pid s' sc' n = Inr (True, ?s'', stop_task p sc', n)"
      using f pk ok(8) by (simp add: proc_kill_def Let_def)
    have ht: "has_task sc' p" using inv' k pk(1) iu by (auto simp: proc_inv_def)
    from ok(20) ht obtain i' where i': "p_slot p = int i'"
      "tasks (stop_task p sc') = (tasks sc')[i' := (tasks sc' ! i')\<lparr>tstate := TASK_UNUSED\<rparr>]"
      "task_count (stop_task p sc') = task_count sc' - 1" by (rule stop_task_spec)
    then have "i' = i" using ok(12) by simp
    with i' have st: "tasks (stop_task p sc') = (tasks sc)[i := t\<lparr>tstate := TASK_UNUSED\<rparr>]" "task_count (stop_task p sc') = task_count sc"
      using ok(14,16,19) l by simp_all
    show ?thesis
      by (rule exI [of _ k], rule exI [of _ i], rule exI [of _ ?s''], rule exI [of _ "stop_task p sc'"])
        (use ok k pk l kill st in auto)
  qed (use pid in simp_all)
qed

text \<open>A node with a counter of its own, process 1, runs a worker, its process 2, for a node that calls it process 1.
  That node then asks for the death of process 1.\<close>

definition wrong_kill_demo :: ptable where
  "wrong_kill_demo =
     (case spawn_local 5 TYPE_COUNTER ''counter'' 0 (fst boot_demo) (snd boot_demo) of
        Inl _ \<Rightarrow> fst boot_demo
      | Inr (_, s, sc) \<Rightarrow>
          (case on_remote_spawn_request (\<lambda>_. True) 6 0x0100000A TYPE_WORKER 1 s sc (host 2) of
             Inl _ \<Rightarrow> s
           | Inr (s, sc, _) \<Rightarrow> fst (on_remote_kill_request 1 s sc)))"

text \<open>A node that spawns a process elsewhere cannot name it there: the remote table does not depend on the id in
  the request, so a kill request for that id, which is all \<^verbatim>\<open>kill\<close> sends, either hits nothing or kills a
  process of the remote node that happens to have this id, as in the case shown.\<close>

theorem remote_kill_by_wrong_id:
  "(\<forall>r1 r2 s1 sc1 n1 s2 sc2 n2.
      on_remote_spawn_request nic now ip ty r1 s sc n = Inr (s1, sc1, n1) \<and>
      on_remote_spawn_request nic now ip ty r2 s sc n = Inr (s2, sc2, n2) \<longrightarrow> s1 = s2 \<and> sc1 = sc2) \<and>
   map (\<lambda>p. (p_pid p, p_owner p, p_state p)) (take 2 (procs wrong_kill_demo)) =
     [(1, 0, PROC_DEAD), (2, 0x0100000A, PROC_RUNNING)]"
proof
  show "\<forall>r1 r2 s1 sc1 n1 s2 sc2 n2.
      on_remote_spawn_request nic now ip ty r1 s sc n = Inr (s1, sc1, n1) \<and>
      on_remote_spawn_request nic now ip ty r2 s sc n = Inr (s2, sc2, n2) \<longrightarrow> s1 = s2 \<and> sc1 = sc2"
    by (auto simp: on_remote_spawn_request_def bind_res_Inr)
  show "map (\<lambda>p. (p_pid p, p_owner p, p_state p)) (take 2 (procs wrong_kill_demo)) =
     [(1, 0, PROC_DEAD), (2, 0x0100000A, PROC_RUNNING)]"
    by code_simp
qed

theorem remote_kill_by_wrong_id_witness:
  "\<exists>s sc n. on_remote_spawn_request (\<lambda>_. True) 6 0x0100000A TYPE_WORKER 9 (fst boot_demo) (snd boot_demo) (host 2) = Inr (s, sc, n) \<and>
     (\<forall>s2 sc2 n2. on_remote_spawn_request (\<lambda>_. True) 6 0x0100000A TYPE_WORKER 1 (fst boot_demo) (snd boot_demo) (host 2) =
        Inr (s2, sc2, n2) \<longrightarrow> s = s2 \<and> sc = sc2)"
proof -
  have "case on_remote_spawn_request (\<lambda>_. True) 6 0x0100000A TYPE_WORKER 9 (fst boot_demo) (snd boot_demo) (host 2) of
      Inr (s, sc, n) \<Rightarrow> True | Inl _ \<Rightarrow> False" by code_simp
  then obtain s sc n where
    "on_remote_spawn_request (\<lambda>_. True) 6 0x0100000A TYPE_WORKER 9 (fst boot_demo) (snd boot_demo) (host 2) = Inr (s, sc, n)"
    by (auto split: sum.splits)
  then show ?thesis
    using remote_kill_by_wrong_id [THEN conjunct1, of "\<lambda>_. True" 6 "0x0100000A" TYPE_WORKER "fst boot_demo" "snd boot_demo" "host 2"]
    by blast
qed

theorem spawn_kill_witness:
  "\<exists>s' sc' s'' sc''. spawn_local 5 TYPE_COUNTER ''counter'' 0 (fst boot_demo) (snd boot_demo) = Inr (1, s', sc') \<and>
     proc_kill (\<lambda>_. True) 1 s' sc' (host 1) = Inr (True, s'', sc'', host 1) \<and> task_count sc'' = task_count (snd boot_demo)"
proof -
  obtain s' sc' where r: "spawn_local 5 TYPE_COUNTER ''counter'' 0 (fst boot_demo) (snd boot_demo) = Inr (1, s', sc')"
    using boot_demo_spawn by (auto split: sum.splits)
  have "unat (next_pid (fst boot_demo)) + 1 < 4294967296" by (simp add: boot_demo_def proc_init_def)
  from spawn_kill [OF boot_demo_inv r _ this, of "\<lambda>_. True" "host 1"] r show ?thesis by (metis one_neq_zero)
qed

theorem proc_run_inv_witness:
  "\<exists>s sc n i. trace (proc_next (\<lambda>_. True)) (fst boot_demo, snd boot_demo, host 1)
       [PSpawn 5 ''stress'' 0, PSleep 0 10 0x5000, PStatus] (s, sc, n) \<and>
     p_slot (procs s ! 0) = int i \<and> entry (tasks sc ! i) = stress_entry"
proof -
  let ?r = "\<lambda>st. proc_step (\<lambda>_. True) st"
  let ?s0 = "(fst boot_demo, snd boot_demo, host 1)"
  have "case ?r ?s0 (PSpawn 5 ''stress'' 0) of Inl _ \<Rightarrow> False | Inr (s, sc, n) \<Rightarrow>
      cur sc \<noteq> idle_id sc \<and> p_state (procs s ! 0) = PROC_RUNNING \<and> p_node (procs s ! 0) = 0 \<and> p_type (procs s ! 0) = TYPE_STRESS"
    by code_simp
  then obtain s sc n where r: "?r ?s0 (PSpawn 5 ''stress'' 0) = Inr (s, sc, n)" "cur sc \<noteq> idle_id sc"
    "p_state (procs s ! 0) = PROC_RUNNING" "p_node (procs s ! 0) = 0" "p_type (procs s ! 0) = TYPE_STRESS"
    by (auto split: sum.splits)
  let ?sc = "snd (sleep_ms 0 10 0x5000 sc)"
  have "proc_next (\<lambda>_. True) ?s0 (PSpawn 5 ''stress'' 0) (s, sc, n)" "proc_next (\<lambda>_. True) (s, sc, n) (PSleep 0 10 0x5000) (s, ?sc, n)"
    "proc_next (\<lambda>_. True) (s, ?sc, n) PStatus (status_turn s, ?sc, n)"
    using r(1,2) by (simp_all add: proc_next_def proc_can_def) (simp_all add: proc_step_def)
  then have t: "trace (proc_next (\<lambda>_. True)) ?s0 [PSpawn 5 ''stress'' 0, PSleep 0 10 0x5000, PStatus] (status_turn s, ?sc, n)"
    by (rule trace_Cons [OF _ trace_Cons [OF _ trace_Cons [OF _ trace_Nil]]])
  have l: "length (procs ptable_demo) = MAX_PROCS" "length (stop_flags ptable_demo) = MAX_PROCS" "0 < MAX_PROCS"
    by (simp_all add: ptable_demo_def MAX_PROCS_def)
  have "proc_inv s sc"
    using proc_step_inv [OF boot_demo_inv _ _ r(1)] by (simp add: boot_demo_def proc_init_def)
  then have len: "length (procs s) > 0" by (simp add: proc_inv_def table_inv_def MAX_PROCS_def)
  have k: "p_state (procs (status_turn s) ! 0) = PROC_RUNNING" "p_node (procs (status_turn s) ! 0) = 0"
    "p_type (procs (status_turn s) ! 0) = TYPE_STRESS"
    using r(3-5) len by (simp_all add: status_turn_def)
  have e: "get_entry TYPE_STRESS = stress_entry" by code_simp
  from proc_run_inv [OF l(1,2) t [unfolded boot_demo_def]] k l(3) obtain i where
    "p_slot (procs (status_turn s) ! 0) = int i" "entry (tasks ?sc ! i) = get_entry (p_type (procs (status_turn s) ! 0))"
    by auto
  with t k(3) e show ?thesis by metis
qed

end
