(* ===== verification/Cluster.thy ===== *)
theory Cluster
  imports DJob Process
begin

text \<open>
  The cluster protocol of \<^verbatim>\<open>kernel/cluster.cpp\<close>: the handler of the datagrams on port 9000, which joins the
  network, the peer table, the job scheduler and the process manager, and the exchanges between two nodes. The
  state of a node collects those of its components. As a job may never return, so may the handler: \<open>None\<close>. A datagram
  to a node whose hardware address is not in the ARP cache is dropped and an ARP request sent in its place, so discovery
  is stated twice: for nodes that have exchanged addresses, and for a first contact.
\<close>

record kernel =
  k_net :: net
  k_cl :: cluster
  k_dj :: djob
  k_pt :: ptable
  k_sc :: sched

definition result_msg :: "u32 \<Rightarrow> u32 \<Rightarrow> u8 list" where
  "result_msg ident r = [MSG_JOB_RESULT, 0, 8, 0] @ le32 ident @ le32 r"

definition reply :: "(u8 list \<Rightarrow> bool) \<Rightarrow> u32 \<Rightarrow> u8 list \<Rightarrow> kernel \<Rightarrow> kernel res" where
  "reply nic dst msg k = bind_res (cluster_send nic dst msg (k_net k)) (\<lambda>(ok, n). Inr (k\<lparr>k_net := n\<rparr>))"

definition execute_job :: "(u8 list \<Rightarrow> bool) \<Rightarrow> u32 \<Rightarrow> u8 list \<Rightarrow> kernel \<Rightarrow> kernel res option" where
  "execute_job nic src data k =
     (if length data < 5 then Some (Inr k)
      else map_option (\<lambda>r. reply nic src (result_msg (of_le32 (bytes_at data 0 4)) r) k)
             (execute (data ! 4) (drop 5 data)))"

definition peer_name :: "u8 list \<Rightarrow> string" where
  "peer_name payload = field_name (take 15 payload)"

definition cluster_udp_handler ::
  "(u8 list \<Rightarrow> bool) \<Rightarrow> u64 \<Rightarrow> u32 \<Rightarrow> u8 list \<Rightarrow> kernel \<Rightarrow> kernel res option" where
  "cluster_udp_handler nic now src data k =
     (if length data < 4 then Some (Inr k)
      else
        let ty = data ! 0;
            plen = min (unat (of_le16 (bytes_at data 2 2))) (length data - 4);
            payload = take plen (drop 4 data)
        in
        if ty = MSG_DISCOVER then
          Some (let k = k\<lparr>k_cl := add_or_update_peer now src (peer_name payload) (k_cl k)\<rparr>
                in reply nic src (name_msg MSG_DISCOVER_ACK (local_name (k_cl k))) k)
        else if ty = MSG_DISCOVER_ACK then
          Some (Inr (k\<lparr>k_cl := add_or_update_peer now src (peer_name payload) (k_cl k)\<rparr>))
        else if ty = MSG_JOB_SUBMIT then execute_job nic src payload k
        else if ty = MSG_JOB_RESULT then
          Some (if plen \<ge> 8
                then let rid = of_le32 (bytes_at payload 0 4); rval = of_le32 (bytes_at payload 4 4)
                     in Inr (k\<lparr>k_cl := (k_cl k)\<lparr>last_result := \<lparr>jr_id = rid, jr_completed = True, jr_result = rval\<rparr>\<rparr>,
                               k_dj := on_remote_result now rid rval (k_dj k)\<rparr>)
                else Inr k)
        else if ty = MSG_LOAD_REPORT then
          Some (Inr (if plen \<ge> 4
                     then k\<lparr>k_dj := update_node_load now src (of_le32 (bytes_at payload 0 4)) (k_dj k)\<rparr> else k))
        else if ty = 0x10 then
          Some (if plen \<ge> 5
                then bind_res (on_remote_spawn_request nic now src (payload ! 0) (of_le32 (bytes_at payload 1 4))
                                (k_pt k) (k_sc k) (k_net k))
                       (\<lambda>(pt, sc, n). Inr (k\<lparr>k_pt := pt, k_sc := sc, k_net := n\<rparr>))
                else Inr k)
        else if ty = 0x11 then
          Some (Inr (if plen \<ge> 8 then k\<lparr>k_pt := on_remote_spawned (of_le32 (bytes_at payload 0 4)) src (k_pt k)\<rparr> else k))
        else if ty = 0x12 then
          Some (Inr (if plen \<ge> 4
                     then let (pt, sc) = on_remote_kill_request (of_le32 (bytes_at payload 0 4)) (k_pt k) (k_sc k)
                          in k\<lparr>k_pt := pt, k_sc := sc\<rparr>
                     else k))
        else Some (Inr k))"

text \<open>A received frame: the stack takes it apart and calls the handler it found, which is the only one there is.\<close>

definition node_receive ::
  "(u8 list \<Rightarrow> bool) \<Rightarrow> u64 \<Rightarrow> u8 list \<Rightarrow> u16 \<Rightarrow> kernel \<Rightarrow> kernel res option" where
  "node_receive nic now buf len k =
     (case process_packet buf len (k_net k) of
        Inl e \<Rightarrow> Some (Inl e)
      | Inr n \<Rightarrow>
          let k' = k\<lparr>k_net := n\<rparr>
          in case drop (length (inbox (k_net k))) (inbox n) of
               [] \<Rightarrow> Some (Inr k')
             | d # _ \<Rightarrow> if d_handler d = cluster_handler
                        then cluster_udp_handler nic now (d_src_ip d) (d_data d) k' else Some (Inr k'))"

section \<open>Messages are understood\<close>


lemma length_job_msg [simp]: "length (job_msg ident ty data) = 9 + length data"
  by (simp add: job_msg_def)

lemma length_name_msg: "length (name_msg ty nm) \<le> 19"
  by (simp add: name_msg_def Let_def)




section \<open>Exchanges between two nodes\<close>

text \<open>Node \<open>a\<close> can send to \<open>b\<close>: its stack is up and resolves the address, and \<open>b\<close> listens on the cluster port.\<close>

definition can_send :: "net \<Rightarrow> net \<Rightarrow> bool" where
  "can_send a b \<longleftrightarrow> net_inv a \<and> net_ready a \<and> resolves a (our_ip b) \<noteq> None"

definition listens :: "net \<Rightarrow> bool" where
  "listens n \<longleftrightarrow> (\<exists>i. find_idx (\<lambda>b. bhandler b \<noteq> 0 \<and> bport b = CLUSTER_PORT) (udp_handlers n) = Some i \<and>
                      bhandler (udp_handlers n ! i) = cluster_handler)"

definition sent :: "u8 list \<Rightarrow> net \<Rightarrow> net" where
  "sent fr n = n\<lparr>ip_id := ip_id n + 1, pkts_sent := pkts_sent n + 1, wire := wire n @ [fr]\<rparr>"

definition got :: "delivery \<Rightarrow> net \<Rightarrow> net" where
  "got d n = n\<lparr>pkts_recv := pkts_recv n + 1, inbox := inbox n @ [d]\<rparr>"

lemma sent_got_simps [simp]:
  "our_ip (sent fr n) = our_ip n" "our_mac (sent fr n) = our_mac n" "net_ready (sent fr n) = net_ready n"
  "arp_table (sent fr n) = arp_table n" "udp_handlers (sent fr n) = udp_handlers n" "wire (sent fr n) = wire n @ [fr]"
  "our_ip (got d n) = our_ip n" "our_mac (got d n) = our_mac n" "net_ready (got d n) = net_ready n"
  "arp_table (got d n) = arp_table n" "udp_handlers (got d n) = udp_handlers n" "wire (got d n) = wire n"
  "inbox (got d n) = inbox n @ [d]" "inbox (sent fr n) = inbox n"
  by (simp_all add: sent_def got_def)

lemma route_simps [simp]:
  "can_send (sent fr a) b = can_send a b" "can_send (got d a) b = can_send a b"
  "can_send a (sent fr b) = can_send a b" "can_send a (got d b) = can_send a b"
  "listens (sent fr n) = listens n" "listens (got d n) = listens n"
  by (simp_all add: can_send_def listens_def net_inv_def arp_ok_def resolves_def arp_lookup_def)

text \<open>A message sent by one node is a frame that makes every node it is addressed to run its handler on exactly
  that message.\<close>

lemma message_delivered_at:
  assumes "net_inv a" "net_ready a" "resolves a dst = Some m" "accepts (k_net kb) dst" "listens (k_net kb)" "length msg \<le> 2006"
  obtains fr d where "cluster_send nic dst msg a = Inr (nic fr, sent fr a)"
    "\<And>junk. node_receive nic' now (fr @ junk) (of_nat (length fr)) kb =
       cluster_udp_handler nic' now (our_ip a) msg (kb\<lparr>k_net := got d (k_net kb)\<rparr>)"
proof -
  from assms(5) obtain i where i: "find_idx (\<lambda>b. bhandler b \<noteq> 0 \<and> bport b = CLUSTER_PORT) (udp_handlers (k_net kb)) = Some i"
    "bhandler (udp_handlers (k_net kb) ! i) = cluster_handler" by (auto simp: listens_def)
  define fr where "fr = udp_frame m dst CLUSTER_PORT CLUSTER_PORT msg a"
  define d where "d = \<lparr>d_handler = cluster_handler, d_src_ip = our_ip a, d_src_port = CLUSTER_PORT, d_data = msg\<rparr>"
  have len: "length m = 6" "length (our_mac a) = 6" using assms(1) resolves_length [OF assms(1,3)] by (simp_all add: net_inv_def)
  have "cluster_send nic dst msg a = Inr (nic fr, sent fr a)"
    using send_udp_resolved [OF assms(2,3,6)] by (simp add: cluster_send_def fr_def sent_def nic_send_def Let_def)
  moreover have "process_packet (fr @ junk) (of_nat (length fr)) (k_net kb) = Inr (got d (k_net kb))" for junk
  proof -
    have "length fr = 42 + length msg" unfolding fr_def by (rule length_udp_frame [OF len])
    then show ?thesis
      using receive_udp_frame [OF len assms(6,4) i(1), of CLUSTER_PORT junk]
      unfolding fr_def [symmetric] got_def d_def i(2) by (simp only:)
  qed
  then have "node_receive nic' now (fr @ junk) (of_nat (length fr)) kb =
       cluster_udp_handler nic' now (our_ip a) msg (kb\<lparr>k_net := got d (k_net kb)\<rparr>)" for junk
    by (simp add: node_receive_def d_def)
  ultimately show ?thesis by (rule that)
qed

lemma message_delivered:
  assumes "can_send a (k_net kb)" "listens (k_net kb)" "length msg \<le> 2006"
  obtains fr d where "cluster_send nic (our_ip (k_net kb)) msg a = Inr (nic fr, sent fr a)"
    "\<And>junk. node_receive nic' now (fr @ junk) (of_nat (length fr)) kb =
       cluster_udp_handler nic' now (our_ip a) msg (kb\<lparr>k_net := got d (k_net kb)\<rparr>)"
proof -
  from assms(1) obtain m where m: "net_inv a" "net_ready a" "resolves a (our_ip (k_net kb)) = Some m"
    by (auto simp: can_send_def)
  have "accepts (k_net kb) (our_ip (k_net kb))" by (simp add: accepts_def)
  from message_delivered_at [OF m this assms(2,3), where nic = nic and nic' = nic' and now = now] that show ?thesis by blast
qed











section \<open>Discovery\<close>

lemma peer_name_msg:
  assumes "length nm \<le> 15" "no_nul nm"
  shows "name_msg ty nm ! 0 = ty" "unat (of_le16 (bytes_at (name_msg ty nm) 2 2)) = length nm"
    "peer_name (drop 4 (name_msg ty nm)) = nm" "length (name_msg ty nm) = 4 + length nm"
proof -
  have m: "name_msg ty nm = [ty, 0, of_nat (length nm), 0] @ map char_byte nm"
    using assms(1) by (simp add: name_msg_def Let_def min_def)
  have tw: "takeWhile (\<lambda>b. b \<noteq> 0) (map char_byte nm) = map char_byte nm"
    using assms(2) by (auto simp: takeWhile_eq_all_conv no_nul_def)
  show "name_msg ty nm ! 0 = ty" "peer_name (drop 4 (name_msg ty nm)) = nm" "length (name_msg ty nm) = 4 + length nm"
    using assms(1) by (simp_all add: m peer_name_def field_name_def tw o_def)
  have "unat (of_le16 [of_nat (length nm), 0]) = length nm"
    using assms(1) by (simp add: of_le16_def unsigned_ucast_eq unat_of_nat take_bit_nat_eq_self)
  then show "unat (of_le16 (bytes_at (name_msg ty nm) 2 2)) = length nm"
    by (simp add: m bytes_at_def)
qed

definition knows :: "kernel \<Rightarrow> u32 \<Rightarrow> u64 \<Rightarrow> string \<Rightarrow> bool" where
  "knows k ip now name \<longleftrightarrow> (\<exists>e\<in>set (peers (k_cl k)). n_active e \<and> n_ip e = ip \<and> n_seen e = now \<and> n_name e = name)"

definition node_ok :: "kernel \<Rightarrow> bool" where
  "node_ok k \<longleftrightarrow> cl_inited (k_cl k) \<and> cluster_inv (k_cl k) \<and> local_ip (k_cl k) = our_ip (k_net k) \<and>
     length (local_name (k_cl k)) \<le> 15 \<and> no_nul (local_name (k_cl k)) \<and> net_inv (k_net k) \<and> net_ready (k_net k) \<and>
     listens (k_net k)"

text \<open>Room for a peer: a free entry, or one of its own under its name.\<close>

definition can_meet :: "cluster \<Rightarrow> u32 \<Rightarrow> string \<Rightarrow> bool" where
  "can_meet c ip nm \<longleftrightarrow> (case lookup_key n_active n_ip ip (peers c) of
     None \<Rightarrow> \<exists>e\<in>set (peers c). \<not> n_active e | Some e \<Rightarrow> n_name e = nm)"

lemma meet_peer:
  assumes inv: "cluster_inv c" and ip: "ip \<noteq> local_ip c" and m: "can_meet c ip nm" and nm: "length nm \<le> 15"
  shows "\<exists>e. lookup_key n_active n_ip ip (peers (add_or_update_peer now ip nm c)) = Some e \<and> n_seen e = now \<and> n_name e = nm"
proof -
  have u: "uniq_keys n_active n_ip (peers c)" using inv by (simp add: cluster_inv_def)
  have "\<exists>e. lookup_key n_active n_ip ip (upsert n_active n_ip (refresh_peer now) (new_peer now ip nm) ip (peers c)) = Some e \<and>
          (case lookup_key n_active n_ip ip (peers c) of Some e0 \<Rightarrow> e = refresh_peer now e0
           | None \<Rightarrow> \<exists>e0\<in>set (peers c). \<not> n_active e0 \<and> e = new_peer now ip nm e0)"
    by (rule upsert_lookup_same [OF u]) (use m in \<open>auto simp: can_meet_def split: option.splits\<close>)
  then show ?thesis
    using m nm unfolding add_peer_upsert [OF ip] by (auto simp: can_meet_def split: option.splits)
qed

lemma learn_peer:
  assumes "cluster_inv c" "ip \<noteq> local_ip c" "can_meet c ip nm" "length nm \<le> 15"
  shows "\<exists>e\<in>set (peers (add_or_update_peer now ip nm c)). n_active e \<and> n_ip e = ip \<and> n_seen e = now \<and> n_name e = nm"
proof -
  from meet_peer [OF assms, of now] obtain e where
    e: "lookup_key n_active n_ip ip (peers (add_or_update_peer now ip nm c)) = Some e" "n_seen e = now" "n_name e = nm" by blast
  then obtain i where "find_idx (\<lambda>e. n_active e \<and> n_ip e = ip) (peers (add_or_update_peer now ip nm c)) = Some i"
    "e = peers (add_or_update_peer now ip nm c) ! i" by (auto simp: lookup_key_def)
  with e find_idx_len [OF this(1)] find_idx_sat [OF this(1)] show ?thesis by (intro bexI [of _ e]) auto
qed

lemma meet_again:
  assumes "cluster_inv c" "ip \<noteq> local_ip c" "can_meet c ip nm" "length nm \<le> 15"
  shows "can_meet (add_or_update_peer now ip nm c) ip nm"
  using meet_peer [OF assms, of now] by (auto simp: can_meet_def)

lemma add_peer_local [simp]:
  "local_name (add_or_update_peer t i nm c) = local_name c" "local_ip (add_or_update_peer t i nm c) = local_ip c"
  "cl_inited (add_or_update_peer t i nm c) = cl_inited c"
  by (simp_all add: add_or_update_peer_def split: option.splits)

text \<open>A discovery broadcast is one frame, which makes every other node of the subnet enter the sender and answer.\<close>

lemma broadcast_heard:
  assumes ok: "node_ok ka" "node_ok kb" and subnet: "our_ip (k_net ka) OR htonl 0xFF = our_ip (k_net kb) OR htonl 0xFF"
  obtains req d where "send_discover nic (k_cl ka) (k_net ka) = Inr (sent req (k_net ka))"
    "node_receive nic2 now2 (req @ junk) (of_nat (length req)) kb =
       Some (reply nic2 (our_ip (k_net ka)) (name_msg MSG_DISCOVER_ACK (local_name (k_cl kb)))
         (kb\<lparr>k_net := got d (k_net kb), k_cl := add_or_update_peer now2 (our_ip (k_net ka)) (local_name (k_cl ka)) (k_cl kb)\<rparr>))"
proof -
  let ?msg = "name_msg MSG_DISCOVER (local_name (k_cl ka))" and ?bc = "our_ip (k_net ka) OR htonl 0xFF"
  have a: "net_inv (k_net ka)" "net_ready (k_net ka)" "resolves (k_net ka) ?bc = Some BROADCAST_MAC"
    "accepts (k_net kb) ?bc" "listens (k_net kb)" "length ?msg \<le> 2006"
    using ok subnet length_name_msg [of MSG_DISCOVER "local_name (k_cl ka)"] by (auto simp: node_ok_def resolves_def accepts_def)
  obtain req d where req: "cluster_send nic ?bc ?msg (k_net ka) = Inr (nic req, sent req (k_net ka))"
    "node_receive nic2 now2 (req @ junk) (of_nat (length req)) kb =
       cluster_udp_handler nic2 now2 (our_ip (k_net ka)) ?msg (kb\<lparr>k_net := got d (k_net kb)\<rparr>)"
    by (rule message_delivered_at [OF a, where nic = nic and nic' = nic2 and now = now2]) blast
  have na: "length (local_name (k_cl ka)) \<le> 15" "no_nul (local_name (k_cl ka))" using ok by (simp_all add: node_ok_def)
  show ?thesis
  proof (rule that)
    show "send_discover nic (k_cl ka) (k_net ka) = Inr (sent req (k_net ka))"
      using ok(1) req(1) by (simp add: send_discover_def node_ok_def)
    show "node_receive nic2 now2 (req @ junk) (of_nat (length req)) kb =
       Some (reply nic2 (our_ip (k_net ka)) (name_msg MSG_DISCOVER_ACK (local_name (k_cl kb)))
         (kb\<lparr>k_net := got d (k_net kb), k_cl := add_or_update_peer now2 (our_ip (k_net ka)) (local_name (k_cl ka)) (k_cl kb)\<rparr>))"
      unfolding req(2) using peer_name_msg [OF na, of MSG_DISCOVER] by (simp add: cluster_udp_handler_def Let_def)
  qed
qed

lemma knows_learn:
  "cluster_inv c \<Longrightarrow> ip \<noteq> local_ip c \<Longrightarrow> can_meet c ip nm \<Longrightarrow> length nm \<le> 15 \<Longrightarrow>
   k_cl k = add_or_update_peer now ip nm c \<Longrightarrow> knows k ip now nm"
  unfolding knows_def using learn_peer [of c ip nm now] by simp

text \<open>The whole exchange, when the node that hears the broadcast can send to the other.\<close>

lemma handshake:
  assumes ok: "node_ok ka" "node_ok kb" and ip: "our_ip (k_net ka) \<noteq> our_ip (k_net kb)"
    and subnet: "our_ip (k_net ka) OR htonl 0xFF = our_ip (k_net kb) OR htonl 0xFF"
    and route: "can_send (k_net kb) (k_net ka)"
    and new: "can_meet (k_cl kb) (our_ip (k_net ka)) (local_name (k_cl ka))"
      "can_meet (k_cl ka) (our_ip (k_net kb)) (local_name (k_cl kb))"
  shows "\<exists>n req kb' rep ka'. send_discover nic (k_cl ka) (k_net ka) = Inr n \<and> wire n = wire (k_net ka) @ [req] \<and>
    node_receive nic2 now2 (req @ junk) (of_nat (length req)) kb = Some (Inr kb') \<and> wire (k_net kb') = wire (k_net kb) @ [rep] \<and>
    knows kb' (our_ip (k_net ka)) now2 (local_name (k_cl ka)) \<and>
    node_receive nic3 now3 (rep @ junk2) (of_nat (length rep)) (ka\<lparr>k_net := n\<rparr>) = Some (Inr ka') \<and>
    knows ka' (our_ip (k_net kb)) now3 (local_name (k_cl kb))"
proof -
  obtain req d where req: "send_discover nic (k_cl ka) (k_net ka) = Inr (sent req (k_net ka))"
    "node_receive nic2 now2 (req @ junk) (of_nat (length req)) kb =
       Some (reply nic2 (our_ip (k_net ka)) (name_msg MSG_DISCOVER_ACK (local_name (k_cl kb)))
         (kb\<lparr>k_net := got d (k_net kb), k_cl := add_or_update_peer now2 (our_ip (k_net ka)) (local_name (k_cl ka)) (k_cl kb)\<rparr>))"
    by (rule broadcast_heard [OF ok subnet, where nic = nic and ?nic2.0 = nic2 and ?now2.0 = now2 and junk = junk])
  define ka1 where "ka1 = ka\<lparr>k_net := sent req (k_net ka)\<rparr>"
  let ?ack = "name_msg MSG_DISCOVER_ACK (local_name (k_cl kb))"
  have b: "can_send (got d (k_net kb)) (k_net ka1)" "listens (k_net ka1)" "length ?ack \<le> 2006"
    using route ok(1) length_name_msg [of MSG_DISCOVER_ACK "local_name (k_cl kb)"] by (simp_all add: ka1_def node_ok_def)
  obtain rep d2 where rep: "cluster_send nic2 (our_ip (k_net ka1)) ?ack (got d (k_net kb)) = Inr (nic2 rep, sent rep (got d (k_net kb)))"
    "node_receive nic3 now3 (rep @ junk2) (of_nat (length rep)) ka1 =
       cluster_udp_handler nic3 now3 (our_ip (got d (k_net kb))) ?ack (ka1\<lparr>k_net := got d2 (k_net ka1)\<rparr>)"
    by (rule message_delivered [OF b, where nic = nic2 and nic' = nic3 and now = now3]) blast
  have na: "length (local_name (k_cl ka)) \<le> 15" and nb: "length (local_name (k_cl kb)) \<le> 15" "no_nul (local_name (k_cl kb))"
    and inv: "cluster_inv (k_cl ka)" "cluster_inv (k_cl kb)" "local_ip (k_cl ka) = our_ip (k_net ka)" "local_ip (k_cl kb) = our_ip (k_net kb)"
    using ok by (simp_all add: node_ok_def)
  define kb' where "kb' = kb\<lparr>k_net := sent rep (got d (k_net kb)),
      k_cl := add_or_update_peer now2 (our_ip (k_net ka)) (local_name (k_cl ka)) (k_cl kb)\<rparr>"
  have 1: "node_receive nic2 now2 (req @ junk) (of_nat (length req)) kb = Some (Inr kb')"
    unfolding req(2) using rep(1) by (simp add: reply_def kb'_def ka1_def)
  define ka' where "ka' = ka1\<lparr>k_net := got d2 (k_net ka1),
      k_cl := add_or_update_peer now3 (our_ip (k_net kb)) (local_name (k_cl kb)) (k_cl ka)\<rparr>"
  have 2: "node_receive nic3 now3 (rep @ junk2) (of_nat (length rep)) ka1 = Some (Inr ka')"
    unfolding rep(2) using peer_name_msg [OF nb, of MSG_DISCOVER_ACK]
    by (simp add: cluster_udp_handler_def ka'_def ka1_def MSG_DISCOVER_def MSG_DISCOVER_ACK_def Let_def)
  have "our_ip (k_net ka) \<noteq> local_ip (k_cl kb)" "our_ip (k_net kb) \<noteq> local_ip (k_cl ka)" using ip inv by simp_all
  then have k: "knows kb' (our_ip (k_net ka)) now2 (local_name (k_cl ka))" "knows ka' (our_ip (k_net kb)) now3 (local_name (k_cl kb))"
    using knows_learn [OF inv(2) _ new(1) na, of kb' now2] knows_learn [OF inv(1) _ new(2) nb(1), of ka' now3]
    by (simp_all add: kb'_def ka'_def)
  have w: "wire (k_net kb') = wire (k_net kb) @ [rep]" "wire (sent req (k_net ka)) = wire (k_net ka) @ [req]"
    by (simp_all add: kb'_def)
  show ?thesis using req(1) 1 2 k w unfolding ka1_def by blast
qed

text \<open>C22: Discovery is mutual: when a node has another's hardware address in its ARP cache, one discovery broadcast of the
  other makes it enter that node under its name and answer; the answer makes the broadcasting node enter it. Each node must have room for the
  other in its peer table.\<close>

theorem discovery_handshake:
  assumes "node_ok ka" "node_ok kb" and "our_ip (k_net ka) \<noteq> our_ip (k_net kb)"
    and "our_ip (k_net ka) OR htonl 0xFF = our_ip (k_net kb) OR htonl 0xFF"
    and "can_send (k_net kb) (k_net ka)"
    and "can_meet (k_cl kb) (our_ip (k_net ka)) (local_name (k_cl ka))"
      "can_meet (k_cl ka) (our_ip (k_net kb)) (local_name (k_cl kb))"
  shows "\<exists>n req kb' rep ka'. send_discover nic (k_cl ka) (k_net ka) = Inr n \<and> wire n = wire (k_net ka) @ [req] \<and>
    node_receive nic2 now2 (req @ junk) (of_nat (length req)) kb = Some (Inr kb') \<and> wire (k_net kb') = wire (k_net kb) @ [rep] \<and>
    knows kb' (our_ip (k_net ka)) now2 (local_name (k_cl ka)) \<and>
    node_receive nic3 now3 (rep @ junk2) (of_nat (length rep)) (ka\<lparr>k_net := n\<rparr>) = Some (Inr ka') \<and>
    knows ka' (our_ip (k_net kb)) now3 (local_name (k_cl kb))"
  by (rule handshake [OF assms])

text \<open>Two frames of address resolution between the nodes: the request in the place of an answer, and its answer.\<close>

lemma net_only: "process_packet buf len (k_net k) = Inr n \<Longrightarrow> inbox n = inbox (k_net k) \<Longrightarrow>
  node_receive nic now buf len k = Some (Inr (k\<lparr>k_net := n\<rparr>))"
  by (simp add: node_receive_def)

lemma arp_store_simps [simp]:
  "our_ip (arp_store i m n) = our_ip n" "our_mac (arp_store i m n) = our_mac n" "net_ready (arp_store i m n) = net_ready n"
  "udp_handlers (arp_store i m n) = udp_handlers n" "wire (arp_store i m n) = wire n" "inbox (arp_store i m n) = inbox n"
  by (simp_all add: arp_store_def)

lemma arp_send_simps [simp]:
  "our_ip (nic_send fr n) = our_ip n" "our_mac (nic_send fr n) = our_mac n" "net_ready (nic_send fr n) = net_ready n"
  "udp_handlers (nic_send fr n) = udp_handlers n" "wire (nic_send fr n) = wire n @ [fr]" "inbox (nic_send fr n) = inbox n"
  "arp_table (nic_send fr n) = arp_table n"
  by (simp_all add: nic_send_def)

lemma net_inv_same:
  "net_inv a \<Longrightarrow> arp_table b = arp_table a \<Longrightarrow> udp_handlers b = udp_handlers a \<Longrightarrow> our_mac b = our_mac a \<Longrightarrow> net_inv b"
  by (simp add: net_inv_def arp_ok_def)

lemma listens_same: "listens a \<Longrightarrow> udp_handlers b = udp_handlers a \<Longrightarrow> listens b"
  by (simp add: listens_def)

lemma address_learned:
  assumes inv: "net_inv (k_net ka)" "net_inv (k_net kb)" and ready: "net_ready (k_net kb)" and room: "arp_room (k_net kb)"
    and unknown: "resolves (k_net kb) (our_ip (k_net ka)) = None"
  obtains arq arep na nb where
    "cluster_send nic (our_ip (k_net ka)) msg (k_net kb) = Inr (False, nic_send arq (k_net kb))"
    "node_receive nic2 now2 (arq @ junk) (of_nat (length arq)) ka = Some (Inr (ka\<lparr>k_net := na\<rparr>))" "wire na = wire (k_net ka) @ [arep]"
    "node_receive nic3 now3 (arep @ junk2) (of_nat (length arep)) (kb'\<lparr>k_net := nic_send arq (k_net kb)\<rparr>) = Some (Inr (kb'\<lparr>k_net := nb\<rparr>))"
    "wire nb = wire (k_net kb) @ [arq]" "can_send nb na" "net_inv na" "net_ready na = net_ready (k_net ka)"
    "our_ip na = our_ip (k_net ka)" "our_ip nb = our_ip (k_net kb)" "udp_handlers na = udp_handlers (k_net ka)"
    "udp_handlers nb = udp_handlers (k_net kb)"
proof -
  let ?a = "k_net ka" and ?b = "k_net kb"
  have len: "length (our_mac ?a) = 6" "length (our_mac ?b) = 6" "length BROADCAST_MAC = 6"
    using inv by (simp_all add: net_inv_def BROADCAST_MAC_def)
  define arq where "arq = eth_header BROADCAST_MAC (our_mac ?b) 0x0806 @ arp_packet 1 (our_mac ?b) (our_ip ?b) (replicate 6 0) (our_ip ?a)"
  define arep where "arep = eth_header (our_mac ?b) (our_mac ?a) 0x0806 @ arp_packet 2 (our_mac ?a) (our_ip ?a) (our_mac ?b) (our_ip ?b)"
  define nas where "nas = arp_store (our_ip ?b) (our_mac ?b) (?a\<lparr>pkts_recv := pkts_recv ?a + 1\<rparr>)"
  define na where "na = nic_send arep nas"
  define nb0 where "nb0 = nic_send arq ?b"
  define nb where "nb = arp_store (our_ip ?a) (our_mac ?a) (nb0\<lparr>pkts_recv := pkts_recv nb0 + 1\<rparr>)"
  have l42: "length arq = 42" "length arep = 42" using len by (simp_all add: arq_def arep_def)
  have 1: "cluster_send nic (our_ip ?a) msg ?b = Inr (False, nb0)"
    using ready unknown by (simp add: cluster_send_def send_udp_unresolved arp_send_request_def nb0_def arq_def)
  have "process_packet (arq @ junk) 42 ?a = Inr na"
    using receive_arp [OF len(3) len(2), of "replicate 6 0" 1 "our_ip ?b" "our_ip ?a" junk ?a]
    by (simp add: arq_def na_def nas_def arp_send_reply_def arep_def Let_def)
  then have 2: "node_receive nic2 now2 (arq @ junk) (of_nat (length arq)) ka = Some (Inr (ka\<lparr>k_net := na\<rparr>))"
    by (intro net_only) (simp_all add: l42 na_def nas_def)
  have "process_packet (arep @ junk2) 42 nb0 = Inr nb"
    using receive_arp [OF len(2) len(1) len(2), of 2 "our_ip ?a" "our_ip ?b" junk2 nb0]
    by (simp add: arep_def nb_def Let_def)
  then have 3: "node_receive nic3 now3 (arep @ junk2) (of_nat (length arep)) (kb'\<lparr>k_net := nb0\<rparr>) = Some (Inr (kb'\<lparr>k_net := nb\<rparr>))"
    using net_only [of "arep @ junk2" 42 "kb'\<lparr>k_net := nb0\<rparr>" nb nic3 now3] by (simp add: l42 nb_def)
  have ia: "net_inv na"
  proof -
    have "net_inv nas" unfolding nas_def by (intro arp_store_inv net_inv_same [OF inv(1)]) (simp_all add: len)
    then show ?thesis by (rule net_inv_same) (simp_all add: na_def)
  qed
  have "net_inv (nb0\<lparr>pkts_recv := pkts_recv nb0 + 1\<rparr>)" by (rule net_inv_same [OF inv(2)]) (simp_all add: nb0_def)
  then have ib: "net_inv nb" "arp_ok (nb0\<lparr>pkts_recv := pkts_recv nb0 + 1\<rparr>)"
    unfolding nb_def by (auto intro!: arp_store_inv simp: len) (simp add: net_inv_def)
  have "arp_lookup (our_ip ?a) nb = Some (our_mac ?a)"
    unfolding nb_def using ib(2) room by (intro arp.get_put_same) (auto simp: arp_room_def nb0_def)
  then have "can_send nb na" using ib(1) ready by (simp add: can_send_def resolves_def) (simp add: nb_def nb0_def na_def nas_def)
  then show ?thesis
    using 1 2 3 ia by (intro that [of arq na arep nb]) (simp_all add: nb0_def nb_def na_def nas_def)
qed

text \<open>C40: First contact takes two broadcasts: a node that has not yet got the hardware address of the broadcasting one enters it as a
  peer, but its answer is lost: what it puts on the wire is an ARP request, and the broadcasting node learns of no peer. The request is
  answered, and from then on the node can send; the next broadcast completes the discovery on both sides. Both peer tables must have
  room for the other node, and the ARP cache of the hearing node a free entry.\<close>

theorem discovery_first_contact:
  assumes ok: "node_ok ka" "node_ok kb" and ip: "our_ip (k_net ka) \<noteq> our_ip (k_net kb)"
    and subnet: "our_ip (k_net ka) OR htonl 0xFF = our_ip (k_net kb) OR htonl 0xFF"
    and unknown: "resolves (k_net kb) (our_ip (k_net ka)) = None" and room: "arp_room (k_net kb)"
    and new: "can_meet (k_cl kb) (our_ip (k_net ka)) (local_name (k_cl ka))"
      "can_meet (k_cl ka) (our_ip (k_net kb)) (local_name (k_cl kb))"
  shows "\<exists>n req kb1 arq ka1 arep kb2. send_discover nic (k_cl ka) (k_net ka) = Inr n \<and> wire n = wire (k_net ka) @ [req] \<and>
    node_receive nic2 t1 (req @ j1) (of_nat (length req)) kb = Some (Inr kb1) \<and> wire (k_net kb1) = wire (k_net kb) @ [arq] \<and>
    knows kb1 (our_ip (k_net ka)) t1 (local_name (k_cl ka)) \<and>
    node_receive nic3 t2 (arq @ j2) (of_nat (length arq)) (ka\<lparr>k_net := n\<rparr>) = Some (Inr ka1) \<and>
    wire (k_net ka1) = wire n @ [arep] \<and> k_cl ka1 = k_cl ka \<and>
    node_receive nic2 t3 (arep @ j3) (of_nat (length arep)) kb1 = Some (Inr kb2) \<and> wire (k_net kb2) = wire (k_net kb1) \<and>
    (\<exists>n' req' kb3 ack ka3. send_discover nic (k_cl ka1) (k_net ka1) = Inr n' \<and> wire n' = wire (k_net ka1) @ [req'] \<and>
       node_receive nic2 t4 (req' @ j4) (of_nat (length req')) kb2 = Some (Inr kb3) \<and> wire (k_net kb3) = wire (k_net kb2) @ [ack] \<and>
       node_receive nic3 t5 (ack @ j5) (of_nat (length ack)) (ka1\<lparr>k_net := n'\<rparr>) = Some (Inr ka3) \<and>
       knows kb3 (our_ip (k_net ka)) t4 (local_name (k_cl ka)) \<and> knows ka3 (our_ip (k_net kb)) t5 (local_name (k_cl kb)))"
proof -
  obtain req d where req: "send_discover nic (k_cl ka) (k_net ka) = Inr (sent req (k_net ka))"
    "node_receive nic2 t1 (req @ j1) (of_nat (length req)) kb =
       Some (reply nic2 (our_ip (k_net ka)) (name_msg MSG_DISCOVER_ACK (local_name (k_cl kb)))
         (kb\<lparr>k_net := got d (k_net kb), k_cl := add_or_update_peer t1 (our_ip (k_net ka)) (local_name (k_cl ka)) (k_cl kb)\<rparr>))"
    by (rule broadcast_heard [OF ok subnet, where nic = nic and ?nic2.0 = nic2 and ?now2.0 = t1 and junk = j1])
  define kas where "kas = ka\<lparr>k_net := sent req (k_net ka)\<rparr>"
  define kbg where "kbg = kb\<lparr>k_net := got d (k_net kb)\<rparr>"
  define cl where "cl = add_or_update_peer t1 (our_ip (k_net ka)) (local_name (k_cl ka)) (k_cl kb)"
  have f: "net_inv (k_net ka)" "net_inv (k_net kb)" "net_ready (k_net ka)" "net_ready (k_net kb)" "listens (k_net ka)" "listens (k_net kb)"
    "cluster_inv (k_cl kb)" "local_ip (k_cl kb) = our_ip (k_net kb)" "length (local_name (k_cl ka)) \<le> 15"
    using ok by (simp_all add: node_ok_def)
  have "resolves (got d (k_net kb)) i = resolves (k_net kb) i" for i by (simp add: resolves_def arp_lookup_def)
  then have g: "net_inv (k_net kas)" "net_inv (k_net kbg)" "net_ready (k_net kbg)" "arp_room (k_net kbg)"
    "resolves (k_net kbg) (our_ip (k_net kas)) = None"
    using net_inv_same [OF f(1), of "sent req (k_net ka)"] net_inv_same [OF f(2), of "got d (k_net kb)"] f(4) room unknown
    by (simp_all add: kas_def kbg_def arp_room_def)
  obtain arq arep na nb where e:
    "cluster_send nic2 (our_ip (k_net kas)) (name_msg MSG_DISCOVER_ACK (local_name (k_cl kb))) (k_net kbg) = Inr (False, nic_send arq (k_net kbg))"
    "node_receive nic3 t2 (arq @ j2) (of_nat (length arq)) kas = Some (Inr (kas\<lparr>k_net := na\<rparr>))" "wire na = wire (k_net kas) @ [arep]"
    "node_receive nic2 t3 (arep @ j3) (of_nat (length arep)) ((kb\<lparr>k_cl := cl\<rparr>)\<lparr>k_net := nic_send arq (k_net kbg)\<rparr>) =
       Some (Inr ((kb\<lparr>k_cl := cl\<rparr>)\<lparr>k_net := nb\<rparr>))"
    "wire nb = wire (k_net kbg) @ [arq]" "can_send nb na" "net_inv na" "net_ready na = net_ready (k_net kas)"
    "our_ip na = our_ip (k_net kas)" "our_ip nb = our_ip (k_net kbg)" "udp_handlers na = udp_handlers (k_net kas)"
    "udp_handlers nb = udp_handlers (k_net kbg)"
    by (rule address_learned [OF g, where nic = nic2 and msg = "name_msg MSG_DISCOVER_ACK (local_name (k_cl kb))" and ?nic2.0 = nic3 and
        ?now2.0 = t2 and junk = j2 and ?nic3.0 = nic2 and ?now3.0 = t3 and ?junk2.0 = j3 and kb' = "kb\<lparr>k_cl := cl\<rparr>"]) blast
  define ka1 where "ka1 = kas\<lparr>k_net := na\<rparr>"
  define kb1 where "kb1 = (kb\<lparr>k_cl := cl\<rparr>)\<lparr>k_net := nic_send arq (k_net kbg)\<rparr>"
  define kb2 where "kb2 = (kb\<lparr>k_cl := cl\<rparr>)\<lparr>k_net := nb\<rparr>"
  have 1: "node_receive nic2 t1 (req @ j1) (of_nat (length req)) kb = Some (Inr kb1)"
    unfolding req(2) using e(1) by (simp add: reply_def kas_def kbg_def kb1_def cl_def)
  have ne: "our_ip (k_net ka) \<noteq> local_ip (k_cl kb)" using ip f(8) by simp
  have k1: "knows kb1 (our_ip (k_net ka)) t1 (local_name (k_cl ka))"
    by (rule knows_learn [OF f(7) ne new(1) f(9)]) (simp add: kb1_def cl_def)
  have ci: "cluster_inv cl" unfolding cl_def by (rule add_peer_inv [OF f(7)])
  have a1: "node_ok ka1" "our_ip (k_net ka1) = our_ip (k_net ka)" "k_cl ka1 = k_cl ka"
    using ok(1) e(7-9,11) listens_same [OF f(5), of na] by (simp_all add: node_ok_def ka1_def kas_def)
  have "net_inv nb" "net_ready nb" using e(6) by (simp_all add: can_send_def)
  then have b2: "node_ok kb2" "our_ip (k_net kb2) = our_ip (k_net kb)" "local_name (k_cl kb2) = local_name (k_cl kb)"
    using ok(2) e(10,12) ci listens_same [OF f(6), of nb] by (simp_all add: node_ok_def kb2_def kbg_def) (simp_all add: cl_def)
  have m: "can_meet (k_cl kb2) (our_ip (k_net ka1)) (local_name (k_cl ka1))" "can_meet (k_cl ka1) (our_ip (k_net kb2)) (local_name (k_cl kb2))"
    using meet_again [OF f(7) ne new(1) f(9), of t1] new(2) a1 b2 by (simp_all add: kb2_def cl_def)
  have r: "can_send (k_net kb2) (k_net ka1)" using e(6) by (simp add: kb2_def ka1_def)
  have sn: "our_ip (k_net ka1) \<noteq> our_ip (k_net kb2)" "our_ip (k_net ka1) OR htonl 0xFF = our_ip (k_net kb2) OR htonl 0xFF"
    using ip subnet a1(2) b2(2) by simp_all
  note second = handshake [OF a1(1) b2(1) sn r m, of nic nic2 t4 j4 nic3 t5 j5, unfolded a1(2,3) b2(2,3)]
  have w: "wire (sent req (k_net ka)) = wire (k_net ka) @ [req]" "wire (k_net kb1) = wire (k_net kb) @ [arq]"
    "wire (k_net ka1) = wire (sent req (k_net ka)) @ [arep]" "wire (k_net kb2) = wire (k_net kb1)"
    using e(3,5) by (simp_all add: kb1_def ka1_def kb2_def kas_def kbg_def)
  show ?thesis
    using req(1) 1 k1 w a1(3) second e(2,4) unfolding ka1_def [symmetric] kb1_def [symmetric] kb2_def [symmetric] kas_def [symmetric]
    by (intro exI [of _ "sent req (k_net ka)"] exI [of _ req] exI [of _ kb1] exI [of _ arq] exI [of _ ka1] exI [of _ arep] exI [of _ kb2])
      (simp add: a1(3) kas_def, blast)
qed

section \<open>Two concrete nodes\<close>

definition demo_node :: "u8 \<Rightarrow> u8 \<Rightarrow> string \<Rightarrow> kernel" where
  "demo_node me other nm =
     \<lparr>k_net = arp_store (our_ip (host other)) (our_mac (host other)) (host me),
      k_cl = \<lparr>peers = replicate MAX_NODES \<lparr>n_ip = 0, n_mac = replicate 6 0, n_name = [], n_seen = 0, n_active = False\<rparr>,
        peer_count = 0, cl_inited = True, local_name = nm, local_ip = our_ip (host me), wire_job_id = 1,
        last_result = \<lparr>jr_id = 0, jr_completed = False, jr_result = 0\<rparr>\<rparr>,
      k_dj = update_node_load 5 (our_ip (host other)) 0 djob_demo,
      k_pt = fst boot_demo, k_sc = snd boot_demo\<rparr>"

abbreviation "node_a \<equiv> demo_node 1 2 ''node1''"
abbreviation "node_b \<equiv> demo_node 2 1 ''node2''"

lemma demo_net_inv: "net_inv (k_net (demo_node me other nm))"
  unfolding demo_node_def kernel.simps by (rule arp_store_inv [OF host_inv]) (simp add: host_def)

lemma demo_listens: "listens (k_net (demo_node me other nm))"
proof -
  have "find_idx (\<lambda>b. bhandler b \<noteq> 0 \<and> bport b = CLUSTER_PORT) (udp_handlers (k_net (demo_node me other nm))) = Some 0"
    by (simp add: demo_node_def arp_store_def host_def CLUSTER_PORT_def)
  then show ?thesis by (simp add: listens_def demo_node_def arp_store_def host_def cluster_handler_def)
qed

lemma demo_route: "can_send (k_net node_a) (k_net node_b)" "can_send (k_net node_b) (k_net node_a)"
proof -
  have "resolves (k_net node_a) (our_ip (k_net node_b)) = Some [2, 0, 0, 0, 0, 2]"
    "resolves (k_net node_b) (our_ip (k_net node_a)) = Some [2, 0, 0, 0, 0, 1]" by code_simp+
  moreover have "net_ready (k_net node_a)" "net_ready (k_net node_b)" by code_simp+
  ultimately show "can_send (k_net node_a) (k_net node_b)" "can_send (k_net node_b) (k_net node_a)"
    unfolding can_send_def using demo_net_inv by blast+
qed






lemma demo_ok: "node_ok node_a" "node_ok node_b"
proof -
  have inv: "cluster_inv (k_cl (demo_node me other nm))" for me other nm
    by (simp add: cluster_inv_def uniq_keys_def demo_node_def)
  have "cl_inited (k_cl node_a) \<and> local_ip (k_cl node_a) = our_ip (k_net node_a) \<and>
      length (local_name (k_cl node_a)) \<le> 15 \<and> no_nul (local_name (k_cl node_a)) \<and> net_ready (k_net node_a)" by code_simp
  moreover have "cl_inited (k_cl node_b) \<and> local_ip (k_cl node_b) = our_ip (k_net node_b) \<and>
      length (local_name (k_cl node_b)) \<le> 15 \<and> no_nul (local_name (k_cl node_b)) \<and> net_ready (k_net node_b)" by code_simp
  ultimately show "node_ok node_a" "node_ok node_b"
    unfolding node_ok_def using demo_net_inv demo_listens inv by blast+
qed

lemma demo_subnet: "our_ip (k_net node_a) \<noteq> our_ip (k_net node_b)"
  "our_ip (k_net node_a) OR htonl 0xFF = our_ip (k_net node_b) OR htonl 0xFF"
  by code_simp+

lemma demo_meet: "can_meet (k_cl (demo_node me other nm)) ip nm'"
proof -
  have "lookup_key n_active n_ip ip (peers (k_cl (demo_node me other nm))) = None"
    by (simp add: lookup_key_None_iff demo_node_def)
  then show ?thesis by (simp add: can_meet_def) (simp add: demo_node_def MAX_NODES_def)
qed

lemma demo_names: "local_name (k_cl (demo_node me other nm)) = nm"
  by (simp add: demo_node_def)

theorem discovery_handshake_witness:
  "\<exists>n rep ka'. send_discover (\<lambda>_. True) (k_cl node_a) (k_net node_a) = Inr n \<and>
     node_receive (\<lambda>_. True) 8 (rep @ []) (of_nat (length rep)) (node_a\<lparr>k_net := n\<rparr>) = Some (Inr ka') \<and>
     knows ka' (our_ip (k_net node_b)) 8 ''node2''"
  using discovery_handshake [OF demo_ok demo_subnet demo_route(2) demo_meet demo_meet,
      of "\<lambda>_. True" "\<lambda>_. True" 7 "[]" "\<lambda>_. True" 8 "[]", unfolded demo_names]
  by blast

text \<open>The second node before it has learned a hardware address.\<close>

definition fresh_b :: kernel where
  "fresh_b = node_b\<lparr>k_net := host 2\<rparr>"

theorem discovery_first_contact_witness:
  "\<exists>n req kb1 arq. send_discover (\<lambda>_. True) (k_cl node_a) (k_net node_a) = Inr n \<and>
     node_receive (\<lambda>_. True) 7 (req @ []) (of_nat (length req)) fresh_b = Some (Inr kb1) \<and>
     wire (k_net kb1) = wire (k_net fresh_b) @ [arq] \<and> knows kb1 (our_ip (k_net node_a)) 7 ''node1''"
proof -
  have a: "our_ip (k_net fresh_b) = our_ip (k_net node_b)" by code_simp
  have "listens (k_net fresh_b)"
    by (rule listens_same [OF demo_listens [of 2 1 "''node2''"]]) (simp add: fresh_b_def demo_node_def)
  moreover have "net_ready (k_net fresh_b)" by code_simp
  ultimately have ok: "node_ok fresh_b"
    using demo_ok(2) a host_inv [of 2] unfolding node_ok_def by (simp add: fresh_b_def)
  have r: "resolves (k_net fresh_b) (our_ip (k_net node_a)) = None" "arp_room (k_net fresh_b)" by code_simp+
  have m: "can_meet (k_cl fresh_b) ip nm" for ip nm using demo_meet [of 2 1 "''node2''"] by (simp add: fresh_b_def)
  show ?thesis
    using discovery_first_contact [OF demo_ok(1) ok demo_subnet [folded a] r m demo_meet,
        of "\<lambda>_. True" "\<lambda>_. True" 7 "[]" "\<lambda>_. True" 0 "[]" 0 "[]" 0 "[]" 0 "[]", unfolded demo_names]
    by blast
qed

end
