(* ===== verification/Console.thy ===== *)
theory Console
  imports KString
begin

text \<open>
  The framebuffer console of \<^verbatim>\<open>kernel/console.cpp\<close>. The framebuffer is the list of its 32-bit
  pixels; a store outside it is the value \<open>Inl OutOfBounds\<close>, so that a statement that printing
  returns \<open>Inr\<close> says that no store leaves the framebuffer. The screen is taken to be 1024 by 768
  whatever the boot loader reports. Indices are computed the way the code does it, in 32-bit
  unsigned arithmetic where an \<^verbatim>\<open>int\<close> meets the \<^verbatim>\<open>uint32_t\<close> pitch. The glyph table is
  a parameter here; the one of the kernel is in \<open>Font\<close>.
\<close>

definition SCREEN_WIDTH :: int where "SCREEN_WIDTH = 1024"
definition SCREEN_HEIGHT :: int where "SCREEN_HEIGHT = 768"
definition CHAR_W :: int where "CHAR_W = 8"
definition CHAR_H :: int where "CHAR_H = 8"

lemmas screen_consts = SCREEN_WIDTH_def SCREEN_HEIGHT_def CHAR_W_def CHAR_H_def

type_synonym glyphs = "nat \<Rightarrow> nat \<Rightarrow> u8"

record console =
  fb :: "u32 list"
  con_pitch :: u32
  cursor_x :: int
  cursor_y :: int
  bg_color :: u32
  fg_color :: u32

section \<open>Loops that may fault\<close>

primrec for_res :: "'i list \<Rightarrow> ('i \<Rightarrow> 's \<Rightarrow> 's res) \<Rightarrow> 's \<Rightarrow> 's res" where
  "for_res [] f s = Inr s"
| "for_res (i # is) f s = bind_res (f i s) (for_res is f)"

lemma for_res_append: "for_res (xs @ ys) f s = bind_res (for_res xs f s) (for_res ys f)"
  by (induction xs arbitrary: s) (auto simp: bind_res_def split: sum.splits)

lemma for_res_upt:
  assumes "a \<le> b" "P a s"
    and "\<And>i t. a \<le> i \<Longrightarrow> i < b \<Longrightarrow> P i t \<Longrightarrow> \<exists>t'. f i t = Inr t' \<and> P (Suc i) t'"
  shows "\<exists>s'. for_res [a..<b] f s = Inr s' \<and> P b s'"
  using assms
proof (induction rule: dec_induct)
  case base
  then show ?case by simp
next
  case (step n)
  then obtain t where t: "for_res [a..<n] f s = Inr t" "P n t" by (metis less_SucI)
  obtain t' where "f n t = Inr t'" "P (Suc n) t'" using step.prems(2) [of n t] step.hyps t by auto
  with t step.hyps show ?case by (simp add: for_res_append)
qed

lemma for_res_ok:
  assumes "P s" "\<And>i t. i \<in> set is \<Longrightarrow> P t \<Longrightarrow> \<exists>t'. f i t = Inr t' \<and> P t'"
  shows "\<exists>s'. for_res is f s = Inr s' \<and> P s'"
  using assms
proof (induction "is" arbitrary: s)
  case (Cons i "is")
  obtain t where "f i s = Inr t" "P t" using Cons.prems by (metis list.set_intros(1))
  with Cons.IH [of t] Cons.prems(2) show ?case by (metis bind_res_simps(2) for_res.simps(2) list.set_intros(2))
qed simp

section \<open>Drawing\<close>

definition poke :: "nat \<Rightarrow> u32 \<Rightarrow> console \<Rightarrow> console res" where
  "poke i v c = (if i < length (fb c) then Inr (c\<lparr>fb := (fb c)[i := v]\<rparr>) else Inl OutOfBounds)"

definition peek :: "nat \<Rightarrow> console \<Rightarrow> u32 res" where
  "peek i c = (if i < length (fb c) then Inr (fb c ! i) else Inl OutOfBounds)"

definition pixel :: "int \<Rightarrow> int \<Rightarrow> console \<Rightarrow> nat" where
  "pixel y x c = unat (of_int y * con_pitch c + of_int x)"

definition draw_rect :: "int \<Rightarrow> int \<Rightarrow> nat \<Rightarrow> nat \<Rightarrow> u32 \<Rightarrow> console \<Rightarrow> console res" where
  "draw_rect x y w h color =
     for_res [0..<h] (\<lambda>i. for_res [0..<w] (\<lambda>j c. poke (pixel (y + int i) (x + int j) c) color c))"

definition draw_char :: "glyphs \<Rightarrow> char \<Rightarrow> int \<Rightarrow> int \<Rightarrow> u32 \<Rightarrow> console \<Rightarrow> console res" where
  "draw_char font ch x y color =
     (let k = (of_char ch :: nat); k = (if k > 127 then of_char (CHR ''?'') else k)
      in for_res [0..<8] (\<lambda>row. for_res [0..<8] (\<lambda>col c.
           if bit (font k row) col then poke (pixel (y + int row) (x + int col) c) color c else Inr c)))"

definition console_clear :: "console \<Rightarrow> console res" where
  "console_clear c =
     bind_res (for_res [0..<nat SCREEN_HEIGHT] (\<lambda>y c. for_res [0..<unat (con_pitch c)]
                 (\<lambda>x c. poke (y * unat (con_pitch c) + x) (bg_color c) c) c) c)
       (\<lambda>c. Inr (c\<lparr>cursor_x := 10, cursor_y := 10\<rparr>))"

definition console_init :: "u32 list \<Rightarrow> u64 \<Rightarrow> console \<Rightarrow> console res" where
  "console_init fbuf fb_pitch c = console_clear (c\<lparr>fb := fbuf, con_pitch := ucast (fb_pitch div 4)\<rparr>)"

definition set_bg_color :: "u32 \<Rightarrow> console \<Rightarrow> console" where
  "set_bg_color color c = c\<lparr>bg_color := color\<rparr>"

section \<open>The cursor\<close>

definition console_backspace :: "console \<Rightarrow> console res" where
  "console_backspace c =
     (let c = (if cursor_x c > 10 then c\<lparr>cursor_x := cursor_x c - CHAR_W\<rparr>
               else if cursor_y c > 10
               then c\<lparr>cursor_y := cursor_y c - (CHAR_H + 4), cursor_x := ((SCREEN_WIDTH - 20) div CHAR_W) * CHAR_W\<rparr>
               else c)
      in draw_rect (cursor_x c) (cursor_y c) (nat CHAR_W) (nat CHAR_H) (bg_color c) c)"

definition console_scroll :: "console \<Rightarrow> console res" where
  "console_scroll c =
     (let line_h = nat (CHAR_H + 4); shift_rows = nat SCREEN_HEIGHT - line_h;
          row = (\<lambda>y c. unat (of_nat y * con_pitch c :: u32))
      in bind_res (for_res [0..<shift_rows] (\<lambda>y c. for_res [0..<unat (con_pitch c)] (\<lambda>x c.
             bind_res (peek (row (y + line_h) c + x) c) (\<lambda>v. poke (row y c + x) v c)) c) c)
         (\<lambda>c. bind_res (for_res [shift_rows..<nat SCREEN_HEIGHT] (\<lambda>y c. for_res [0..<unat (con_pitch c)] (\<lambda>x c.
             poke (row y c + x) (bg_color c) c) c) c)
         (\<lambda>c. let c = c\<lparr>cursor_y := cursor_y c - int line_h\<rparr>
              in Inr (if cursor_y c < 10 then c\<lparr>cursor_y := 10\<rparr> else c))))"

definition console_newline :: "console \<Rightarrow> console res" where
  "console_newline c =
     (let c = c\<lparr>cursor_x := 10, cursor_y := cursor_y c + CHAR_H + 4\<rparr>
      in if cursor_y c + CHAR_H > SCREEN_HEIGHT - 10 then console_scroll c else Inr c)"

definition console_putc :: "glyphs \<Rightarrow> char \<Rightarrow> console \<Rightarrow> console res" where
  "console_putc font ch c =
     (if ch = CHR 0x0A then console_newline c
      else if ch = CHR 0x08 then console_backspace c
      else bind_res (draw_char font ch (cursor_x c) (cursor_y c) (fg_color c) c)
             (\<lambda>c. let c = c\<lparr>cursor_x := cursor_x c + CHAR_W\<rparr>
                  in if cursor_x c > SCREEN_WIDTH - 10 then console_newline c else Inr c))"

definition console_print :: "glyphs \<Rightarrow> string \<Rightarrow> console \<Rightarrow> console res" where
  "console_print font = (\<lambda>s. for_res s (console_putc font))"

text \<open>What the rest of the kernel asks of the console, as a request.\<close>

datatype con_op = Print string | Putc char | Backspace | Clear | SetBg u32

primrec con_run :: "glyphs \<Rightarrow> con_op \<Rightarrow> console \<Rightarrow> console res" where
  "con_run font (Print s) c = console_print font s c"
| "con_run font (Putc ch) c = console_putc font ch c"
| "con_run font Backspace c = console_backspace c"
| "con_run font Clear c = console_clear c"
| "con_run font (SetBg v) c = Inr (set_bg_color v c)"

section \<open>Geometry\<close>

abbreviation pitch_of :: "console \<Rightarrow> nat" where "pitch_of c \<equiv> unat (con_pitch c)"

definition fb_ok :: "console \<Rightarrow> bool" where
  "fb_ok c \<longleftrightarrow> length (fb c) = 768 * pitch_of c \<and> 1024 \<le> pitch_of c \<and> 768 * pitch_of c < 4294967296"

definition con_inv :: "console \<Rightarrow> bool" where
  "con_inv c \<longleftrightarrow> fb_ok c \<and> 8 \<le> cursor_x c \<and> cursor_x c \<le> 1014 \<and> cursor_x c mod 8 \<in> {0, 2} \<and>
     10 \<le> cursor_y c \<and> cursor_y c \<le> 742 \<and> (cursor_y c - 10) mod 12 = 0"

text \<open>Only pixels differ.\<close>

definition redraw :: "console \<Rightarrow> console \<Rightarrow> bool" where
  "redraw c c' \<longleftrightarrow> length (fb c') = length (fb c) \<and> c' = c\<lparr>fb := fb c'\<rparr>"

lemma redraw_refl [simp]: "redraw c c"
  by (simp add: redraw_def)

lemma redraw_fields:
  assumes "redraw c c'"
  shows "length (fb c') = length (fb c)" "con_pitch c' = con_pitch c" "cursor_x c' = cursor_x c"
    "cursor_y c' = cursor_y c" "bg_color c' = bg_color c" "fg_color c' = fg_color c"
proof -
  have "c' = c\<lparr>fb := fb c'\<rparr>" "length (fb c') = length (fb c)" using assms by (simp_all add: redraw_def)
  then show "length (fb c') = length (fb c)" "con_pitch c' = con_pitch c" "cursor_x c' = cursor_x c"
    "cursor_y c' = cursor_y c" "bg_color c' = bg_color c" "fg_color c' = fg_color c"
    by (metis console.select_convs console.surjective console.update_convs(1))+
qed

lemma redraw_update: "redraw c t \<Longrightarrow> redraw c (t\<lparr>fb := (fb t)[i := v]\<rparr>)"
  by (cases c; cases t) (simp add: redraw_def)

lemma redraw_eq: "redraw c t \<Longrightarrow> fb t = f \<Longrightarrow> t = c\<lparr>fb := f\<rparr>"
  by (simp add: redraw_def)

lemma redraw_fb_ok: "redraw c c' \<Longrightarrow> fb_ok c' = fb_ok c"
  by (simp add: fb_ok_def redraw_fields)

lemma redraw_con_inv: "redraw c c' \<Longrightarrow> con_inv c' = con_inv c"
  by (simp add: con_inv_def redraw_fb_ok redraw_fields)

definition at :: "console \<Rightarrow> nat \<Rightarrow> nat \<Rightarrow> u32" where
  "at c a b = fb c ! (a * pitch_of c + b)"

lemma row_lt: "a < n \<Longrightarrow> b < p \<Longrightarrow> a * p + b < n * (p :: nat)"
proof -
  assume "a < n" "b < p"
  then have "Suc a * p \<le> n * p" by (intro mult_le_mono1) simp
  moreover have "a * p + b < Suc a * p" using \<open>b < p\<close> by simp
  ultimately show ?thesis by simp
qed

lemma row_inj: "b < p \<Longrightarrow> b' < p \<Longrightarrow> a * p + b = a' * p + (b' :: nat) \<longleftrightarrow> a = a' \<and> b = b'"
proof
  assume *: "b < p" "b' < p" "a * p + b = a' * p + b'"
  have "(a * p + b) div p = a" "(a' * p + b') div p = a'"
    using *(1,2) by (simp_all add: div_mult_self3)
  then have "a = a'" using *(3) by metis
  with *(3) show "a = a' \<and> b = b'" by simp
qed simp

lemma unat_u32_exact: "n < 4294967296 \<Longrightarrow> unat (of_nat n :: u32) = n"
  by (simp add: unat_of_nat take_bit_nat_eq_self)

lemma pixel_eq:
  assumes "fb_ok c" "y < 768" "x < pitch_of c"
  shows "pixel (int y) (int x) c = y * pitch_of c + x"
    "y * pitch_of c + x < length (fb c)"
proof -
  have lt: "y * pitch_of c + x < 768 * pitch_of c" using assms by (intro row_lt) auto
  have "of_int (int y) * con_pitch c + of_int (int x) = (of_nat (y * pitch_of c + x) :: u32)" by simp
  then show "pixel (int y) (int x) c = y * pitch_of c + x"
    unfolding pixel_def
  proof (simp only:, intro unat_u32_exact)
    show "y * pitch_of c + x < 4294967296" using lt assms(1) unfolding fb_ok_def by linarith
  qed
  show "y * pitch_of c + x < length (fb c)" using lt assms(1) by (simp add: fb_ok_def)
qed

section \<open>Painting a cell\<close>

text \<open>Both drawing routines are a double loop that stores a colour, or leaves the pixel, per cell.\<close>

definition paint :: "int \<Rightarrow> int \<Rightarrow> nat \<Rightarrow> nat \<Rightarrow> (nat \<Rightarrow> nat \<Rightarrow> u32 option) \<Rightarrow> console \<Rightarrow> console res" where
  "paint x y w h q = for_res [0..<h] (\<lambda>i. for_res [0..<w] (\<lambda>j c.
     case q i j of Some v \<Rightarrow> poke (pixel (y + int i) (x + int j) c) v c | None \<Rightarrow> Inr c))"

definition painted :: "nat \<Rightarrow> nat \<Rightarrow> nat \<Rightarrow> nat \<Rightarrow> (nat \<Rightarrow> nat \<Rightarrow> u32 option) \<Rightarrow> console \<Rightarrow> console \<Rightarrow> bool" where
  "painted x y w h q c c' \<longleftrightarrow> redraw c c' \<and>
     (\<forall>a<768. \<forall>b<pitch_of c. at c' a b =
        (if y \<le> a \<and> a < y + h \<and> x \<le> b \<and> b < x + w
         then (case q (a - y) (b - x) of Some v \<Rightarrow> v | None \<Rightarrow> at c a b) else at c a b))"

lemma poke_at:
  assumes "fb_ok c" "y < 768" "x < pitch_of c"
  shows "\<exists>c'. poke (pixel (int y) (int x) c) v c = Inr c' \<and> redraw c c' \<and>
    (\<forall>a b. b < pitch_of c \<longrightarrow> at c' a b = (if a = y \<and> b = x then v else at c a b))"
  using assms pixel_eq [OF assms]
  by (auto simp: poke_def redraw_update at_def row_inj nth_list_update)

lemma redraw_trans: "redraw a b \<Longrightarrow> redraw b c \<Longrightarrow> redraw a c"
  by (cases a; cases b; cases c) (simp add: redraw_def)

lemma paint_ok:
  assumes ok: "fb_ok c" and fit: "x + w \<le> pitch_of c" "y + h \<le> 768"
  shows "\<exists>c'. paint (int x) (int y) w h q c = Inr c' \<and> painted x y w h q c c'"
proof -
  define R where "R = (\<lambda>i j t. redraw c t \<and> (\<forall>a<768. \<forall>b<pitch_of c. at t a b =
     (if y \<le> a \<and> x \<le> b \<and> b < x + w \<and> (a < y + i \<or> a = y + i \<and> b < x + j)
      then (case q (a - y) (b - x) of Some v \<Rightarrow> v | None \<Rightarrow> at c a b) else at c a b)))"
  define step where "step = (\<lambda>i j c. case q i j of
     Some v \<Rightarrow> poke (pixel (int y + int i) (int x + int j) c) v c | None \<Rightarrow> Inr c)"
  have inner: "\<exists>t'. (case q i j of Some v \<Rightarrow> poke (pixel (int y + int i) (int x + int j) t) v t | None \<Rightarrow> Inr t) = Inr t' \<and> R i (Suc j) t'"
    if i: "i < h" and j: "j < w" and t: "R i j t" for i j t
  proof -
    have rd: "redraw c t" using t by (simp add: R_def)
    have fields: "fb_ok t" "pitch_of t = pitch_of c" using rd ok by (simp_all add: redraw_fb_ok redraw_fields)
    show ?thesis
    proof (cases "q i j")
      case None
      then show ?thesis using t by (auto simp: R_def less_Suc_eq)
    next
      case (Some v)
      obtain t' where t': "poke (pixel (int (y + i)) (int (x + j)) t) v t = Inr t'" "redraw t t'"
        "\<forall>a b. b < pitch_of t \<longrightarrow> at t' a b = (if a = y + i \<and> b = x + j then v else at t a b)"
        using poke_at [of t "y + i" "x + j" v] fields fit i j by auto
      have "at t' a b = (if y \<le> a \<and> x \<le> b \<and> b < x + w \<and> (a < y + i \<or> a = y + i \<and> b < x + Suc j)
        then (case q (a - y) (b - x) of Some v \<Rightarrow> v | None \<Rightarrow> at c a b) else at c a b)"
        if ab: "a < 768" "b < pitch_of c" for a b
      proof (cases "a = y + i \<and> b = x + j")
        case True
        then show ?thesis using t'(3) ab fields(2) Some j by simp
      next
        case False
        then have "at t' a b = at t a b" using t'(3) ab fields(2) by presburger
        moreover have "at t a b = (if y \<le> a \<and> x \<le> b \<and> b < x + w \<and> (a < y + i \<or> a = y + i \<and> b < x + j)
          then (case q (a - y) (b - x) of Some v \<Rightarrow> v | None \<Rightarrow> at c a b) else at c a b)"
          using t ab unfolding R_def by blast
        moreover have "(a < y + i \<or> a = y + i \<and> b < x + j) = (a < y + i \<or> a = y + i \<and> b < x + Suc j)"
          using False by auto
        ultimately show ?thesis by simp
      qed
      then have "R i (Suc j) t'" using redraw_trans [OF rd t'(2)] by (simp only: R_def) blast
      then show ?thesis using t'(1) Some by simp
    qed
  qed
  have row: "\<exists>t'. for_res [0..<w] (step i) t = Inr t' \<and> R (Suc i) 0 t'" if i: "i < h" and t: "R i 0 t" for i t
  proof -
    have "\<exists>t'. for_res [0..<w] (step i) t = Inr t' \<and> R i w t'"
    proof (rule for_res_upt)
      show "R i 0 t" by fact
      show "\<exists>t'. step i j u = Inr t' \<and> R i (Suc j) t'" if "j < w" "R i j u" for j u
        unfolding step_def by (rule inner [OF i that])
    qed simp
    moreover have "(y \<le> a \<and> x \<le> b \<and> b < x + w \<and> (a < y + i \<or> a = y + i \<and> b < x + w)) =
      (y \<le> a \<and> x \<le> b \<and> b < x + w \<and> (a < y + Suc i \<or> a = y + Suc i \<and> b < x + 0))" for a b
      by auto
    ultimately show ?thesis unfolding R_def by metis
  qed
  have "\<exists>c'. for_res [0..<h] (\<lambda>i. for_res [0..<w] (step i)) c = Inr c' \<and> R h 0 c'"
  proof (rule for_res_upt)
    have "\<not> (y \<le> a \<and> x \<le> b \<and> b < x + w \<and> (a < y + 0 \<or> a = y + 0 \<and> b < x + 0))" for a b by auto
    then show "R 0 0 c" unfolding R_def by (simp only: redraw_refl if_False) blast
  qed (use row in auto)
  then obtain c' where c': "for_res [0..<h] (\<lambda>i. for_res [0..<w] (step i)) c = Inr c'" "R h 0 c'" by blast
  have eq: "(y \<le> a \<and> x \<le> b \<and> b < x + w \<and> (a < y + h \<or> a = y + h \<and> b < x + 0)) =
    (y \<le> a \<and> a < y + h \<and> x \<le> b \<and> b < x + w)" for a b by auto
  have "painted x y w h q c c'" using c'(2) unfolding R_def painted_def eq .
  with c'(1) show ?thesis unfolding paint_def step_def by blast
qed

lemma draw_rect_paint: "draw_rect x y w h color = paint x y w h (\<lambda>i j. Some color)"
  by (simp add: draw_rect_def paint_def)

definition glyph_row :: "glyphs \<Rightarrow> char \<Rightarrow> nat \<Rightarrow> u8" where
  "glyph_row font ch = font (if of_char ch > (127 :: nat) then of_char (CHR ''?'') else of_char ch)"

lemma case_if_opt:
  "(case (if P then Some v else None) of None \<Rightarrow> n | Some w \<Rightarrow> f w) = (if P then f v else n)"
  by simp

lemma draw_char_paint:
  "draw_char font ch x y color =
   paint x y 8 8 (\<lambda>i j. if bit (glyph_row font ch i) j then Some color else None)"
  by (simp only: draw_char_def paint_def glyph_row_def Let_def case_if_opt)

section \<open>Clearing and scrolling\<close>

lemma poke_ok: "i < length (fb c) \<Longrightarrow> poke i v c = Inr (c\<lparr>fb := (fb c)[i := v]\<rparr>)"
  by (simp add: poke_def)

text \<open>A double loop over whole rows is one pass over the indices they cover.\<close>

lemma row_loop:
  assumes "a \<le> b"
    and "R (a * p) c"
    and "\<And>y x t. a \<le> y \<Longrightarrow> y < b \<Longrightarrow> x < p \<Longrightarrow> R (y * p + x) t \<Longrightarrow> \<exists>t'. f y x t = Inr t' \<and> R (Suc (y * p + x)) t'"
    and "\<And>k t. R k t \<Longrightarrow> pitch_of t = p"
  shows "\<exists>c'. for_res [a..<b] (\<lambda>y c. for_res [0..<pitch_of c] (f y) c) c = Inr c' \<and> R (b * p) c'"
proof (rule for_res_upt [where P = "\<lambda>y. R (y * p)"])
  show "a \<le> b" "R (a * p) c" by fact+
  fix y t
  assume y: "a \<le> y" "y < b" and t: "R (y * p) t"
  have "\<exists>t'. for_res [0..<p] (f y) t = Inr t' \<and> R (y * p + p) t'"
    using for_res_upt [of 0 p "\<lambda>x. R (y * p + x)" t "f y"] t assms(3) [OF y] by simp
  then show "\<exists>t'. for_res [0..<pitch_of t] (f y) t = Inr t' \<and> R (Suc y * p) t'"
    using assms(4) [OF t] by (simp add: add.commute)
qed

definition filled :: "console \<Rightarrow> u32 list \<Rightarrow> nat \<Rightarrow> console \<Rightarrow> bool" where
  "filled c f k t \<longleftrightarrow> t = c\<lparr>fb := take k f @ drop k (fb c)\<rparr>"

lemma filled_step:
  assumes "filled c f k t" "k < length (fb c)" "length f = length (fb c)"
  shows "k \<le> m \<Longrightarrow> m < length (fb c) \<Longrightarrow> m < length (fb t) \<and> fb t ! m = fb c ! m" "k < length (fb t)" "filled c f (Suc k) (t\<lparr>fb := (fb t)[k := f ! k]\<rparr>)"
proof -
  have "(take k f @ drop k (fb c))[k := f ! k] = take (Suc k) f @ drop (Suc k) (fb c)"
    using assms(2,3) by (simp add: list_update_append take_Suc_conv_app_nth flip: Cons_nth_drop_Suc)
  then show "filled c f (Suc k) (t\<lparr>fb := (fb t)[k := f ! k]\<rparr>)"
    using assms(1) by (cases c) (simp add: filled_def)
  show "k \<le> m \<Longrightarrow> m < length (fb c) \<Longrightarrow> m < length (fb t) \<and> fb t ! m = fb c ! m" "k < length (fb t)"
    using assms by (auto simp: filled_def nth_append)
qed

lemma filled_pitch: "filled c f k t \<Longrightarrow> pitch_of t = pitch_of c \<and> bg_color t = bg_color c"
  by (cases c) (simp add: filled_def)

lemma console_clear_eq:
  assumes "fb_ok c"
  shows "console_clear c = Inr (c\<lparr>fb := replicate (768 * pitch_of c) (bg_color c), cursor_x := 10, cursor_y := 10\<rparr>)"
proof -
  let ?p = "pitch_of c" and ?f = "replicate (768 * pitch_of c) (bg_color c)"
  have l: "length (fb c) = 768 * ?p" using assms by (simp add: fb_ok_def)
  have "\<exists>c'. for_res [0..<768] (\<lambda>y c. for_res [0..<pitch_of c]
      ((\<lambda>y x c. poke (y * pitch_of c + x) (bg_color c) c) y) c) c = Inr c' \<and> filled c ?f (768 * ?p) c'"
  proof (rule row_loop [where R = "filled c ?f" and p = ?p])
    show "filled c ?f (0 * ?p) c" by (simp add: filled_def)
    fix y x t
    assume y: "y < (768 :: nat)" and x: "x < ?p" and t: "filled c ?f (y * ?p + x) t"
    have lt: "y * ?p + x < 768 * ?p" using y x by (rule row_lt)
    from filled_step [OF t, unfolded l length_replicate] lt
    show "\<exists>t'. poke (y * pitch_of t + x) (bg_color t) t = Inr t' \<and> filled c ?f (Suc (y * ?p + x)) t'"
      using filled_pitch [OF t] by (simp add: poke_ok)
  qed (auto simp: filled_pitch)
  then show ?thesis using l by (auto simp: console_clear_def SCREEN_HEIGHT_def filled_def)
qed

lemma row_start:
  assumes "fb_ok c" "y < 768"
  shows "unat (of_nat y * con_pitch c :: u32) = y * pitch_of c"
  using pixel_eq(1) [OF assms, of 0] assms(1) by (simp add: pixel_def fb_ok_def)

lemma filled_fb_ok: "filled c f k t \<Longrightarrow> length f = length (fb c) \<Longrightarrow> k \<le> length f \<Longrightarrow> fb_ok t = fb_ok c"
  by (cases c) (simp add: filled_def fb_ok_def)

lemma console_scroll_eq:
  assumes "fb_ok c"
  shows "console_scroll c = Inr (c\<lparr>fb := drop (12 * pitch_of c) (fb c) @ replicate (12 * pitch_of c) (bg_color c),
    cursor_y := max 10 (cursor_y c - 12)\<rparr>)"
proof -
  let ?p = "pitch_of c"
  let ?f = "drop (12 * ?p) (fb c) @ drop (756 * ?p) (fb c)"
  let ?g = "drop (12 * ?p) (fb c) @ replicate (12 * ?p) (bg_color c)"
  have l: "length (fb c) = 768 * ?p" using assms by (simp add: fb_ok_def)
  have lf: "length ?f = length (fb c)" and lg: "length ?g = length (fb c)" using l by auto
  have "\<exists>c'. for_res [0..<756] (\<lambda>y c. for_res [0..<pitch_of c] ((\<lambda>y x c.
       bind_res (peek (unat (of_nat (y + 12) * con_pitch c) + x) c)
         (\<lambda>v. poke (unat (of_nat y * con_pitch c) + x) v c)) y) c) c = Inr c' \<and> filled c ?f (756 * ?p) c'"
  proof (rule row_loop [where R = "filled c ?f" and p = ?p])
    show "filled c ?f (0 * ?p) c" by (simp add: filled_def)
    fix y x t
    assume y: "y < (756 :: nat)" and x: "x < ?p" and t: "filled c ?f (y * ?p + x) t"
    have k: "y * ?p + x < 756 * ?p" using y x by (rule row_lt)
    have m: "(y + 12) * ?p + x < 768 * ?p" using y x by (intro row_lt) auto
    have ok: "fb_ok t" using filled_fb_ok [OF t lf] k l assms lf by simp
    have p: "pitch_of t = ?p" using filled_pitch [OF t] by simp
    note st = filled_step [OF t _ lf]
    have rd: "peek (unat (of_nat (y + 12) * con_pitch t) + x) t = Inr (fb c ! ((y + 12) * ?p + x))"
      using st(1) [of "(y + 12) * ?p + x"] k m l row_start [OF ok, of "y + 12"] y
      by (simp add: peek_def p add_mult_distrib)
    have v: "?f ! (y * ?p + x) = fb c ! ((y + 12) * ?p + x)"
    proof -
      have "(y + 12) * ?p + x = 12 * ?p + (y * ?p + x)" by (simp add: add_mult_distrib)
      then show ?thesis using k l by (simp add: nth_append add.assoc)
    qed
    have "poke (unat (of_nat y * con_pitch t) + x) (fb c ! ((y + 12) * ?p + x)) t =
        Inr (t\<lparr>fb := (fb t)[y * ?p + x := ?f ! (y * ?p + x)]\<rparr>)"
      using st(2) k l row_start [OF ok, of y] y by (simp add: poke_def p v)
    with rd st(3) k l show "\<exists>t'. bind_res (peek (unat (of_nat (y + 12) * con_pitch t) + x) t)
         (\<lambda>v. poke (unat (of_nat y * con_pitch t) + x) v t) = Inr t' \<and> filled c ?f (Suc (y * ?p + x)) t'"
      by simp
  qed (auto simp: filled_pitch)
  then obtain c1 where c1: "for_res [0..<756] (\<lambda>y c. for_res [0..<pitch_of c] (\<lambda>x c.
       bind_res (peek (unat (of_nat (y + 12) * con_pitch c) + x) c)
         (\<lambda>v. poke (unat (of_nat y * con_pitch c) + x) v c)) c) c = Inr c1" "filled c ?f (756 * ?p) c1" by blast
  have fb1: "c1 = c\<lparr>fb := ?f\<rparr>" using c1(2) l by (simp add: filled_def)
  have ok1: "fb_ok c1" "pitch_of c1 = ?p" using filled_fb_ok [OF c1(2) lf] assms l filled_pitch [OF c1(2)] by auto
  have l1: "length (fb c1) = 768 * ?p" "length ?g = length (fb c1)" using l fb1 by auto
  have "\<exists>c'. for_res [756..<768] (\<lambda>y c. for_res [0..<pitch_of c] ((\<lambda>y x c.
       poke (unat (of_nat y * con_pitch c) + x) (bg_color c) c) y) c) c1 = Inr c' \<and> filled c1 ?g (768 * ?p) c'"
  proof (rule row_loop [where R = "filled c1 ?g" and p = ?p])
    show "filled c1 ?g (756 * ?p) c1" using l fb1 by (simp add: filled_def)
    fix y x t
    assume y: "756 \<le> y" "y < (768 :: nat)" and x: "x < ?p" and t: "filled c1 ?g (y * ?p + x) t"
    have k: "y * ?p + x < 768 * ?p" using y(2) x by (rule row_lt)
    have "756 * ?p \<le> y * ?p" using y(1) by (rule mult_le_mono1)
    then have "\<not> y * ?p + x < 756 * ?p" by linarith
    then have v: "?g ! (y * ?p + x) = bg_color t" using k l filled_pitch [OF t] fb1 by (simp add: nth_append)
    have ok: "fb_ok t" "pitch_of t = ?p" using filled_fb_ok [OF t l1(2)] k l1 ok1 filled_pitch [OF t] by auto
    have "poke (unat (of_nat y * con_pitch t) + x) (bg_color t) t =
        Inr (t\<lparr>fb := (fb t)[y * ?p + x := ?g ! (y * ?p + x)]\<rparr>)"
      using filled_step(2) [OF t _ l1(2)] k l1 row_start [OF ok(1) y(2)] ok(2) by (simp add: poke_def v)
    then show "\<exists>t'. poke (unat (of_nat y * con_pitch t) + x) (bg_color t) t = Inr t' \<and>
        filled c1 ?g (Suc (y * ?p + x)) t'"
      using filled_step(3) [OF t _ l1(2)] k l1 by simp
  qed (use ok1 in \<open>auto simp: filled_pitch\<close>)
  then obtain c2 where c2: "for_res [756..<768] (\<lambda>y c. for_res [0..<pitch_of c] (\<lambda>x c.
       poke (unat (of_nat y * con_pitch c) + x) (bg_color c) c) c) c1 = Inr c2" "filled c1 ?g (768 * ?p) c2" by blast
  have "c2 = c\<lparr>fb := ?g\<rparr>" using c2(2) fb1 l by (simp add: filled_def)
  then show ?thesis
    using c1(1) c2(1) by (simp add: console_scroll_def screen_consts max_def)
qed

section \<open>No store leaves the framebuffer\<close>

lemma newline_ok:
  assumes ok: "fb_ok c" and y: "10 \<le> cursor_y c" "cursor_y c \<le> 742" "(cursor_y c - 10) mod 12 = 0"
  shows "\<exists>c'. console_newline c = Inr c' \<and> con_inv c' \<and> cursor_x c' = 10 \<and> con_pitch c' = con_pitch c \<and>
    bg_color c' = bg_color c \<and> fg_color c' = fg_color c \<and>
    (cursor_y c \<le> 730 \<longrightarrow> c' = c\<lparr>cursor_x := 10, cursor_y := cursor_y c + 12\<rparr>)"
proof -
  let ?c = "c\<lparr>cursor_x := 10, cursor_y := cursor_y c + CHAR_H + 4\<rparr>"
  have ok': "fb_ok ?c" using ok by (simp add: fb_ok_def)
  have "cursor_y c = 742 \<or> cursor_y c \<le> 730" using y by presburger
  then show ?thesis
  proof
    assume "cursor_y c = 742"
    then show ?thesis using console_scroll_eq [OF ok'] ok
      by (simp add: console_newline_def screen_consts con_inv_def fb_ok_def)
  next
    assume "cursor_y c \<le> 730"
    moreover have "(cursor_y c + 12 - 10) mod 12 = 0" using y(3) by presburger
    ultimately show ?thesis using ok y by (simp add: console_newline_def screen_consts con_inv_def fb_ok_def)
  qed
qed

lemma paint_cell_ok:
  assumes "fb_ok c" "0 \<le> x" "x + int w \<le> 1024" "0 \<le> y" "y + int h \<le> 768"
  shows "\<exists>c'. paint x y w h q c = Inr c' \<and> painted (nat x) (nat y) w h q c c'"
proof -
  have "\<exists>c'. paint (int (nat x)) (int (nat y)) w h q c = Inr c' \<and> painted (nat x) (nat y) w h q c c'"
    using assms by (intro paint_ok) (auto simp: fb_ok_def)
  with assms(2,4) show ?thesis by simp
qed

lemma painted_redraw: "painted x y w h q c c' \<Longrightarrow> redraw c c'"
  by (simp add: painted_def)

lemma left_margin: "10 < x \<Longrightarrow> x mod 8 \<in> {0, 2} \<Longrightarrow> 16 \<le> (x :: int)"
proof (rule ccontr)
  assume x: "10 < x" "x mod 8 \<in> {0, 2}" "\<not> 16 \<le> x"
  then have "x = 11 \<or> x = 12 \<or> x = 13 \<or> x = 14 \<or> x = 15" by linarith
  with x(2) show False by auto
qed

lemma top_margin: "10 < y \<Longrightarrow> (y - 10) mod 12 = 0 \<Longrightarrow> 22 \<le> y \<and> (y - 22) mod 12 = (0 :: int)"
  by presburger

lemma backspace_ok:
  assumes "con_inv c"
  shows "\<exists>c'. console_backspace c = Inr c' \<and> con_inv c' \<and> con_pitch c' = con_pitch c"
proof -
  define d where "d = (if cursor_x c > 10 then c\<lparr>cursor_x := cursor_x c - CHAR_W\<rparr>
      else if cursor_y c > 10
      then c\<lparr>cursor_y := cursor_y c - (CHAR_H + 4), cursor_x := ((SCREEN_WIDTH - 20) div CHAR_W) * CHAR_W\<rparr> else c)"
  have i: "fb_ok c" "8 \<le> cursor_x c" "cursor_x c \<le> 1014" "cursor_x c mod 8 \<in> {0, 2}"
    "10 \<le> cursor_y c" "cursor_y c \<le> 742" "(cursor_y c - 10) mod 12 = 0" using assms unfolding con_inv_def by blast+
  have d: "con_inv d" "con_pitch d = con_pitch c"
    using i left_margin [OF _ i(4)] top_margin [OF _ i(7)] minus_mod_self2 [of "cursor_x c" 8]
    unfolding d_def con_inv_def fb_ok_def screen_consts by (cases "cursor_x c > 10"; cases "cursor_y c > 10"; simp)+
  obtain c' where c': "paint (cursor_x d) (cursor_y d) 8 8 (\<lambda>i j. Some (bg_color d)) d = Inr c'" "redraw d c'"
    using paint_cell_ok [of d "cursor_x d" 8 "cursor_y d" 8] painted_redraw d(1) by (fastforce simp: con_inv_def)
  have "console_backspace c = draw_rect (cursor_x d) (cursor_y d) (nat CHAR_W) (nat CHAR_H) (bg_color d) d"
    unfolding console_backspace_def Let_def d_def ..
  then show ?thesis
    using c'(1) d redraw_con_inv [OF c'(2)] redraw_fields(2) [OF c'(2)] by (simp add: draw_rect_paint CHAR_W_def CHAR_H_def)
qed

lemma putc_ok:
  assumes "con_inv c"
  shows "\<exists>c'. console_putc font ch c = Inr c' \<and> con_inv c' \<and> con_pitch c' = con_pitch c"
proof -
  have nl: "\<exists>c'. console_newline d = Inr c' \<and> con_inv c' \<and> con_pitch c' = con_pitch d"
    if "fb_ok d" "cursor_y d = cursor_y c" for d
    using newline_ok [OF that(1)] that(2) assms by (auto simp: con_inv_def)
  let ?q = "\<lambda>i j. if bit (glyph_row font ch i) j then Some (fg_color c) else None"
  obtain d where d: "paint (cursor_x c) (cursor_y c) 8 8 ?q c = Inr d" "redraw c d"
    using paint_cell_ok [of c "cursor_x c" 8 "cursor_y c" 8 ?q] painted_redraw assms by (fastforce simp: con_inv_def)
  let ?d = "d\<lparr>cursor_x := cursor_x d + 8\<rparr>"
  have "con_inv d" using assms by (simp add: redraw_con_inv [OF d(2)])
  then have i: "fb_ok ?d" "cursor_y ?d = cursor_y c" "con_pitch ?d = con_pitch c" "cursor_x ?d \<le> 1014 \<Longrightarrow> con_inv ?d"
    using redraw_fields [OF d(2)] by (auto simp: con_inv_def fb_ok_def)
  have "\<exists>c'. (if 1014 < cursor_x ?d then console_newline ?d else Inr ?d) = Inr c' \<and> con_inv c' \<and> con_pitch c' = con_pitch c"
    using nl [OF i(1,2)] i(3,4) by auto
  with d(1) nl [of c] backspace_ok [OF assms] assms show ?thesis
    by (auto simp: console_putc_def draw_char_paint screen_consts con_inv_def Let_def)
qed

lemma print_ok: "con_inv c \<Longrightarrow> \<exists>c'. console_print font s c = Inr c' \<and> con_inv c' \<and> con_pitch c' = con_pitch c"
  unfolding console_print_def
  using for_res_ok [of "\<lambda>t. con_inv t \<and> con_pitch t = con_pitch c" c s "console_putc font"] putc_ok by force

lemma con_run_ok: "con_inv c \<Longrightarrow> \<exists>c'. con_run font r c = Inr c' \<and> con_inv c' \<and> con_pitch c' = con_pitch c"
proof (cases r)
  case Clear
  assume "con_inv c"
  then show ?thesis using Clear console_clear_eq [of c] by (simp add: con_inv_def fb_ok_def)
next
  case (SetBg v)
  assume "con_inv c"
  then show ?thesis using SetBg by (simp add: set_bg_color_def con_inv_def fb_ok_def)
qed (simp_all add: print_ok putc_ok backspace_ok)

lemma con_init_ok:
  assumes "length fbuf = 768 * p" "unat (ucast (fb_pitch div 4) :: u32) = p" "1024 \<le> p" "768 * p < 4294967296"
  shows "\<exists>c'. console_init fbuf fb_pitch c = Inr c' \<and> con_inv c' \<and> unat (con_pitch c') = p"
  using assms console_clear_eq [of "c\<lparr>fb := fbuf, con_pitch := ucast (fb_pitch div 4)\<rparr>"]
  by (simp add: console_init_def fb_ok_def con_inv_def)

text \<open>C20: No console request, in any number and order, ever stores outside the framebuffer or reads
  outside it while scrolling, provided the mode has 768 rows of at least 1024 pixels; the cursor stays on the screen.
\<close>

theorem console_safe:
  assumes "length fbuf = 768 * p" "unat (ucast (fb_pitch div 4) :: u32) = p" "1024 \<le> p" "768 * p < 4294967296"
  shows "\<exists>c'. bind_res (console_init fbuf fb_pitch c) (for_res reqs (con_run font)) = Inr c' \<and>
    length (fb c') = 768 * p \<and> 8 \<le> cursor_x c' \<and> cursor_x c' + CHAR_W \<le> SCREEN_WIDTH \<and>
    10 \<le> cursor_y c' \<and> cursor_y c' + CHAR_H \<le> SCREEN_HEIGHT - 10"
proof -
  obtain c0 where c0: "console_init fbuf fb_pitch c = Inr c0" "con_inv c0" "unat (con_pitch c0) = p"
    using con_init_ok [OF assms] by blast
  obtain c' where "for_res reqs (con_run font) c0 = Inr c'" "con_inv c' \<and> con_pitch c' = con_pitch c0"
    using for_res_ok [of "\<lambda>t. con_inv t \<and> con_pitch t = con_pitch c0" c0 reqs "con_run font"] con_run_ok [of _ font] c0(2)
    by (metis (no_types, lifting))
  with c0 show ?thesis by (auto simp: con_inv_def fb_ok_def screen_consts)
qed

definition no_con :: console where
  "no_con = \<lparr>fb = [], con_pitch = 0, cursor_x = 10, cursor_y = 10, bg_color = 0x0000FF, fg_color = 0xFFFFFF\<rparr>"

theorem console_safe_witness:
  "\<exists>c'. bind_res (console_init (replicate 786432 0) 4096 no_con)
      (for_res [Print ''hi'', Putc (CHR 0x0A), Backspace] (con_run (\<lambda>_ _. 0xFF))) = Inr c' \<and>
    length (fb c') = 768 * 1024 \<and> 8 \<le> cursor_x c' \<and> cursor_x c' + CHAR_W \<le> SCREEN_WIDTH \<and>
    10 \<le> cursor_y c' \<and> cursor_y c' + CHAR_H \<le> SCREEN_HEIGHT - 10"
  by (rule console_safe) simp_all

text \<open>C33: Scrolling is exactly moving the picture up by twelve rows: the pixel-by-pixel copy, done in place, equals
  dropping the first twelve rows of the framebuffer and appending twelve rows of background.
\<close>

theorem scroll_is_shift:
  assumes "length (fb c) = 768 * unat (con_pitch c)" "1024 \<le> unat (con_pitch c)" "768 * unat (con_pitch c) < 4294967296"
  shows "console_scroll c = Inr (c\<lparr>fb := drop (12 * unat (con_pitch c)) (fb c) @
    replicate (12 * unat (con_pitch c)) (bg_color c), cursor_y := max 10 (cursor_y c - 12)\<rparr>)"
  using assms by (intro console_scroll_eq) (simp add: fb_ok_def)

theorem scroll_is_shift_witness:
  "console_scroll (no_con\<lparr>fb := replicate 786432 7, con_pitch := 1024, cursor_y := 754\<rparr>) =
   Inr (no_con\<lparr>fb := replicate (786432 - 12288) 7 @ replicate 12288 0xFF, con_pitch := 1024, cursor_y := 742\<rparr>)"
  using scroll_is_shift [of "no_con\<lparr>fb := replicate 786432 7, con_pitch := 1024, cursor_y := 754\<rparr>"]
  by (simp add: no_con_def)

section \<open>Echo and backspace\<close>

lemma painted_at:
  assumes "painted x y w h q c c'" "a < 768" "b < pitch_of c"
  shows "at c' a b = (if y \<le> a \<and> a < y + h \<and> x \<le> b \<and> b < x + w
     then (case q (a - y) (b - x) of Some v \<Rightarrow> v | None \<Rightarrow> at c a b) else at c a b)"
  using assms by (simp add: painted_def)

definition in_cell :: "int \<Rightarrow> int \<Rightarrow> nat \<Rightarrow> nat \<Rightarrow> bool" where
  "in_cell x y a b \<longleftrightarrow> nat y \<le> a \<and> a < nat y + 8 \<and> nat x \<le> b \<and> b < nat x + 8"

lemma echo_backspace:
  assumes inv: "con_inv c" and ch: "ch \<noteq> CHR 0x0A" "ch \<noteq> CHR 0x08" and x: "cursor_x c \<le> 1006"
  shows "\<exists>c'. bind_res (console_putc font ch c) console_backspace = Inr c' \<and>
    cursor_x c' = cursor_x c \<and> cursor_y c' = cursor_y c \<and>
    (\<forall>a<768. \<forall>b<pitch_of c. at c' a b = (if in_cell (cursor_x c) (cursor_y c) a b then bg_color c else at c a b))"
proof -
  have i: "fb_ok c" "8 \<le> cursor_x c" "10 \<le> cursor_y c" "cursor_y c \<le> 742" using inv unfolding con_inv_def by blast+
  let ?q = "\<lambda>i j. if bit (glyph_row font ch i) j then Some (fg_color c) else None"
  obtain d where d: "paint (cursor_x c) (cursor_y c) 8 8 ?q c = Inr d"
    and p: "painted (nat (cursor_x c)) (nat (cursor_y c)) 8 8 ?q c d"
    using paint_cell_ok [of c "cursor_x c" 8 "cursor_y c" 8 ?q] i x by auto
  note f = redraw_fields [OF painted_redraw [OF p]]
  let ?d = "d\<lparr>cursor_x := cursor_x c + 8\<rparr>"
  have put: "console_putc font ch c = Inr ?d"
    using ch d f x by (simp add: console_putc_def draw_char_paint screen_consts)
  obtain e where e: "paint (cursor_x c) (cursor_y c) 8 8 (\<lambda>i j. Some (bg_color c)) d = Inr e"
    and p': "painted (nat (cursor_x c)) (nat (cursor_y c)) 8 8 (\<lambda>i j. Some (bg_color c)) d e"
    using paint_cell_ok [of d "cursor_x c" 8 "cursor_y c" 8 "\<lambda>i j. Some (bg_color c)"] i x
      redraw_fb_ok [OF painted_redraw [OF p]] by auto
  note f' = redraw_fields [OF painted_redraw [OF p']]
  have same: "d\<lparr>cursor_x := cursor_x c\<rparr> = d" using f(3) by (cases d) simp
  have "console_backspace ?d = paint (cursor_x c) (cursor_y c) 8 8 (\<lambda>i j. Some (bg_color c)) (d\<lparr>cursor_x := cursor_x c\<rparr>)"
    using i(2) f by (simp add: console_backspace_def draw_rect_paint screen_consts)
  then have "console_backspace ?d = Inr e" unfolding same e .
  moreover have "at e a b = (if in_cell (cursor_x c) (cursor_y c) a b then bg_color c else at c a b)"
    if "a < 768" "b < pitch_of c" for a b
    using painted_at [OF p that] painted_at [OF p', of a b] that f by (auto simp: in_cell_def)
  ultimately show ?thesis using put f f' by simp
qed

text \<open>Typing a character and erasing it with backspace restores the cursor and leaves the screen as it was except that the
  character's cell is background, as long as the character was not drawn in the last column.
\<close>

theorem backspace_undoes_putc:
  assumes "con_inv c" "ch \<noteq> CHR 0x0A" "ch \<noteq> CHR 0x08" "cursor_x c \<le> 1006"
  shows "\<exists>c'. bind_res (console_putc font ch c) console_backspace = Inr c' \<and>
    cursor_x c' = cursor_x c \<and> cursor_y c' = cursor_y c \<and>
    (\<forall>a<768. \<forall>b<unat (con_pitch c). at c' a b =
       (if in_cell (cursor_x c) (cursor_y c) a b then bg_color c else at c a b))"
  by (rule echo_backspace [OF assms])

definition con_demo :: "int \<Rightarrow> console" where
  "con_demo x = no_con\<lparr>fb := replicate 786432 0, con_pitch := 1024, cursor_x := x\<rparr>"

lemma con_demo_inv: "8 \<le> x \<Longrightarrow> x \<le> 1014 \<Longrightarrow> x mod 8 = 2 \<Longrightarrow> con_inv (con_demo x)"
  by (simp add: con_inv_def fb_ok_def con_demo_def no_con_def)

theorem backspace_undoes_putc_witness:
  "\<exists>c'. bind_res (console_putc (\<lambda>_ _. 0xFF) (CHR ''x'') (con_demo 10)) console_backspace = Inr c' \<and>
    cursor_x c' = 10 \<and> cursor_y c' = 10 \<and> at c' 12 12 = 0xFF \<and> at c' 30 30 = 0"
proof -
  let ?c = "con_demo 10"
  have f: "cursor_x ?c = 10" "cursor_y ?c = 10" "unat (con_pitch ?c) = 1024" "bg_color ?c = 0xFF" "at ?c 30 30 = 0"
    by (simp_all add: con_demo_def no_con_def at_def)
  obtain c' where c': "bind_res (console_putc (\<lambda>_ _. 0xFF) (CHR ''x'') ?c) console_backspace = Inr c'"
    "cursor_x c' = 10" "cursor_y c' = 10" "\<forall>a<768. \<forall>b<1024. at c' a b = (if in_cell 10 10 a b then 0xFF else at ?c a b)"
    using backspace_undoes_putc [of ?c "CHR ''x''" "\<lambda>_ _. 0xFF"] con_demo_inv [of 10] unfolding f by auto
  then have "at c' 12 12 = 0xFF" "at c' 30 30 = 0" using f(5) by (simp_all add: in_cell_def)
  with c' show ?thesis by blast
qed

text \<open>In the last column (1010 on the grid) the character wraps the cursor to the next line, and backspace
  goes back to column 1000 instead: the pixels of the character right of 1007 stay on the screen.
\<close>

theorem backspace_wrap_misses:
  assumes inv: "con_inv c" and ch: "ch \<noteq> CHR 0x0A" "ch \<noteq> CHR 0x08" and x: "cursor_x c = 1010"
    and y: "cursor_y c \<le> 730"
  shows "\<exists>c'. bind_res (console_putc font ch c) console_backspace = Inr c' \<and>
    cursor_x c' = 1000 \<and> cursor_y c' = cursor_y c \<and>
    (\<forall>a<8. \<forall>b<8. bit (glyph_row font ch a) b \<longrightarrow> at c' (nat (cursor_y c) + a) (1010 + b) = fg_color c)"
proof -
  have i: "fb_ok c" "10 \<le> cursor_y c" "(cursor_y c - 10) mod 12 = 0" using inv unfolding con_inv_def by blast+
  let ?q = "\<lambda>i j. if bit (glyph_row font ch i) j then Some (fg_color c) else None"
  obtain d where d: "paint (cursor_x c) (cursor_y c) 8 8 ?q c = Inr d"
    and p: "painted (nat (cursor_x c)) (nat (cursor_y c)) 8 8 ?q c d"
    using paint_cell_ok [of c "cursor_x c" 8 "cursor_y c" 8 ?q] i x y by auto
  note f = redraw_fields [OF painted_redraw [OF p]] redraw_fb_ok [OF painted_redraw [OF p]]
  let ?d = "d\<lparr>cursor_x := 1018\<rparr>"
  let ?e = "d\<lparr>cursor_x := 10, cursor_y := cursor_y c + 12\<rparr>"
  let ?g = "d\<lparr>cursor_y := cursor_y c, cursor_x := 1000\<rparr>"
  have "console_newline ?d = Inr ?e"
    using y f by (simp add: console_newline_def screen_consts)
  then have put: "console_putc font ch c = Inr ?e"
    using ch d f x by (simp add: console_putc_def draw_char_paint screen_consts)
  have ok: "fb_ok ?g" using f i(1) by (simp add: fb_ok_def)
  obtain e where e: "paint 1000 (cursor_y c) 8 8 (\<lambda>i j. Some (bg_color c)) ?g = Inr e"
    and p': "painted 1000 (nat (cursor_y c)) 8 8 (\<lambda>i j. Some (bg_color c)) ?g e"
    using paint_cell_ok [OF ok, of 1000 8 "cursor_y c" 8 "\<lambda>i j. Some (bg_color c)"] i y by auto
  note f' = redraw_fields [OF painted_redraw [OF p']]
  have bsp: "console_backspace ?e = Inr e"
    using e f i(2) by (simp add: console_backspace_def draw_rect_paint screen_consts)
  have "at e (nat (cursor_y c) + a) (1010 + b) = fg_color c" if "a < 8" "b < 8" "bit (glyph_row font ch a) b" for a b
  proof -
    have lt: "nat (cursor_y c) + a < 768" "1010 + b < pitch_of c" "pitch_of ?g = pitch_of c"
      using that i y f by (auto simp: fb_ok_def)
    have "at e (nat (cursor_y c) + a) (1010 + b) = at d (nat (cursor_y c) + a) (1010 + b)"
      using painted_at [OF p' lt(1)] lt(2,3) by (simp add: at_def)
    then show ?thesis using painted_at [OF p lt(1,2)] that x by simp
  qed
  then show ?thesis using put bsp f f' by simp
qed

theorem backspace_wrap_misses_witness:
  "\<exists>c'. bind_res (console_putc (\<lambda>_ _. 0xFF) (CHR ''x'') (con_demo 1010)) console_backspace = Inr c' \<and>
    cursor_x c' = 1000 \<and> at c' 10 1017 = fg_color (con_demo 1010)"
proof -
  let ?c = "con_demo 1010"
  have y: "cursor_y ?c = 10" "cursor_x ?c = 1010" by (simp_all add: con_demo_def no_con_def)
  obtain c' where c': "bind_res (console_putc (\<lambda>_ _. 0xFF) (CHR ''x'') ?c) console_backspace = Inr c'" "cursor_x c' = 1000"
    "\<forall>a<8. \<forall>b<8. bit (glyph_row (\<lambda>_ _. 0xFF) (CHR ''x'') a) b \<longrightarrow> at c' (nat 10 + a) (1010 + b) = fg_color ?c"
    using backspace_wrap_misses [of ?c "CHR ''x''" "\<lambda>_ _. 0xFF"] con_demo_inv [of 1010] y by auto
  have "bit (glyph_row (\<lambda>_ _. 0xFF) (CHR ''x'') 0) 7" by (simp add: glyph_row_def)
  then have "at c' 10 1017 = fg_color ?c" using c'(3) [rule_format, of 0 7] by simp
  with c' show ?thesis by blast
qed

end
