(* ===== verification/Font.thy ===== *)
theory Font
  imports Console
begin

text \<open>
  The glyphs of the console: \<^verbatim>\<open>font8x8_basic.inl\<close>, eight rows of eight pixels for each of the 128 codes, the lowest
  bit on the left. No two visible characters look the same.
\<close>

definition font8x8_basic :: "u8 list list" where
  "font8x8_basic =
    [[0, 0, 0, 0, 0, 0, 0, 0], [0, 0, 0, 0, 0, 0, 0, 0],
     [0, 0, 0, 0, 0, 0, 0, 0], [0, 0, 0, 0, 0, 0, 0, 0],
     [0, 0, 0, 0, 0, 0, 0, 0], [0, 0, 0, 0, 0, 0, 0, 0],
     [0, 0, 0, 0, 0, 0, 0, 0], [0, 0, 0, 0, 0, 0, 0, 0],
     [0, 0, 0, 0, 0, 0, 0, 0], [0, 0, 0, 0, 0, 0, 0, 0],
     [0, 0, 0, 0, 0, 0, 0, 0], [0, 0, 0, 0, 0, 0, 0, 0],
     [0, 0, 0, 0, 0, 0, 0, 0], [0, 0, 0, 0, 0, 0, 0, 0],
     [0, 0, 0, 0, 0, 0, 0, 0], [0, 0, 0, 0, 0, 0, 0, 0],
     [0, 0, 0, 0, 0, 0, 0, 0], [0, 0, 0, 0, 0, 0, 0, 0],
     [0, 0, 0, 0, 0, 0, 0, 0], [0, 0, 0, 0, 0, 0, 0, 0],
     [0, 0, 0, 0, 0, 0, 0, 0], [0, 0, 0, 0, 0, 0, 0, 0],
     [0, 0, 0, 0, 0, 0, 0, 0], [0, 0, 0, 0, 0, 0, 0, 0],
     [0, 0, 0, 0, 0, 0, 0, 0], [0, 0, 0, 0, 0, 0, 0, 0],
     [0, 0, 0, 0, 0, 0, 0, 0], [0, 0, 0, 0, 0, 0, 0, 0],
     [0, 0, 0, 0, 0, 0, 0, 0], [0, 0, 0, 0, 0, 0, 0, 0],
     [0, 0, 0, 0, 0, 0, 0, 0], [0, 0, 0, 0, 0, 0, 0, 0],
     [0, 0, 0, 0, 0, 0, 0, 0], [0x18, 0x3C, 0x3C, 0x18, 0x18, 0, 0x18, 0],
     [0x36, 0x36, 0, 0, 0, 0, 0, 0], [0x36, 0x36, 0x7F, 0x36, 0x7F, 0x36, 0x36, 0],
     [0x0C, 0x3E, 3, 0x1E, 0x30, 0x1F, 0x0C, 0], [0, 0x63, 0x33, 0x18, 0x0C, 0x66, 0x63, 0],
     [0x1C, 0x36, 0x1C, 0x6E, 0x3B, 0x33, 0x6E, 0], [6, 6, 3, 0, 0, 0, 0, 0],
     [0x18, 0x0C, 6, 6, 6, 0x0C, 0x18, 0], [6, 0x0C, 0x18, 0x18, 0x18, 0x0C, 6, 0],
     [0, 0x66, 0x3C, 0xFF, 0x3C, 0x66, 0, 0], [0, 0x0C, 0x0C, 0x3F, 0x0C, 0x0C, 0, 0],
     [0, 0, 0, 0, 0, 0x0C, 0x0C, 6], [0, 0, 0, 0x3F, 0, 0, 0, 0],
     [0, 0, 0, 0, 0, 0x0C, 0x0C, 0], [0x60, 0x30, 0x18, 0x0C, 6, 3, 1, 0],
     [0x3E, 0x63, 0x73, 0x7B, 0x6F, 0x67, 0x3E, 0], [0x0C, 0x0E, 0x0C, 0x0C, 0x0C, 0x0C, 0x3F, 0],
     [0x1E, 0x33, 0x30, 0x1C, 6, 0x33, 0x3F, 0], [0x1E, 0x33, 0x30, 0x1C, 0x30, 0x33, 0x1E, 0],
     [0x38, 0x3C, 0x36, 0x33, 0x7F, 0x30, 0x78, 0], [0x3F, 3, 0x1F, 0x30, 0x30, 0x33, 0x1E, 0],
     [0x1C, 6, 3, 0x1F, 0x33, 0x33, 0x1E, 0], [0x3F, 0x33, 0x30, 0x18, 0x0C, 0x0C, 0x0C, 0],
     [0x1E, 0x33, 0x33, 0x1E, 0x33, 0x33, 0x1E, 0], [0x1E, 0x33, 0x33, 0x3E, 0x30, 0x18, 0x0E, 0],
     [0, 0x0C, 0x0C, 0, 0, 0x0C, 0x0C, 0], [0, 0x0C, 0x0C, 0, 0, 0x0C, 0x0C, 6],
     [0x18, 0x0C, 6, 3, 6, 0x0C, 0x18, 0], [0, 0, 0x3F, 0, 0, 0x3F, 0, 0],
     [6, 0x0C, 0x18, 0x30, 0x18, 0x0C, 6, 0], [0x1E, 0x33, 0x30, 0x18, 0x0C, 0, 0x0C, 0],
     [0x3E, 0x63, 0x7B, 0x7B, 0x7B, 3, 0x1E, 0], [0x0C, 0x1E, 0x33, 0x33, 0x3F, 0x33, 0x33, 0],
     [0x3F, 0x66, 0x66, 0x3E, 0x66, 0x66, 0x3F, 0], [0x3C, 0x66, 3, 3, 3, 0x66, 0x3C, 0],
     [0x1F, 0x36, 0x66, 0x66, 0x66, 0x36, 0x1F, 0], [0x7F, 0x46, 0x16, 0x1E, 0x16, 0x46, 0x7F, 0],
     [0x7F, 0x46, 0x16, 0x1E, 0x16, 6, 0x0F, 0], [0x3C, 0x66, 3, 3, 0x73, 0x66, 0x7C, 0],
     [0x33, 0x33, 0x33, 0x3F, 0x33, 0x33, 0x33, 0], [0x1E, 0x0C, 0x0C, 0x0C, 0x0C, 0x0C, 0x1E, 0],
     [0x78, 0x30, 0x30, 0x30, 0x33, 0x33, 0x1E, 0], [0x67, 0x66, 0x36, 0x1E, 0x36, 0x66, 0x67, 0],
     [0x0F, 6, 6, 6, 0x46, 0x66, 0x7F, 0], [0x63, 0x77, 0x7F, 0x7F, 0x6B, 0x63, 0x63, 0],
     [0x63, 0x67, 0x6F, 0x7B, 0x73, 0x63, 0x63, 0], [0x1C, 0x36, 0x63, 0x63, 0x63, 0x36, 0x1C, 0],
     [0x3F, 0x66, 0x66, 0x3E, 6, 6, 0x0F, 0], [0x1E, 0x33, 0x33, 0x33, 0x3B, 0x1E, 0x38, 0],
     [0x3F, 0x66, 0x66, 0x3E, 0x36, 0x66, 0x67, 0], [0x1E, 0x33, 7, 0x0E, 0x38, 0x33, 0x1E, 0],
     [0x3F, 0x2D, 0x0C, 0x0C, 0x0C, 0x0C, 0x1E, 0], [0x33, 0x33, 0x33, 0x33, 0x33, 0x33, 0x3F, 0],
     [0x33, 0x33, 0x33, 0x33, 0x33, 0x1E, 0x0C, 0], [0x63, 0x63, 0x63, 0x6B, 0x7F, 0x77, 0x63, 0],
     [0x63, 0x63, 0x36, 0x1C, 0x1C, 0x36, 0x63, 0], [0x33, 0x33, 0x33, 0x1E, 0x0C, 0x0C, 0x1E, 0],
     [0x7F, 0x63, 0x31, 0x18, 0x4C, 0x66, 0x7F, 0], [0x1E, 6, 6, 6, 6, 6, 0x1E, 0],
     [3, 6, 0x0C, 0x18, 0x30, 0x60, 0x40, 0], [0x1E, 0x18, 0x18, 0x18, 0x18, 0x18, 0x1E, 0],
     [8, 0x1C, 0x36, 0x63, 0, 0, 0, 0], [0, 0, 0, 0, 0, 0, 0, 0xFF],
     [0x0C, 0x0C, 0x18, 0, 0, 0, 0, 0], [0, 0, 0x1E, 0x30, 0x3E, 0x33, 0x6E, 0],
     [7, 6, 6, 0x3E, 0x66, 0x66, 0x3B, 0], [0, 0, 0x1E, 0x33, 3, 0x33, 0x1E, 0],
     [0x38, 0x30, 0x30, 0x3e, 0x33, 0x33, 0x6E, 0], [0, 0, 0x1E, 0x33, 0x3f, 3, 0x1E, 0],
     [0x1C, 0x36, 6, 0x0f, 6, 6, 0x0F, 0], [0, 0, 0x6E, 0x33, 0x33, 0x3E, 0x30, 0x1F],
     [7, 6, 0x36, 0x6E, 0x66, 0x66, 0x67, 0], [0x0C, 0, 0x0E, 0x0C, 0x0C, 0x0C, 0x1E, 0],
     [0x30, 0, 0x30, 0x30, 0x30, 0x33, 0x33, 0x1E], [7, 6, 0x66, 0x36, 0x1E, 0x36, 0x67, 0],
     [0x0E, 0x0C, 0x0C, 0x0C, 0x0C, 0x0C, 0x1E, 0], [0, 0, 0x33, 0x7F, 0x7F, 0x6B, 0x63, 0],
     [0, 0, 0x1F, 0x33, 0x33, 0x33, 0x33, 0], [0, 0, 0x1E, 0x33, 0x33, 0x33, 0x1E, 0],
     [0, 0, 0x3B, 0x66, 0x66, 0x3E, 6, 0x0F], [0, 0, 0x6E, 0x33, 0x33, 0x3E, 0x30, 0x78],
     [0, 0, 0x3B, 0x6E, 0x66, 6, 0x0F, 0], [0, 0, 0x3E, 3, 0x1E, 0x30, 0x1F, 0],
     [8, 0x0C, 0x3E, 0x0C, 0x0C, 0x2C, 0x18, 0], [0, 0, 0x33, 0x33, 0x33, 0x33, 0x6E, 0],
     [0, 0, 0x33, 0x33, 0x33, 0x1E, 0x0C, 0], [0, 0, 0x63, 0x6B, 0x7F, 0x7F, 0x36, 0],
     [0, 0, 0x63, 0x36, 0x1C, 0x36, 0x63, 0], [0, 0, 0x33, 0x33, 0x33, 0x3E, 0x30, 0x1F],
     [0, 0, 0x3F, 0x19, 0x0C, 0x26, 0x3F, 0], [0x38, 0x0C, 0x0C, 7, 0x0C, 0x0C, 0x38, 0],
     [0x18, 0x18, 0x18, 0, 0x18, 0x18, 0x18, 0], [7, 0x0C, 0x0C, 0x38, 0x0C, 0x0C, 7, 0],
     [0x6E, 0x3B, 0, 0, 0, 0, 0, 0], [0, 0, 0, 0, 0, 0, 0, 0]]"

definition font :: glyphs where
  "font k row = font8x8_basic ! k ! row"

text \<open>The characters with a glyph: \<^verbatim>\<open>' '\<close> to \<^verbatim>\<open>'~'\<close>, by their codes.\<close>

definition visible :: "char \<Rightarrow> bool" where
  "visible ch \<longleftrightarrow> of_char ch \<in> {32..<127 :: nat}"

lemma font_shape: "length font8x8_basic = 128" "\<forall>r\<in>set font8x8_basic. length r = 8"
  by (simp_all add: font8x8_basic_def)

lemma glyphs_distinct: "distinct (take 95 (drop 32 font8x8_basic))"
  by code_simp

lemma glyph_inj:
  assumes k: "32 \<le> k" "k < 127" "32 \<le> m" "m < (127 :: nat)" and eq: "\<forall>i<8. font k i = font m i"
  shows "k = m"
proof -
  have "font8x8_basic ! k \<in> set font8x8_basic" "font8x8_basic ! m \<in> set font8x8_basic"
    using k font_shape(1) by (auto intro!: nth_mem)
  then have "font8x8_basic ! k = font8x8_basic ! m"
    using eq font_shape(2) by (intro nth_equalityI) (simp_all add: font_def)
  then have "take 95 (drop 32 font8x8_basic) ! (k - 32) = take 95 (drop 32 font8x8_basic) ! (m - 32)"
    using k font_shape(1) by simp
  moreover have "k - 32 < length (take 95 (drop 32 font8x8_basic))" "m - 32 < length (take 95 (drop 32 font8x8_basic))"
    using k font_shape(1) by simp_all
  ultimately have "k - 32 = m - 32" using nth_eq_iff_index_eq [OF glyphs_distinct] by metis
  with k show ?thesis by simp
qed

end
