(* ===== verification/Screen.thy ===== *)
theory Screen
  imports Font
begin

text \<open>
  What the console draws can be read: the text of a line is determined by its pixels.
\<close>

section \<open>Drawing one character\<close>

lemma visible_codes: "visible ch \<Longrightarrow> ch \<noteq> CHR 0x0A \<and> ch \<noteq> CHR 0x08 \<and> \<not> 127 < (of_char ch :: nat)"
  by (auto simp: visible_def)

lemma glyph_row_visible: "visible ch \<Longrightarrow> glyph_row font ch = font (of_char ch)"
  using visible_codes [of ch] by (simp add: glyph_row_def fun_eq_iff)

lemma putc_draws:
  assumes inv: "con_inv c" and ch: "visible ch" and x: "cursor_x c \<le> 1006"
  shows "\<exists>c'. console_putc font ch c = Inr c' \<and> con_inv c' \<and> cursor_x c' = cursor_x c + 8 \<and> cursor_y c' = cursor_y c \<and>
    con_pitch c' = con_pitch c \<and> bg_color c' = bg_color c \<and> fg_color c' = fg_color c \<and>
    (\<forall>a<768. \<forall>b<pitch_of c. at c' a b =
       (if in_cell (cursor_x c) (cursor_y c) a b \<and> bit (font (of_char ch) (a - nat (cursor_y c))) (b - nat (cursor_x c))
        then fg_color c else at c a b))"
proof -
  have i: "fb_ok c" "8 \<le> cursor_x c" "10 \<le> cursor_y c" "cursor_y c \<le> 742" using inv unfolding con_inv_def by blast+
  let ?q = "\<lambda>i j. if bit (glyph_row font ch i) j then Some (fg_color c) else None"
  obtain d where d: "paint (cursor_x c) (cursor_y c) 8 8 ?q c = Inr d"
    and p: "painted (nat (cursor_x c)) (nat (cursor_y c)) 8 8 ?q c d"
    using paint_cell_ok [of c "cursor_x c" 8 "cursor_y c" 8 ?q] i x by auto
  note f = redraw_fields [OF painted_redraw [OF p]]
  let ?d = "d\<lparr>cursor_x := cursor_x c + 8\<rparr>"
  have put: "console_putc font ch c = Inr ?d"
    using visible_codes [OF ch] d f x by (simp add: console_putc_def draw_char_paint screen_consts)
  have "con_inv d" using inv by (simp add: redraw_con_inv [OF painted_redraw [OF p]])
  then have "con_inv ?d" using x f by (auto simp: con_inv_def fb_ok_def)
  moreover have "at ?d a b = (if in_cell (cursor_x c) (cursor_y c) a b \<and>
      bit (font (of_char ch) (a - nat (cursor_y c))) (b - nat (cursor_x c)) then fg_color c else at c a b)"
    if "a < 768" "b < pitch_of c" for a b
    using painted_at [OF p that] by (auto simp: in_cell_def at_def glyph_row_visible [OF ch])
  ultimately show ?thesis using put f by simp
qed

section \<open>Reading a line\<close>

text \<open>A cell shows a character when its glyph is what the cell at \<open>(x, y)\<close> has in the foreground colour.\<close>

definition displays :: "console \<Rightarrow> nat \<Rightarrow> nat \<Rightarrow> char \<Rightarrow> bool" where
  "displays c x y ch \<longleftrightarrow> (\<forall>i\<in>{0..<8}. \<forall>j\<in>{0..<8}. (at c (y + i) (x + j) = fg_color c) = bit (font (of_char ch) i) j)"

definition visible_chars :: "char list" where
  "visible_chars = map char_of [32..<127 :: nat]"

definition read_cell :: "console \<Rightarrow> nat \<Rightarrow> nat \<Rightarrow> char option" where
  "read_cell c x y = List.find (displays c x y) visible_chars"

definition read_line_at :: "console \<Rightarrow> nat \<Rightarrow> nat \<Rightarrow> nat \<Rightarrow> char option list" where
  "read_line_at c x y n = map (\<lambda>k. read_cell c (x + 8 * k) y) [0..<n]"

lemma visible_list: "ch \<in> set visible_chars \<longleftrightarrow> visible ch"
proof
  assume "visible ch"
  then have "of_char ch \<in> {32..<127 :: nat}" "ch = char_of (of_char ch :: nat)" by (simp_all add: visible_def)
  then show "ch \<in> set visible_chars" unfolding visible_chars_def list.set_map set_upt by (rule rev_image_eqI)
qed (auto simp: visible_def visible_chars_def simp del: upt_rec_numeral)

lemma displays_inj:
  assumes "displays c x y p" "displays c x y q" "visible p" "visible q"
  shows "p = q"
proof -
  have "font (of_char p) i = font (of_char q) i" if "i < 8" for i
    using assms(1,2) that by (intro bit_word_eqI) (simp add: displays_def)
  then have "(of_char p :: nat) = of_char q"
    using assms(3,4) by (intro glyph_inj) (auto simp: visible_def)
  then show ?thesis by simp
qed

lemma read_shown: "displays c x y ch \<Longrightarrow> visible ch \<Longrightarrow> read_cell c x y = Some ch"
proof -
  assume s: "displays c x y ch" and v: "visible ch"
  then obtain q where q: "read_cell c x y = Some q"
    unfolding read_cell_def by (metis find_None_iff not_None_eq visible_list)
  then have "displays c x y q" "visible q"
    unfolding read_cell_def using visible_list by (auto simp: find_Some_iff in_set_conv_nth)
  with displays_inj s v q show ?thesis by blast
qed

text \<open>A strip of background that begins at the cursor.\<close>

definition blank :: "nat \<Rightarrow> console \<Rightarrow> bool" where
  "blank n c \<longleftrightarrow> (\<forall>i<8. \<forall>b<8 * n. at c (nat (cursor_y c) + i) (nat (cursor_x c) + b) = bg_color c)"

lemma print_draws:
  assumes "con_inv c" "\<forall>ch\<in>set s. visible ch" "cursor_x c + 8 * int (length s) \<le> 1014" "fg_color c \<noteq> bg_color c" "blank (length s) c"
  shows "\<exists>c'. console_print font s c = Inr c' \<and> con_inv c' \<and> cursor_x c' = cursor_x c + 8 * int (length s) \<and>
    cursor_y c' = cursor_y c \<and> con_pitch c' = con_pitch c \<and> fg_color c' = fg_color c \<and>
    (\<forall>a<768. \<forall>b<nat (cursor_x c). at c' a b = at c a b) \<and>
    (\<forall>k<length s. displays c' (nat (cursor_x c) + 8 * k) (nat (cursor_y c)) (s ! k))"
  using assms
proof (induction s arbitrary: c)
  case Nil
  then show ?case by (simp add: console_print_def)
next
  case (Cons ch s)
  let ?x = "nat (cursor_x c)" and ?y = "nat (cursor_y c)"
  have v: "visible ch" "cursor_x c \<le> 1006" using Cons.prems(2,3) by auto
  have g: "fb_ok c" "8 \<le> cursor_x c" "10 \<le> cursor_y c" "cursor_y c \<le> 742" using Cons.prems(1) unfolding con_inv_def by blast+
  obtain d where d: "console_putc font ch c = Inr d" "con_inv d" "cursor_x d = cursor_x c + 8" "cursor_y d = cursor_y c"
    "con_pitch d = con_pitch c" "bg_color d = bg_color c" "fg_color d = fg_color c"
    and px: "\<forall>a<768. \<forall>b<pitch_of c. at d a b = (if in_cell (cursor_x c) (cursor_y c) a b \<and>
        bit (font (of_char ch) (a - ?y)) (b - ?x) then fg_color c else at c a b)"
    using putc_draws [OF Cons.prems(1) v] by blast
  have r: "?y + i < 768" "?x + b < pitch_of c" "?x + 8 = nat (cursor_x d)" if "i < 8" "b < 8 * Suc (length s)" for i b
    using that g Cons.prems(3) d(3) by (auto simp: fb_ok_def)
  have xd: "nat (cursor_x d) = ?x + 8" using d(3) g by simp
  have "at d (nat (cursor_y d) + i) (nat (cursor_x d) + b) = bg_color d" if b: "i < 8" "b < 8 * length s" for i b
  proof -
    have "at d (?y + i) (?x + (8 + b)) = at c (?y + i) (?x + (8 + b))"
      using px r [OF b(1), of "8 + b"] b by (simp add: in_cell_def)
    also have "\<dots> = bg_color c" using Cons.prems(5) b by (simp add: blank_def)
    finally show ?thesis using d xd by (simp add: add.assoc)
  qed
  then have bl: "blank (length s) d" by (simp add: blank_def)
  obtain c' where c': "console_print font s d = Inr c'" "con_inv c'" "cursor_x c' = cursor_x d + 8 * int (length s)"
    "cursor_y c' = cursor_y d" "con_pitch c' = con_pitch d" "fg_color c' = fg_color d"
    and left: "\<forall>a<768. \<forall>b<nat (cursor_x d). at c' a b = at d a b"
    and sh: "\<forall>k<length s. displays c' (nat (cursor_x d) + 8 * k) (nat (cursor_y d)) (s ! k)"
    using Cons.IH [OF d(2) _ _ _ bl] Cons.prems(2-4) d by auto
  have "displays c' ?x ?y ch"
    unfolding displays_def
  proof (intro ballI)
    fix i j :: nat
    assume ij: "i \<in> {0..<8}" "j \<in> {0..<8}"
    have "at c' (?y + i) (?x + j) = at d (?y + i) (?x + j)" using left ij xd r(1) [of i 0] by simp
    also have "\<dots> = (if bit (font (of_char ch) i) j then fg_color c else at c (?y + i) (?x + j))"
      using px r [of i j] ij by (simp add: in_cell_def)
    also have "at c (?y + i) (?x + j) = bg_color c" using Cons.prems(5) ij by (simp add: blank_def)
    finally show "(at c' (?y + i) (?x + j) = fg_color c') = bit (font (of_char ch) i) j"
      using Cons.prems(4) c'(6) d(7) by auto
  qed
  then have "displays c' (?x + 8 * k) ?y ((ch # s) ! k)" if "k < length (ch # s)" for k
    using that sh xd d(4) by (cases k) (simp_all add: add.assoc)
  moreover have "at c' a b = at c a b" if "a < 768" "b < ?x" for a b
  proof -
    have "b < pitch_of c" using that r(2) [of 0 0] by simp
    then show ?thesis using left px that xd by (simp add: in_cell_def)
  qed
  ultimately show ?case using d(1,3-5,7) c' by (auto simp: console_print_def)
qed

text \<open>C26: What is printed can be read: visible characters printed on a blank stretch of the current line are drawn at the
  cursor, one after the other, and the pixels of each cell determine the character, so that the line reads as what was
  printed. The cursor ends behind it, and nothing to the left has changed.
\<close>

theorem print_can_be_read:
  assumes "con_inv c" "\<forall>ch\<in>set s. visible ch" "cursor_x c + 8 * int (length s) \<le> 1014" "fg_color c \<noteq> bg_color c" "blank (length s) c"
  shows "\<exists>c'. console_print font s c = Inr c' \<and> cursor_x c' = cursor_x c + 8 * int (length s) \<and> cursor_y c' = cursor_y c \<and>
    read_line_at c' (nat (cursor_x c)) (nat (cursor_y c)) (length s) = map Some s \<and>
    (\<forall>a<768. \<forall>b<nat (cursor_x c). at c' a b = at c a b)"
proof -
  obtain c' where c': "console_print font s c = Inr c'" "cursor_x c' = cursor_x c + 8 * int (length s)" "cursor_y c' = cursor_y c"
    "\<forall>a<768. \<forall>b<nat (cursor_x c). at c' a b = at c a b"
    and d: "\<forall>k<length s. displays c' (nat (cursor_x c) + 8 * k) (nat (cursor_y c)) (s ! k)"
    using print_draws [OF assms] by blast
  have "read_line_at c' (nat (cursor_x c)) (nat (cursor_y c)) (length s) = map (\<lambda>k. Some (s ! k)) [0..<length s]"
    using d assms(2) by (auto simp: read_line_at_def read_shown)
  also have "\<dots> = map Some s" by (rule nth_equalityI) simp_all
  finally show ?thesis using c' by blast
qed

text \<open>The banner of the boot, on a cleared screen of 1024 columns.\<close>

theorem print_can_be_read_witness:
  "\<exists>c'. bind_res (console_clear (con_demo 10)) (console_print font ''QuillOS v0.1 booting...'') = Inr c' \<and>
        read_line_at c' 10 10 23 = map Some ''QuillOS v0.1 booting...''"
proof -
  let ?s = "''QuillOS v0.1 booting...''"
  have ok: "fb_ok (con_demo 10)" using con_demo_inv [of 10] by (simp add: con_inv_def)
  define c where "c = (con_demo 10)\<lparr>fb := replicate (768 * 1024) 0xFF, cursor_x := 10, cursor_y := 10\<rparr>"
  have f: "pitch_of (con_demo 10) = 1024" "bg_color (con_demo 10) = 0xFF" by (simp_all add: con_demo_def no_con_def)
  have cl: "console_clear (con_demo 10) = Inr c" using console_clear_eq [OF ok] by (simp add: c_def f)
  have fc: "cursor_x c = 10" "cursor_y c = 10" "fg_color c = 0xFFFFFF" "bg_color c = 0xFF" "pitch_of c = 1024"
    by (simp_all add: c_def con_demo_def no_con_def)
  have inv: "con_inv c" using fc by (simp add: con_inv_def fb_ok_def c_def)
  have "at c (10 + i) (10 + b) = 0xFF" if "i < 8" "b < 184" for i b
  proof -
    have "(10 + i) * 1024 + (10 + b) < 768 * 1024" using that by (intro row_lt) auto
    moreover have "fb c = replicate (768 * 1024) 0xFF" by (simp add: c_def)
    ultimately show ?thesis unfolding at_def fc by (simp only: nth_replicate)
  qed
  then have bl: "blank (length ?s) c" by (simp add: blank_def fc)
  have v: "\<forall>ch\<in>set ?s. visible ch" by code_simp
  have n: "length ?s = 23" by simp
  from print_can_be_read [OF inv v _ _ bl] fc obtain c' where
    "console_print font ?s c = Inr c'" "read_line_at c' 10 10 23 = map Some ?s" unfolding n by auto
  then show ?thesis unfolding cl by simp
qed

end
