(* ===== verification/Interrupts.thy ===== *)
theory Interrupts
  imports Ports KString
begin

text \<open>
  Interrupt plumbing of \<^verbatim>\<open>kernel/idt.cpp\<close> and \<^verbatim>\<open>kernel/timer.cpp\<close>: the gates of the descriptor
  table, the two 8259 controllers, the handler table and its statistics, the crash report of an
  exception and the programming of the timer chip. The addresses of the assembly stubs are a
  parameter. A handler is one of the three functions the kernel registers. What the controllers
  promise, that reading their mask register returns the mask last written, is the predicate
  \<open>pic_ok\<close>. The dispatcher that runs handlers and the scheduler is in \<open>Kernel\<close>.
\<close>

section \<open>The descriptor table\<close>

record gate =
  offset_low :: u16
  selector :: u16
  ist :: u8
  type_attr :: u8
  offset_mid :: u16
  offset_high :: u32
  gzero :: u32

datatype irq_handler = H_timer | H_keyboard | H_mouse

record irqs =
  idt :: "gate list"
  irq_handlers :: "irq_handler option list"
  irq_counts :: "u64 list"
  total_exceptions :: u64

definition empty_gate :: gate where
  "empty_gate = \<lparr>offset_low = 0, selector = 0, ist = 0, type_attr = 0, offset_mid = 0, offset_high = 0, gzero = 0\<rparr>"

definition irqs_boot :: irqs where
  "irqs_boot = \<lparr>idt = replicate 256 empty_gate, irq_handlers = replicate 16 None, irq_counts = replicate 16 0, total_exceptions = 0\<rparr>"

definition set_idt_entry :: "nat \<Rightarrow> u64 \<Rightarrow> u8 \<Rightarrow> irqs \<Rightarrow> irqs" where
  "set_idt_entry num addr attr s =
     s\<lparr>idt := (idt s)[num := \<lparr>offset_low = ucast (addr AND 0xFFFF), selector = 0x28, ist = 0, type_attr = attr,
        offset_mid = ucast (drop_bit 16 addr AND 0xFFFF), offset_high = ucast (drop_bit 32 addr AND 0xFFFFFFFF), gzero = 0\<rparr>]\<rparr>"

text \<open>The address the processor jumps to through a gate.\<close>

definition gate_target :: "gate \<Rightarrow> u64" where
  "gate_target g = ucast (offset_low g) OR push_bit 16 (ucast (offset_mid g)) OR push_bit 32 (ucast (offset_high g))"

section \<open>The interrupt controllers\<close>

definition io_wait :: "hist \<Rightarrow> hist" where "io_wait h = outb 0x80 0 h"

definition pic_remap :: "dev \<Rightarrow> hist \<Rightarrow> hist" where
  "pic_remap d h =
     (let h = snd (inb d 0x21 h); h = snd (inb d 0xA1 h);
          h = io_wait (outb 0x20 0x11 h); h = io_wait (outb 0xA0 0x11 h);
          h = io_wait (outb 0x21 0x20 h); h = io_wait (outb 0xA1 0x28 h);
          h = io_wait (outb 0x21 0x04 h); h = io_wait (outb 0xA1 0x02 h);
          h = io_wait (outb 0x21 0x01 h); h = io_wait (outb 0xA1 0x01 h)
      in outb 0xA1 0xFF (outb 0x21 0xFF h))"

definition irq_mask :: "dev \<Rightarrow> u8 \<Rightarrow> hist \<Rightarrow> hist" where
  "irq_mask d irq h =
     (let (port, irq) = (if irq < 8 then (0x21, irq) else (0xA1, irq - 8));
          (v, h) = inb d port h
      in outb port (v OR push_bit (unat irq) 1) h)"

definition irq_unmask :: "dev \<Rightarrow> u8 \<Rightarrow> hist \<Rightarrow> hist" where
  "irq_unmask d irq h =
     (let (port, line) = (if irq < 8 then (0x21, irq) else (0xA1, irq - 8));
          (v, h) = inb d port h;
          h = outb port (v AND NOT (push_bit (unat line) 1)) h
      in if irq \<ge> 8 then (let (m, h) = inb d 0x21 h in outb 0x21 (m AND NOT (push_bit 2 1)) h) else h)"

definition pic_send_eoi :: "u8 \<Rightarrow> hist \<Rightarrow> hist" where
  "pic_send_eoi irq h = outb 0x20 0x20 (if irq \<ge> 8 then outb 0xA0 0x20 h else h)"

section \<open>Registration and statistics\<close>

definition irq_register :: "dev \<Rightarrow> u8 \<Rightarrow> irq_handler \<Rightarrow> irqs \<times> hist \<Rightarrow> irqs \<times> hist" where
  "irq_register d irq f = (\<lambda>(s, h).
     if irq \<ge> 16 then (s, h)
     else (s\<lparr>irq_handlers := (irq_handlers s)[unat irq := Some f]\<rparr>, irq_unmask d irq h))"

definition irq_unregister :: "dev \<Rightarrow> u8 \<Rightarrow> irqs \<times> hist \<Rightarrow> irqs \<times> hist" where
  "irq_unregister d irq = (\<lambda>(s, h).
     if irq \<ge> 16 then (s, h)
     else (s\<lparr>irq_handlers := (irq_handlers s)[unat irq := None]\<rparr>, irq_mask d irq h))"

definition irq_get_count :: "u8 \<Rightarrow> irqs \<Rightarrow> u64" where
  "irq_get_count irq s = (if irq < 16 then irq_counts s ! unat irq else 0)"

definition isr_get_total_exceptions :: "irqs \<Rightarrow> u64" where
  "isr_get_total_exceptions s = total_exceptions s"

definition idt_init :: "dev \<Rightarrow> (nat \<Rightarrow> u64) \<Rightarrow> u64 \<Rightarrow> irqs \<times> hist \<Rightarrow> irqs \<times> hist" where
  "idt_init d stubs yield_stub = (\<lambda>(s, h).
     let h = pic_remap d h;
         s = fold (\<lambda>i. set_idt_entry i (stubs i) 0x8E) [0..<32] s;
         s = fold (\<lambda>i. set_idt_entry (32 + i) (stubs (32 + i)) 0x8E) [0..<16] s
     in (set_idt_entry 0x80 yield_stub 0x8E s, h))"

section \<open>The timer chip\<close>

definition timer_irq_handler :: "u64 \<Rightarrow> u64" where
  "timer_irq_handler ticks = ticks + 1"

definition init_pit :: "dev \<Rightarrow> irqs \<times> hist \<Rightarrow> irqs \<times> hist" where
  "init_pit d = (\<lambda>(s, h).
     let divisor = 1193 :: u16;
         h = outb 0x43 0x36 h;
         h = outb 0x40 (ucast (divisor AND 0xFF)) h;
         h = outb 0x40 (ucast (drop_bit 8 divisor AND 0xFF)) h
     in irq_register d 0 H_timer (s, h))"

section \<open>Exceptions\<close>

record intr_frame =
  f_r15 :: u64  f_r14 :: u64  f_r13 :: u64  f_r12 :: u64  f_r11 :: u64  f_r10 :: u64  f_r9 :: u64  f_r8 :: u64
  f_rbp :: u64  f_rdi :: u64  f_rsi :: u64  f_rdx :: u64  f_rcx :: u64  f_rbx :: u64  f_rax :: u64
  int_no :: u64
  error_code :: u64
  f_rip :: u64  f_cs :: u64  f_rflags :: u64  f_rsp :: u64  f_ss :: u64

definition exception_names :: "string list" where
  "exception_names =
     [''Divide by Zero'', ''Debug'', ''Non-Maskable Interrupt'', ''Breakpoint'', ''Overflow'',
      ''Bound Range Exceeded'', ''Invalid Opcode'', ''Device Not Available'', ''Double Fault'',
      ''Coprocessor Segment Overrun'', ''Invalid TSS'', ''Segment Not Present'', ''Stack-Segment Fault'',
      ''General Protection Fault'', ''Page Fault'', ''Reserved'', ''x87 FPU Error'', ''Alignment Check'',
      ''Machine Check'', ''SIMD FPU Exception'', ''Virtualization Exception'', ''Control Protection'',
      ''Reserved'', ''Reserved'', ''Reserved'', ''Reserved'', ''Reserved'', ''Reserved'',
      ''Hypervisor Injection'', ''VMM Communication'', ''Security Exception'', ''Reserved'']"

definition isr_exception_name :: "u8 \<Rightarrow> string" where
  "isr_exception_name num = (if num < 32 then exception_names ! unat num else ''Unknown'')"

abbreviation nl :: string where "nl \<equiv> [CHR 0x0A]"

text \<open>The report of a crash, as the strings printed one after the other; \<open>cr2\<close> is the fault address register.\<close>

definition isr_report :: "u64 \<Rightarrow> intr_frame \<Rightarrow> string list" where
  "isr_report cr2 f =
     [nl @ nl @ ''=== KERNEL EXCEPTION ==='', nl @ ''  Exception: ''] @
     (if int_no f < 32 then [exception_names ! unat (int_no f)] else []) @
     ['' (INT '', itoa (int_no f), '')'',
      nl @ ''  Error code: '', print_hex64 (error_code f),
      nl @ ''  RIP: '', print_hex64 (f_rip f), ''  CS:  '', print_hex64 (f_cs f),
      nl @ ''  RSP: '', print_hex64 (f_rsp f), ''  SS:  '', print_hex64 (f_ss f),
      nl @ ''  RFLAGS: '', print_hex64 (f_rflags f),
      nl @ ''  RAX: '', print_hex64 (f_rax f), ''  RBX: '', print_hex64 (f_rbx f),
      nl @ ''  RCX: '', print_hex64 (f_rcx f), ''  RDX: '', print_hex64 (f_rdx f),
      nl @ ''  RSI: '', print_hex64 (f_rsi f), ''  RDI: '', print_hex64 (f_rdi f),
      nl @ ''  RBP: '', print_hex64 (f_rbp f),
      nl @ ''  R8:  '', print_hex64 (f_r8 f), ''  R9:  '', print_hex64 (f_r9 f),
      nl @ ''  R10: '', print_hex64 (f_r10 f), ''  R11: '', print_hex64 (f_r11 f),
      nl @ ''  R12: '', print_hex64 (f_r12 f), ''  R13: '', print_hex64 (f_r13 f),
      nl @ ''  R14: '', print_hex64 (f_r14 f), ''  R15: '', print_hex64 (f_r15 f)] @
     (if int_no f = 14 then [nl @ ''  CR2 (fault addr): '', print_hex64 cr2] else []) @
     [nl @ nl @ ''  System halted. Press reset to reboot.'']"

definition isr_dispatch :: "u64 \<Rightarrow> intr_frame \<Rightarrow> irqs \<Rightarrow> string list \<times> irqs" where
  "isr_dispatch cr2 f s = (isr_report cr2 f, s\<lparr>total_exceptions := total_exceptions s + 1\<rparr>)"

section \<open>Gates lead to the stubs\<close>

lemma gate_target_eq:
  "gate_target \<lparr>offset_low = ucast (addr AND 0xFFFF), selector = sel, ist = i, type_attr = t,
     offset_mid = ucast (drop_bit 16 addr AND 0xFFFF), offset_high = ucast (drop_bit 32 addr AND 0xFFFFFFFF), gzero = z\<rparr> = addr"
proof (rule bit_word_eqI)
  fix n
  assume n: "n < LENGTH(64)"
  have m: "(0xFFFF :: u64) = mask 16" "(0xFFFFFFFF :: u64) = mask 32" by (simp_all add: mask_eq_exp_minus_1)
  from n consider "n < 16" | "16 \<le> n" "n < 32" | "32 \<le> n" "n < 64" by fastforce
  then show "bit (gate_target \<lparr>offset_low = ucast (addr AND 0xFFFF), selector = sel, ist = i, type_attr = t,
     offset_mid = ucast (drop_bit 16 addr AND 0xFFFF), offset_high = ucast (drop_bit 32 addr AND 0xFFFFFFFF), gzero = z\<rparr>) n = bit addr n"
    unfolding m by cases (auto simp: gate_target_def bit_simps)
qed

definition leads_to :: "gate \<Rightarrow> u64 \<Rightarrow> bool" where
  "leads_to g addr \<longleftrightarrow> gate_target g = addr \<and> selector g = 0x28 \<and> type_attr g = 0x8E"

lemma set_idt_entry_nth:
  "n < length (idt s) \<Longrightarrow> idt (set_idt_entry num addr 0x8E s) ! n =
     (if n = num then idt (set_idt_entry num addr 0x8E s) ! num else idt s ! n)"
  "num < length (idt s) \<Longrightarrow> leads_to (idt (set_idt_entry num addr 0x8E s) ! num) addr"
  "length (idt (set_idt_entry num addr a s)) = length (idt s)"
  "irq_handlers (set_idt_entry num addr a s) = irq_handlers s"
  by (simp_all add: set_idt_entry_def leads_to_def gate_target_eq nth_list_update)

lemma set_idt_range:
  assumes "length (idt s) = 256" "b + k \<le> 256"
  shows "length (idt (fold (\<lambda>i. set_idt_entry (b + i) (stubs (b + i)) 0x8E) [0..<k] s)) = 256 \<and>
    irq_handlers (fold (\<lambda>i. set_idt_entry (b + i) (stubs (b + i)) 0x8E) [0..<k] s) = irq_handlers s \<and>
    (\<forall>n<256. if b \<le> n \<and> n < b + k
       then leads_to (idt (fold (\<lambda>i. set_idt_entry (b + i) (stubs (b + i)) 0x8E) [0..<k] s) ! n) (stubs n)
       else idt (fold (\<lambda>i. set_idt_entry (b + i) (stubs (b + i)) 0x8E) [0..<k] s) ! n = idt s ! n)"
  using assms
proof (induction k)
  case 0
  then show ?case by auto
next
  case (Suc k)
  let ?t = "fold (\<lambda>i. set_idt_entry (b + i) (stubs (b + i)) 0x8E) [0..<k] s"
  have ih: "length (idt ?t) = 256" "irq_handlers ?t = irq_handlers s"
    "\<forall>n<256. if b \<le> n \<and> n < b + k then leads_to (idt ?t ! n) (stubs n) else idt ?t ! n = idt s ! n"
    using Suc by auto
  have e: "fold (\<lambda>i. set_idt_entry (b + i) (stubs (b + i)) 0x8E) [0..<Suc k] s = set_idt_entry (b + k) (stubs (b + k)) 0x8E ?t"
    by simp
  have new: "leads_to (idt (set_idt_entry (b + k) (stubs (b + k)) 0x8E ?t) ! (b + k)) (stubs (b + k))"
    using ih(1) Suc.prems(2) by (intro set_idt_entry_nth(2)) simp
  have old: "idt (set_idt_entry (b + k) (stubs (b + k)) 0x8E ?t) ! n = idt ?t ! n" if "n \<noteq> b + k" for n
    using that by (simp add: set_idt_entry_def)
  have all: "if b \<le> n \<and> n < b + Suc k then leads_to (idt (set_idt_entry (b + k) (stubs (b + k)) 0x8E ?t) ! n) (stubs n)
     else idt (set_idt_entry (b + k) (stubs (b + k)) 0x8E ?t) ! n = idt s ! n" if "n < 256" for n
  proof (cases "n = b + k")
    case True
    then show ?thesis using new by simp
  next
    case False
    then have "(b \<le> n \<and> n < b + Suc k) = (b \<le> n \<and> n < b + k)" by auto
    then show ?thesis using ih(3) that old [OF False] by presburger
  qed
  show ?case unfolding e set_idt_entry_nth(3,4) using ih(1,2) all by blast
qed

lemma idt_init_idt:
  assumes "length (idt s) = 256"
  shows "n < 48 \<Longrightarrow> leads_to (idt (fst (idt_init d stubs y (s, h))) ! n) (stubs n)"
    "leads_to (idt (fst (idt_init d stubs y (s, h))) ! 0x80) y"
    "48 \<le> n \<Longrightarrow> n \<noteq> 0x80 \<Longrightarrow> n < 256 \<Longrightarrow> idt (fst (idt_init d stubs y (s, h))) ! n = idt s ! n"
    "irq_handlers (fst (idt_init d stubs y (s, h))) = irq_handlers s"
proof -
  let ?a = "fold (\<lambda>i. set_idt_entry (0 + i) (stubs (0 + i)) 0x8E) [0..<32] s"
  let ?b = "fold (\<lambda>i. set_idt_entry (32 + i) (stubs (32 + i)) 0x8E) [0..<16] ?a"
  have r: "0 + 32 \<le> (256 :: nat)" "32 + 16 \<le> (256 :: nat)" by simp_all
  have a: "length (idt ?a) = 256" "irq_handlers ?a = irq_handlers s"
    "\<And>n. n < 256 \<Longrightarrow> if 0 \<le> n \<and> n < 0 + 32 then leads_to (idt ?a ! n) (stubs n) else idt ?a ! n = idt s ! n"
    using set_idt_range [OF assms r(1), of stubs] by blast+
  have b: "length (idt ?b) = 256" "irq_handlers ?b = irq_handlers s"
    "\<And>n. n < 256 \<Longrightarrow> if 32 \<le> n \<and> n < 32 + 16 then leads_to (idt ?b ! n) (stubs n) else idt ?b ! n = idt ?a ! n"
    using set_idt_range [OF a(1) r(2), of stubs] a(2) by (blast, metis, blast)
  have e: "fst (idt_init d stubs y (s, h)) = set_idt_entry 0x80 y 0x8E ?b" by (simp add: idt_init_def Let_def)
  note u = set_idt_entry_nth [where s = ?b and num = "0x80" and addr = y]
  show "leads_to (idt (fst (idt_init d stubs y (s, h))) ! 0x80) y" unfolding e using u(2) b(1) by simp
  show "irq_handlers (fst (idt_init d stubs y (s, h))) = irq_handlers s" unfolding e using u(4) b(2) by simp
  show "leads_to (idt (fst (idt_init d stubs y (s, h))) ! n) (stubs n)" if "n < 48"
    unfolding e using u(1) [of n] a(3) [of n] b(1) b(3) [of n] that by (auto split: if_splits)
  show "idt (fst (idt_init d stubs y (s, h))) ! n = idt s ! n" if "48 \<le> n" "n \<noteq> 0x80" "n < 256"
    unfolding e using u(1) [of n] a(3) [of n] b(1) b(3) [of n] that by (auto split: if_splits)
qed

text \<open>After initialisation vectors 0 to 47 lead to their assembly stubs through interrupt gates of the kernel's code
  segment, vector 0x80 to the yield stub, and every other gate is as it was.
\<close>

theorem idt_init_gates:
  assumes "length (idt s) = 256"
  shows "(\<forall>n<48. leads_to (idt (fst (idt_init d stubs y (s, h))) ! n) (stubs n)) \<and>
    leads_to (idt (fst (idt_init d stubs y (s, h))) ! 0x80) y \<and>
    (\<forall>n<256. 48 \<le> n \<and> n \<noteq> 0x80 \<longrightarrow> idt (fst (idt_init d stubs y (s, h))) ! n = idt s ! n)"
  using idt_init_idt [OF assms] by blast

definition deaf_dev :: dev where
  "deaf_dev = \<lparr>rd8 = (\<lambda>h p. 0), rd16 = (\<lambda>h p. 0), rd32 = (\<lambda>h p. 0)\<rparr>"

theorem idt_init_gates_witness:
  "leads_to (idt (fst (idt_init deaf_dev of_nat 7 (irqs_boot, []))) ! 33) 33 \<and>
    idt (fst (idt_init deaf_dev of_nat 7 (irqs_boot, []))) ! 200 = empty_gate"
proof -
  have "length (idt irqs_boot) = 256" "idt irqs_boot ! 200 = empty_gate" by (simp_all add: irqs_boot_def)
  moreover note g = idt_init_gates [OF this(1), of deaf_dev of_nat 7 "[]"]
  from g have "leads_to (idt (fst (idt_init deaf_dev of_nat 7 (irqs_boot, []))) ! 33) (of_nat 33)"
    by (elim conjE allE [of _ 33]) simp
  moreover from g have "idt (fst (idt_init deaf_dev of_nat 7 (irqs_boot, []))) ! 200 = idt irqs_boot ! 200"
    by (elim conjE allE [of _ 200]) simp
  ultimately show ?thesis by simp
qed

section \<open>Which lines are open\<close>

text \<open>
  An 8259 as its data sheet has it, read off the history: after an initialisation word on its command port the next
  three bytes on its data port complete the initialisation; otherwise a byte on the data port is the new mask.
\<close>

fun pic_st :: "u16 \<Rightarrow> u16 \<Rightarrow> hist \<Rightarrow> nat \<times> u8 option" where
  "pic_st c p [] = (0, None)"
| "pic_st c p (Out8 q v # h) =
     (let (n, m) = pic_st c p h
      in if q = c then (if bit v 4 then (3, Some 0) else (n, m))
         else if q = p then (if n > 0 then (n - 1, m) else (0, Some v))
         else (n, m))"
| "pic_st c p (_ # h) = pic_st c p h"

definition pic_masks :: "hist \<Rightarrow> (u8 \<times> u8) option" where
  "pic_masks h = (case (pic_st 0x20 0x21 h, pic_st 0xA0 0xA1 h) of
     ((0, Some m), (0, Some s)) \<Rightarrow> Some (m, s) | _ \<Rightarrow> None)"

definition pic_ok :: "dev \<Rightarrow> bool" where
  "pic_ok d \<longleftrightarrow> (\<forall>h m s. pic_masks h = Some (m, s) \<longrightarrow> rd8 d h 0x21 = m \<and> rd8 d h 0xA1 = s)"

text \<open>A request on a line reaches the processor if it is not masked and, on the second controller, the cascade line is open.\<close>

definition line_on :: "u8 \<times> u8 \<Rightarrow> nat \<Rightarrow> bool" where
  "line_on ms irq \<longleftrightarrow>
     (if irq < 8 then \<not> bit (fst ms) irq else \<not> bit (snd ms) (irq - 8) \<and> \<not> bit (fst ms) 2)"

lemma pic_masks_out:
  assumes "pic_masks h = Some (m, s)"
  shows "pic_masks (outb 0x21 v h) = Some (v, s)" "pic_masks (outb 0xA1 v h) = Some (m, v)"
    "pic_masks (snd (inb d p h)) = Some (m, s)"
  using assms by (auto simp: pic_masks_def outb_def inb_def split: prod.splits nat.splits option.splits)

lemma pic_masks_other:
  assumes "p \<notin> {0x20, 0x21, 0xA0, 0xA1}"
  shows "pic_masks (outb p v h) = pic_masks h"
  using assms by (auto simp: pic_masks_def outb_def split: prod.splits)

lemma pic_st_eoi: "q \<noteq> p \<Longrightarrow> pic_st c p (outb q 0x20 h) = pic_st c p h"
proof -
  have "\<not> bit (0x20 :: u8) 4" by code_simp
  then show "q \<noteq> p \<Longrightarrow> pic_st c p (outb q 0x20 h) = pic_st c p h" by (simp add: outb_def split: prod.splits)
qed

lemma pic_masks_eoi: "pic_masks (pic_send_eoi irq h) = pic_masks h"
proof -
  have "pic_st 0x20 0x21 (pic_send_eoi irq h) = pic_st 0x20 0x21 h" "pic_st 0xA0 0xA1 (pic_send_eoi irq h) = pic_st 0xA0 0xA1 h"
    by (simp_all add: pic_send_eoi_def pic_st_eoi)
  then show ?thesis by (simp only: pic_masks_def)
qed

lemma pic_masks_In8 [simp]: "pic_masks (In8 p v # h) = pic_masks h"
  by (simp add: pic_masks_def)

lemma pic_masks_remap: "pic_masks (pic_remap d h) = Some (0xFF, 0xFF)"
  by (simp add: pic_remap_def pic_masks_def io_wait_def outb_def inb_def Let_def split: prod.splits)

lemma irq_mask_masks:
  assumes "pic_ok d" "pic_masks h = Some (m, s)" "irq < 16"
  shows "pic_masks (irq_mask d irq h) = Some (if irq < 8 then (m OR push_bit (unat irq) 1, s) else (m, s OR push_bit (unat (irq - 8)) 1))"
proof -
  have "rd8 d h 0x21 = m" "rd8 d h 0xA1 = s" using assms(1,2) by (auto simp: pic_ok_def)
  moreover have "pic_masks (In8 p v # h) = Some (m, s)" for p v using assms(2) by simp
  ultimately show ?thesis using pic_masks_out(1,2) by (simp add: irq_mask_def inb_def Let_def)
qed

lemma irq_unmask_masks:
  assumes "pic_ok d" "pic_masks h = Some (m, s)" "irq < 16"
  shows "pic_masks (irq_unmask d irq h) = Some (if irq < 8 then (m AND NOT (push_bit (unat irq) 1), s)
    else (m AND NOT (push_bit 2 1), s AND NOT (push_bit (unat (irq - 8)) 1)))"
proof -
  have r: "rd8 d h 0x21 = m" "rd8 d h 0xA1 = s" using assms(1,2) by (auto simp: pic_ok_def)
  let ?h = "outb 0xA1 (s AND NOT (push_bit (unat (irq - 8)) 1)) (In8 0xA1 s # h)"
  have i: "pic_masks (In8 p v # h) = Some (m, s)" for p v using assms(2) by simp
  note h = pic_masks_out(2) [OF i, of "s AND NOT (push_bit (unat (irq - 8)) 1)"]
  then have r2: "rd8 d ?h 0x21 = m" using assms(1) unfolding pic_ok_def by blast
  have h': "pic_masks (In8 0x21 m # ?h) = Some (m, s AND NOT (push_bit (unat (irq - 8)) 1))"
    unfolding pic_masks_In8 by (rule h)
  show ?thesis
  proof (cases "irq < 8")
    case True
    then have "\<not> 8 \<le> irq" by simp
    with True r show ?thesis using pic_masks_out(1) [OF i] by (simp add: irq_unmask_def inb_def Let_def)
  next
    case False
    then have "8 \<le> irq" by simp
    with False r r2 show ?thesis using pic_masks_out(1) [OF h', of "m AND NOT (push_bit 2 1)"]
      by (simp add: irq_unmask_def inb_def Let_def del: push_bit_of_1)
  qed
qed

section \<open>Open lines are the registered ones\<close>

datatype irq_event = Reg u8 irq_handler | Unreg u8

definition irq_event_step :: "dev \<Rightarrow> irqs \<times> hist \<Rightarrow> irq_event \<Rightarrow> irqs \<times> hist" where
  "irq_event_step d sh e = (case e of Reg i f \<Rightarrow> irq_register d i f sh | Unreg i \<Rightarrow> irq_unregister d i sh)"

definition lines_inv :: "irqs \<times> hist \<Rightarrow> bool" where
  "lines_inv sh \<longleftrightarrow> length (irq_handlers (fst sh)) = 16 \<and>
     (\<exists>m s. pic_masks (snd sh) = Some (m, s) \<and>
        (\<forall>j<8. j \<noteq> 2 \<longrightarrow> (\<not> bit m j \<longleftrightarrow> irq_handlers (fst sh) ! j \<noteq> None)) \<and>
        (\<forall>j<8. \<not> bit s j \<longleftrightarrow> irq_handlers (fst sh) ! (8 + j) \<noteq> None) \<and>
        ((\<exists>j<8. irq_handlers (fst sh) ! (8 + j) \<noteq> None) \<longrightarrow> \<not> bit m 2))"

lemma mask_bits:
  "bit (v OR push_bit l 1 :: u8) j \<longleftrightarrow> bit v j \<or> (j = l \<and> l < 8)"
  "j < 8 \<Longrightarrow> bit (v AND NOT (push_bit l 1) :: u8) j \<longleftrightarrow> bit v j \<and> j \<noteq> l"
  by (auto simp: bit_simps)

lemma unat_2_u8: "unat (2 :: u8) = 2"
  by simp

lemma irq_cases:
  assumes "(irq :: u8) < 16"
  obtains "irq < 8" "unat irq < 8" | "8 \<le> irq" "\<not> irq < 8" "unat irq = 8 + unat (irq - 8)" "unat (irq - 8) < 8"
proof (cases "irq < 8")
  case True
  then show ?thesis using that(1) by (simp add: word_less_nat_alt)
next
  case False
  then have "8 \<le> irq" by simp
  then have "unat (irq - 8) = unat irq - 8" by (simp add: unat_sub)
  with \<open>8 \<le> irq\<close> assms False show ?thesis by (intro that(2)) (auto simp: word_less_nat_alt word_le_nat_alt)
qed

lemma lines_inv_step:
  assumes ok: "pic_ok d" and inv: "lines_inv sh" and e: "e \<noteq> Unreg 2"
  shows "lines_inv (irq_event_step d sh e)"
proof -
  obtain s h where sh: "sh = (s, h)" by (cases sh)
  obtain m sl where m: "pic_masks h = Some (m, sl)" and l: "length (irq_handlers s) = 16"
    and a: "\<And>j. j < 8 \<Longrightarrow> j \<noteq> 2 \<Longrightarrow> \<not> bit m j \<longleftrightarrow> irq_handlers s ! j \<noteq> None"
    and b: "\<And>j. j < 8 \<Longrightarrow> \<not> bit sl j \<longleftrightarrow> irq_handlers s ! (8 + j) \<noteq> None"
    and c: "\<And>j. j < 8 \<Longrightarrow> irq_handlers s ! (8 + j) \<noteq> None \<Longrightarrow> \<not> bit m 2"
    using inv unfolding sh lines_inv_def by auto
  show ?thesis
  proof (cases e)
    case (Reg irq f)
    show ?thesis
    proof (cases "irq < 16")
      case True
      have st: "irq_event_step d sh e = (s\<lparr>irq_handlers := (irq_handlers s)[unat irq := Some f]\<rparr>, irq_unmask d irq h)"
        using True Reg by (simp add: linorder_not_le [symmetric] sh irq_event_step_def irq_register_def)
      from True show ?thesis
      proof (cases rule: irq_cases)
        case 1
        then have "pic_masks (irq_unmask d irq h) = Some (m AND NOT (push_bit (unat irq) 1), sl)"
          using irq_unmask_masks [OF ok m True] by simp
        then show ?thesis unfolding st lines_inv_def
          using 1 l a b c by (auto simp: mask_bits nth_list_update simp del: push_bit_of_1)
      next
        case 2
        then have "pic_masks (irq_unmask d irq h) = Some (m AND NOT (push_bit 2 1), sl AND NOT (push_bit (unat (irq - 8)) 1))"
          using irq_unmask_masks [OF ok m True] by simp
        then show ?thesis unfolding st lines_inv_def
          using 2 l a b c by (auto simp: mask_bits nth_list_update simp del: push_bit_of_1)
      qed
    qed (use inv Reg in \<open>simp add: linorder_not_le [symmetric] sh irq_event_step_def irq_register_def\<close>)
  next
    case (Unreg irq)
    with e have n2: "irq \<noteq> 2" by simp
    show ?thesis
    proof (cases "irq < 16")
      case True
      have st: "irq_event_step d sh e = (s\<lparr>irq_handlers := (irq_handlers s)[unat irq := None]\<rparr>, irq_mask d irq h)"
        using True Unreg by (simp add: linorder_not_le [symmetric] sh irq_event_step_def irq_unregister_def)
      have u2: "unat irq \<noteq> 2" using n2 by (metis unat_2_u8 word_unat_eq_iff)
      from True show ?thesis
      proof (cases rule: irq_cases)
        case 1
        then have "pic_masks (irq_mask d irq h) = Some (m OR push_bit (unat irq) 1, sl)"
          using irq_mask_masks [OF ok m True] by simp
        then show ?thesis unfolding st lines_inv_def
          using 1 u2 l a b c by (auto simp: mask_bits nth_list_update simp del: push_bit_of_1)
      next
        case 2
        then have "pic_masks (irq_mask d irq h) = Some (m, sl OR push_bit (unat (irq - 8)) 1)"
          using irq_mask_masks [OF ok m True] by simp
        then show ?thesis unfolding st lines_inv_def
          using 2 l a b c by (auto simp: mask_bits nth_list_update simp del: push_bit_of_1 split: if_splits)
      qed
    qed (use inv Unreg in \<open>simp add: linorder_not_le [symmetric] sh irq_event_step_def irq_unregister_def\<close>)
  qed
qed

lemma lines_inv_init:
  assumes "irq_handlers s = replicate 16 None" "length (idt s) = 256"
  shows "lines_inv (idt_init d stubs y (s, h))"
proof -
  have "irq_handlers (fst (idt_init d stubs y (s, h))) = replicate 16 None"
    using idt_init_idt(4) [OF assms(2)] assms(1) by simp
  moreover have "snd (idt_init d stubs y (s, h)) = pic_remap d h" by (simp add: idt_init_def Let_def)
  moreover have "bit (0xFF :: u8) j" if "j < 8" for j
  proof -
    have "(0xFF :: u8) = mask 8" by (simp add: mask_eq_exp_minus_1)
    then show ?thesis using that by (simp only: bit_mask_iff) simp
  qed
  ultimately show ?thesis by (simp add: lines_inv_def pic_masks_remap)
qed

lemma lines_inv_run:
  "pic_ok d \<Longrightarrow> lines_inv sh \<Longrightarrow> Unreg 2 \<notin> set evs \<Longrightarrow> lines_inv (foldl (irq_event_step d) sh evs)"
proof (induction evs arbitrary: sh)
  case (Cons e evs)
  have "e \<noteq> Unreg 2" "Unreg 2 \<notin> set evs" using Cons.prems(3) by auto
  with Cons.IH [OF Cons.prems(1) lines_inv_step [OF Cons.prems(1,2)]] show ?case by simp
qed simp

lemma lines_inv_line:
  assumes "lines_inv sh" "j < 16" "j \<noteq> 2"
  shows "\<exists>ms. pic_masks (snd sh) = Some ms \<and> (line_on ms j \<longleftrightarrow> irq_handlers (fst sh) ! j \<noteq> None)"
proof -
  obtain m s where m: "pic_masks (snd sh) = Some (m, s)"
    and a: "\<And>j. j < 8 \<Longrightarrow> j \<noteq> 2 \<Longrightarrow> \<not> bit m j \<longleftrightarrow> irq_handlers (fst sh) ! j \<noteq> None"
    and b: "\<And>j. j < 8 \<Longrightarrow> \<not> bit s j \<longleftrightarrow> irq_handlers (fst sh) ! (8 + j) \<noteq> None"
    and c: "\<And>j. j < 8 \<Longrightarrow> irq_handlers (fst sh) ! (8 + j) \<noteq> None \<Longrightarrow> \<not> bit m 2"
    using assms(1) unfolding lines_inv_def by auto
  show ?thesis
  proof (cases "j < 8")
    case True
    then show ?thesis using m a [OF True assms(3)] by (simp add: line_on_def)
  next
    case False
    then have "j - 8 < 8" "8 + (j - 8) = j" using assms(2) by auto
    then show ?thesis using m b [of "j - 8"] c [of "j - 8"] False by (auto simp: line_on_def)
  qed
qed

text \<open>From initialisation on, after any registrations and removals of handlers (the cascade line 2 is never removed), a hardware
  line other than the cascade reaches the processor exactly when it has a handler.
\<close>

theorem open_lines_have_handlers:
  assumes "pic_ok d" "Unreg 2 \<notin> set evs" "j < 16" "j \<noteq> 2"
  shows "\<exists>ms. pic_masks (snd (foldl (irq_event_step d) (idt_init d stubs y (irqs_boot, h)) evs)) = Some ms \<and>
    (line_on ms j \<longleftrightarrow> irq_handlers (fst (foldl (irq_event_step d) (idt_init d stubs y (irqs_boot, h)) evs)) ! j \<noteq> None)"
  by (rule lines_inv_line [OF lines_inv_run [OF assms(1) lines_inv_init assms(2)] assms(3,4)]) (simp_all add: irqs_boot_def)

definition pic_dev :: dev where
  "pic_dev = \<lparr>rd8 = (\<lambda>h p. case pic_masks h of Some (m, s) \<Rightarrow> if p = 0x21 then m else s | None \<Rightarrow> 0),
              rd16 = (\<lambda>h p. 0), rd32 = (\<lambda>h p. 0)\<rparr>"

lemma pic_dev_ok: "pic_ok pic_dev"
  by (simp add: pic_ok_def pic_dev_def)

theorem open_lines_have_handlers_witness:
  "\<exists>ms. pic_masks (snd (foldl (irq_event_step pic_dev) (idt_init pic_dev of_nat 7 (irqs_boot, [])) [Reg 0 H_timer, Reg 12 H_mouse])) = Some ms \<and>
    (line_on ms 12 \<longleftrightarrow> irq_handlers (fst (foldl (irq_event_step pic_dev) (idt_init pic_dev of_nat 7 (irqs_boot, []))
       [Reg 0 H_timer, Reg 12 H_mouse])) ! 12 \<noteq> None)"
  by (rule open_lines_have_handlers) (simp_all add: pic_dev_ok)

section \<open>The crash report\<close>

text \<open>Two crashes of the same exception that print the same report had the same registers, error code and, for a page
  fault, fault address: the report loses nothing.
\<close>

theorem report_determines_frame:
  assumes "int_no f = int_no g" "isr_report a f = isr_report b g"
  shows "f = g \<and> (int_no f = 14 \<longrightarrow> a = b)"
proof -
  have "f_rip f = f_rip g \<and> f_cs f = f_cs g \<and> f_rsp f = f_rsp g \<and> f_ss f = f_ss g \<and> f_rflags f = f_rflags g \<and>
    f_rax f = f_rax g \<and> f_rbx f = f_rbx g \<and> f_rcx f = f_rcx g \<and> f_rdx f = f_rdx g \<and> f_rsi f = f_rsi g \<and>
    f_rdi f = f_rdi g \<and> f_rbp f = f_rbp g \<and> f_r8 f = f_r8 g \<and> f_r9 f = f_r9 g \<and> f_r10 f = f_r10 g \<and>
    f_r11 f = f_r11 g \<and> f_r12 f = f_r12 g \<and> f_r13 f = f_r13 g \<and> f_r14 f = f_r14 g \<and> f_r15 f = f_r15 g \<and>
    error_code f = error_code g \<and> (int_no f = 14 \<longrightarrow> a = b)"
    using assms by (auto simp: isr_report_def dest: print_hex64_inj split: if_splits)
  then show ?thesis using assms(1) by (cases f; cases g) simp
qed

definition crash :: "u64 \<Rightarrow> intr_frame" where
  "crash n = \<lparr>f_r15 = 0, f_r14 = 0, f_r13 = 0, f_r12 = 0, f_r11 = 0, f_r10 = 0, f_r9 = 0, f_r8 = 0, f_rbp = 0, f_rdi = 0,
     f_rsi = 0, f_rdx = 0, f_rcx = 0, f_rbx = 0, f_rax = 0, int_no = n, error_code = 2, f_rip = 4096, f_cs = 0x28,
     f_rflags = 2, f_rsp = 8192, f_ss = 0x30\<rparr>"

theorem report_determines_frame_witness:
  "crash 14 = crash 14 \<and> isr_report 5 (crash 14) \<noteq> isr_report 6 (crash 14)"
  using report_determines_frame [of "crash 14" "crash 14" 5 6] by (auto simp: crash_def)

end
