(* ===== verification/Input.thy ===== *)
theory Input
  imports Interrupts
begin

text \<open>
  The PS/2 keyboard and mouse drivers of \<^verbatim>\<open>kernel/keyboard.cpp\<close> and \<^verbatim>\<open>kernel/mouse.cpp\<close>. Each is a
  state machine fed by the bytes of the controller: the keyboard turns scan codes into characters
  for the shell, the mouse collects packets of three bytes into a clamped position.
\<close>

section \<open>Keyboard\<close>

record kbd =
  shift_down :: bool
  ctrl_down :: bool
  ext_prefix :: bool

definition kbd_boot :: kbd where
  "kbd_boot = \<lparr>shift_down = False, ctrl_down = False, ext_prefix = False\<rparr>"

text \<open>The two layouts; \<^verbatim>\<open>0\<close> marks a key without a character.\<close>

definition sc_lower :: string where
  "sc_lower =
     [CHR 0x00, CHR 0x1B] @ ''1234567890-='' @ [CHR 0x08] @
     [CHR 0x09] @ ''qwertyuiop[]'' @ [CHR 0x0A] @
     [CHR 0x00] @ ''asdfghjkl;'' @ [CHR 0x27, CHR 0x60, CHR 0x00, CHR 0x5C] @
     ''zxcvbnm,./'' @ [CHR 0x00, CHR ''*'', CHR 0x00, CHR '' '']"

definition sc_upper :: string where
  "sc_upper =
     [CHR 0x00, CHR 0x1B] @ ''!@#$%^&*()_+'' @ [CHR 0x08] @
     [CHR 0x09] @ ''QWERTYUIOP{}'' @ [CHR 0x0A] @
     [CHR 0x00] @ ''ASDFGHJKL:'' @ [CHR 0x22, CHR ''~'', CHR 0x00, CHR ''|''] @
     ''ZXCVBNM<>?'' @ [CHR 0x00, CHR ''*'', CHR 0x00, CHR '' '']"

definition between :: "char \<Rightarrow> char \<Rightarrow> char \<Rightarrow> bool" where
  "between a c b \<longleftrightarrow> (of_char a :: nat) \<le> of_char c \<and> (of_char c :: nat) \<le> of_char b"

definition ctrl_code :: "char \<Rightarrow> char option" where
  "ctrl_code c =
     (if between (CHR ''a'') c (CHR ''z'') then Some (char_of (of_char c - 97 + 1 :: nat))
      else if between (CHR ''A'') c (CHR ''Z'') then Some (char_of (of_char c - 65 + 1 :: nat))
      else None)"

text \<open>One scan code: the character handed to the shell, if any, and the new modifier state.\<close>

definition kbd_scan :: "u8 \<Rightarrow> kbd \<Rightarrow> char option \<times> kbd" where
  "kbd_scan sc k =
     (if sc = 0xE0 then (None, k\<lparr>ext_prefix := True\<rparr>)
      else
        let release = (sc AND 0x80 \<noteq> 0); code = sc AND 0x7F
        in if ext_prefix k then (None, k\<lparr>ext_prefix := False\<rparr>)
           else if code = 0x2A \<or> code = 0x36 then (None, k\<lparr>shift_down := \<not> release\<rparr>)
           else if code = 0x1D then (None, k\<lparr>ctrl_down := \<not> release\<rparr>)
           else if release then (None, k)
           else if unat code \<ge> length sc_lower then (None, k)
           else
             let c = (if shift_down k then sc_upper ! unat code else sc_lower ! unat code)
             in if c = CHR 0x00 then (None, k)
                else if ctrl_down k then (ctrl_code c, k)
                else (Some c, k))"

definition keyboard_irq_handler :: "dev \<Rightarrow> kbd \<times> hist \<Rightarrow> char option \<times> kbd \<times> hist" where
  "keyboard_irq_handler d = (\<lambda>(k, h).
     let (sc, h) = inb d 0x60 h; (c, k) = kbd_scan sc k in (c, k, h))"

definition keyboard_init :: "dev \<Rightarrow> irqs \<times> hist \<Rightarrow> irqs \<times> hist" where
  "keyboard_init d = irq_register d 1 H_keyboard"

section \<open>Mouse\<close>

record mouse =
  mouse_x :: int
  mouse_y :: int
  buttons :: u8
  packet_count :: u64
  mouse_ready :: bool
  packet :: "u8 list"
  packet_idx :: nat

definition mouse_boot :: mouse where
  "mouse_boot = \<lparr>mouse_x = 512, mouse_y = 384, buttons = 0, packet_count = 0, mouse_ready = False,
                 packet = [0, 0, 0], packet_idx = 0\<rparr>"

definition PS2_DATA :: u16 where "PS2_DATA = 0x60"
definition PS2_STAT :: u16 where "PS2_STAT = 0x64"
definition PS2_CMD :: u16 where "PS2_CMD = 0x64"

primrec wait_write_loop :: "dev \<Rightarrow> nat \<Rightarrow> hist \<Rightarrow> hist" where
  "wait_write_loop d 0 h = h"
| "wait_write_loop d (Suc n) h =
     (let (v, h) = inb d PS2_STAT h in if v AND 0x02 = 0 then h else wait_write_loop d n h)"

definition ps2_wait_write :: "dev \<Rightarrow> hist \<Rightarrow> hist" where
  "ps2_wait_write d h = wait_write_loop d 100000 h"

primrec wait_read_loop :: "dev \<Rightarrow> nat \<Rightarrow> hist \<Rightarrow> hist" where
  "wait_read_loop d 0 h = h"
| "wait_read_loop d (Suc n) h =
     (let (v, h) = inb d PS2_STAT h in if v AND 0x01 \<noteq> 0 then h else wait_read_loop d n h)"

definition ps2_wait_read :: "dev \<Rightarrow> hist \<Rightarrow> hist" where
  "ps2_wait_read d h = wait_read_loop d 100000 h"

definition mouse_write :: "dev \<Rightarrow> u8 \<Rightarrow> hist \<Rightarrow> hist" where
  "mouse_write d b h = outb PS2_DATA b (ps2_wait_write d (outb PS2_CMD 0xD4 (ps2_wait_write d h)))"

definition mouse_read :: "dev \<Rightarrow> hist \<Rightarrow> u8 \<times> hist" where
  "mouse_read d h = inb d PS2_DATA (ps2_wait_read d h)"

text \<open>A byte of the packet stream. Positions are signed 32-bit values that the clamping keeps small.\<close>

definition mouse_byte :: "u8 \<Rightarrow> mouse \<Rightarrow> mouse" where
  "mouse_byte b m =
     (if packet_idx m = 0 \<and> b AND 0x08 = 0 then m
      else
        let m = m\<lparr>packet := (packet m)[packet_idx m := b], packet_idx := packet_idx m + 1\<rparr>
        in if packet_idx m < 3 then m
           else
             let m = m\<lparr>packet_idx := 0\<rparr>; flags = packet m ! 0
             in if flags AND 0xC0 \<noteq> 0 then m
                else
                  let dx = sint (packet m ! 1); dy = sint (packet m ! 2);
                      m = m\<lparr>mouse_x := mouse_x m + dx, mouse_y := mouse_y m - dy\<rparr>;
                      m = (if mouse_x m < 0 then m\<lparr>mouse_x := 0\<rparr> else m);
                      m = (if mouse_y m < 0 then m\<lparr>mouse_y := 0\<rparr> else m);
                      m = (if mouse_x m > 1023 then m\<lparr>mouse_x := 1023\<rparr> else m);
                      m = (if mouse_y m > 767 then m\<lparr>mouse_y := 767\<rparr> else m)
                  in m\<lparr>buttons := flags AND 0x07, packet_count := packet_count m + 1\<rparr>)"

definition mouse_irq :: "dev \<Rightarrow> mouse \<times> hist \<Rightarrow> mouse \<times> hist" where
  "mouse_irq d = (\<lambda>(m, h).
     let (status, h) = inb d PS2_STAT h
     in if status AND 0x21 \<noteq> 0x21 then (m, h)
        else let (b, h) = inb d PS2_DATA h in (mouse_byte b m, h))"

definition mouse_init :: "dev \<Rightarrow> mouse \<times> irqs \<times> hist \<Rightarrow> bool \<times> mouse \<times> irqs \<times> hist" where
  "mouse_init d = (\<lambda>(m, s, h).
     let h = outb PS2_CMD 0xA8 (ps2_wait_write d h);
         h = outb PS2_CMD 0x20 (ps2_wait_write d h);
         (config, h) = inb d PS2_DATA (ps2_wait_read d h);
         config = (config OR 0x02) AND NOT 0x20;
         h = outb PS2_CMD 0x60 (ps2_wait_write d h);
         h = outb PS2_DATA config (ps2_wait_write d h);
         (ack, h) = mouse_read d (mouse_write d 0xF6 h)
     in if ack \<noteq> 0xFA then (False, m, s, h)
        else
          let (ack, h) = mouse_read d (mouse_write d 0xF4 h)
          in if ack \<noteq> 0xFA then (False, m, s, h)
             else let (s, h) = irq_register d 12 H_mouse (s, h)
                  in (True, m\<lparr>mouse_ready := True\<rparr>, s, h))"

section \<open>Keyboard properties\<close>

fun kbd_run :: "u8 list \<Rightarrow> kbd \<Rightarrow> string \<times> kbd" where
  "kbd_run [] k = ([], k)"
| "kbd_run (sc # scs) k =
     (let (c, k) = kbd_scan sc k; (s, k) = kbd_run scs k
      in ((case c of Some c \<Rightarrow> [c] | None \<Rightarrow> []) @ s, k))"

lemma kbd_run_append:
  "kbd_run (a @ b) k = (let (s, k) = kbd_run a k; (t, k) = kbd_run b k in (s @ t, k))"
  by (induction a arbitrary: k) (auto simp: split: prod.splits option.splits)

definition shell_char :: "char \<Rightarrow> bool" where
  "shell_char c \<longleftrightarrow> 1 \<le> (of_char c :: nat) \<and> (of_char c :: nat) \<le> 126"

lemma layout_chars:
  "list_all (\<lambda>c. c = CHR 0x00 \<or> shell_char c) sc_lower" "list_all (\<lambda>c. c = CHR 0x00 \<or> shell_char c) sc_upper"
  "length sc_lower = 58" "length sc_upper = 58"
  by (code_simp, code_simp, code_simp, code_simp)

lemma ctrl_code_range: "ctrl_code c = Some d \<Longrightarrow> 1 \<le> (of_char d :: nat) \<and> (of_char d :: nat) \<le> 26"
  by (auto simp: ctrl_code_def between_def split: if_splits)

text \<open>C32: Whatever byte the controller delivers in whatever modifier state, a character given to the shell is one of the
  codes 1 to 126, and with Ctrl held one of the control codes 1 to 26; releases and extended keys give none.
\<close>

theorem kbd_char_type:
  assumes "kbd_scan sc k = (Some c, k')"
  shows "shell_char c \<and> (ctrl_down k \<longrightarrow> of_char c \<le> (26 :: nat)) \<and> \<not> ext_prefix k \<and> sc AND 0x80 = 0 \<and> k' = k"
proof -
  have "sc_lower ! unat (sc AND 0x7F) = CHR 0x00 \<or> shell_char (sc_lower ! unat (sc AND 0x7F))"
    "sc_upper ! unat (sc AND 0x7F) = CHR 0x00 \<or> shell_char (sc_upper ! unat (sc AND 0x7F))"
    if "unat (sc AND 0x7F) < 58"
    using layout_chars that by (auto simp: list_all_length)
  then show ?thesis
    using assms by (auto simp: kbd_scan_def Let_def layout_chars(3) shell_char_def dest: ctrl_code_range split: if_splits)
qed

theorem kbd_char_type_witness:
  "kbd_scan 0x10 (kbd_boot\<lparr>shift_down := True\<rparr>) = (Some (CHR ''Q''), kbd_boot\<lparr>shift_down := True\<rparr>) \<and> shell_char (CHR ''Q'')"
proof -
  have "kbd_scan 0x10 (kbd_boot\<lparr>shift_down := True\<rparr>) = (Some (CHR ''Q''), kbd_boot\<lparr>shift_down := True\<rparr>)" by code_simp
  with kbd_char_type [OF this] show ?thesis by blast
qed

text \<open>The scan codes a keyboard sends for a character: the key, with a left shift around it when needed.\<close>

definition keys_of :: "char \<Rightarrow> u8 list" where
  "keys_of c = (case find_idx (\<lambda>x. x = c) sc_lower of
      Some i \<Rightarrow> [of_nat i, of_nat i OR 0x80]
    | None \<Rightarrow> (case find_idx (\<lambda>x. x = c) sc_upper of
        Some i \<Rightarrow> [0x2A, of_nat i, of_nat i OR 0x80, 0xAA] | None \<Rightarrow> []))"

definition typable :: "char \<Rightarrow> bool" where
  "typable c \<longleftrightarrow> c \<noteq> CHR 0x00 \<and> (c \<in> set sc_lower \<or> c \<in> set sc_upper)"

lemma keys_checked:
  "list_all (\<lambda>i. (sc_lower ! i \<noteq> CHR 0x00 \<longrightarrow> kbd_run [of_nat i, of_nat i OR 0x80] kbd_boot = ([sc_lower ! i], kbd_boot)) \<and>
     (sc_upper ! i \<noteq> CHR 0x00 \<longrightarrow> kbd_run [0x2A, of_nat i, of_nat i OR 0x80, 0xAA] kbd_boot = ([sc_upper ! i], kbd_boot))) [0..<58]"
  by code_simp

lemma keys_ok: "typable c \<Longrightarrow> kbd_run (keys_of c) kbd_boot = ([c], kbd_boot)"
proof -
  assume t: "typable c"
  have ck: "\<And>i. i < 58 \<Longrightarrow> sc_lower ! i \<noteq> CHR 0x00 \<Longrightarrow> kbd_run [of_nat i, of_nat i OR 0x80] kbd_boot = ([sc_lower ! i], kbd_boot)"
    "\<And>i. i < 58 \<Longrightarrow> sc_upper ! i \<noteq> CHR 0x00 \<Longrightarrow> kbd_run [0x2A, of_nat i, of_nat i OR 0x80, 0xAA] kbd_boot = ([sc_upper ! i], kbd_boot)"
    using keys_checked by (simp_all only: list_all_iff set_upt atLeastLessThan_iff) auto
  show ?thesis
  proof (cases "find_idx (\<lambda>x. x = c) sc_lower")
    case (Some i)
    then have "i < 58" "sc_lower ! i = c" using find_idx_SomeD [OF Some] layout_chars(3) by auto
    moreover have "c \<noteq> CHR 0x00" using t unfolding typable_def by blast
    ultimately show ?thesis unfolding keys_of_def Some option.case using ck(1) [of i] by blast
  next
    case None
    then have "c \<in> set sc_upper" using t by (auto simp: typable_def find_idx_None_iff)
    then obtain i where i: "find_idx (\<lambda>x. x = c) sc_upper = Some i" using find_idx_ex [of "\<lambda>x. x = c" sc_upper] by auto
    then have "i < 58" "sc_upper ! i = c" using find_idx_SomeD [OF i] layout_chars(4) by auto
    moreover have "c \<noteq> CHR 0x00" using t unfolding typable_def by blast
    ultimately show ?thesis unfolding keys_of_def None i option.case using ck(2) [of i] by blast
  qed
qed

lemma typed_keys: "\<forall>c\<in>set s. typable c \<Longrightarrow> kbd_run (concat (map keys_of s)) kbd_boot = (s, kbd_boot)"
  by (induction s) (simp_all add: kbd_run_append keys_ok)

text \<open>Typing a text on the keyboard gives the shell exactly that text.\<close>

theorem typed_text_arrives:
  assumes "\<forall>c\<in>set s. typable c"
  shows "kbd_run (concat (map keys_of s)) kbd_boot = (s, kbd_boot)"
  using assms by (rule typed_keys)

theorem typed_text_arrives_witness:
  "kbd_run (concat (map keys_of ''Ls -A!'')) kbd_boot = (''Ls -A!'', kbd_boot)"
  by (rule typed_text_arrives) code_simp

text \<open>Holding both shift keys and releasing one of them ends the shift state: the left key's release is
  taken for both, so the next letter is lower case although the right key is still down.
\<close>

theorem shift_release_loses_other:
  assumes "\<not> ext_prefix k" "\<not> ctrl_down k"
  shows "kbd_run [0x2A, 0x36, 0xAA, 0x1E] k = (''a'', k\<lparr>shift_down := False\<rparr>)"
proof -
  have "sc_lower ! 30 = CHR ''a''" "length sc_lower = 58" by code_simp+
  then show ?thesis using assms by (simp add: kbd_scan_def)
qed

theorem shift_release_loses_other_witness:
  "kbd_run [0x2A, 0x36, 0xAA, 0x1E] kbd_boot = (''a'', kbd_boot\<lparr>shift_down := False\<rparr>)"
  by (rule shift_release_loses_other) (simp_all add: kbd_boot_def)

section \<open>Mouse properties\<close>

definition mouse_inv :: "mouse \<Rightarrow> bool" where
  "mouse_inv m \<longleftrightarrow> 0 \<le> mouse_x m \<and> mouse_x m \<le> 1023 \<and> 0 \<le> mouse_y m \<and> mouse_y m \<le> 767 \<and>
     length (packet m) = 3 \<and> packet_idx m < 3 \<and> buttons m \<le> 7"

lemma mouse_byte_inv: "mouse_inv m \<Longrightarrow> mouse_inv (mouse_byte b m)"
proof -
  have "v AND 7 \<le> 7" for v :: u8 by (simp add: word_and_le1)
  then show "mouse_inv m \<Longrightarrow> mouse_inv (mouse_byte b m)"
    by (auto simp: mouse_inv_def mouse_byte_def Let_def)
qed

interpretation ms: event_machine mouse_inv "\<lambda>m b. mouse_byte b m"
  by unfold_locales (rule mouse_byte_inv)

text \<open>After any bytes the pointer is on the screen and the packet buffer within bounds.\<close>

theorem mouse_stays_on_screen:
  "let m = foldl (\<lambda>m b. mouse_byte b m) mouse_boot bs
   in 0 \<le> mouse_x m \<and> mouse_x m < 1024 \<and> 0 \<le> mouse_y m \<and> mouse_y m < 768 \<and> packet_idx m < 3 \<and> buttons m \<le> 7"
proof -
  have "mouse_inv mouse_boot" by (simp add: mouse_inv_def mouse_boot_def)
  from ms.run_inv [OF this, of bs] show ?thesis by (simp add: mouse_inv_def Let_def)
qed

text \<open>The movement a packet reports: nine bits in two's complement, the sign in the first byte.\<close>

definition ps2_delta :: "bool \<Rightarrow> u8 \<Rightarrow> int" where
  "ps2_delta sign b = uint b - (if sign then 256 else 0)"

lemma sint_u8: "sint (b :: u8) = ps2_delta (bit b 7) b"
proof -
  have "uint b < 2 ^ 8" using uint_bounded [of b] by simp
  then have "take_bit (Suc 7) (uint b) = uint b" by (simp add: take_bit_int_eq_self_iff)
  moreover have "sint b = signed_take_bit 7 (uint b)" by (simp add: sint_uint)
  ultimately show ?thesis
    by (simp add: signed_take_bit_eq_take_bit_minus ps2_delta_def bit_uint_iff del: take_bit_Suc)
qed

definition clamp :: "int \<Rightarrow> int \<Rightarrow> int" where
  "clamp hi v = max 0 (min hi v)"

lemma packet_moves:
  assumes inv: "mouse_inv m" and idx: "packet_idx m = 0" and b0: "b0 AND 0x08 \<noteq> 0" "b0 AND 0xC0 = 0"
  shows "foldl (\<lambda>m b. mouse_byte b m) m [b0, b1, b2] =
    m\<lparr>mouse_x := clamp 1023 (mouse_x m + sint b1), mouse_y := clamp 767 (mouse_y m - sint b2),
      buttons := b0 AND 7, packet_count := packet_count m + 1, packet := [b0, b1, b2], packet_idx := 0\<rparr>"
proof -
  obtain p0 p1 p2 where p: "packet m = [p0, p1, p2]"
    using inv by (auto simp: mouse_inv_def numeral_3_eq_3 length_Suc_conv)
  show ?thesis
    using idx b0 p by (cases m) (auto simp: mouse_byte_def Let_def clamp_def)
qed

text \<open>A packet without overflow whose sign bits agree with the top bits of its movement bytes moves the pointer by
  the documented nine-bit amounts, clamped to the screen.
\<close>

theorem mouse_packet_spec:
  assumes "mouse_inv m" "packet_idx m = 0" "b0 AND 0x08 \<noteq> 0" "b0 AND 0xC0 = 0"
    and "bit b0 4 = bit b1 7" "bit b0 5 = bit b2 7"
  shows "foldl (\<lambda>m b. mouse_byte b m) m [b0, b1, b2] =
    m\<lparr>mouse_x := clamp 1023 (mouse_x m + ps2_delta (bit b0 4) b1),
      mouse_y := clamp 767 (mouse_y m - ps2_delta (bit b0 5) b2),
      buttons := b0 AND 7, packet_count := packet_count m + 1, packet := [b0, b1, b2], packet_idx := 0\<rparr>"
  unfolding packet_moves [OF assms(1-4)] sint_u8 assms(5,6) ..

theorem mouse_packet_spec_witness:
  "foldl (\<lambda>m b. mouse_byte b m) mouse_boot [0x19, 0xFE, 0x03] =
    mouse_boot\<lparr>mouse_x := clamp 1023 (mouse_x mouse_boot + ps2_delta (bit (0x19 :: u8) 4) 0xFE),
      mouse_y := clamp 767 (mouse_y mouse_boot - ps2_delta (bit (0x19 :: u8) 5) 0x03),
      buttons := 0x19 AND 7, packet_count := packet_count mouse_boot + 1, packet := [0x19, 0xFE, 0x03], packet_idx := 0\<rparr>"
  by (rule mouse_packet_spec) (simp add: mouse_inv_def mouse_boot_def, simp add: mouse_boot_def, code_simp+)

text \<open>The driver takes the sign from the movement byte alone: a movement of 128 or more to the right, whose sign bit is
  clear, is executed as a movement to the left, 256 less.
\<close>

theorem mouse_sign_ignored:
  assumes "mouse_inv m" "packet_idx m = 0" "b0 AND 0x08 \<noteq> 0" "b0 AND 0xC0 = 0" "\<not> bit b0 4" "bit b1 7"
  shows "mouse_x (foldl (\<lambda>m b. mouse_byte b m) m [b0, b1, b2]) =
    clamp 1023 (mouse_x m + ps2_delta (bit b0 4) b1 - 256)"
  using assms(5,6) unfolding packet_moves [OF assms(1-4)] sint_u8 by (simp add: ps2_delta_def add_diff_eq)

theorem mouse_sign_ignored_witness:
  "mouse_x (foldl (\<lambda>m b. mouse_byte b m) mouse_boot [0x08, 0x80, 0]) =
    clamp 1023 (mouse_x mouse_boot + ps2_delta (bit (0x08 :: u8) 4) 0x80 - 256)"
  by (rule mouse_sign_ignored) (simp add: mouse_inv_def mouse_boot_def, simp add: mouse_boot_def, code_simp+)

end
