(* ===== verification/Serial.thy ===== *)
theory Serial
  imports Ports KString "HOL-Library.Monad_Syntax"
begin

text \<open>
  The serial port driver of \<^verbatim>\<open>kernel/serial.cpp\<close>. Loops that poll a status bit for ever are
  \<open>partial_function (option)\<close>, so that \<open>None\<close> is not returning. The millisecond counter the timer
  interrupt advances while \<^verbatim>\<open>read_line\<close> polls is a parameter \<open>clock\<close> of the port accesses so far.
\<close>

definition COM1 :: u16 where "COM1 = 0x3F8"

definition serial_init :: "dev \<Rightarrow> hist \<Rightarrow> bool \<times> hist" where
  "serial_init d h =
     (let h = outb (COM1 + 1) 0x00 h; h = outb (COM1 + 3) 0x80 h; h = outb (COM1 + 0) 0x03 h;
          h = outb (COM1 + 1) 0x00 h; h = outb (COM1 + 3) 0x03 h; h = outb (COM1 + 2) 0xC7 h;
          h = outb (COM1 + 4) 0x0B h; h = outb (COM1 + 4) 0x1E h; h = outb (COM1 + 0) 0xAE h;
          (v, h) = inb d (COM1 + 0) h
      in if v \<noteq> 0xAE then (False, h) else (True, outb (COM1 + 4) 0x0F h))"

definition data_available :: "dev \<Rightarrow> hist \<Rightarrow> bool \<times> hist" where
  "data_available d h = (let (v, h) = inb d (COM1 + 5) h in (v AND 1 \<noteq> 0, h))"

partial_function (option) wait_data :: "dev \<Rightarrow> hist \<Rightarrow> hist option" where
  "wait_data d h = (let (a, h) = data_available d h in if a then Some h else wait_data d h)"

definition read_char :: "dev \<Rightarrow> hist \<Rightarrow> (char \<times> hist) option" where
  "read_char d h = do { h \<leftarrow> wait_data d h; let (b, h) = inb d COM1 h; Some (byte_char b, h) }"

definition transmit_empty :: "dev \<Rightarrow> hist \<Rightarrow> bool \<times> hist" where
  "transmit_empty d h = (let (v, h) = inb d (COM1 + 5) h in (v AND 0x20 \<noteq> 0, h))"

partial_function (option) wait_empty :: "dev \<Rightarrow> hist \<Rightarrow> hist option" where
  "wait_empty d h = (let (e, h) = transmit_empty d h in if e then Some h else wait_empty d h)"

definition write_char :: "dev \<Rightarrow> char \<Rightarrow> hist \<Rightarrow> hist option" where
  "write_char d c h = do { h \<leftarrow> wait_empty d h; Some (outb COM1 (char_byte c) h) }"

fun write_str :: "dev \<Rightarrow> string \<Rightarrow> hist \<Rightarrow> hist option" where
  "write_str d [] h = Some h"
| "write_str d (c # cs) h = do { h \<leftarrow> write_char d c h; write_str d cs h }"

text \<open>The characters read so far are kept in order; their number is the index \<^verbatim>\<open>n\<close> of the code.\<close>

function avail_loop :: "dev \<Rightarrow> u32 \<Rightarrow> string \<Rightarrow> hist \<Rightarrow> string \<times> hist" where
  "avail_loop d cap buf h =
     (if \<not> length buf < unat (cap - 1) then (buf, h)
      else
        let (a, h) = data_available d h
        in if \<not> a then (buf, h)
           else let (b, h) = inb d COM1 h in avail_loop d cap (buf @ [byte_char b]) h)"
  by pat_completeness auto
termination by (relation "measure (\<lambda>(d, cap, buf, h). unat (cap - 1) - length buf)") auto

definition read_available :: "dev \<Rightarrow> u32 \<Rightarrow> hist \<Rightarrow> string \<times> hist" where
  "read_available d cap h = avail_loop d cap [] h"

partial_function (option) line_loop ::
  "dev \<Rightarrow> (hist \<Rightarrow> u64) \<Rightarrow> u64 \<Rightarrow> u32 \<Rightarrow> u32 \<Rightarrow> string \<Rightarrow> hist \<Rightarrow> (string \<times> hist) option" where
  "line_loop d clock start cap timeout buf h =
     (if \<not> length buf < unat (cap - 1) then Some (buf, h)
      else
        let (a, h) = data_available d h
        in if a
           then let (b, h) = inb d COM1 h; c = byte_char b
                in if c = CHR 0x0A \<or> c = CHR 0x0D then Some (buf, h)
                   else line_loop d clock start cap timeout (buf @ [c]) h
           else if clock h - start > ucast timeout then Some (buf, h)
                else line_loop d clock start cap timeout buf h)"

definition read_line :: "dev \<Rightarrow> (hist \<Rightarrow> u64) \<Rightarrow> u32 \<Rightarrow> u32 \<Rightarrow> hist \<Rightarrow> (string \<times> hist) option" where
  "read_line d clock cap timeout h = line_loop d clock (clock h) cap timeout [] h"

section \<open>Reading a line\<close>

lemma data_available_len: "data_available d h = (a, h') \<Longrightarrow> length h' = Suc (length h)"
  by (auto simp: data_available_def inb_def)

lemma inb_len: "inb d p h = (b, h') \<Longrightarrow> length h' = Suc (length h)"
  by (auto simp: inb_def)

text \<open>The clock passes the deadline after at most \<open>N\<close> port accesses.\<close>

definition deadline :: "(hist \<Rightarrow> u64) \<Rightarrow> u64 \<Rightarrow> u32 \<Rightarrow> nat \<Rightarrow> bool" where
  "deadline clock start timeout N \<longleftrightarrow> (\<forall>h. N \<le> length h \<longrightarrow> clock h - start > ucast timeout)"

definition plain :: "char \<Rightarrow> bool" where
  "plain c \<longleftrightarrow> c \<noteq> CHR 0x0A \<and> c \<noteq> CHR 0x0D"

lemma line_loop_returns:
  assumes "deadline clock start timeout N" "list_all plain buf" "length buf \<le> unat (cap - 1)"
  shows "\<exists>s h'. line_loop d clock start cap timeout buf h = Some (s, h') \<and> list_all plain s \<and>
    length s \<le> unat (cap - 1) \<and> (\<exists>rest. s = buf @ rest)"
  using assms(2,3)
proof (induction "(unat (cap - 1) - length buf) + (N - length h)" arbitrary: buf h rule: less_induct)
  case less
  obtain a h1 where a: "data_available d h = (a, h1)" by force
  obtain b h2 where b: "inb d COM1 h1 = (b, h2)" by force
  note len = data_available_len [OF a] inb_len [OF b]
  show ?case
  proof (cases "length buf < unat (cap - 1)")
    case False
    then show ?thesis using less.prems by (subst line_loop.simps) auto
  next
    case room: True
    show ?thesis
    proof (cases a)
      case True
      show ?thesis
      proof (cases "plain (byte_char b)")
        case False
        then show ?thesis using a b True room less.prems by (subst line_loop.simps) (auto simp: plain_def Let_def)
      next
        case pl: True
        have "\<exists>s h'. line_loop d clock start cap timeout (buf @ [byte_char b]) h2 = Some (s, h') \<and> list_all plain s \<and>
            length s \<le> unat (cap - 1) \<and> (\<exists>rest. s = (buf @ [byte_char b]) @ rest)"
          using room pl less.prems len by (intro less.hyps) auto
        moreover have "line_loop d clock start cap timeout buf h =
            line_loop d clock start cap timeout (buf @ [byte_char b]) h2"
          using a b True room pl by (subst line_loop.simps) (auto simp: plain_def Let_def)
        ultimately show ?thesis by auto
      qed
    next
      case False
      show ?thesis
      proof (cases "clock h1 - start > ucast timeout")
        case True
        then show ?thesis using a False room less.prems by (subst line_loop.simps) auto
      next
        case late: False
        have "\<not> N \<le> length h1" using assms(1) late unfolding deadline_def by blast
        then have "\<exists>s h'. line_loop d clock start cap timeout buf h1 = Some (s, h') \<and> list_all plain s \<and>
            length s \<le> unat (cap - 1) \<and> (\<exists>rest. s = buf @ rest)"
          using room less.prems len by (intro less.hyps) auto
        moreover have "line_loop d clock start cap timeout buf h = line_loop d clock start cap timeout buf h1"
          using a False room late by (subst line_loop.simps) auto
        ultimately show ?thesis by simp
      qed
    qed
  qed
qed

text \<open>Once the clock passes the deadline after some number of polls, reading a line returns, with at most \<open>size - 1\<close>
  characters and no line end among them, whatever the host sends.
\<close>

theorem read_line_returns:
  assumes "deadline clock (clock h) timeout N"
  shows "\<exists>s h'. read_line d clock cap timeout h = Some (s, h') \<and>
    length s \<le> unat (cap - 1) \<and> list_all (\<lambda>c. c \<noteq> CHR 0x0A \<and> c \<noteq> CHR 0x0D) s"
  using line_loop_returns [OF assms, of "[]" cap d h]
  by (auto simp: read_line_def plain_def [abs_def] cong: list_all_cong)

definition ticking :: "hist \<Rightarrow> u64" where
  "ticking h = (if length h < 50 then of_nat (length h) else 50)"

definition silent_com :: dev where
  "silent_com = \<lparr>rd8 = (\<lambda>h p. if p = COM1 then 65 else if length h < 8 then 1 else 0), rd16 = (\<lambda>h p. 0), rd32 = (\<lambda>h p. 0)\<rparr>"

theorem read_line_returns_witness:
  "\<exists>s h'. read_line silent_com ticking 512 20 [] = Some (s, h') \<and>
    length s \<le> unat ((512 :: u32) - 1) \<and> list_all (\<lambda>c. c \<noteq> CHR 0x0A \<and> c \<noteq> CHR 0x0D) s"
proof (rule read_line_returns)
  show "deadline ticking (ticking []) 20 50" by (simp add: deadline_def ticking_def)
qed

lemma line_loop_silent:
  assumes r: "line_loop d' clock' start' cap' timeout' buf h = Some y"
    and silent: "\<And>h. rd8 d h (COM1 + 5) AND 1 = 0" and stopped: "\<And>h. clock h = start"
    and room: "0 < unat (cap - 1)"
  shows "\<not> (d' = d \<and> clock' = clock \<and> start' = start \<and> cap' = cap \<and> timeout' = timeout \<and> buf = [])"
  using r
proof (rule line_loop.raw_induct [where P = "\<lambda>d' clock' start' cap' timeout' buf h y.
    \<not> (d' = d \<and> clock' = clock \<and> start' = start \<and> cap' = cap \<and> timeout' = timeout \<and> buf = [])", rotated])
  fix f d' clock' start' cap' timeout' buf h y
  assume ih: "\<And>d' clock' start' cap' timeout' buf h y. f d' clock' start' cap' timeout' buf h = Some y \<Longrightarrow>
      \<not> (d' = d \<and> clock' = clock \<and> start' = start \<and> cap' = cap \<and> timeout' = timeout \<and> buf = [])"
    and eq: "(if \<not> length buf < unat (cap' - 1) then Some (buf, h)
      else let (a, h) = data_available d' h
        in if a then let (b, h) = inb d' COM1 h; c = byte_char b
                in if c = CHR 0x0A \<or> c = CHR 0x0D then Some (buf, h)
                   else f d' clock' start' cap' timeout' (buf @ [c]) h
           else if clock' h - start' > ucast timeout' then Some (buf, h)
                else f d' clock' start' cap' timeout' buf h) = Some y"
  show "\<not> (d' = d \<and> clock' = clock \<and> start' = start \<and> cap' = cap \<and> timeout' = timeout \<and> buf = [])"
  proof
    assume e: "d' = d \<and> clock' = clock \<and> start' = start \<and> cap' = cap \<and> timeout' = timeout \<and> buf = []"
    then have "f d clock start cap timeout [] (snd (data_available d h)) = Some y"
      using eq silent [of h] stopped room by (simp add: data_available_def inb_def)
    then show False using ih by blast
  qed
qed

text \<open>The timeout depends on the clock alone: while the clock stands still, as it does when the timer interrupt cannot be
  delivered, a line without data is polled for ever, whatever timeout was asked for.
\<close>

theorem read_line_hangs:
  assumes "\<forall>h. rd8 d h (COM1 + 5) AND 1 = 0" "\<forall>h. clock h = now" "1 < cap"
  shows "read_line d clock cap timeout h = None"
proof -
  have "0 < unat (cap - 1)" using assms(3) by (metis eq_iff_diff_eq_0 less_irrefl unat_gt_0 word_neq_0_conv)
  then show ?thesis
    using line_loop_silent [of d clock now cap timeout "[]" h _ d clock now cap timeout] assms(1,2)
    by (cases "line_loop d clock now cap timeout [] h") (auto simp: read_line_def)
qed

definition dead_com :: dev where
  "dead_com = \<lparr>rd8 = (\<lambda>h p. 0), rd16 = (\<lambda>h p. 0), rd32 = (\<lambda>h p. 0)\<rparr>"

theorem read_line_hangs_witness:
  "read_line dead_com (\<lambda>h. 7) 512 10000 [] = None"
  by (rule read_line_hangs) (simp_all add: dead_com_def)

end
