(* ===== verification/Pci.thy ===== *)
theory Pci
  imports Ports
begin

text \<open>
  The PCI bus of \<^verbatim>\<open>kernel/pci.cpp\<close>: configuration reads and writes through the two ports of the
  first access mechanism, and the scan that fills the device table. What a host bridge promises,
  that the data port answers for the address last selected, is the predicate \<open>pci_ok\<close>.
\<close>

definition MAX_DEVICES :: nat where "MAX_DEVICES = 32"

record pci_device =
  d_bus :: u8
  d_dev :: u8
  d_func :: u8
  vendor_id :: u16
  device_id :: u16
  class_code :: u8
  sub_class :: u8
  d_valid :: bool

definition config_addr :: "u8 \<Rightarrow> u8 \<Rightarrow> u8 \<Rightarrow> u8 \<Rightarrow> u32" where
  "config_addr bus dev func offset =
     push_bit 31 1 OR push_bit 16 (ucast bus) OR push_bit 11 (ucast dev) OR push_bit 8 (ucast func) OR
     ucast (offset AND 0xFC)"

definition config_read :: "dev \<Rightarrow> u8 \<Rightarrow> u8 \<Rightarrow> u8 \<Rightarrow> u8 \<Rightarrow> hist \<Rightarrow> u32 \<times> hist" where
  "config_read d bus dev func offset h = inl d 0xCFC (outl 0xCF8 (config_addr bus dev func offset) h)"

definition config_write :: "u8 \<Rightarrow> u8 \<Rightarrow> u8 \<Rightarrow> u8 \<Rightarrow> u32 \<Rightarrow> hist \<Rightarrow> hist" where
  "config_write bus dev func offset v h = outl 0xCFC v (outl 0xCF8 (config_addr bus dev func offset) h)"

text \<open>One turn of the scan: the device table is the list of the entries filled so far.\<close>

definition scan_one :: "dev \<Rightarrow> u8 \<Rightarrow> u8 \<Rightarrow> pci_device list \<times> hist \<Rightarrow> pci_device list \<times> hist" where
  "scan_one d bus dev = (\<lambda>(ds, h).
     let (reg0, h) = config_read d bus dev 0 0 h;
         vendor = ucast (reg0 AND 0xFFFF) :: u16
     in if vendor = 0xFFFF \<or> vendor = 0 then (ds, h)
        else
          let devid = ucast (drop_bit 16 reg0 AND 0xFFFF); (reg2, h) = config_read d bus dev 0 8 h;
              cls = ucast (drop_bit 24 reg2 AND 0xFF); sub = ucast (drop_bit 16 reg2 AND 0xFF)
          in (if length ds < MAX_DEVICES
              then ds @ [\<lparr>d_bus = bus, d_dev = dev, d_func = 0, vendor_id = vendor, device_id = devid,
                          class_code = cls, sub_class = sub, d_valid = True\<rparr>]
              else ds, h))"

definition pci_init :: "dev \<Rightarrow> hist \<Rightarrow> pci_device list \<times> hist" where
  "pci_init d h = fold (\<lambda>bus dh. fold (\<lambda>dev. scan_one d (of_nat bus) (of_nat dev)) [0..<32] dh) [0..<256] ([], h)"

definition get_count :: "pci_device list \<Rightarrow> nat" where "get_count ds = length ds"

definition get_device :: "nat \<Rightarrow> pci_device list \<Rightarrow> pci_device option" where
  "get_device idx ds = (if idx < length ds then Some (ds ! idx) else None)"

definition find_device :: "u8 \<Rightarrow> u8 \<Rightarrow> pci_device list \<Rightarrow> pci_device option" where
  "find_device cls sub ds = List.find (\<lambda>e. class_code e = cls \<and> sub_class e = sub) ds"

definition enable_bus_mastering :: "dev \<Rightarrow> u8 \<Rightarrow> u8 \<Rightarrow> u8 \<Rightarrow> hist \<Rightarrow> hist" where
  "enable_bus_mastering d bus dev func h =
     (let (cmd, h) = config_read d bus dev func 0x04 h
      in config_write bus dev func 0x04 (cmd OR push_bit 2 1 OR push_bit 0 1) h)"

section \<open>Addresses\<close>

text \<open>Different registers of different devices are selected by different addresses.\<close>

lemma small_bits: "(x :: u8) < 2 ^ k \<Longrightarrow> k < 8 \<Longrightarrow> bit x n \<longleftrightarrow> n < k \<and> bit x n"
  using bit_and_iff [of x "mask k" n] less_mask_eq [of x k] by (auto simp: bit_mask_iff)

lemma config_addr_fields:
  assumes "dev < 32" "func < 8"
  shows "ucast (drop_bit 16 (config_addr bus dev func off)) = bus"
    "ucast (take_bit 5 (drop_bit 11 (config_addr bus dev func off))) = dev"
    "ucast (take_bit 3 (drop_bit 8 (config_addr bus dev func off))) = func"
    "ucast (take_bit 8 (config_addr bus dev func off)) = off AND 0xFC"
proof -
  define t where "t = push_bit 31 (1 :: u32)"
  have t: "bit t n \<longleftrightarrow> n = 31" for n
    unfolding t_def bit_push_bit_iff by (auto simp: bit_1_iff)
  note e = config_addr_def [of bus dev func off, folded t_def]
  have d: "bit dev n \<longleftrightarrow> n < 5 \<and> bit dev n" for n using small_bits [of dev 5] assms(1) by simp
  have f: "bit func n \<longleftrightarrow> n < 3 \<and> bit func n" for n using small_bits [of func 3] assms(2) by simp
  have D: "bit dev n \<Longrightarrow> n < 5" for n using d by blast
  have F: "bit func n \<Longrightarrow> n < 3" for n using f by blast
  have c: "bit (off AND 0xFC :: u8) n \<Longrightarrow> n < 8" for n using bit_imp_le_length [of "off AND 0xFC :: u8" n] by simp
  show "ucast (drop_bit 16 (config_addr bus dev func off)) = bus"
    by (rule bit_word_eqI) (auto simp: e t bit_simps dest: D F c)
  show "ucast (take_bit 5 (drop_bit 11 (config_addr bus dev func off))) = dev"
    by (rule bit_word_eqI) (auto simp: e t bit_simps dest: D F c)
  show "ucast (take_bit 3 (drop_bit 8 (config_addr bus dev func off))) = func"
    by (rule bit_word_eqI) (auto simp: e t bit_simps dest: D F c)
  show "ucast (take_bit 8 (config_addr bus dev func off)) = off AND 0xFC"
    by (rule bit_word_eqI) (auto simp: e t bit_simps dest: D F c)
qed

lemma config_addr_inj:
  assumes "dev < 32" "func < 8" "dev' < 32" "func' < 8"
    and "config_addr bus dev func off = config_addr bus' dev' func' off'"
  shows "bus = bus' \<and> dev = dev' \<and> func = func' \<and> off AND 0xFC = off' AND 0xFC"
  using config_addr_fields [OF assms(1,2), of bus off] config_addr_fields [OF assms(3,4), of bus' off'] assms(5) by metis

section \<open>The scan\<close>

definition pci_ok :: "dev \<Rightarrow> (u32 \<Rightarrow> u32) \<Rightarrow> bool" where
  "pci_ok d cfg \<longleftrightarrow> (\<forall>h a. rd32 d (Out32 0xCF8 a # h) 0xCFC = cfg a)"

text \<open>What is at a place of the bus, according to its configuration registers.\<close>

definition plugged :: "(u32 \<Rightarrow> u32) \<Rightarrow> u8 \<Rightarrow> u8 \<Rightarrow> pci_device list" where
  "plugged cfg bus dev =
     (let reg0 = cfg (config_addr bus dev 0 0); reg2 = cfg (config_addr bus dev 0 8); vendor = ucast reg0
      in if vendor = 0xFFFF \<or> vendor = 0 then []
         else [\<lparr>d_bus = bus, d_dev = dev, d_func = 0, vendor_id = vendor, device_id = ucast (drop_bit 16 reg0),
                class_code = ucast (drop_bit 24 reg2), sub_class = ucast (drop_bit 16 reg2), d_valid = True\<rparr>])"

lemma config_read_ok: "pci_ok d cfg \<Longrightarrow> fst (config_read d bus dev func off h) = cfg (config_addr bus dev func off)"
  by (simp add: config_read_def inl_def outl_def pci_ok_def)

lemma and_low: "ucast (x AND 0xFFFF :: u32) = (ucast x :: u16)" "ucast (x AND 0xFF :: u32) = (ucast x :: u8)"
proof -
  have m: "(0xFFFF :: u32) = mask 16" "(0xFF :: u32) = mask 8" by (simp_all add: mask_eq_exp_minus_1)
  show "ucast (x AND 0xFFFF :: u32) = (ucast x :: u16)" "ucast (x AND 0xFF :: u32) = (ucast x :: u8)"
    unfolding m by (auto intro!: bit_word_eqI simp: bit_simps)
qed

lemma scan_one_ok:
  assumes "pci_ok d cfg"
  shows "fst (scan_one d bus dev (ds, h)) = (if length ds < MAX_DEVICES then ds @ plugged cfg bus dev else ds)"
proof -
  obtain r h1 where r: "config_read d bus dev 0 0 h = (r, h1)" by force
  obtain q h2 where q: "config_read d bus dev 0 8 h1 = (q, h2)" by force
  have "r = cfg (config_addr bus dev 0 0)" "q = cfg (config_addr bus dev 0 8)"
    using config_read_ok [OF assms] r q by (metis fst_conv)+
  then show ?thesis using r q by (auto simp: scan_one_def plugged_def Let_def and_low)
qed

lemma fold_scan:
  assumes "pci_ok d cfg"
  shows "fst (fold (\<lambda>(b, v). scan_one d b v) places (ds, h)) =
    (if length ds < MAX_DEVICES then take MAX_DEVICES (ds @ concat (map (\<lambda>(b, v). plugged cfg b v) places)) else ds)"
proof (induction places arbitrary: ds h)
  case Nil
  then show ?case by simp
next
  case (Cons p places)
  obtain b v where p: "p = (b, v)" by force
  obtain ds' h' where s: "scan_one d b v (ds, h) = (ds', h')" by force
  then have ds': "ds' = (if length ds < MAX_DEVICES then ds @ plugged cfg b v else ds)"
    using scan_one_ok [OF assms, of b v ds h] by simp
  have one: "length (plugged cfg b v) \<le> 1" by (simp add: plugged_def Let_def)
  show ?case
    using Cons.IH [of ds' h'] s ds' p one by (auto simp: MAX_DEVICES_def)
qed

definition places :: "(u8 \<times> u8) list" where
  "places = concat (map (\<lambda>b. map (\<lambda>v. (of_nat b, of_nat v)) [0..<32]) [0..<256])"

lemma fold_nested:
  "fold (\<lambda>b. fold (\<lambda>v. f (g b) (g' v)) ys) xs s = fold (\<lambda>(b, v). f b v) (concat (map (\<lambda>b. map (\<lambda>v. (g b, g' v)) ys) xs)) s"
proof (induction xs arbitrary: s)
  case (Cons x xs)
  have "fold (\<lambda>v. f (g x) (g' v)) ys s = fold (\<lambda>(b, v). f b v) (map (\<lambda>v. (g x, g' v)) ys) s"
    by (simp add: fold_map comp_def)
  with Cons show ?case by simp
qed simp

text \<open>On a conforming bridge the scan finds, in bus and device order, exactly the first 32 places of the bus whose vendor
  register names a vendor, each with the identity and class its registers hold.
\<close>

theorem pci_scan_complete:
  assumes "pci_ok d cfg"
  shows "fst (pci_init d h) = take MAX_DEVICES (concat (map (\<lambda>(b, v). plugged cfg b v) places))"
  unfolding pci_init_def places_def fold_nested fold_scan [OF assms] by (simp add: MAX_DEVICES_def del: upt_rec_numeral)

definition bus_demo :: dev where
  "bus_demo = \<lparr>rd8 = (\<lambda>h p. 0), rd16 = (\<lambda>h p. 0), rd32 = (\<lambda>h p. case h of Out32 q a # _ \<Rightarrow> if a = 0x80001800 then 0x100E8086 else 0xFFFFFFFF | _ \<Rightarrow> 0)\<rparr>"

theorem pci_scan_complete_witness:
  "fst (pci_init bus_demo []) = take MAX_DEVICES (concat (map (\<lambda>(b, v).
     plugged (\<lambda>a. if a = 0x80001800 then 0x100E8086 else 0xFFFFFFFF) b v) places))"
  by (rule pci_scan_complete) (simp add: pci_ok_def bus_demo_def)

end
