(* ===== verification/Nic.thy ===== *)
theory Nic
  imports Pci Pmm KString "HOL-Library.Monad_Syntax"
begin

text \<open>
  The driver of the Intel gigabit card, \<^verbatim>\<open>kernel/e1000.cpp\<close>: discovery on the PCI bus, reset, the two
  descriptor rings with their buffers taken from the page allocator, sending and polling. Register
  accesses are recorded like port accesses; what a register reads is the parameter \<open>chip\<close>. What
  the card does with the rings on its own, taking frames to send and storing frames received, is
  described by two environment steps at the end, as its manual has it.
\<close>

section \<open>Registers\<close>

datatype mmio = MRd u32 u32 | MWr u32 u32

type_synonym nic_chip = "mmio list \<Rightarrow> u32 \<Rightarrow> u32"

definition REG_CTRL :: u32 where "REG_CTRL = 0x0000"
definition REG_ICR :: u32 where "REG_ICR = 0x00C0"
definition REG_IMC :: u32 where "REG_IMC = 0x00D8"
definition REG_RCTL :: u32 where "REG_RCTL = 0x0100"
definition REG_TCTL :: u32 where "REG_TCTL = 0x0400"
definition REG_TIPG :: u32 where "REG_TIPG = 0x0410"
definition REG_RDBAL :: u32 where "REG_RDBAL = 0x2800"
definition REG_RDBAH :: u32 where "REG_RDBAH = 0x2804"
definition REG_RDLEN :: u32 where "REG_RDLEN = 0x2808"
definition REG_RDH :: u32 where "REG_RDH = 0x2810"
definition REG_RDT :: u32 where "REG_RDT = 0x2818"
definition REG_TDBAL :: u32 where "REG_TDBAL = 0x3800"
definition REG_TDBAH :: u32 where "REG_TDBAH = 0x3804"
definition REG_TDLEN :: u32 where "REG_TDLEN = 0x3808"
definition REG_TDH :: u32 where "REG_TDH = 0x3810"
definition REG_TDT :: u32 where "REG_TDT = 0x3818"
definition REG_RAL :: u32 where "REG_RAL = 0x5400"
definition REG_RAH :: u32 where "REG_RAH = 0x5404"
definition REG_MTA :: u32 where "REG_MTA = 0x5200"

definition CTRL_RST :: u32 where "CTRL_RST = push_bit 26 1"
definition CTRL_SLU :: u32 where "CTRL_SLU = push_bit 6 1"
definition CTRL_ASDE :: u32 where "CTRL_ASDE = push_bit 5 1"
definition RCTL_EN :: u32 where "RCTL_EN = push_bit 1 1"
definition RCTL_BAM :: u32 where "RCTL_BAM = push_bit 15 1"
definition RCTL_SECRC :: u32 where "RCTL_SECRC = push_bit 26 1"
definition TCTL_EN :: u32 where "TCTL_EN = push_bit 1 1"
definition TCTL_PSP :: u32 where "TCTL_PSP = push_bit 3 1"

definition NUM_TX :: nat where "NUM_TX = 8"
definition NUM_RX :: nat where "NUM_RX = 8"
definition BUF_SIZE :: u16 where "BUF_SIZE = 2048"

record txdesc =
  tx_addr :: u64
  tx_length :: u16
  tx_cmd :: u8
  tx_status :: u8

record rxdesc =
  rx_addr :: u64
  rx_length :: u16
  rx_status :: u8

record nic =
  tx_ring :: "txdesc list"
  rx_ring :: "rxdesc list"
  tx_ring_phys :: nat
  rx_ring_phys :: nat
  tx_buf_phys :: "nat list"
  rx_buf_phys :: "nat list"
  tx_buf :: "u8 list list"
  rx_buf :: "u8 list list"
  mac_addr :: "u8 list"
  tx_cur :: nat
  rx_cur :: nat
  nic_ready :: bool
  regs :: "mmio list"

definition rd :: "nic_chip \<Rightarrow> u32 \<Rightarrow> nic \<Rightarrow> u32 \<times> nic" where
  "rd chip r s = (chip (regs s) r, s\<lparr>regs := MRd r (chip (regs s) r) # regs s\<rparr>)"

definition wr :: "u32 \<Rightarrow> u32 \<Rightarrow> nic \<Rightarrow> nic" where
  "wr r v s = s\<lparr>regs := MWr r v # regs s\<rparr>"

section \<open>Initialisation\<close>

definition find_nic :: "pci_device list \<Rightarrow> pci_device option" where
  "find_nic ds =
     (case List.find (\<lambda>e. vendor_id e = 0x8086 \<and> (device_id e = 0x100E \<or> device_id e = 0x100F)) ds of
        Some e \<Rightarrow> Some e
      | None \<Rightarrow> List.find (\<lambda>e. class_code e = 0x02 \<and> vendor_id e = 0x8086) ds)"

definition read_bar0 :: "dev \<Rightarrow> pci_device \<Rightarrow> hist \<Rightarrow> u64 \<times> hist" where
  "read_bar0 d e h =
     (let (low, h) = config_read d (d_bus e) (d_dev e) (d_func e) 0x10 h;
          phys = ucast low AND NOT 0xF :: u64
      in if low AND 0x6 = 0x4
         then let (high, h) = config_read d (d_bus e) (d_dev e) (d_func e) 0x14 h
              in (phys OR push_bit 32 (ucast high), h)
         else (phys, h))"

partial_function (option) wait_reset :: "nic_chip \<Rightarrow> nic \<Rightarrow> nic option" where
  "wait_reset chip s = (let (v, s) = rd chip REG_CTRL s in if v AND CTRL_RST \<noteq> 0 then wait_reset chip s else Some s)"

definition read_mac :: "nic_chip \<Rightarrow> nic \<Rightarrow> nic" where
  "read_mac chip s =
     (let (ral, s) = rd chip REG_RAL s; (rah, s) = rd chip REG_RAH s
      in s\<lparr>mac_addr := [ucast (ral AND 0xFF), ucast (drop_bit 8 ral AND 0xFF), ucast (drop_bit 16 ral AND 0xFF),
            ucast (drop_bit 24 ral AND 0xFF), ucast (rah AND 0xFF), ucast (drop_bit 8 rah AND 0xFF)]\<rparr>)"

text \<open>The pages of a ring's buffers; a failed allocation leaves the pages already taken.\<close>

fun alloc_bufs :: "nat \<Rightarrow> nat list \<Rightarrow> pmm \<Rightarrow> (nat list option) \<times> pmm" where
  "alloc_bufs 0 acc p = (Some acc, p)"
| "alloc_bufs (Suc n) acc p =
     (let (a, p) = pmm_alloc_page p in if a = 0 then (None, p) else alloc_bufs n (acc @ [a]) p)"

definition alloc_ring :: "nat \<Rightarrow> pmm \<Rightarrow> (nat \<times> nat list) option \<times> pmm" where
  "alloc_ring n p =
     (let (ring, p) = pmm_alloc_page p
      in if ring = 0 then (None, p)
         else case alloc_bufs n [] p of (None, p) \<Rightarrow> (None, p) | (Some bufs, p) \<Rightarrow> (Some (ring, bufs), p))"

definition setup_rx :: "nat \<times> nat list \<Rightarrow> nic \<Rightarrow> nic" where
  "setup_rx rb s =
     (let (ring, bufs) = rb;
          s = s\<lparr>rx_ring_phys := ring, rx_buf_phys := bufs, rx_buf := map (\<lambda>_. replicate PAGE_SIZE 0) bufs,
                rx_ring := map (\<lambda>a. \<lparr>rx_addr = of_nat a, rx_length = 0, rx_status = 0\<rparr>) bufs\<rparr>;
          s = wr REG_RDBAL (ucast (of_nat ring AND 0xFFFFFFFF :: u64)) s;
          s = wr REG_RDBAH (ucast (drop_bit 32 (of_nat ring :: u64))) s;
          s = wr REG_RDLEN (of_nat (NUM_RX * 16)) s; s = wr REG_RDH 0 s; s = wr REG_RDT (of_nat (NUM_RX - 1)) s
      in wr REG_RCTL (RCTL_EN OR RCTL_BAM OR RCTL_SECRC) (s\<lparr>rx_cur := 0\<rparr>))"

definition setup_tx :: "nat \<times> nat list \<Rightarrow> nic \<Rightarrow> nic" where
  "setup_tx rb s =
     (let (ring, bufs) = rb;
          s = s\<lparr>tx_ring_phys := ring, tx_buf_phys := bufs, tx_buf := map (\<lambda>_. replicate PAGE_SIZE 0) bufs,
                tx_ring := map (\<lambda>a. \<lparr>tx_addr = of_nat a, tx_length = 0, tx_cmd = 0, tx_status = 1\<rparr>) bufs\<rparr>;
          s = wr REG_TDBAL (ucast (of_nat ring AND 0xFFFFFFFF :: u64)) s;
          s = wr REG_TDBAH (ucast (drop_bit 32 (of_nat ring :: u64))) s;
          s = wr REG_TDLEN (of_nat (NUM_TX * 16)) s; s = wr REG_TDH 0 s; s = wr REG_TDT 0 s;
          s = wr REG_TCTL (TCTL_EN OR TCTL_PSP OR push_bit 4 15 OR push_bit 12 64) (s\<lparr>tx_cur := 0\<rparr>)
      in (wr REG_TIPG (10 OR push_bit 10 10 OR push_bit 20 10) s)\<lparr>nic_ready := True\<rparr>)"

definition nic_rings :: "nic \<times> pmm \<times> hist \<Rightarrow> bool \<times> nic \<times> pmm \<times> hist" where
  "nic_rings = (\<lambda>(s, p, h).
     case alloc_ring NUM_RX p of
       (None, p) \<Rightarrow> (False, s, p, h)
     | (Some rx, p) \<Rightarrow>
         let s = setup_rx rx s
         in case alloc_ring NUM_TX p of
              (None, p) \<Rightarrow> (False, s, p, h)
            | (Some tx, p) \<Rightarrow> (True, setup_tx tx s, p, h))"

text \<open>\<open>None\<close> is a card that never ends its reset; otherwise the answer, the driver, the pages and the port history.\<close>

definition nic_init :: "dev \<Rightarrow> nic_chip \<Rightarrow> pci_device list \<Rightarrow> nic \<times> pmm \<times> hist \<Rightarrow> (bool \<times> nic \<times> pmm \<times> hist) option" where
  "nic_init d chip ds = (\<lambda>(s, p, h).
     case find_nic ds of
       None \<Rightarrow> Some (False, s, p, h)
     | Some e \<Rightarrow>
         let (bar, h) = read_bar0 d e h
         in if bar = 0 then Some (False, s, p, h)
            else
              let h = enable_bus_mastering d (d_bus e) (d_dev e) (d_func e) h;
                  (ctrl, s) = rd chip REG_CTRL s
              in do {
                s \<leftarrow> wait_reset chip (wr REG_CTRL (ctrl OR CTRL_RST) s);
                let s = snd (rd chip REG_ICR (wr REG_IMC 0xFFFFFFFF s));
                let (ctrl, s) = rd chip REG_CTRL s;
                let s = read_mac chip (wr REG_CTRL (ctrl OR CTRL_SLU OR CTRL_ASDE) s);
                if list_all (\<lambda>b. b = 0) (mac_addr s) then Some (False, s, p, h)
                else Some (nic_rings (fold (\<lambda>i. wr (REG_MTA + of_nat i * 4) 0) [0..<128] s, p, h)) })"

section \<open>Sending and receiving\<close>

text \<open>\<open>dd k\<close> is what the k-th poll sees of the descriptor-done bit.\<close>

fun tx_wait :: "(nat \<Rightarrow> bool) \<Rightarrow> nat \<Rightarrow> nat \<Rightarrow> nat" where
  "tx_wait dd k 0 = 0"
| "tx_wait dd k (Suc n) = (if dd k then Suc n else if n > 0 then tx_wait dd (Suc k) n else 0)"

definition copy_in :: "u8 list \<Rightarrow> u8 list \<Rightarrow> u8 list" where
  "copy_in data buf = data @ drop (length data) buf"

definition e1000_send :: "(nat \<Rightarrow> bool) \<Rightarrow> u8 list option \<Rightarrow> u16 \<Rightarrow> nic \<Rightarrow> bool \<times> nic" where
  "e1000_send dd data n s =
     (case data of
        None \<Rightarrow> (False, s)
      | Some data \<Rightarrow>
          if \<not> nic_ready s \<or> n = 0 \<or> n > 1514 then (False, s)
          else if tx_wait dd 0 10000 = 0 then (False, s)
          else
            let i = tx_cur s;
                s = s\<lparr>tx_buf := (tx_buf s)[i := copy_in (take (unat n) data) (tx_buf s ! i)],
                      tx_ring := (tx_ring s)[i := (tx_ring s ! i)\<lparr>tx_length := n, tx_cmd := 0x0B, tx_status := 0\<rparr>]\<rparr>;
                s = s\<lparr>tx_cur := (tx_cur s + 1) mod NUM_TX\<rparr>
            in (True, wr REG_TDT (of_nat (tx_cur s)) s))"

definition poll_receive :: "nic \<Rightarrow> u8 list option \<times> nic" where
  "poll_receive s =
     (if \<not> nic_ready s then (None, s)
      else if \<not> bit (rx_status (rx_ring s ! rx_cur s)) 0 then (None, s)
      else
        let i = rx_cur s;
            pkt_len = rx_length (rx_ring s ! i);
            pkt_len = (if pkt_len > BUF_SIZE then BUF_SIZE else pkt_len);
            data = take (unat pkt_len) (rx_buf s ! i);
            s = s\<lparr>rx_ring := (rx_ring s)[i := (rx_ring s ! i)\<lparr>rx_status := 0\<rparr>]\<rparr>;
            s = s\<lparr>rx_cur := (rx_cur s + 1) mod NUM_RX\<rparr>
        in (Some data, wr REG_RDT (of_nat i) s))"

definition get_mac :: "nic \<Rightarrow> u8 list" where "get_mac s = mac_addr s"
definition is_ready :: "nic \<Rightarrow> bool" where "is_ready s = nic_ready s"

text \<open>The address as the driver and the shell print it.\<close>

definition mac_text :: "u8 list \<Rightarrow> string" where
  "mac_text mac = concat (map (\<lambda>i. [hex_digit (unat (drop_bit 4 (mac ! i))), hex_digit (unat (mac ! i AND 0xF))] @
     (if i < 5 then '':'' else [])) [0..<6])"

section \<open>Rings\<close>

lemma wrap8: "n < 16 \<Longrightarrow> n mod 8 = (if n < 8 then n else n - (8 :: nat))"
  by (simp add: mod_if)

lemma slot_inj: "c < 8 \<Longrightarrow> i < 8 \<Longrightarrow> j < 8 \<Longrightarrow> (c + i) mod 8 = (c + j) mod 8 \<longleftrightarrow> i = (j :: nat)"
  by (auto simp: wrap8)

lemma slot_next: "((c + 1) mod 8 + j) mod 8 = (c + Suc j) mod (8 :: nat)"
  by (simp add: mod_simps)

text \<open>The entries of a ring of eight from slot \<open>c\<close> on.\<close>

definition window :: "nat \<Rightarrow> nat \<Rightarrow> (nat \<Rightarrow> 'a) \<Rightarrow> 'a list" where
  "window c k f = map (\<lambda>j. f ((c + j) mod 8)) [0..<k]"

lemma length_window [simp]: "length (window c k f) = k"
  by (simp add: window_def)

lemma window_push: "window c (Suc k) f = window c k f @ [f ((c + k) mod 8)]"
  by (simp add: window_def)

lemma window_pop: "c < 8 \<Longrightarrow> window c (Suc k) f = f c # window ((c + 1) mod 8) k f"
proof -
  assume c: "c < 8"
  then show ?thesis by (simp only: window_def map_upt_Suc slot_next) simp
qed

lemma window_cong: "(\<And>j. j < k \<Longrightarrow> f ((c + j) mod 8) = g ((c + j) mod 8)) \<Longrightarrow> window c k f = window c k g"
  by (simp add: window_def)

section \<open>The card\<close>

fun last_wr :: "u32 \<Rightarrow> mmio list \<Rightarrow> u32" where
  "last_wr r [] = 0"
| "last_wr r (MWr q v # ms) = (if q = r then v else last_wr r ms)"
| "last_wr r (MRd q v # ms) = last_wr r ms"

record wired =
  w_nic :: nic
  w_rdh :: nat
  w_tdh :: nat
  w_in :: "u8 list list"
  w_got :: "u8 list list"
  w_queued :: "u8 list list"
  w_wire :: "u8 list list"

text \<open>
  Receiving: the frame goes to the buffer of the descriptor at the head, whose done bit is set, unless the
  head has reached the tail, when the frame is dropped. Sending: the descriptor at the head is put on the wire and marked
  done, unless the head has reached the tail, when there is nothing to send. The ghost fields record what was
  accepted, delivered, queued and sent.
\<close>

definition card_rx :: "u8 list \<Rightarrow> wired \<Rightarrow> wired" where
  "card_rx fr w =
     (let s = w_nic w; i = w_rdh w
      in if i = unat (last_wr REG_RDT (regs s)) then w
         else w\<lparr>w_nic := s\<lparr>rx_buf := (rx_buf s)[i := copy_in fr (rx_buf s ! i)],
                   rx_ring := (rx_ring s)[i := (rx_ring s ! i)\<lparr>rx_length := of_nat (length fr), rx_status := 3\<rparr>]\<rparr>,
                 w_rdh := (i + 1) mod 8, w_in := w_in w @ [fr]\<rparr>)"

definition card_tx :: "wired \<Rightarrow> wired" where
  "card_tx w =
     (let s = w_nic w; i = w_tdh w
      in if i = unat (last_wr REG_TDT (regs s)) then w
         else w\<lparr>w_nic := s\<lparr>tx_ring := (tx_ring s)[i := (tx_ring s ! i)\<lparr>tx_status := tx_status (tx_ring s ! i) OR 1\<rparr>]\<rparr>,
                 w_tdh := (i + 1) mod 8, w_wire := w_wire w @ [take (unat (tx_length (tx_ring s ! i))) (tx_buf s ! i)]\<rparr>)"

definition driver_poll :: "wired \<Rightarrow> wired" where
  "driver_poll w = (case poll_receive (w_nic w) of
     (None, s) \<Rightarrow> w\<lparr>w_nic := s\<rparr> | (Some fr, s) \<Rightarrow> w\<lparr>w_nic := s, w_got := w_got w @ [fr]\<rparr>)"

definition driver_send :: "u8 list \<Rightarrow> wired \<Rightarrow> wired" where
  "driver_send data w =
     (let s = w_nic w; (ok, s') = e1000_send (\<lambda>_. bit (tx_status (tx_ring s ! tx_cur s)) 0) (Some data) (of_nat (length data)) s
      in w\<lparr>w_nic := s', w_queued := w_queued w @ (if ok then [data] else [])\<rparr>)"

definition tx_room :: "wired \<Rightarrow> bool" where
  "tx_room w \<longleftrightarrow> (tx_cur (w_nic w) + 1) mod 8 \<noteq> w_tdh w"

inductive nic_step :: "wired \<Rightarrow> wired \<Rightarrow> bool" where
  "length fr \<le> 2048 \<Longrightarrow> nic_step w (card_rx fr w)"
| "nic_step w (driver_poll w)"
| "length data < 65536 \<Longrightarrow> tx_room w \<Longrightarrow> nic_step w (driver_send data w)"
| "nic_step w (card_tx w)"

definition rx_frame :: "nic \<Rightarrow> nat \<Rightarrow> u8 list" where
  "rx_frame s i = take (unat (rx_length (rx_ring s ! i))) (rx_buf s ! i)"

definition tx_frame :: "nic \<Rightarrow> nat \<Rightarrow> u8 list" where
  "tx_frame s i = take (unat (tx_length (tx_ring s ! i))) (tx_buf s ! i)"

definition rx_inv :: "wired \<Rightarrow> bool" where
  "rx_inv w \<longleftrightarrow> (let s = w_nic w in
     length (rx_ring s) = 8 \<and> length (rx_buf s) = 8 \<and> rx_cur s < 8 \<and>
     unat (last_wr REG_RDT (regs s)) = (rx_cur s + 7) mod 8 \<and>
     (\<exists>k\<le>7. w_rdh w = (rx_cur s + k) mod 8 \<and> w_in w = w_got w @ window (rx_cur s) k (rx_frame s) \<and>
        (\<forall>j<8. bit (rx_status (rx_ring s ! ((rx_cur s + j) mod 8))) 0 \<longleftrightarrow> j < k) \<and>
        (\<forall>j<k. rx_length (rx_ring s ! ((rx_cur s + j) mod 8)) \<le> 2048)))"

definition tx_inv :: "wired \<Rightarrow> bool" where
  "tx_inv w \<longleftrightarrow> (let s = w_nic w in
     length (tx_ring s) = 8 \<and> length (tx_buf s) = 8 \<and> w_tdh w < 8 \<and>
     unat (last_wr REG_TDT (regs s)) = tx_cur s \<and>
     (\<exists>k\<le>7. tx_cur s = (w_tdh w + k) mod 8 \<and> w_queued w = w_wire w @ window (w_tdh w) k (tx_frame s) \<and>
        (\<forall>j<8. k \<le> j \<longrightarrow> bit (tx_status (tx_ring s ! ((w_tdh w + j) mod 8))) 0)))"

definition ring_inv :: "wired \<Rightarrow> bool" where
  "ring_inv w \<longleftrightarrow> nic_ready (w_nic w) \<and> rx_inv w \<and> tx_inv w"

lemma rx_invI:
  assumes "length (rx_ring s) = 8" "length (rx_buf s) = 8" "rx_cur s < 8"
    "unat (last_wr REG_RDT (regs s)) = (rx_cur s + 7) mod 8" "k \<le> 7" "w_rdh w = (rx_cur s + k) mod 8"
    "w_in w = w_got w @ window (rx_cur s) k (rx_frame s)"
    "\<And>j. j < 8 \<Longrightarrow> bit (rx_status (rx_ring s ! ((rx_cur s + j) mod 8))) 0 \<longleftrightarrow> j < k"
    "\<And>j. j < k \<Longrightarrow> rx_length (rx_ring s ! ((rx_cur s + j) mod 8)) \<le> 2048" "w_nic w = s"
  shows "rx_inv w"
  unfolding rx_inv_def Let_def assms(10) using assms(1-9) by blast

lemma rx_invE:
  assumes "rx_inv w"
  obtains k where "length (rx_ring (w_nic w)) = 8" "length (rx_buf (w_nic w)) = 8" "rx_cur (w_nic w) < 8"
    "unat (last_wr REG_RDT (regs (w_nic w))) = (rx_cur (w_nic w) + 7) mod 8" "k \<le> 7"
    "w_rdh w = (rx_cur (w_nic w) + k) mod 8"
    "w_in w = w_got w @ window (rx_cur (w_nic w)) k (rx_frame (w_nic w))"
    "\<And>j. j < 8 \<Longrightarrow> bit (rx_status (rx_ring (w_nic w) ! ((rx_cur (w_nic w) + j) mod 8))) 0 \<longleftrightarrow> j < k"
    "\<And>j. j < k \<Longrightarrow> rx_length (rx_ring (w_nic w) ! ((rx_cur (w_nic w) + j) mod 8)) \<le> 2048"
  using assms unfolding rx_inv_def Let_def by blast

lemma tx_invI:
  assumes "length (tx_ring s) = 8" "length (tx_buf s) = 8" "w_tdh w < 8"
    "unat (last_wr REG_TDT (regs s)) = tx_cur s" "k \<le> 7" "tx_cur s = (w_tdh w + k) mod 8"
    "w_queued w = w_wire w @ window (w_tdh w) k (tx_frame s)"
    "\<And>j. j < 8 \<Longrightarrow> k \<le> j \<Longrightarrow> bit (tx_status (tx_ring s ! ((w_tdh w + j) mod 8))) 0" "w_nic w = s"
  shows "tx_inv w"
  unfolding tx_inv_def Let_def assms(9) using assms(1-8) by blast

lemma tx_invE:
  assumes "tx_inv w"
  obtains k where "length (tx_ring (w_nic w)) = 8" "length (tx_buf (w_nic w)) = 8" "w_tdh w < 8"
    "unat (last_wr REG_TDT (regs (w_nic w))) = tx_cur (w_nic w)" "k \<le> 7" "tx_cur (w_nic w) = (w_tdh w + k) mod 8"
    "w_queued w = w_wire w @ window (w_tdh w) k (tx_frame (w_nic w))"
    "\<And>j. j < 8 \<Longrightarrow> k \<le> j \<Longrightarrow> bit (tx_status (tx_ring (w_nic w) ! ((w_tdh w + j) mod 8))) 0"
  using assms unfolding tx_inv_def Let_def by blast

text \<open>A change of the receiving side does not touch the sending side, and conversely.\<close>

lemma tx_inv_frame:
  assumes "tx_inv w" "tx_ring (w_nic w') = tx_ring (w_nic w)" "tx_buf (w_nic w') = tx_buf (w_nic w)"
    "tx_cur (w_nic w') = tx_cur (w_nic w)" "last_wr REG_TDT (regs (w_nic w')) = last_wr REG_TDT (regs (w_nic w))"
    "w_tdh w' = w_tdh w" "w_queued w' = w_queued w" "w_wire w' = w_wire w"
  shows "tx_inv w'"
proof -
  have "tx_frame (w_nic w') = tx_frame (w_nic w)" using assms(2,3) by (simp add: tx_frame_def fun_eq_iff)
  with assms show ?thesis by (simp add: tx_inv_def Let_def)
qed

lemma rx_inv_frame:
  assumes "rx_inv w" "rx_ring (w_nic w') = rx_ring (w_nic w)" "rx_buf (w_nic w') = rx_buf (w_nic w)"
    "rx_cur (w_nic w') = rx_cur (w_nic w)" "last_wr REG_RDT (regs (w_nic w')) = last_wr REG_RDT (regs (w_nic w))"
    "w_rdh w' = w_rdh w" "w_in w' = w_in w" "w_got w' = w_got w"
  shows "rx_inv w'"
proof -
  have "rx_frame (w_nic w') = rx_frame (w_nic w)" using assms(2,3) by (simp add: rx_frame_def fun_eq_iff)
  with assms show ?thesis by (simp add: rx_inv_def Let_def)
qed

lemma of_nat8: "k < 8 \<Longrightarrow> unat (of_nat k :: u32) = k"
  by (simp add: unat_of_nat take_bit_nat_eq_self)

lemma unat_16: "n < 65536 \<Longrightarrow> unat (of_nat n :: u16) = n"
  by (simp add: unat_of_nat take_bit_nat_eq_self)

lemma card_rx_inv:
  assumes inv: "ring_inv w" and fr: "length fr \<le> 2048"
  shows "ring_inv (card_rx fr w)"
proof -
  define s where "s = w_nic w"
  define c where "c = rx_cur s"
  have tx: "tx_inv w" and rdy: "nic_ready s" and rx: "rx_inv w" using inv by (auto simp: ring_inv_def s_def)
  obtain k where b: "length (rx_ring s) = 8" "length (rx_buf s) = 8" "c < 8" "unat (last_wr REG_RDT (regs s)) = (c + 7) mod 8"
    and k: "k \<le> 7" "w_rdh w = (c + k) mod 8" "w_in w = w_got w @ window c k (rx_frame s)"
    "\<And>j. j < 8 \<Longrightarrow> bit (rx_status (rx_ring s ! ((c + j) mod 8))) 0 \<longleftrightarrow> j < k"
    "\<And>j. j < k \<Longrightarrow> rx_length (rx_ring s ! ((c + j) mod 8)) \<le> 2048"
    using rx_invE [OF rx, folded s_def, folded c_def] by metis
  show ?thesis
  proof (cases "k = 7")
    case True
    then have "card_rx fr w = w" using k(2) b(4) by (simp add: card_rx_def Let_def s_def)
    then show ?thesis using inv by simp
  next
    case False
    then have k7: "k < 7" using k(1) by simp
    define i where "i = (c + k) mod 8"
    have ne: "(c + k) mod 8 \<noteq> (c + 7) mod 8" using slot_inj [OF b(3), of k 7] k7 by simp
    define t where "t = s\<lparr>rx_buf := (rx_buf s)[i := copy_in fr (rx_buf s ! i)],
      rx_ring := (rx_ring s)[i := (rx_ring s ! i)\<lparr>rx_length := of_nat (length fr), rx_status := 3\<rparr>]\<rparr>"
    have w': "card_rx fr w = w\<lparr>w_nic := t, w_rdh := (i + 1) mod 8, w_in := w_in w @ [fr]\<rparr>"
      using ne k(2) b(4) by (simp add: card_rx_def Let_def s_def [symmetric] t_def i_def)
    have i8: "i < 8" by (simp add: i_def)
    have old: "(c + j) mod 8 \<noteq> i" if "j < 8" "j \<noteq> k" for j
      using slot_inj [OF b(3), of j k] that k7 by (simp add: i_def)
    have new: "rx_frame t i = fr" "bit (rx_status (rx_ring t ! i)) 0" "rx_length (rx_ring t ! i) \<le> 2048"
      using i8 b fr by (simp_all add: t_def rx_frame_def copy_in_def unat_16 word_le_nat_alt)
    have keep: "rx_frame t ((c + j) mod 8) = rx_frame s ((c + j) mod 8)"
      "rx_ring t ! ((c + j) mod 8) = rx_ring s ! ((c + j) mod 8)" if "j < 8" "j \<noteq> k" for j
      using old [OF that] by (auto simp: t_def rx_frame_def)
    have t: "rx_cur t = c" "regs t = regs s" "length (rx_ring t) = 8" "length (rx_buf t) = 8"
      "tx_ring t = tx_ring s" "tx_buf t = tx_buf s" "tx_cur t = tx_cur s" "nic_ready t = nic_ready s"
      using b by (simp_all add: t_def c_def)
    have "rx_inv (card_rx fr w)"
    proof (rule rx_invI [where s = t and k = "Suc k"])
      show "w_in (card_rx fr w) = w_got (card_rx fr w) @ window (rx_cur t) (Suc k) (rx_frame t)"
      proof -
        have "window c k (rx_frame t) = window c k (rx_frame s)" by (rule window_cong) (use keep(1) k7 in simp)
        then show ?thesis using k(3) new(1) t(1) by (simp add: w' window_push i_def [symmetric])
      qed
      show "bit (rx_status (rx_ring t ! ((rx_cur t + j) mod 8))) 0 \<longleftrightarrow> j < Suc k" if "j < 8" for j
        using keep(2) [OF that] new(2) k(4) [OF that] t(1) by (cases "j = k") (simp_all add: i_def less_Suc_eq)
      show "rx_length (rx_ring t ! ((rx_cur t + j) mod 8)) \<le> 2048" if "j < Suc k" for j
        using keep(2) [of j] new(3) k(5) [of j] that k7 t(1) by (cases "j = k") (simp_all add: i_def)
      show "w_rdh (card_rx fr w) = (rx_cur t + Suc k) mod 8" using t(1) by (simp add: w' i_def mod_simps)
    qed (use t b k7 w' in simp_all)
    moreover have "tx_inv (card_rx fr w)"
      by (rule tx_inv_frame [OF tx]) (use t w' in \<open>simp_all add: s_def\<close>)
    ultimately show ?thesis using rdy t(8) by (simp add: ring_inv_def w')
  qed
qed

lemma driver_poll_inv:
  assumes inv: "ring_inv w"
  shows "ring_inv (driver_poll w)"
proof -
  define s where "s = w_nic w"
  define c where "c = rx_cur s"
  have tx: "tx_inv w" and rdy: "nic_ready s" and rx: "rx_inv w" using inv by (auto simp: ring_inv_def s_def)
  obtain k where b: "length (rx_ring s) = 8" "length (rx_buf s) = 8" "c < 8" "unat (last_wr REG_RDT (regs s)) = (c + 7) mod 8"
    and k: "k \<le> 7" "w_rdh w = (c + k) mod 8" "w_in w = w_got w @ window c k (rx_frame s)"
    "\<And>j. j < 8 \<Longrightarrow> bit (rx_status (rx_ring s ! ((c + j) mod 8))) 0 \<longleftrightarrow> j < k"
    "\<And>j. j < k \<Longrightarrow> rx_length (rx_ring s ! ((c + j) mod 8)) \<le> 2048"
    using rx_invE [OF rx, folded s_def, folded c_def] by metis
  show ?thesis
  proof (cases k)
    case 0
    then have "\<not> bit (rx_status (rx_ring s ! c)) 0" using k(4) [of 0] b(3) by simp
    then have "driver_poll w = w" using rdy by (cases w) (simp add: driver_poll_def poll_receive_def s_def c_def)
    then show ?thesis using inv by simp
  next
    case (Suc m)
    have dd: "bit (rx_status (rx_ring s ! c)) 0" and l: "rx_length (rx_ring s ! c) \<le> 2048"
      using k(4) [of 0] k(5) [of 0] b(3) Suc by simp_all
    define t where "t = wr REG_RDT (of_nat c) (s\<lparr>rx_ring := (rx_ring s)[c := (rx_ring s ! c)\<lparr>rx_status := 0\<rparr>],
      rx_cur := (c + 1) mod 8\<rparr>)"
    have "poll_receive s = (Some (rx_frame s c), t)"
      using rdy dd leD [OF l] by (simp add: BUF_SIZE_def poll_receive_def Let_def t_def c_def NUM_RX_def rx_frame_def)
    then have w': "driver_poll w = w\<lparr>w_nic := t, w_got := w_got w @ [rx_frame s c]\<rparr>"
      by (simp add: driver_poll_def s_def)
    have t: "rx_cur t = (c + 1) mod 8" "length (rx_ring t) = 8" "rx_buf t = rx_buf s" "tx_ring t = tx_ring s"
      "tx_buf t = tx_buf s" "tx_cur t = tx_cur s" "nic_ready t = nic_ready s"
      "last_wr REG_RDT (regs t) = of_nat c" "last_wr REG_TDT (regs t) = last_wr REG_TDT (regs s)"
      using b by (simp_all add: t_def wr_def REG_RDT_def REG_TDT_def)
    have other: "rx_ring t ! ((c + j) mod 8) = rx_ring s ! ((c + j) mod 8)" if "0 < j" "j < 8" for j
      using slot_inj [OF b(3), of j 0] that b(3) by (simp add: t_def wr_def)
    have own: "\<not> bit (rx_status (rx_ring t ! c)) 0" using b by (simp add: t_def wr_def)
    have fr: "rx_frame t ((c + j) mod 8) = rx_frame s ((c + j) mod 8)" if "0 < j" "j < 8" for j
      using other [OF that] t(3) by (simp add: rx_frame_def)
    have "rx_inv (driver_poll w)"
    proof (rule rx_invI [where s = t and k = m])
      have "window ((c + 1) mod 8) m (rx_frame t) = window ((c + 1) mod 8) m (rx_frame s)"
      proof (rule window_cong)
        show "rx_frame t (((c + 1) mod 8 + j) mod 8) = rx_frame s (((c + 1) mod 8 + j) mod 8)" if "j < m" for j
          unfolding slot_next using fr [of "Suc j"] that k(1) Suc by simp
      qed
      then show "w_in (driver_poll w) = w_got (driver_poll w) @ window (rx_cur t) m (rx_frame t)"
        using k(3) window_pop [OF b(3), of m "rx_frame s"] by (simp add: w' Suc t(1))
      show "bit (rx_status (rx_ring t ! ((rx_cur t + j) mod 8))) 0 \<longleftrightarrow> j < m" if "j < 8" for j
      proof (cases "j = 7")
        case True
        then have "(rx_cur t + j) mod 8 = c" using b(3) unfolding t(1) slot_next by (simp add: wrap8)
        then show ?thesis using own True k(1) Suc by simp
      next
        case False
        then show ?thesis using other [of "Suc j"] k(4) [of "Suc j"] that Suc unfolding t(1) slot_next by simp
      qed
      show "rx_length (rx_ring t ! ((rx_cur t + j) mod 8)) \<le> 2048" if "j < m" for j
        using other [of "Suc j"] k(5) [of "Suc j"] that Suc k(1) unfolding t(1) slot_next by simp
      show "w_rdh (driver_poll w) = (rx_cur t + m) mod 8" unfolding t(1) slot_next using k(2) Suc by (simp add: w')
      show "unat (last_wr REG_RDT (regs t)) = (rx_cur t + 7) mod 8"
        unfolding t(1) slot_next t(8) of_nat8 [OF b(3)] using b(3) by (simp add: wrap8)
    qed (use t b k(1) Suc w' in simp_all)
    moreover have "tx_inv (driver_poll w)"
      by (rule tx_inv_frame [OF tx]) (use t w' in \<open>simp_all add: s_def\<close>)
    ultimately show ?thesis using rdy t(7) by (simp add: ring_inv_def w')
  qed
qed

lemma tx_wait_const: "tx_wait (\<lambda>_. True) k (Suc n) = Suc n"
  by simp

lemma driver_send_eq:
  assumes "nic_ready (w_nic w)" "bit (tx_status (tx_ring (w_nic w) ! tx_cur (w_nic w))) 0"
    "0 < length data" "length data \<le> 1514"
  shows "driver_send data w = (let s = w_nic w; i = tx_cur s in
     w\<lparr>w_nic := wr REG_TDT (of_nat ((i + 1) mod 8)) (s\<lparr>tx_buf := (tx_buf s)[i := copy_in data (tx_buf s ! i)],
         tx_ring := (tx_ring s)[i := (tx_ring s ! i)\<lparr>tx_length := of_nat (length data), tx_cmd := 0x0B, tx_status := 0\<rparr>],
         tx_cur := (i + 1) mod 8\<rparr>),
       w_queued := w_queued w @ [data]\<rparr>)"
proof -
  have l: "unat (of_nat (length data) :: u16) = length data" using assms(4) by (simp add: unat_16)
  then have "(of_nat (length data) :: u16) \<noteq> 0" "\<not> (of_nat (length data) :: u16) > 1514"
    using assms(3,4) by (auto simp: word_less_nat_alt)
  moreover have "tx_wait (\<lambda>_. True) 0 10000 = 10000" using tx_wait_const [of 0 9999] by simp
  ultimately show ?thesis using assms l by (simp add: driver_send_def e1000_send_def Let_def NUM_TX_def)
qed

lemma driver_send_refused:
  assumes "length data < 65536" "\<not> (0 < length data \<and> length data \<le> 1514)"
  shows "driver_send data w = w"
proof -
  have "unat (of_nat (length data) :: u16) = length data" using assms(1) by (simp add: unat_16)
  then have "(of_nat (length data) :: u16) = 0 \<or> (of_nat (length data) :: u16) > 1514"
    using assms(2) by (auto simp: word_less_nat_alt)
  then show ?thesis by (cases w) (auto simp: driver_send_def e1000_send_def Let_def)
qed

lemma send_keeps:
  assumes b: "length (tx_ring s) = 8" "length (tx_buf s) = 8" "h < 8"
    and cur: "tx_cur s = (h + k) mod 8" and k: "k < 8"
    and data: "length data \<le> 1514"
    and t: "t = wr REG_TDT (of_nat ((tx_cur s + 1) mod 8)) (s\<lparr>tx_buf := (tx_buf s)[tx_cur s := copy_in data (tx_buf s ! tx_cur s)],
         tx_ring := (tx_ring s)[tx_cur s := (tx_ring s ! tx_cur s)\<lparr>tx_length := of_nat (length data), tx_cmd := 0x0B, tx_status := 0\<rparr>],
         tx_cur := (tx_cur s + 1) mod 8\<rparr>)"
  shows "tx_cur t = (h + Suc k) mod 8" "unat (last_wr REG_TDT (regs t)) = (h + Suc k) mod 8"
    "length (tx_ring t) = 8" "length (tx_buf t) = 8"
    "window h (Suc k) (tx_frame t) = window h k (tx_frame s) @ [data]"
    "\<And>j. j < 8 \<Longrightarrow> j \<noteq> k \<Longrightarrow> tx_ring t ! ((h + j) mod 8) = tx_ring s ! ((h + j) mod 8)"
    "rx_ring t = rx_ring s" "rx_buf t = rx_buf s" "rx_cur t = rx_cur s" "nic_ready t = nic_ready s"
    "last_wr REG_RDT (regs t) = last_wr REG_RDT (regs s)"
proof -
  have nx: "(tx_cur s + 1) mod 8 = (h + Suc k) mod 8" unfolding cur by (simp add: mod_simps)
  show "tx_cur t = (h + Suc k) mod 8" "length (tx_ring t) = 8" "length (tx_buf t) = 8"
    "rx_ring t = rx_ring s" "rx_buf t = rx_buf s" "rx_cur t = rx_cur s" "nic_ready t = nic_ready s"
    "last_wr REG_RDT (regs t) = last_wr REG_RDT (regs s)"
    using b nx by (simp_all add: t wr_def REG_RDT_def REG_TDT_def)
  show "unat (last_wr REG_TDT (regs t)) = (h + Suc k) mod 8"
    using nx of_nat8 [of "(h + Suc k) mod 8"] by (simp add: t wr_def)
  have cur8: "tx_cur s < 8" by (simp add: cur)
  have old: "(h + j) mod 8 \<noteq> tx_cur s" if "j < 8" "j \<noteq> k" for j
    using slot_inj [OF b(3) that(1) k] that(2) by (simp add: cur)
  show keep: "tx_ring t ! ((h + j) mod 8) = tx_ring s ! ((h + j) mod 8)" if "j < 8" "j \<noteq> k" for j
    using old [OF that] by (simp add: t wr_def)
  have "tx_frame t ((h + j) mod 8) = tx_frame s ((h + j) mod 8)" if "j < k" for j
    using old [of j] that k by (simp add: t wr_def tx_frame_def)
  then have "window h k (tx_frame t) = window h k (tx_frame s)" by (rule window_cong)
  moreover have "tx_frame t ((h + k) mod 8) = data"
    using data cur8 b by (simp add: cur [symmetric] tx_frame_def t wr_def copy_in_def unat_16)
  ultimately show "window h (Suc k) (tx_frame t) = window h k (tx_frame s) @ [data]" by (simp add: window_push)
qed

lemma driver_send_inv:
  assumes inv: "ring_inv w" and data: "length data < 65536" and room: "tx_room w"
  shows "ring_inv (driver_send data w)"
proof (cases "0 < length data \<and> length data \<le> 1514")
  case False
  then show ?thesis using driver_send_refused [OF data] inv by simp
next
  case True
  define s where "s = w_nic w"
  define h where "h = w_tdh w"
  have rx: "rx_inv w" and rdy: "nic_ready s" and tx: "tx_inv w" using inv by (auto simp: ring_inv_def s_def)
  obtain k where b: "length (tx_ring s) = 8" "length (tx_buf s) = 8" "h < 8" "unat (last_wr REG_TDT (regs s)) = tx_cur s"
    and k: "k \<le> 7" "tx_cur s = (h + k) mod 8" "w_queued w = w_wire w @ window h k (tx_frame s)"
    "\<And>j. j < 8 \<Longrightarrow> k \<le> j \<Longrightarrow> bit (tx_status (tx_ring s ! ((h + j) mod 8))) 0"
    using tx_invE [OF tx, folded s_def, folded h_def] by metis
  have k7: "k < 7"
  proof (rule ccontr)
    assume "\<not> k < 7"
    then have "(tx_cur s + 1) mod 8 = h" using k(1,2) b(3) by (simp add: mod_simps wrap8)
    then show False using room by (simp add: tx_room_def s_def h_def)
  qed
  define t where "t = wr REG_TDT (of_nat ((tx_cur s + 1) mod 8)) (s\<lparr>tx_buf := (tx_buf s)[tx_cur s := copy_in data (tx_buf s ! tx_cur s)],
         tx_ring := (tx_ring s)[tx_cur s := (tx_ring s ! tx_cur s)\<lparr>tx_length := of_nat (length data), tx_cmd := 0x0B, tx_status := 0\<rparr>],
         tx_cur := (tx_cur s + 1) mod 8\<rparr>)"
  have w': "driver_send data w = w\<lparr>w_nic := t, w_queued := w_queued w @ [data]\<rparr>"
    using driver_send_eq [of w data] rdy k(4) [of k] k7 True unfolding s_def [symmetric] k(2) [symmetric]
    by (simp add: Let_def s_def [symmetric] t_def)
  have kk: "k < 8" using k7 by simp
  note sk = send_keeps [OF b(1-3) k(2) kk _ t_def]
  have "tx_inv (driver_send data w)"
  proof (rule tx_invI [where s = t and k = "Suc k"])
    show "w_queued (driver_send data w) = w_wire (driver_send data w) @ window (w_tdh (driver_send data w)) (Suc k) (tx_frame t)"
      using sk(5) True k(3) by (simp add: w' h_def)
    show "bit (tx_status (tx_ring t ! ((w_tdh (driver_send data w) + j) mod 8))) 0" if "j < 8" "Suc k \<le> j" for j
      using sk(6) [of j] k(4) [of j] that True by (simp add: w' h_def)
  qed (use sk(1-4) True k7 b(3) w' in \<open>simp_all add: h_def\<close>)
  moreover have "rx_inv (driver_send data w)"
    by (rule rx_inv_frame [OF rx]) (use sk(7-11) True w' in \<open>simp_all add: s_def\<close>)
  ultimately show ?thesis using rdy sk(10) True by (simp add: ring_inv_def w')
qed

lemma card_tx_inv:
  assumes inv: "ring_inv w"
  shows "ring_inv (card_tx w)"
proof -
  define s where "s = w_nic w"
  define h where "h = w_tdh w"
  have rx: "rx_inv w" and rdy: "nic_ready s" and tx: "tx_inv w" using inv by (auto simp: ring_inv_def s_def)
  obtain k where b: "length (tx_ring s) = 8" "length (tx_buf s) = 8" "h < 8" "unat (last_wr REG_TDT (regs s)) = tx_cur s"
    and k: "k \<le> 7" "tx_cur s = (h + k) mod 8" "w_queued w = w_wire w @ window h k (tx_frame s)"
    "\<And>j. j < 8 \<Longrightarrow> k \<le> j \<Longrightarrow> bit (tx_status (tx_ring s ! ((h + j) mod 8))) 0"
    using tx_invE [OF tx, folded s_def, folded h_def] by metis
  show ?thesis
  proof (cases k)
    case 0
    then have "card_tx w = w" using b k(2) by (simp add: card_tx_def Let_def s_def h_def)
    then show ?thesis using inv by simp
  next
    case (Suc m)
    have ne: "h \<noteq> tx_cur s" using slot_inj [OF b(3), of 0 k] b(3) k(1,2) Suc by simp
    define t where "t = s\<lparr>tx_ring := (tx_ring s)[h := (tx_ring s ! h)\<lparr>tx_status := tx_status (tx_ring s ! h) OR 1\<rparr>]\<rparr>"
    have w': "card_tx w = w\<lparr>w_nic := t, w_tdh := (h + 1) mod 8, w_wire := w_wire w @ [tx_frame s h]\<rparr>"
      using ne b(4) by (simp add: card_tx_def Let_def s_def [symmetric] h_def [symmetric] t_def tx_frame_def)
    have t: "length (tx_ring t) = 8" "tx_buf t = tx_buf s" "tx_cur t = tx_cur s" "regs t = regs s" "rx_ring t = rx_ring s"
      "rx_buf t = rx_buf s" "rx_cur t = rx_cur s" "nic_ready t = nic_ready s" using b by (simp_all add: t_def)
    have fr: "tx_frame t i = tx_frame s i" for i
      using b by (cases "i = h") (simp_all add: t_def tx_frame_def)
    have other: "tx_ring t ! ((h + j) mod 8) = tx_ring s ! ((h + j) mod 8)" if "0 < j" "j < 8" for j
      using slot_inj [OF b(3), of j 0] that b(3) by (simp add: t_def)
    have own: "bit (tx_status (tx_ring t ! h)) 0" using b by (simp add: t_def bit_simps)
    have "tx_inv (card_tx w)"
    proof (rule tx_invI [where s = t and k = m])
      have "window ((h + 1) mod 8) m (tx_frame t) = window ((h + 1) mod 8) m (tx_frame s)"
        by (rule window_cong) (rule fr)
      then show "w_queued (card_tx w) = w_wire (card_tx w) @ window (w_tdh (card_tx w)) m (tx_frame t)"
        using k(3) window_pop [OF b(3), of m "tx_frame s"] by (simp add: w' Suc)
      show "bit (tx_status (tx_ring t ! ((w_tdh (card_tx w) + j) mod 8))) 0" if "j < 8" "m \<le> j" for j
      proof (cases "j = 7")
        case True
        then have "(h + Suc j) mod 8 = h" using b(3) by (simp add: wrap8)
        then show ?thesis using own slot_next [of h j] by (simp add: w')
      next
        case False
        then show ?thesis using other [of "Suc j"] k(4) [of "Suc j"] that Suc slot_next [of h j] by (simp add: w')
      qed
      show "tx_cur t = (w_tdh (card_tx w) + m) mod 8" using k(2) Suc t(3) slot_next [of h m] by (simp add: w')
    qed (use t b k(1) Suc w' in simp_all)
    moreover have "rx_inv (card_tx w)"
      by (rule rx_inv_frame [OF rx]) (use t w' in \<open>simp_all add: s_def\<close>)
    ultimately show ?thesis using rdy t(8) by (simp add: ring_inv_def w')
  qed
qed

lemma nic_step_inv: "ring_inv w \<Longrightarrow> nic_step w w' \<Longrightarrow> ring_inv w'"
  by (erule nic_step.cases) (simp_all add: card_rx_inv driver_poll_inv driver_send_inv card_tx_inv)

section \<open>From initialisation\<close>

lemma alloc_bufs_eq: "alloc_bufs n acc p = map_prod (map_option ((@) acc)) id (pm.alloc_list n p)"
proof (induction n arbitrary: acc p)
  case (Suc n)
  have "map_option ((@) (acc @ [a])) r = map_option (\<lambda>x. acc @ a # x) r" for a and r :: "nat list option"
    by (cases r) simp_all
  with Suc show ?case by (simp add: Let_def option.map_comp comp_def split: prod.splits)
qed (simp add: fun_eq_iff)

lemma alloc_ring_eq:
  "alloc_ring n p = (case pm.alloc_list (Suc n) p of (None, p) \<Rightarrow> (None, p) | (Some as, p) \<Rightarrow> (Some (hd as, tl as), p))"
  by (auto simp: alloc_ring_def alloc_bufs_eq Let_def split: prod.splits option.splits)

lemma alloc_ring_pages:
  assumes "pmm_inv p" "alloc_ring n p = (Some (ring, bufs), p')"
  shows "pmm_inv p'" "length bufs = n" "distinct (map (\<lambda>a. a div PAGE_SIZE) (ring # bufs))"
    "\<forall>a\<in>set (ring # bufs). a \<noteq> 0 \<and> PAGE_SIZE dvd a \<and> a div PAGE_SIZE \<notin> taken p \<and> a div PAGE_SIZE \<in> taken p'"
    "taken p \<subseteq> taken p'"
proof -
  obtain as where as: "pm.alloc_list (Suc n) p = (Some as, p')" "ring = hd as" "bufs = tl as"
    using assms(2) unfolding alloc_ring_eq by (auto split: prod.splits option.splits)
  note d = pm.alloc_list_distinct [OF assms(1) as(1)]
  then have c: "as = ring # bufs" using as(2,3) by (cases as) auto
  show "length bufs = n" "distinct (map (\<lambda>a. a div PAGE_SIZE) (ring # bufs))"
    "\<forall>a\<in>set (ring # bufs). a \<noteq> 0 \<and> PAGE_SIZE dvd a \<and> a div PAGE_SIZE \<notin> taken p \<and> a div PAGE_SIZE \<in> taken p'"
    using d unfolding c by auto
  show "pmm_inv p'" using pm.alloc_list_inv [OF assms(1), of "Suc n"] as(1) by simp
  show "taken p \<subseteq> taken p'" using pm.alloc_list_own [OF assms(1), of "Suc n"] as(1) by simp
qed

lemma nic_init_rings:
  assumes "nic_init d chip ds (s0, p, h0) = Some (True, s, p', h)"
  shows "\<exists>s1 rx tx p1. alloc_ring NUM_RX p = (Some rx, p1) \<and> alloc_ring NUM_TX p1 = (Some tx, p') \<and>
    s = setup_tx tx (setup_rx rx s1)"
proof -
  have "\<exists>s1 h1. nic_rings (s1, p, h1) = (True, s, p', h)"
    using assms unfolding nic_init_def Let_def split_def
    by (auto simp: bind_eq_Some_conv split: option.split_asm if_split_asm)
  then obtain s1 h1 where r: "nic_rings (s1, p, h1) = (True, s, p', h)" by blast
  obtain rx p1 where rx: "alloc_ring NUM_RX p = (rx, p1)" by force
  obtain tx p2 where tx: "alloc_ring NUM_TX p1 = (tx, p2)" by force
  show ?thesis
    using r rx tx by (cases rx; cases tx) (auto simp: nic_rings_def Let_def)
qed

definition nic_start :: "nic \<Rightarrow> wired" where
  "nic_start s = \<lparr>w_nic = s, w_rdh = 0, w_tdh = 0, w_in = [], w_got = [], w_queued = [], w_wire = []\<rparr>"

lemmas reg_consts = REG_RDBAL_def REG_RDBAH_def REG_RDLEN_def REG_RDH_def REG_RDT_def REG_RCTL_def
  REG_TDBAL_def REG_TDBAH_def REG_TDLEN_def REG_TDH_def REG_TDT_def REG_TCTL_def REG_TIPG_def

lemma setup_inv:
  assumes "length (snd rx) = 8" "length (snd tx) = 8"
  shows "ring_inv (nic_start (setup_tx tx (setup_rx rx s1)))"
proof -
  define t where "t = setup_tx tx (setup_rx rx s1)"
  have t: "length (rx_ring t) = 8" "length (rx_buf t) = 8" "rx_cur t = 0" "length (tx_ring t) = 8"
    "length (tx_buf t) = 8" "tx_cur t = 0" "nic_ready t"
    "unat (last_wr REG_RDT (regs t)) = 7" "unat (last_wr REG_TDT (regs t)) = 0"
    using assms by (auto simp: t_def setup_tx_def setup_rx_def Let_def wr_def reg_consts NUM_RX_def split: prod.splits)
  have r: "rx_status (rx_ring t ! j) = 0" "tx_status (tx_ring t ! j) = 1" if "j < 8" for j
    using assms that by (auto simp: t_def setup_tx_def setup_rx_def Let_def wr_def split: prod.splits)
  have "rx_inv (nic_start t)"
    by (rule rx_invI [where s = t and k = 0]) (use t r in \<open>simp_all add: nic_start_def window_def\<close>)
  moreover have "tx_inv (nic_start t)"
    by (rule tx_invI [where s = t and k = 0]) (use t r in \<open>simp_all add: nic_start_def window_def\<close>)
  ultimately show ?thesis using t(7) by (simp add: ring_inv_def nic_start_def t_def)
qed

lemma nic_start_inv:
  assumes "pmm_inv p" "nic_init d chip ds (s0, p, h0) = Some (True, s, p', h)"
  shows "ring_inv (nic_start s)"
proof -
  obtain s1 rx tx p1 where a: "alloc_ring NUM_RX p = (Some rx, p1)" "alloc_ring NUM_TX p1 = (Some tx, p')"
    and s: "s = setup_tx tx (setup_rx rx s1)" using nic_init_rings [OF assms(2)] by blast
  have "length (snd rx) = 8" using alloc_ring_pages(2) [OF assms(1), of NUM_RX "fst rx" "snd rx" p1] a(1) by (simp add: NUM_RX_def)
  moreover have "pmm_inv p1" using alloc_ring_pages(1) [OF assms(1), of NUM_RX "fst rx" "snd rx" p1] a(1) by simp
  then have "length (snd tx) = 8" using alloc_ring_pages(2) [of p1 NUM_TX "fst tx" "snd tx" p'] a(2) by (simp add: NUM_TX_def)
  ultimately show ?thesis unfolding s by (rule setup_inv)
qed

definition nic_up :: "wired \<Rightarrow> bool" where
  "nic_up w \<longleftrightarrow> (\<exists>d chip ds s0 p h0 s p' h. pmm_inv p \<and>
     nic_init d chip ds (s0, p, h0) = Some (True, s, p', h) \<and> w = nic_start s)"

interpretation nic: safe_system nic_up nic_step ring_inv
  by unfold_locales (auto simp: nic_up_def intro: nic_start_inv nic_step_inv)

text \<open>C24: From a successful initialisation on, whatever the card receives and sends in between: the frames handed to the network stack are
  the frames the card accepted, in order, up to at most seven still in the ring; and as long as a slot of the ring is kept
  free, every frame queued is sent unchanged and in order, up to at most seven still waiting.
\<close>

theorem nic_fifo:
  assumes "reach nic_up nic_step w"
  shows "\<exists>waiting unsent. w_in w = w_got w @ waiting \<and> length waiting \<le> 7 \<and>
    w_queued w = w_wire w @ unsent \<and> length unsent \<le> 7"
proof -
  obtain k m where "k \<le> 7" "w_in w = w_got w @ window (rx_cur (w_nic w)) k (rx_frame (w_nic w))"
    "m \<le> 7" "w_queued w = w_wire w @ window (w_tdh w) m (tx_frame (w_nic w))"
    using nic.reach_ok [OF assms] unfolding ring_inv_def by (metis rx_invE tx_invE)
  then show ?thesis by (metis length_window)
qed

text \<open>The 18 pages of the rings and their buffers are different pages that were free before and are taken afterwards.\<close>

theorem nic_dma_pages:
  assumes "pmm_inv p" "nic_init d chip ds (s0, p, h0) = Some (True, s, p', h)"
  shows "distinct (map (\<lambda>a. a div PAGE_SIZE) (rx_ring_phys s # rx_buf_phys s @ tx_ring_phys s # tx_buf_phys s)) \<and>
    length (rx_buf_phys s) = 8 \<and> length (tx_buf_phys s) = 8 \<and>
    (\<forall>a\<in>set (rx_ring_phys s # rx_buf_phys s @ tx_ring_phys s # tx_buf_phys s).
       a \<noteq> 0 \<and> PAGE_SIZE dvd a \<and> a div PAGE_SIZE \<notin> taken p \<and> a div PAGE_SIZE \<in> taken p')"
proof -
  obtain s1 rr rb tr tb p1 where a: "alloc_ring NUM_RX p = (Some (rr, rb), p1)" "alloc_ring NUM_TX p1 = (Some (tr, tb), p')"
    and s: "s = setup_tx (tr, tb) (setup_rx (rr, rb) s1)" using nic_init_rings [OF assms(2)] by (metis surj_pair)
  have f: "rx_ring_phys s = rr" "rx_buf_phys s = rb" "tx_ring_phys s = tr" "tx_buf_phys s = tb"
    by (simp_all add: s setup_tx_def setup_rx_def wr_def)
  note r = alloc_ring_pages [OF assms(1) a(1)]
  note t = alloc_ring_pages [OF r(1) a(2)]
  have "set (map (\<lambda>a. a div PAGE_SIZE) (rr # rb)) \<inter> set (map (\<lambda>a. a div PAGE_SIZE) (tr # tb)) = {}"
  proof -
    have "\<forall>a\<in>set (rr # rb). a div PAGE_SIZE \<in> taken p1" using r(4) by blast
    moreover have "\<forall>a\<in>set (tr # tb). a div PAGE_SIZE \<notin> taken p1" using t(4) by blast
    ultimately show ?thesis unfolding set_map by auto
  qed
  moreover have "map (\<lambda>a. a div PAGE_SIZE) (rr # rb @ tr # tb) =
      map (\<lambda>a. a div PAGE_SIZE) (rr # rb) @ map (\<lambda>a. a div PAGE_SIZE) (tr # tb)" by simp
  ultimately have "distinct (map (\<lambda>a. a div PAGE_SIZE) (rr # rb @ tr # tb))"
    using r(3) t(3) by (simp only: distinct_append)
  moreover have "\<forall>a\<in>set (rr # rb). a \<noteq> 0 \<and> PAGE_SIZE dvd a \<and> a div PAGE_SIZE \<notin> taken p \<and> a div PAGE_SIZE \<in> taken p'"
    using r(4) t(5) by blast
  moreover have "\<forall>a\<in>set (tr # tb). a \<noteq> 0 \<and> PAGE_SIZE dvd a \<and> a div PAGE_SIZE \<notin> taken p \<and> a div PAGE_SIZE \<in> taken p'"
    using t(4) r(5) by blast
  moreover have "set (rr # rb @ tr # tb) = set (rr # rb) \<union> set (tr # tb)" by auto
  ultimately show ?thesis unfolding f using r(2) t(2) by (simp only: NUM_RX_def NUM_TX_def ball_Un simp_thms)
qed

text \<open>
  The driver fills the ring completely. With eight frames queued before the card sends one, the tail is back at the head,
  which the card takes for an empty ring: all eight were reported as sent and none of them goes out.
\<close>

definition filling :: "nat \<Rightarrow> wired \<Rightarrow> bool" where
  "filling n w \<longleftrightarrow> nic_ready (w_nic w) \<and> length (tx_ring (w_nic w)) = 8 \<and> length (tx_buf (w_nic w)) = 8 \<and>
     w_tdh w = 0 \<and> tx_cur (w_nic w) = (0 + n) mod 8 \<and> unat (last_wr REG_TDT (regs (w_nic w))) = n mod 8 \<and>
     (\<forall>j<8. n \<le> j \<longrightarrow> bit (tx_status (tx_ring (w_nic w) ! ((0 + j) mod 8))) 0)"

lemma filling_step:
  assumes f: "filling n w" and n: "n < 8" and data: "0 < length data" "length data \<le> 1514"
  shows "filling (Suc n) (driver_send data w)" "w_queued (driver_send data w) = w_queued w @ [data]"
proof -
  define s where "s = w_nic w"
  have b: "length (tx_ring s) = 8" "length (tx_buf s) = 8" "tx_cur s = (0 + n) mod 8" "nic_ready s" "w_tdh w = 0"
    and dd: "\<And>j. j < 8 \<Longrightarrow> n \<le> j \<Longrightarrow> bit (tx_status (tx_ring s ! ((0 + j) mod 8))) 0"
    using f unfolding filling_def s_def by blast+
  define t where "t = wr REG_TDT (of_nat ((tx_cur s + 1) mod 8)) (s\<lparr>tx_buf := (tx_buf s)[tx_cur s := copy_in data (tx_buf s ! tx_cur s)],
         tx_ring := (tx_ring s)[tx_cur s := (tx_ring s ! tx_cur s)\<lparr>tx_length := of_nat (length data), tx_cmd := 0x0B, tx_status := 0\<rparr>],
         tx_cur := (tx_cur s + 1) mod 8\<rparr>)"
  have "bit (tx_status (tx_ring s ! tx_cur s)) 0" using dd [OF n] b(3) by simp
  then have w': "driver_send data w = w\<lparr>w_nic := t, w_queued := w_queued w @ [data]\<rparr>"
    using driver_send_eq [of w data] b(4) data by (simp add: Let_def s_def [symmetric] t_def)
  then show "w_queued (driver_send data w) = w_queued w @ [data]" by simp
  note sk = send_keeps [OF b(1,2) _ b(3) n data(2) t_def, simplified]
  have "bit (tx_status (tx_ring t ! j)) 0" if "j < 8" "Suc n \<le> j" for j
    using sk(6) [of j] dd [of j] that by simp
  with sk b(4,5) show "filling (Suc n) (driver_send data w)" by (simp add: w' filling_def)
qed

lemma filling_run:
  assumes "filling n w" "n + length ds \<le> 8" "\<forall>data\<in>set ds. 0 < length data \<and> length data \<le> 1514"
  shows "filling (n + length ds) (foldl (\<lambda>w data. driver_send data w) w ds) \<and>
    w_queued (foldl (\<lambda>w data. driver_send data w) w ds) = w_queued w @ ds"
  using assms
proof (induction ds arbitrary: n w)
  case (Cons data ds)
  have l: "n < 8" "0 < length data" "length data \<le> 1514" using Cons.prems by auto
  note f = filling_step [OF Cons.prems(1) l]
  have "filling (Suc n + length ds) (foldl (\<lambda>w data. driver_send data w) (driver_send data w) ds) \<and>
    w_queued (foldl (\<lambda>w data. driver_send data w) (driver_send data w) ds) = w_queued (driver_send data w) @ ds"
    using Cons.prems by (intro Cons.IH [OF f(1)]) auto
  then show ?case using f(2) by simp
qed simp

theorem tx_ring_overrun:
  assumes "pmm_inv p" "nic_init d chip ds (s0, p, h0) = Some (True, s, p', h)"
    and "length frames = 8" "\<forall>data\<in>set frames. 0 < length data \<and> length data \<le> 1514"
  shows "let w = foldl (\<lambda>w data. driver_send data w) (nic_start s) frames
    in w_queued w = frames \<and> card_tx w = w"
proof -
  have "ring_inv (nic_start s)" by (rule nic_start_inv [OF assms(1,2)])
  then have t: "nic_ready s" "tx_inv (nic_start s)" by (auto simp: ring_inv_def nic_start_def)
  have w: "w_tdh (nic_start s) = 0" "w_nic (nic_start s) = s" "w_queued (nic_start s) = []" "w_wire (nic_start s) = []"
    by (simp_all add: nic_start_def)
  obtain k where k: "length (tx_ring s) = 8" "length (tx_buf s) = 8" "unat (last_wr REG_TDT (regs s)) = tx_cur s"
    "k \<le> 7" "tx_cur s = (0 + k) mod 8" "[] = [] @ window 0 k (tx_frame s)"
    "\<And>j. j < 8 \<Longrightarrow> k \<le> j \<Longrightarrow> bit (tx_status (tx_ring s ! ((0 + j) mod 8))) 0"
    using tx_invE [OF t(2), unfolded w] by metis
  have "k = 0" using arg_cong [OF k(6), of length] by simp
  with k t(1) w have "filling 0 (nic_start s)" by (simp add: filling_def)
  from filling_run [OF this, of frames] assms(3,4) w(3)
  have "filling 8 (foldl (\<lambda>w data. driver_send data w) (nic_start s) frames)"
    "w_queued (foldl (\<lambda>w data. driver_send data w) (nic_start s) frames) = frames" by auto
  then show ?thesis by (simp add: Let_def card_tx_def filling_def)
qed

section \<open>A concrete card\<close>

lemma alloc_enough:
  assumes "pmm_inv p" "0 \<in> taken p" "card (taken p) + n \<le> highest_page p"
  shows "\<exists>as p'. pm.alloc_list n p = (Some as, p') \<and> pmm_inv p' \<and> 0 \<in> taken p' \<and>
    card (taken p') = card (taken p) + n \<and> highest_page p' = highest_page p"
  using assms
proof (induction n arbitrary: p)
  case (Suc n)
  have fin: "finite (taken p)" by (simp add: taken_def)
  show ?case
  proof (cases rule: pmm_alloc_cases [OF Suc.prems(1)])
    case full: 1
    then have "taken p = {..<highest_page p}" by (auto simp: taken_def)
    with Suc.prems(3) show ?thesis by simp
  next
    case (2 i)
    then have i: "i \<notin> taken p" by (auto simp: taken_def)
    with Suc.prems(2) have "i \<noteq> 0" by metis
    note i = i this
    let ?q = "take_page i p"
    have q: "pmm_inv ?q" "taken ?q = insert i (taken p)" "highest_page ?q = highest_page p"
      using take_page_inv [OF Suc.prems(1) 2(1,2)] by (simp_all add: take_page_def)
    then have "card (taken ?q) = Suc (card (taken p))" using i fin by simp
    with Suc.IH [OF q(1)] q Suc.prems obtain as p' where
      "pm.alloc_list n ?q = (Some as, p')" "pmm_inv p'" "0 \<in> taken p'" "card (taken p') = card (taken p) + Suc n"
      "highest_page p' = highest_page p" by auto
    moreover have "fst (pmm_alloc_page p) \<noteq> 0" using 2(3) i by (simp add: PAGE_SIZE_def)
    ultimately show ?thesis using 2(3) i by (simp add: PAGE_SIZE_def)
  qed
qed simp

lemma nic_rings_ok:
  assumes "pmm_inv p" "0 \<in> taken p" "card (taken p) + 18 \<le> highest_page p"
  shows "\<exists>s p'. nic_rings (s1, p, h) = (True, s, p', h)"
proof -
  obtain as p1 where a: "pm.alloc_list (Suc NUM_RX) p = (Some as, p1)" "pmm_inv p1" "0 \<in> taken p1"
    "card (taken p1) = card (taken p) + 9" "highest_page p1 = highest_page p"
    using alloc_enough [OF assms(1,2), of 9] assms(3) by (auto simp: NUM_RX_def numeral_eq_Suc)
  obtain bs p2 where b: "pm.alloc_list (Suc NUM_TX) p1 = (Some bs, p2)"
    using alloc_enough [OF a(2,3), of 9] a(4,5) assms(3) by (auto simp: NUM_TX_def numeral_eq_Suc)
  show ?thesis unfolding nic_rings_def alloc_ring_eq Let_def prod.case a(1) b option.case by simp
qed

definition pages_demo :: pmm where
  "pages_demo = \<lparr>bitmap = [1, 0, 0, 0], highest_page = 32, total = 31, used = 1, search_hint = 0, bitmap_at = 0, ram = (\<lambda>_. 1)\<rparr>"

lemma pages_demo_ok: "pmm_inv pages_demo" "0 \<in> taken pages_demo" "card (taken pages_demo) = 1"
proof -
  have "used_count [1, 0, 0, 0] 32 = 1" by code_simp
  then show "pmm_inv pages_demo" "0 \<in> taken pages_demo" "card (taken pages_demo) = 1"
    by (simp_all add: pmm_inv_def taken_def pages_demo_def used_count_card bmp_test_def)
qed

definition nic_dev_demo :: pci_device where
  "nic_dev_demo = \<lparr>d_bus = 0, d_dev = 3, d_func = 0, vendor_id = 0x8086, device_id = 0x100E, class_code = 2,
     sub_class = 0, d_valid = True\<rparr>"

definition bar_demo :: dev where
  "bar_demo = \<lparr>rd8 = (\<lambda>h p. 0), rd16 = (\<lambda>h p. 0), rd32 = (\<lambda>h p. 0xFEB00000)\<rparr>"

definition chip_demo :: nic_chip where
  "chip_demo = (\<lambda>ms r. if r = REG_RAL then 0x12005452 else 0)"

definition nic_off :: nic where
  "nic_off = \<lparr>tx_ring = [], rx_ring = [], tx_ring_phys = 0, rx_ring_phys = 0, tx_buf_phys = [], rx_buf_phys = [],
     tx_buf = [], rx_buf = [], mac_addr = [], tx_cur = 0, rx_cur = 0, nic_ready = False, regs = []\<rparr>"

lemma nic_demo: "\<exists>s p' h. nic_init bar_demo chip_demo [nic_dev_demo] (nic_off, pages_demo, []) = Some (True, s, p', h)"
proof -
  have w: "wait_reset chip_demo s = Some (snd (rd chip_demo REG_CTRL s))" for s
    by (subst wait_reset.simps) (simp add: rd_def chip_demo_def REG_CTRL_def REG_RAL_def)
  have m: "\<not> list_all (\<lambda>b. b = 0) (mac_addr (read_mac chip_demo s))" for s
    by (simp add: read_mac_def rd_def chip_demo_def REG_RAL_def REG_RAH_def)
  have b: "fst (read_bar0 bar_demo nic_dev_demo []) \<noteq> 0"
    by (simp add: read_bar0_def config_read_def inl_def bar_demo_def)
  have "\<exists>s1 h1. nic_init bar_demo chip_demo [nic_dev_demo] (nic_off, pages_demo, []) = Some (nic_rings (s1, pages_demo, h1))"
    using m b unfolding nic_init_def Let_def split_def by (simp add: w find_nic_def nic_dev_demo_def) blast
  moreover have "\<exists>s p'. nic_rings (s1, pages_demo, h1) = (True, s, p', h1)" for s1 h1
    using pages_demo_ok by (intro nic_rings_ok) (simp_all add: pages_demo_def)
  ultimately show ?thesis by metis
qed

theorem nic_fifo_witness:
  "\<exists>s w. nic_up (nic_start s) \<and> w = card_rx [1, 2, 3] (nic_start s) \<and>
    (\<exists>waiting unsent. w_in w = w_got w @ waiting \<and> length waiting \<le> 7 \<and>
       w_queued w = w_wire w @ unsent \<and> length unsent \<le> 7)"
proof -
  obtain s where up: "nic_up (nic_start s)" unfolding nic_up_def using nic_demo pages_demo_ok(1) by blast
  have "reach nic_up nic_step (card_rx [1, 2, 3] (nic_start s))"
    by (rule reach_step, rule reach_init, rule up, rule nic_step.intros(1)) simp
  from nic_fifo [OF this] up show ?thesis by blast
qed

theorem nic_dma_pages_witness:
  "\<exists>s p' h. nic_init bar_demo chip_demo [nic_dev_demo] (nic_off, pages_demo, []) = Some (True, s, p', h) \<and>
    distinct (map (\<lambda>a. a div PAGE_SIZE) (rx_ring_phys s # rx_buf_phys s @ tx_ring_phys s # tx_buf_phys s))"
  using nic_demo nic_dma_pages [OF pages_demo_ok(1), of bar_demo chip_demo "[nic_dev_demo]" nic_off "[]"] by blast

theorem tx_ring_overrun_witness:
  "\<exists>s. let w = foldl (\<lambda>w data. driver_send data w) (nic_start s) (replicate 8 [0xFF])
    in w_queued w = replicate 8 [0xFF] \<and> card_tx w = w"
proof -
  obtain s p' h where i: "nic_init bar_demo chip_demo [nic_dev_demo] (nic_off, pages_demo, []) = Some (True, s, p', h)"
    using nic_demo by blast
  from tx_ring_overrun [OF pages_demo_ok(1) i, of "replicate 8 [0xFF]"] show ?thesis by auto
qed

end
