(* ===== verification/Cpu.thy ===== *)
theory Cpu
  imports KString
begin

text \<open>
  Processor identification, \<^verbatim>\<open>kernel/cpu.cpp\<close>. The instruction itself is the parameter \<open>cpuid\<close>, from a leaf
  to the registers A, B, C and D. The two text buffers end in a NUL byte; a text is what precedes the first one.
\<close>

type_synonym cpuid = "u32 \<Rightarrow> u32 \<times> u32 \<times> u32 \<times> u32"

record cpu_info =
  c_vendor :: string
  c_brand :: string
  c_family :: u32
  c_model :: u32
  c_stepping :: u32
  c_fpu :: bool
  c_pae :: bool
  c_apic :: bool
  c_mmx :: bool
  c_sse :: bool
  c_sse2 :: bool
  c_x2apic :: bool
  c_hypervisor :: bool

definition copy_reg :: "u32 \<Rightarrow> string" where
  "copy_reg r = map (\<lambda>i. byte_char (ucast (drop_bit (8 * i) r AND 0xFF))) [0..<4]"

definition c_text :: "string \<Rightarrow> string" where
  "c_text buf = takeWhile (\<lambda>c. c \<noteq> CHR 0x00) buf"

fun skip_spaces :: "string \<Rightarrow> string" where
  "skip_spaces (c # cs) = (if c = CHR '' '' then skip_spaces cs else c # cs)"
| "skip_spaces [] = []"

definition cpu_signature :: "u32 \<Rightarrow> u32 \<times> u32 \<times> u32" where
  "cpu_signature a =
     (let stepping = a AND 0xF;
          md = drop_bit 4 a AND 0xF;
          family = drop_bit 8 a AND 0xF;
          family = (if family = 0xF then family + (drop_bit 20 a AND 0xFF) else family);
          md = (if family = 0x6 \<or> family = 0xF then md OR push_bit 4 (drop_bit 16 a AND 0xF) else md)
      in (family, md, stepping))"

definition cpu_brand :: "cpuid \<Rightarrow> string" where
  "cpu_brand cpuid =
     (let (a, b, c, d) = cpuid 0x80000000
      in if a \<ge> 0x80000004
         then skip_spaces (c_text (concat (map (\<lambda>leaf. let (a, b, c, d) = cpuid (0x80000002 + of_nat leaf)
                in copy_reg a @ copy_reg b @ copy_reg c @ copy_reg d) [0..<3])))
         else ''Unknown CPU'')"

definition cpu_init :: "cpuid \<Rightarrow> cpu_info" where
  "cpu_init cpuid =
     (let (_, b0, c0, d0) = cpuid 0;
          (a, _, c, d) = cpuid 1;
          (family, md, stepping) = cpu_signature a
      in \<lparr>c_vendor = c_text (copy_reg b0 @ copy_reg d0 @ copy_reg c0), c_brand = cpu_brand cpuid,
          c_family = family, c_model = md, c_stepping = stepping,
          c_fpu = bit d 0, c_pae = bit d 6, c_apic = bit d 9, c_mmx = bit d 23, c_sse = bit d 25, c_sse2 = bit d 26,
          c_x2apic = bit c 21, c_hypervisor = bit c 31\<rparr>)"

section \<open>Signature\<close>

text \<open>
  The documented reading of the signature: the extended fields count when the base family is 15, the extended
  model also when it is 6.
\<close>

definition doc_signature :: "u32 \<Rightarrow> u32 \<times> u32 \<times> u32" where
  "doc_signature a =
     (let fam = drop_bit 8 a AND 0xF; md = drop_bit 4 a AND 0xF;
          ext_fam = drop_bit 20 a AND 0xFF; ext_md = drop_bit 16 a AND 0xF
      in (if fam = 0xF then fam + ext_fam else fam,
          if fam = 0x6 \<or> fam = 0xF then md OR push_bit 4 ext_md else md, a AND 0xF))"

lemma ext_family_sum: "15 + (x AND 0xFF :: u32) = 6 \<longleftrightarrow> False" "15 + (x AND 0xFF :: u32) = 15 \<longleftrightarrow> x AND 0xFF = 0"
proof -
  have "x AND 0xFF \<le> 0xFF" by (rule word_and_le1)
  then have "unat (15 + (x AND 0xFF)) = 15 + unat (x AND 0xFF)"
    by (simp add: unat_word_ariths word_le_nat_alt)
  then have "unat (15 + (x AND 0xFF)) \<noteq> unat (6 :: u32)" by simp
  then have "15 + (x AND 0xFF) \<noteq> 6" by metis
  then show "15 + (x AND 0xFF :: u32) = 6 \<longleftrightarrow> False" by simp
  show "15 + (x AND 0xFF :: u32) = 15 \<longleftrightarrow> x AND 0xFF = 0" by simp
qed

text \<open>The family and stepping are always the documented ones; the model is, except when the base family is 15 with a non-zero
  extended family: then the extended model is dropped and only the low four bits remain.
\<close>

theorem cpu_signature_vs_doc:
  "fst (cpu_signature a) = fst (doc_signature a) \<and> snd (snd (cpu_signature a)) = snd (snd (doc_signature a)) \<and>
   fst (snd (cpu_signature a)) =
     (if drop_bit 8 a AND 0xF = 0xF \<and> drop_bit 20 a AND 0xFF \<noteq> 0 then drop_bit 4 a AND 0xF
      else fst (snd (doc_signature a)))"
  using ext_family_sum [of "drop_bit 20 a"] by (auto simp: cpu_signature_def doc_signature_def Let_def)

theorem cpu_signature_vs_doc_witness:
  "cpu_signature 0x00A20F12 = (0x19, 0x1, 0x2) \<and> doc_signature 0x00A20F12 = (0x19, 0x21, 0x2) \<and>
   fst (snd (cpu_signature 0x00A20F12)) = drop_bit 4 0x00A20F12 AND 0xF"
proof -
  have "drop_bit 8 (0x00A20F12 :: u32) AND 0xF = 0xF" "drop_bit 20 (0x00A20F12 :: u32) AND 0xFF \<noteq> 0" by simp_all
  then have "fst (snd (cpu_signature 0x00A20F12)) = drop_bit 4 0x00A20F12 AND 0xF"
    using cpu_signature_vs_doc [of "0x00A20F12"] by simp
  then show ?thesis by (simp add: cpu_signature_def doc_signature_def)
qed

end
