(* ===== verification/Bitmaps.thy ===== *)
theory Bitmaps
  imports KString
begin

text \<open>
  The bitmap classes of \<^verbatim>\<open>kernel/bitmap.cpp\<close>: a bit array over 64-bit elements and the block allocator built on
  it. The field \<open>bm_size\<close> is documented as a number of bits but the bounds check multiplies it by 64, so a
  read or write past the elements is the value \<open>Inl OutOfBounds\<close>. \<^verbatim>\<open>sync_to_disk\<close> has no body in the
  repository: it is the parameter \<open>sync\<close>, a function on the rest of the world.
\<close>

record bits =
  bm_buffer :: "u64 list"
  bm_size :: u64

definition bm_get :: "u64 \<Rightarrow> bits \<Rightarrow> bool res" where
  "bm_get index b =
     (if index \<ge> bm_size b * 64 then Inr False
      else
        let element = unat (index div 64); bit_index = unat (index mod 64)
        in if element \<ge> length (bm_buffer b) then Inl OutOfBounds
           else Inr (bm_buffer b ! element AND push_bit bit_index 1 \<noteq> 0))"

definition bm_set :: "u64 \<Rightarrow> bool \<Rightarrow> bits \<Rightarrow> (bool \<times> bits) res" where
  "bm_set index val b =
     (if index \<ge> bm_size b * 64 then Inr (False, b)
      else
        let element = unat (index div 64); mask = push_bit (unat (index mod 64)) 1
        in if element \<ge> length (bm_buffer b) then Inl OutOfBounds
           else if val then Inr (True, b\<lparr>bm_buffer := (bm_buffer b)[element := bm_buffer b ! element OR mask]\<rparr>)
           else Inr (True, b\<lparr>bm_buffer := (bm_buffer b)[element := bm_buffer b ! element AND NOT mask]\<rparr>))"

text \<open>The loop over the blocks, \<open>n\<close> of them left.\<close>

fun block_loop :: "(u64 \<Rightarrow> 'w \<Rightarrow> 'w) \<Rightarrow> nat \<Rightarrow> u64 \<Rightarrow> bits \<times> 'w \<Rightarrow> (u64 \<times> bits \<times> 'w) res" where
  "block_loop sync 0 i (b, w) = Inr (0, b, w)"
| "block_loop sync (Suc n) i (b, w) =
     bind_res (bm_get i b) (\<lambda>used.
       if \<not> used then bind_res (bm_set i True b) (\<lambda>(_, b). Inr (i, b, sync i w))
       else block_loop sync n (i + 1) (b, w))"

definition allocate_block :: "(u64 \<Rightarrow> 'w \<Rightarrow> 'w) \<Rightarrow> u64 \<Rightarrow> bits \<times> 'w \<Rightarrow> (u64 \<times> bits \<times> 'w) res" where
  "allocate_block sync size_in_bits bw = block_loop sync (unat size_in_bits) 0 bw"

section \<open>With the size counted in elements\<close>

definition bm_ok :: "bits \<Rightarrow> bool" where
  "bm_ok b \<longleftrightarrow> length (bm_buffer b) = unat (bm_size b) \<and> unat (bm_size b) < 2 ^ 58"

definition bm_bit :: "bits \<Rightarrow> nat \<Rightarrow> bool" where
  "bm_bit b i \<longleftrightarrow> i < 64 * length (bm_buffer b) \<and> bit (bm_buffer b ! (i div 64)) (i mod 64)"

lemma size_bits: "bm_ok b \<Longrightarrow> unat (bm_size b * 64) = 64 * length (bm_buffer b)"
  by (simp add: bm_ok_def unat_word_ariths)

lemma index_parts: "unat (index div 64 :: u64) = unat index div 64" "unat (index mod 64 :: u64) = unat index mod 64"
  by (simp_all add: unat_div unat_mod)

lemma bm_get_ok: "bm_ok b \<Longrightarrow> bm_get index b = Inr (bm_bit b (unat index))"
proof -
  assume ok: "bm_ok b"
  have "index \<ge> bm_size b * 64 \<longleftrightarrow> 64 * length (bm_buffer b) \<le> unat index"
    by (simp add: word_le_nat_alt size_bits [OF ok])
  moreover have "unat index < 64 * length (bm_buffer b) \<Longrightarrow> unat index div 64 < length (bm_buffer b)"
    by (simp add: less_mult_imp_div_less mult.commute)
  moreover have "x AND push_bit n 1 \<noteq> 0 \<longleftrightarrow> bit x n" for x :: u64 and n
    by (simp add: push_bit_eq_mult and_exp_eq_0_iff_not_bit)
  ultimately show ?thesis by (auto simp: bm_get_def bm_bit_def Let_def index_parts not_le)
qed

lemma bm_set_ok:
  assumes ok: "bm_ok b" and i: "unat index < 64 * length (bm_buffer b)"
  shows "\<exists>b'. bm_set index v b = Inr (True, b') \<and> bm_ok b' \<and> bm_size b' = bm_size b \<and>
    (\<forall>j. bm_bit b' j = (if j = unat index then v else bm_bit b j))"
proof -
  have lt: "\<not> index \<ge> bm_size b * 64" using i by (simp add: word_le_nat_alt size_bits [OF ok])
  have e: "unat index div 64 < length (bm_buffer b)" using i by (simp add: less_mult_imp_div_less mult.commute)
  have m: "j mod 64 < 64" for j :: nat by simp
  have split: "j = unat index \<longleftrightarrow> j div 64 = unat index div 64 \<and> j mod 64 = unat index mod 64" for j
    by (metis div_mult_mod_eq)
  show ?thesis
    using lt e ok i m [of "unat index"]
    by (cases v) (auto simp: bm_set_def Let_def index_parts bm_ok_def bm_bit_def split nth_list_update bit_simps)
qed

lemma next_block: "unat i + Suc n \<le> 64 * length (bm_buffer b) \<Longrightarrow> bm_ok b \<Longrightarrow> unat (i + 1 :: u64) = Suc (unat i)"
  by (simp add: bm_ok_def unat_word_ariths)

lemma block_loop_spec:
  assumes "bm_ok b" "unat i + n \<le> 64 * length (bm_buffer b)"
  shows "case find (\<lambda>j. \<not> bm_bit b j) [unat i..<unat i + n] of
      Some j \<Rightarrow> \<exists>b'. block_loop sync n i (b, w) = Inr (of_nat j, b', sync (of_nat j) w) \<and> bm_ok b' \<and>
        bm_size b' = bm_size b \<and> (\<forall>k. bm_bit b' k \<longleftrightarrow> k = j \<or> bm_bit b k)
    | None \<Rightarrow> block_loop sync n i (b, w) = Inr (0, b, w)"
  using assms(2)
proof (induction n arbitrary: i)
  case (Suc n)
  have i: "unat i < 64 * length (bm_buffer b)" "(of_nat (unat i) :: u64) = i" using Suc.prems by simp_all
  define xs where "xs = [Suc (unat i)..<Suc (unat i) + n]"
  have u: "[unat i..<unat i + Suc n] = unat i # xs" by (simp add: upt_conv_Cons xs_def del: upt_Suc)
  show ?case
  proof (cases "bm_bit b (unat i)")
    case True
    have s: "unat (i + 1) = Suc (unat i)" by (rule next_block [OF Suc.prems assms(1)])
    have e: "block_loop sync (Suc n) i (b, w) = block_loop sync n (i + 1) (b, w)"
      using True by (simp add: bm_get_ok [OF assms(1)])
    have "unat (i + 1) + n \<le> 64 * length (bm_buffer b)" using Suc.prems s by simp
    from Suc.IH [OF this, unfolded s, folded xs_def] show ?thesis
      unfolding u e using True by simp
  next
    case False
    with bm_set_ok [OF assms(1) i(1), of True] show ?thesis
      unfolding u using i(2) by (auto simp: bm_get_ok [OF assms(1)])
  qed
qed simp

lemma allocate_spec:
  assumes "bm_ok b" "unat sz \<le> 64 * length (bm_buffer b)"
  shows "case find (\<lambda>j. \<not> bm_bit b j) [0..<unat sz] of
      Some j \<Rightarrow> \<exists>b'. allocate_block sync sz (b, w) = Inr (of_nat j, b', sync (of_nat j) w) \<and> bm_ok b' \<and>
        bm_size b' = bm_size b \<and> (\<forall>k. bm_bit b' k \<longleftrightarrow> k = j \<or> bm_bit b k)
    | None \<Rightarrow> allocate_block sync sz (b, w) = Inr (0, b, w)"
  using block_loop_spec [OF assms(1), of 0 "unat sz" sync w] assms(2)
  unfolding allocate_block_def unat_0 add_0 by blast

text \<open>With a size in elements and a disk no larger than the bitmap, allocation takes the first free block, sets its bit, leaves all
  others, and writes that block's part of the bitmap to the disk.
\<close>

theorem block_allocation:
  assumes "bm_ok b" "unat sz \<le> 64 * length (bm_buffer b)" "\<not> bm_bit b j" "j < unat sz" "\<forall>k<j. bm_bit b k"
  shows "\<exists>b'. allocate_block sync sz (b, w) = Inr (of_nat j, b', sync (of_nat j) w) \<and> bm_ok b' \<and>
    (\<forall>k. bm_bit b' k \<longleftrightarrow> k = j \<or> bm_bit b k)"
proof -
  have "find (\<lambda>j. \<not> bm_bit b j) [0..<unat sz] = Some j"
    using assms(3-5) by (auto simp: find_Some_iff intro!: exI [of _ j])
  with allocate_spec [OF assms(1,2), of sync w] show ?thesis by auto
qed

definition bits_demo :: bits where
  "bits_demo = \<lparr>bm_buffer = [5], bm_size = 1\<rparr>"

theorem block_allocation_witness:
  "\<exists>b'. allocate_block (\<lambda>i w. w @ [i]) 40 (bits_demo, []) = Inr (of_nat 1, b', [] @ [of_nat 1]) \<and> bm_ok b' \<and>
    (\<forall>k. bm_bit b' k \<longleftrightarrow> k = 1 \<or> bm_bit bits_demo k)"
  by (rule block_allocation) (simp_all add: bits_demo_def bm_ok_def bm_bit_def)

lemma block_loop_skip:
  assumes ok: "bm_ok b" and used: "\<forall>k<64 * length (bm_buffer b). bm_bit b k"
    and i: "unat i \<le> 64 * length (bm_buffer b)" "64 * length (bm_buffer b) < unat i + n"
  shows "block_loop sync n i (b, w) = Inr (of_nat (64 * length (bm_buffer b)), b, sync (of_nat (64 * length (bm_buffer b))) w)"
  using i
proof (induction n arbitrary: i)
  case (Suc n)
  show ?case
  proof (cases "unat i < 64 * length (bm_buffer b)")
    case True
    have s: "unat (i + 1) = Suc (unat i)" using next_block [of i 0 b] True ok by simp
    with Suc.IH [of "i + 1"] Suc.prems True used show ?thesis by (simp add: bm_get_ok [OF ok])
  next
    case False
    then have i: "unat i = 64 * length (bm_buffer b)" using Suc.prems(1) by simp
    then have "i = of_nat (64 * length (bm_buffer b))" by (metis of_nat_unat ucast_id)
    then show ?thesis using i by (simp add: bm_get_ok [OF ok] bm_bit_def bm_set_def word_le_nat_alt size_bits [OF ok])
  qed
qed simp

text \<open>Block 0 and a full disk cannot be told apart: both answers are 0.\<close>

theorem block_zero_ambiguous:
  assumes "bm_ok b" "bm_ok c" "unat sz \<le> 64 * length (bm_buffer b)" "unat sz \<le> 64 * length (bm_buffer c)" "0 < unat sz"
    and "\<forall>k<unat sz. bm_bit b k" "\<not> bm_bit c 0"
  shows "allocate_block sync sz (b, w) = Inr (0, b, w) \<and> (\<exists>c'. allocate_block sync sz (c, w) = Inr (0, c', sync 0 w))"
proof -
  have "find (\<lambda>j. \<not> bm_bit b j) [0..<unat sz] = None" using assms(6) by (auto simp: find_None_iff)
  moreover have "find (\<lambda>j. \<not> bm_bit c j) [0..<unat sz] = Some 0"
    using assms(5,7) by (simp add: upt_conv_Cons)
  ultimately show ?thesis
    using allocate_spec [OF assms(1,3), of sync w] allocate_spec [OF assms(2,4), of sync w] by auto
qed

theorem block_zero_ambiguous_witness:
  "allocate_block (\<lambda>i w. w @ [i]) 3 (\<lparr>bm_buffer = [7], bm_size = 1\<rparr>, []) = Inr (0, \<lparr>bm_buffer = [7], bm_size = 1\<rparr>, []) \<and>
   (\<exists>c'. allocate_block (\<lambda>i w. w @ [i]) 3 (\<lparr>bm_buffer = [6], bm_size = 1\<rparr>, []) = Inr (0, c', [] @ [0]))"
proof (rule block_zero_ambiguous)
  have "(7 :: u64) = mask 3" by (simp add: mask_eq_exp_minus_1)
  then have "bit (7 :: u64) k" if "k < 3" for k using that by (simp only: bit_mask_iff) simp
  then show "\<forall>k<unat (3 :: u64). bm_bit \<lparr>bm_buffer = [7], bm_size = 1\<rparr> k" by (simp add: bm_bit_def)
qed (simp_all add: bm_ok_def bm_bit_def)

text \<open>Where the disk has more blocks than the bitmap has bits, the blocks beyond it always look free and never become used, so the
  first of them is handed out again and again.
\<close>

theorem block_beyond_bitmap:
  assumes "bm_ok b" "\<forall>k<64 * length (bm_buffer b). bm_bit b k" "64 * length (bm_buffer b) < unat sz"
  shows "allocate_block sync sz (b, w) =
    Inr (of_nat (64 * length (bm_buffer b)), b, sync (of_nat (64 * length (bm_buffer b))) w)"
  unfolding allocate_block_def by (rule block_loop_skip [OF assms(1,2)]) (use assms(3) in simp_all)

theorem block_beyond_bitmap_witness:
  "allocate_block (\<lambda>i w. w @ [i]) 65 (\<lparr>bm_buffer = [0xFFFFFFFFFFFFFFFF], bm_size = 1\<rparr>, []) =
    Inr (of_nat (64 * length (bm_buffer \<lparr>bm_buffer = [0xFFFFFFFFFFFFFFFF], bm_size = 1\<rparr>)),
         \<lparr>bm_buffer = [0xFFFFFFFFFFFFFFFF], bm_size = 1\<rparr>, [] @ [of_nat (64 * length (bm_buffer \<lparr>bm_buffer = [0xFFFFFFFFFFFFFFFF], bm_size = 1\<rparr>))])"
proof (rule block_beyond_bitmap)
  have "(0xFFFFFFFFFFFFFFFF :: u64) = mask 64" by (simp add: mask_eq_exp_minus_1)
  then have "bit (0xFFFFFFFFFFFFFFFF :: u64) k" if "k < 64" for k
    using that by (simp only: bit_mask_iff) simp
  then show "\<forall>k<64 * length (bm_buffer \<lparr>bm_buffer = [0xFFFFFFFFFFFFFFFF], bm_size = 1\<rparr>).
      bm_bit \<lparr>bm_buffer = [0xFFFFFFFFFFFFFFFF], bm_size = 1\<rparr> k" by (simp add: bm_bit_def)
qed (simp_all add: bm_ok_def)

text \<open>With the size counted in bits, as its declaration says, an index past the end passes the bounds check.\<close>

theorem size_in_bits_overruns:
  assumes "64 * length (bm_buffer b) = unat (bm_size b)" "unat (bm_size b) < 2 ^ 58" "bm_size b \<le> i" "i < bm_size b * 64"
  shows "bm_get i b = Inl OutOfBounds \<and> bm_set i v b = Inl OutOfBounds"
proof -
  have "length (bm_buffer b) \<le> unat i div 64"
    using assms(1,3) by (simp add: word_le_nat_alt less_eq_div_iff_mult_less_eq mult.commute)
  moreover have "\<not> i \<ge> bm_size b * 64" using assms(4) by simp
  ultimately show ?thesis by (simp add: bm_get_def bm_set_def Let_def index_parts)
qed

theorem size_in_bits_overruns_witness:
  "bm_get 100 \<lparr>bm_buffer = [0], bm_size = 64\<rparr> = Inl OutOfBounds \<and> bm_set 100 True \<lparr>bm_buffer = [0], bm_size = 64\<rparr> = Inl OutOfBounds"
  by (rule size_in_bits_overruns) simp_all

end
