(* ===== verification/ShellState.thy ===== *)
theory ShellState
  imports Console Interrupts Input Serial Pci Cpu FileSys Users Clipboard Disk Heap Nic Cluster
begin

text \<open>
  The state of the shell (\<^verbatim>\<open>shell.cpp\<close>) and of the parts of the kernel its commands read or change, the
  prompts, and the splitting of a command line. Everything the shell sends to the console is kept,
  in order, in \<open>sh_out\<close>; \<^verbatim>\<open>con_run\<close> of the console draws it. What the subsystems print themselves
  (\<^verbatim>\<open>[PROC] ...\<close>, \<^verbatim>\<open>[DJOB] ...\<close>, the file-system log on the serial port) is not part of it.
  A copy into a fixed array is a \<^verbatim>\<open>strcpy_buf\<close> with the size of the array: a text that does not fit is the
  fault \<open>BufferOverflow\<close>.
\<close>

section \<open>State\<close>

datatype shell_mode =
    MODE_SIGNUP_USER | MODE_SIGNUP_PASS | MODE_SIGNUP_CONFIRM
  | MODE_ONBOARD_USECASE | MODE_ONBOARD_PACKAGES
  | MODE_LOGIN_USER | MODE_LOGIN_PASS | MODE_EDIT | MODE_SHELL

text \<open>Whether the processor still runs: \<^verbatim>\<open>halt\<close> and \<^verbatim>\<open>reboot\<close> do not return.\<close>

datatype power = Running | Halted | Rebooting

record sys =
  sh_line :: string
  sh_cwd :: string
  sh_mode :: shell_mode
  sh_efile :: string
  sh_ebuf :: string
  sh_puser :: string
  sh_ppass :: string
  sh_masked :: bool
  sh_fs :: fs
  sh_users :: ustate
  sh_clip :: clip
  sh_out :: "con_op list"
  kern :: kernel
  hp :: heap
  drv :: drive
  pcis :: "pci_device list"
  cpui :: cpu_info
  iqs :: irqs
  kb :: kbd
  mou :: mouse
  card :: nic
  ports :: hist
  ticks :: u64
  pow :: power

text \<open>
  What the shell does not control: the devices behind the ports, whether the network card takes a
  frame, whether the write of the user sector succeeds.
\<close>

record env =
  e_dev :: dev
  e_nic :: "u8 list \<Rightarrow> bool"
  e_wr :: bool

definition SHELL_BUFFER_SIZE :: nat where "SHELL_BUFFER_SIZE = 256"
definition EDIT_BUF :: nat where "EDIT_BUF = 1024"

section \<open>Console output\<close>

definition con :: "con_op \<Rightarrow> sys \<Rightarrow> sys" where
  "con op s = s\<lparr>sh_out := sh_out s @ [op]\<rparr>"

definition say :: "string list \<Rightarrow> sys \<Rightarrow> sys" where
  "say xs s = s\<lparr>sh_out := sh_out s @ map Print xs\<rparr>"

abbreviation line :: "string \<Rightarrow> string" where "line s \<equiv> CHR 0x0A # s"
abbreviation num32 :: "u32 \<Rightarrow> string" where "num32 v \<equiv> itoa (ucast v)"
abbreviation numn :: "nat \<Rightarrow> string" where "numn n \<equiv> itoa (of_nat n)"

text \<open>The part of an array up to its first zero byte, which is what a reader of a C string sees.\<close>

abbreviation cstr :: "string \<Rightarrow> string" where "cstr s \<equiv> takeWhile (\<lambda>c. c \<noteq> CHR 0x00) s"

text \<open>The lines and numbers of the shell fit its buffers of 16 and 32 bytes.\<close>

lemma num_bufs: "length (itoa n) < 32" "length (num32 v) < 16"
proof -
  show "length (itoa n) < 32" using itoa_len [of n] by simp
  have v: "unat v < 2 ^ 32" by (rule order_less_le_trans [OF unsigned_less]) simp
  then have "unat (ucast v :: u64) = unat v" by (simp add: unsigned_ucast_eq take_bit_nat_eq_self)
  with v have "unat (ucast v :: u64) < 10 ^ 10" by simp
  from itoa_len_small [OF this] show "length (num32 v) < 16" by simp
qed

section \<open>Paths and prompts\<close>

definition build_path :: "string \<Rightarrow> string \<Rightarrow> string res" where
  "build_path cwd name =
     (if name \<noteq> [] \<and> hd name = slash then strcpy_buf MAX_PATH_LEN name
      else bind_res (strcpy_buf MAX_PATH_LEN cwd) (\<lambda>p.
           bind_res (if \<not> str_eq cwd ''/'' then strcat_buf MAX_PATH_LEN p ''/'' else Inr p) (\<lambda>p.
           strcat_buf MAX_PATH_LEN p name)))"

definition get_hostname :: "sys \<Rightarrow> string" where
  "get_hostname s = (let n = local_name (k_cl (kern s)) in if n \<noteq> [] then n else ''quillos'')"

definition current_name :: "sys \<Rightarrow> string option" where
  "current_name s = map_option (\<lambda>i. uname (tab (sh_users s) ! i)) (cur_user (sh_users s))"

definition show_prompt :: "sys \<Rightarrow> sys" where
  "show_prompt s =
     say [line [], (case current_name s of Some n \<Rightarrow> n | None \<Rightarrow> ''quill''), ''@'', get_hostname s, '':'', sh_cwd s, '' > ''] s"

definition show_login_prompt :: "sys \<Rightarrow> sys" where
  "show_login_prompt s =
     (case sh_mode s of
        MODE_LOGIN_USER \<Rightarrow> (say [line ''Login: ''] s)\<lparr>sh_masked := False\<rparr>
      | MODE_LOGIN_PASS \<Rightarrow> (say [line ''Password: ''] s)\<lparr>sh_masked := True\<rparr>
      | _ \<Rightarrow> s)"

definition show_signup_prompt :: "sys \<Rightarrow> sys" where
  "show_signup_prompt s =
     (case sh_mode s of
        MODE_SIGNUP_USER \<Rightarrow>
          (say [line ''No users found. Let'' @ [CHR 0x27] @ ''s create your account.'', line ''Username: ''] s)\<lparr>sh_masked := False\<rparr>
      | MODE_SIGNUP_PASS \<Rightarrow> (say [line ''Password: ''] s)\<lparr>sh_masked := True\<rparr>
      | MODE_SIGNUP_CONFIRM \<Rightarrow> (say [line ''Confirm password: ''] s)\<lparr>sh_masked := True\<rparr>
      | _ \<Rightarrow> s)"

text \<open>The dash of the menu is a three-byte UTF-8 sequence in the source.\<close>

definition dash :: string where "dash = [CHR 0xE2, CHR 0x80, CHR 0x94]"

definition show_onboard_prompt :: "sys \<Rightarrow> sys" where
  "show_onboard_prompt s =
     (case sh_mode s of
        MODE_ONBOARD_USECASE \<Rightarrow>
          (say [line (line ''What will you use QuillOS for?''),
                line ''  1) Developer   '' @ dash @ '' toolchain, build tools'',
                line ''  2) Hosting     '' @ dash @ '' server, networking focus'',
                line ''  3) Cluster     '' @ dash @ '' distributed computing'',
                line ''  4) Daily       '' @ dash @ '' general-purpose'',
                line ''Choose [1-4]: ''] s)\<lparr>sh_masked := False\<rparr>
      | MODE_ONBOARD_PACKAGES \<Rightarrow>
          (say [line ''Install default packages for this usecase? [y/n]: ''] s)\<lparr>sh_masked := False\<rparr>
      | _ \<Rightarrow> s)"

definition enter_shell_mode :: "sys \<Rightarrow> sys" where
  "enter_shell_mode s =
     (let s = s\<lparr>sh_mode := MODE_SHELL, sh_masked := False\<rparr>;
          s = say [line (line ''Welcome to QuillOS'')] s;
          s = (case current_name s of Some n \<Rightarrow> say ['', '', n] s | None \<Rightarrow> s);
          s = say [''!'' @ line ''Type '' @ [CHR 0x27] @ ''help'' @ [CHR 0x27] @ '' for commands.''] s
      in show_prompt s)"

definition shell_init :: "sys \<Rightarrow> sys" where
  "shell_init s =
     (let s = s\<lparr>sh_line := [], sh_fs := fs_init\<rparr>;
          s = say [line ''================================'', line ''  QuillOS v0.1'', line ''================================''] s
      in if user_count (sh_users s) = 0 then show_signup_prompt (s\<lparr>sh_mode := MODE_SIGNUP_USER\<rparr>)
         else show_login_prompt (s\<lparr>sh_mode := MODE_LOGIN_USER\<rparr>))"

section \<open>Splitting a command line\<close>

text \<open>\<^verbatim>\<open>while (s[i] != ' ' && s[i] != '\0' && n < limit)\<close>: the word, and what is left.\<close>

fun scan_word :: "nat \<Rightarrow> string \<Rightarrow> string \<times> string" where
  "scan_word n [] = ([], [])"
| "scan_word 0 s = ([], s)"
| "scan_word (Suc n) (c # s) =
     (if c = CHR '' '' then ([], c # s) else let (w, r) = scan_word n s in (c # w, r))"

definition split_command :: "string \<Rightarrow> string \<times> string" where
  "split_command input =
     (let (cmd, rest) = scan_word 63 (skip_spaces input) in (cmd, take 191 (skip_spaces rest)))"

lemma scan_word_len: "length (fst (scan_word n s)) \<le> n"
  by (induction n s rule: scan_word.induct) (auto split: prod.splits)

lemma scan_word_append: "fst (scan_word n s) @ snd (scan_word n s) = s"
  by (induction n s rule: scan_word.induct) (auto split: prod.splits)

lemma scan_word_whole:
  "CHR '' '' \<notin> set w \<Longrightarrow> length w \<le> n \<Longrightarrow> r = [] \<or> hd r = CHR '' '' \<Longrightarrow> scan_word n (w @ r) = (w, r)"
proof (induction w arbitrary: n)
  case Nil
  then show ?case by (cases n; cases r) auto
next
  case (Cons c w)
  then obtain m where "n = Suc m" by (cases n) auto
  with Cons.IH [of m] Cons.prems show ?case by auto
qed

lemma split_command_lens: "length (fst (split_command s)) \<le> 63" "length (snd (split_command s)) \<le> 191"
  using scan_word_len [of 63 "skip_spaces s"] by (auto simp: split_command_def split: prod.splits)

lemma skip_spaces_id: "s = [] \<or> hd s \<noteq> CHR '' '' \<Longrightarrow> skip_spaces s = s"
  by (cases s) auto

text \<open>A line \<^verbatim>\<open>cmd arg\<close> is split at the first space.\<close>

lemma split_command_line:
  assumes "CHR '' '' \<notin> set c" "c \<noteq> []" "length c \<le> 63" "a = [] \<or> hd a \<noteq> CHR '' ''" "length a \<le> 191"
  shows "split_command (c @ '' '' @ a) = (c, a)"
proof -
  have "hd (c @ '' '' @ a) \<noteq> CHR '' ''" using assms(1,2) by (cases c) auto
  then have "skip_spaces (c @ '' '' @ a) = c @ '' '' @ a" by (intro skip_spaces_id) auto
  moreover have "scan_word 63 (c @ '' '' @ a) = (c, '' '' @ a)" by (rule scan_word_whole) (use assms in auto)
  ultimately show ?thesis using assms(4,5) by (simp add: split_command_def skip_spaces_id)
qed

end
