(* ===== verification/ShellInfo.thy ===== *)
theory ShellInfo
  imports ShellState
begin

text \<open>
  The commands of \<^verbatim>\<open>process_command\<close> that only print: each is the list of strings it hands to
  \<^verbatim>\<open>console_print\<close>, in order, as a function of the state. The readers of the heap's free list are
  options, \<open>None\<close> when the list is cyclic and the walk does not end.
\<close>

section \<open>Help, version, time, directory\<close>

definition help_text :: "string list" where
  "help_text = map line
     [''Commands:'',
      ''  help          - Show this help'', ''  cls           - Clear screen'', ''  ver           - Show version'',
      ''  uptime        - Show uptime'', ''  halt          - Halt system'', ''  reboot        - Reboot system'',
      ''  color <name>  - Change background'', ''  ls [path]     - List directory'', ''  mkdir <name>  - Create directory'',
      ''  touch <name>  - Create file'', ''  cat <name>    - Read file'', ''  write <name> <text> - Write to file'',
      ''  nano <name>   - Edit a text file'', ''  rm <name>     - Remove file/dir'', ''  pwd           - Print working dir'',
      ''  cd <path>     - Change directory'', ''  meminfo       - Memory statistics'', ''  ps            - List tasks'',
      ''  lspci         - List PCI devices'', ''  diskinfo      - Disk drive info'',
      ''  readsec <lba> - Read sector as ASCII'', ''  hexdump <lba> - Hex dump a sector'',
      ''  netinfo       - Network/NIC status'', ''  discover      - Broadcast cluster discovery'',
      ''  peers         - List cluster peers'', ''  cluster       - Cluster overview'',
      ''  rjob <ip> <n1 n2..> - Send sum job to peer'', ''  run <type> <args..> - Auto-schedule a job'',
      ''  jobs              - Show job history'', ''  spawn <type>      - Start a process'',
      ''  procs             - List all processes'', ''  specs             - Show system specifications'',
      ''  whoami            - Show current user'', ''  logout            - Log out current user'',
      ''  mouseinfo         - Mouse position and buttons'', ''  copy <text>       - Copy text to clipboard'',
      ''  copyf <file>      - Copy file contents to clipboard'', ''  paste             - Print clipboard'',
      ''  pastef <file>     - Write clipboard to file'', ''  cut <file>        - Copy file, then remove it'',
      ''  pasteh            - Read a line from host terminal'', ''  intinfo       - Interrupt statistics'',
      ''  heapinfo      - Heap allocator stats'', ''  heaptest      - Test kmalloc/kfree'',
      ''  spawn <name>  - Spawn a test task'', ''  kill <slot>   - Kill task by slot'']"

definition ver_text :: "string list" where "ver_text = [line ''QuillOS v0.1'']"

definition uptime_text :: "sys \<Rightarrow> string list" where
  "uptime_text s = [line ''Uptime: '', itoa (ticks s div 1000), '' seconds.'']"

definition pwd_text :: "sys \<Rightarrow> string list" where
  "pwd_text s = [line [], sh_cwd s]"

definition whoami_text :: "sys \<Rightarrow> string list" where
  "whoami_text s = [line [], (case current_name s of Some n \<Rightarrow> n | None \<Rightarrow> ''(no user)'')]"

section \<open>Memory\<close>

definition meminfo_text :: "sys \<Rightarrow> string list option" where
  "meminfo_text s =
     (let h = hp s; p = hpmm h in do {
        free \<leftarrow> heap_free_bytes h;
        blocks \<leftarrow> heap_block_count h;
        largest \<leftarrow> heap_largest_free h;
        Some [line ''Physical Memory (PMM):'',
              line ''  Total:  '', itoa (total p), '' pages ('', itoa (pmm_total_bytes p div 1024), '' KB)'',
              line ''  Used:   '', itoa (used p), '' pages'',
              line ''  Free:   '', itoa (pmm_free_pages p), '' pages'',
              line ''Kernel Heap:'',
              line ''  Size:   '', numn (committed h div 1024), '' KB'',
              line ''  Used:   '', numn (alloc_bytes h), '' bytes ('', numn (alloc_count h), '' allocs)'',
              line ''  Free:   '', numn free, '' bytes'',
              line ''  Blocks: '', numn blocks,
              line ''  Largest free: '', numn largest, '' bytes''] })"

definition heapinfo_text :: "sys \<Rightarrow> string list option" where
  "heapinfo_text s =
     (let h = hp s in do {
        free \<leftarrow> heap_free_bytes h;
        blocks \<leftarrow> heap_block_count h;
        largest \<leftarrow> heap_largest_free h;
        Some [line ''Heap Allocator Details:'',
              line ''  Committed:     '', numn (committed h), '' bytes'',
              line ''  Allocated:     '', numn (alloc_bytes h), '' bytes'',
              line ''  Free:          '', numn free, '' bytes'',
              line ''  Live allocs:   '', numn (alloc_count h),
              line ''  Total blocks:  '', numn blocks,
              line ''  Largest free:  '', numn largest, '' bytes''] })"

section \<open>Tasks and processes\<close>

definition task_row :: "sys \<Rightarrow> nat \<Rightarrow> string list" where
  "task_row s t =
     (let sc = k_sc (kern s); task = tasks sc ! t
      in if tstate task = TASK_UNUSED then []
         else [line ''  '', numn t, ''     '', num32 (tid task), ''   ''] @
              (case tstate task of TASK_RUNNING \<Rightarrow> [''running  ''] | TASK_READY \<Rightarrow> [''ready    '']
               | TASK_SLEEPING \<Rightarrow> [''sleeping ''] | TASK_DEAD \<Rightarrow> [''dead     ''] | TASK_UNUSED \<Rightarrow> []) @
              [itoa (ticks_used task), ''  '', tname task] @ (if t = cur sc then ['' *''] else []))"

definition ps_text :: "sys \<Rightarrow> string list" where
  "ps_text s =
     [line ''Tasks ('', numn (task_count (k_sc (kern s))), '' active):'', line ''  SLOT  ID  STATE     TICKS   NAME''] @
     concat (map (task_row s) [0..<MAX_TASKS])"

text \<open>\<^verbatim>\<open>10.0.0.\<close> and the last byte of an address in network order.\<close>

definition host_byte :: "u32 \<Rightarrow> string" where
  "host_byte ip = num32 (htonl ip AND 0xFF)"

definition dotted :: "u32 \<Rightarrow> string list" where
  "dotted ip =
     (let h = htonl ip
      in [num32 (drop_bit 24 h AND 0xFF), ''.'', num32 (drop_bit 16 h AND 0xFF), ''.'',
          num32 (drop_bit 8 h AND 0xFF), ''.'', num32 (h AND 0xFF)])"

definition proc_row :: "proc \<Rightarrow> string list" where
  "proc_row p =
     [line ''  '', num32 (p_pid p), ''    '', proc_type_name (p_type p), ''  ''] @
     (case p_state p of PROC_RUNNING \<Rightarrow> [''  running ''] | PROC_SLEEPING \<Rightarrow> [''  sleeping'']
      | PROC_EXITING \<Rightarrow> [''  exiting ''] | _ \<Rightarrow> []) @
     [''  ''] @ (if p_node p = 0 then [''local     ''] else [''10.0.0.'', host_byte (p_node p), ''  '']) @
     [itoa (p_cpu p), ''  '', p_name p]"

definition procs_text :: "sys \<Rightarrow> string list" where
  "procs_text s =
     (let pt = k_pt (kern s); cnt = proc_count pt
      in [line ''Processes ('', numn cnt, ''):''] @
         (if cnt = 0 then [line ''  No processes running. Try '' @ [CHR 0x27] @ ''spawn counter'' @ [CHR 0x27] @ ''.'']
          else (line ''  PID  TYPE     STATE     NODE      TICKS  NAME'') #
               concat (map (\<lambda>p. case proc_by_index p pt of None \<Rightarrow> [] | Some pi \<Rightarrow> proc_row pi) [0..<cnt])))"

section \<open>Devices\<close>

definition pci_row :: "pci_device \<Rightarrow> string list" where
  "pci_row v =
     [line ''  '', itoa (ucast (d_bus v)), '':'', itoa (ucast (d_dev v)), ''    '', itoa_hex (ucast (vendor_id v)), ''  '',
      itoa_hex (ucast (device_id v)), ''  '', itoa_hex (ucast (class_code v)), '':'', itoa_hex (ucast (sub_class v))]"

definition lspci_text :: "sys \<Rightarrow> string list" where
  "lspci_text s =
     (let count = get_count (pcis s)
      in [line ''PCI Devices ('', numn count, ''):'', line ''  BUS:DEV  VENDOR  DEVICE  CLASS''] @
         concat (map (\<lambda>p. case get_device p (pcis s) of None \<Rightarrow> [] | Some v \<Rightarrow> pci_row v) [0..<count]))"

definition diskinfo_text :: "sys \<Rightarrow> string list" where
  "diskinfo_text s =
     (let info = drv s
      in if present info
         then [line ''ATA Disk (Primary Bus, PIO Mode):'', line ''  Model:   '', model info, line ''  Serial:  '', serial info,
               line ''  Sectors: '', num32 (total_sectors info), line ''  Size:    '', num32 (size_mb info), '' MB'',
               line ''  LBA:     '', if lba_supported info then ''yes'' else ''no'']
         else [line ''No ATA drive detected''])"

definition mac_text6 :: "u8 list \<Rightarrow> string list" where
  "mac_text6 mac = map (\<lambda>m. [hex_digit (unat (drop_bit 4 (mac ! m))), hex_digit (unat (mac ! m AND 0xF))] @
                              (if m < 5 then '':'' else [])) [0..<6]"

definition netinfo_text :: "sys \<Rightarrow> string list" where
  "netinfo_text s =
     (let n = k_net (kern s)
      in if net_ready n
         then [line ''Network (E1000 NIC):'', line ''  IP:   ''] @ dotted (our_ip n) @ [line ''  MAC:  ''] @ mac_text6 (our_mac n) @
              [line ''  Sent: '', itoa (pkts_sent n), line ''  Recv: '', itoa (pkts_recv n)]
         else [line ''Network: Not available''])"

definition mouseinfo_text :: "sys \<Rightarrow> string list" where
  "mouseinfo_text s =
     (let m = mou s; b = buttons m
      in if \<not> mouse_ready m then [line ''Mouse: not detected'']
         else [line ''Mouse:'', line ''  X:       '', itoa (of_int (mouse_x m)), line ''  Y:       '', itoa (of_int (mouse_y m)),
               line ''  Buttons: ''] @
              (if b AND 0x01 \<noteq> 0 then [''LEFT ''] else []) @ (if b AND 0x02 \<noteq> 0 then [''RIGHT ''] else []) @
              (if b AND 0x04 \<noteq> 0 then [''MIDDLE ''] else []) @ (if b = 0 then [''(none)''] else []) @
              [line ''  Packets: '', itoa (packet_count m)])"

definition irq_names :: "string list" where
  "irq_names = [''Timer'', ''Keyboard'', ''Cascade'', ''COM2'', ''COM1'', ''LPT2'', ''Floppy'', ''LPT1/Spurious'',
                ''RTC'', ''ACPI'', ''Open'', ''Open'', ''Mouse'', ''FPU'', ''ATA Primary'', ''ATA Secondary'']"

definition intinfo_text :: "sys \<Rightarrow> string list" where
  "intinfo_text s =
     [line ''Interrupt System:'', line ''  CPU exceptions caught: '', itoa (isr_get_total_exceptions (iqs s)), line ''  IRQ counts:''] @
     concat (map (\<lambda>irq. let count = irq_get_count (of_nat irq) (iqs s)
                        in if count > 0 then [line ''    IRQ '', numn irq, '' ('', irq_names ! irq, ''): '', itoa count] else [])
       [0..<16])"

section \<open>Cluster and jobs\<close>

definition peers_text :: "sys \<Rightarrow> string list" where
  "peers_text s =
     (let c = k_cl (kern s); cnt = peer_count c
      in [line ''Cluster peers ('', numn cnt, ''):''] @
         (if cnt = 0 then [line ''  No peers discovered yet. Try '' @ [CHR 0x27] @ ''discover'' @ [CHR 0x27] @ ''.''] else []) @
         concat (map (\<lambda>p. case get_peer p c of None \<Rightarrow> [] | Some peer \<Rightarrow> [line ''  '', n_name peer, ''  ''] @ dotted (n_ip peer))
                  [0..<cnt]))"

definition cluster_text :: "sys \<Rightarrow> string list" where
  "cluster_text s =
     (let c = k_cl (kern s); jr = last_result c
      in [line ''Cluster Status:'', line ''  Local: '', local_name c, '' (''] @ dotted (local_ip c) @
         ['')'', line ''  Peers: '', numn (peer_count c)] @
         (if jr_completed jr then [line ''  Last job result: '', num32 (jr_result jr)] else []))"

definition job_row :: "job \<Rightarrow> string list" where
  "job_row j =
     [line ''  '', num32 (j_id j), ''   '', job_type_name (j_type j), ''  ''] @
     (case j_status j of STATUS_PENDING \<Rightarrow> [''  pending  ''] | STATUS_RUNNING \<Rightarrow> [''  running  '']
      | STATUS_COMPLETED \<Rightarrow> [''  done     ''] | STATUS_FAILED \<Rightarrow> [''  FAILED   '']) @
     (if j_target j = 0 then [''  local    ''] else [''  10.0.0.'', host_byte (j_target j), ''  '']) @
     (if j_status j = STATUS_COMPLETED then [num32 (j_result j)] else [])"

definition jobs_text :: "sys \<Rightarrow> string list" where
  "jobs_text s =
     (let d = k_dj (kern s); count = hist_count d
      in [line ''Job History ('', numn count, ''):'', line ''  ID  TYPE     STATUS     WHERE    RESULT''] @
         concat (map (\<lambda>i. case get_history i d of None \<Rightarrow> [] | Some j \<Rightarrow> if j_id j = 0 then [] else job_row j) [0..<count]) @
         [line ''  Local load: '', numn (task_count (k_sc (kern s))), '' tasks''])"

section \<open>System specifications\<close>

definition specs_cpu :: "cpu_info \<Rightarrow> string list" where
  "specs_cpu ci =
     [line (line ''[CPU]''), line ''  Vendor:  '', c_vendor ci, line ''  Brand:   '', c_brand ci,
      line ''  Family:  '', num32 (c_family ci), ''  Model: '', num32 (c_model ci), ''  Stepping: '', num32 (c_stepping ci),
      line ''  Features:''] @
     (if c_fpu ci then ['' FPU''] else []) @ (if c_mmx ci then ['' MMX''] else []) @ (if c_sse ci then ['' SSE''] else []) @
     (if c_sse2 ci then ['' SSE2''] else []) @ (if c_pae ci then ['' PAE''] else []) @ (if c_apic ci then ['' APIC''] else []) @
     (if c_x2apic ci then ['' x2APIC''] else []) @ (if c_hypervisor ci then ['' HV''] else [])"

definition specs_memory :: "heap \<Rightarrow> string list" where
  "specs_memory h =
     (let p = hpmm h
      in [line (line ''[Memory]''), line ''  Total: '', itoa (pmm_total_bytes p div 1024), '' KB'',
          line ''  Used:  '', itoa (used p * 4), '' KB'', line ''  Free:  '', itoa (pmm_free_pages p * 4), '' KB'',
          line ''  Heap:  '', numn (committed h div 1024), '' KB committed, '', numn (alloc_bytes h), '' bytes in use''])"

definition specs_disk :: "drive \<Rightarrow> string list" where
  "specs_disk di =
     (line (line ''[Disk]'')) #
     (if present di
      then [line ''  Model:   '', model di, line ''  Sectors: '', num32 (total_sectors di),
            line ''  Size:    '', num32 (size_mb di), '' MB'']
      else [line ''  (none detected)''])"

definition specs_network :: "net \<Rightarrow> string list" where
  "specs_network n =
     (line (line ''[Network]'')) #
     (if net_ready n
      then [line ''  IP:  ''] @ dotted (our_ip n) @ [line ''  MAC: ''] @ mac_text6 (our_mac n) @
           [line ''  Packets: sent '', itoa (pkts_sent n), '', recv '', itoa (pkts_recv n)]
      else [line ''  (no NIC)''])"

definition specs_cluster :: "cluster \<Rightarrow> string list" where
  "specs_cluster c =
     [line (line ''[Cluster]''), line ''  Local node: '', local_name c, line ''  Peers:      '', numn (peer_count c)] @
     concat (map (\<lambda>p. case get_peer p c of None \<Rightarrow> []
        | Some peer \<Rightarrow> [line ''    - '', n_name peer, '' (10.0.0.'', host_byte (n_ip peer), '')'']) [0..<peer_count c])"

definition specs_user :: "ustate \<Rightarrow> string list" where
  "specs_user us =
     (line (line ''[User]'')) #
     (case cur_user us of None \<Rightarrow> []
      | Some i \<Rightarrow> [line ''  Name:    '', uname (tab us ! i), line ''  Usecase: '', usecase_name (usecase (tab us ! i))])"

definition specs_text :: "sys \<Rightarrow> string list" where
  "specs_text s =
     [line ''============ SYSTEM SPECS ============'', line ''Host: '', get_hostname s] @
     specs_cpu (cpui s) @ specs_memory (hp s) @ specs_disk (drv s) @ specs_network (k_net (kern s)) @
     specs_cluster (k_cl (kern s)) @ specs_user (sh_users s) @
     [line (line ''[Uptime] ''), itoa (ticks s div 1000), '' seconds'', line ''======================================'']"

end
