(* ===== verification/ShellCmd.thy ===== *)
theory ShellCmd
  imports ShellInfo "HOL-Library.Monad_Syntax"
begin

text \<open>
  The commands of \<^verbatim>\<open>process_command\<close> that change state or can fail, and the dispatch. A result is
  \<open>None\<close> when the command does not return, \<open>Some (Inl f)\<close> when it writes outside a buffer, and
  \<open>Some (Inr s)\<close> otherwise.
\<close>

section \<open>Screen\<close>

definition cmd_cls :: "sys \<Rightarrow> sys" where
  "cmd_cls s = shell_init (con con_op.Clear s)"

definition color_of :: "string \<Rightarrow> u32 option" where
  "color_of arg =
     (if str_eq arg ''red'' then Some 0xFF0000 else if str_eq arg ''blue'' then Some 0x0000FF
      else if str_eq arg ''green'' then Some 0x00FF00 else if str_eq arg ''dark'' then Some 0x111111 else None)"

definition cmd_color :: "string \<Rightarrow> sys \<Rightarrow> sys" where
  "cmd_color arg s =
     (case color_of arg of
        None \<Rightarrow> say [line ''Try: red, blue, green, or dark''] s
      | Some v \<Rightarrow> say [line ''Background updated.''] (con con_op.Clear (con (SetBg v) s)))"

section \<open>Files\<close>

definition cmd_cd :: "string \<Rightarrow> sys \<Rightarrow> sys res" where
  "cmd_cd arg s =
     (if fs_strlen arg = 0 then Inr (s\<lparr>sh_cwd := ''/''\<rparr>)
      else if str_eq arg ''/'' then Inr (s\<lparr>sh_cwd := ''/''\<rparr>)
      else bind_res (build_path (sh_cwd s) arg) (\<lambda>path.
           bind_res (ls (Some path) 16 (sh_fs s)) (\<lambda>(result, tmp).
           if str_eq path ''/'' \<or> result \<ge> 0
           then bind_res (strcpy_buf MAX_PATH_LEN path) (\<lambda>p. Inr (s\<lparr>sh_cwd := p\<rparr>))
           else Inr (say [line ''No such directory: '', arg] s))))"

definition cmd_ls :: "string \<Rightarrow> sys \<Rightarrow> sys res" where
  "cmd_ls arg s =
     bind_res (if fs_strlen arg > 0 then build_path (sh_cwd s) arg else strcpy_buf MAX_PATH_LEN (sh_cwd s)) (\<lambda>path.
     bind_res (ls (Some path) 1024 (sh_fs s)) (\<lambda>(count, listing).
     Inr (if count < 0 then say [line ''Cannot list: '', path] s
          else if count = 0 then say [line ''(empty)''] s
          else say [line [], listing] s)))"

text \<open>\<^verbatim>\<open>mkdir\<close>, \<^verbatim>\<open>touch\<close> and \<^verbatim>\<open>rm\<close> have the same shape: usage, path, operation, one of two messages.\<close>

definition path_command ::
  "(string option \<Rightarrow> fs \<Rightarrow> (bool \<times> fs) res) \<Rightarrow> string \<Rightarrow> string \<Rightarrow> string \<Rightarrow> string \<Rightarrow> sys \<Rightarrow> sys res" where
  "path_command f usage good bad arg s =
     (if fs_strlen arg = 0 then Inr (say [line usage] s)
      else bind_res (build_path (sh_cwd s) arg) (\<lambda>path.
           bind_res (f (Some path) (sh_fs s)) (\<lambda>(ok, fs).
           Inr (say [line (if ok then good else bad), arg] (s\<lparr>sh_fs := fs\<rparr>)))))"

definition cmd_mkdir :: "string \<Rightarrow> sys \<Rightarrow> sys res" where
  "cmd_mkdir = path_command mkdir ''Usage: mkdir <name>'' ''Created directory: '' ''Failed to create directory: ''"

definition cmd_touch :: "string \<Rightarrow> sys \<Rightarrow> sys res" where
  "cmd_touch = path_command touch ''Usage: touch <name>'' ''Created file: '' ''Failed to create file: ''"

definition cmd_rm :: "string \<Rightarrow> sys \<Rightarrow> sys res" where
  "cmd_rm = path_command rm ''Usage: rm <name>'' ''Removed: '' ''Failed to remove: ''"

definition cmd_cat :: "string \<Rightarrow> sys \<Rightarrow> sys res" where
  "cmd_cat arg s =
     (if fs_strlen arg = 0 then Inr (say [line ''Usage: cat <name>''] s)
      else bind_res (build_path (sh_cwd s) arg) (\<lambda>path.
           bind_res (read_file (Some path) 1024 (sh_fs s)) (\<lambda>(ok, content).
           Inr (if ok then say [line [], if fs_strlen (cstr content) > 0 then cstr content else ''(empty file)''] s
                else say [line ''Cannot read: '', arg] s))))"

definition split_write :: "string \<Rightarrow> string \<times> string" where
  "split_write arg = (let (filename, rest) = scan_word 63 arg in (filename, take 127 (skip_spaces rest)))"

definition cmd_write :: "string \<Rightarrow> sys \<Rightarrow> sys res" where
  "cmd_write arg s =
     (if fs_strlen arg = 0 then Inr (say [line ''Usage: write <name> <content>''] s)
      else
        let (filename, content) = split_write arg
        in if fs_strlen filename = 0 \<or> fs_strlen content = 0 then Inr (say [line ''Usage: write <name> <content>''] s)
           else bind_res (build_path (sh_cwd s) filename) (\<lambda>path.
                bind_res (write_file (Some path) (Some content) (sh_fs s)) (\<lambda>(ok, fs).
                Inr (say [line (if ok then ''Wrote to: '' else ''Failed to write: ''), filename] (s\<lparr>sh_fs := fs\<rparr>)))))"

definition load_text :: "bool \<times> string \<Rightarrow> string" where
  "load_text r = (if fst r then take 1023 (cstr (snd r)) else [])"

definition cmd_nano :: "string \<Rightarrow> sys \<Rightarrow> sys res" where
  "cmd_nano arg s =
     (if fs_strlen arg = 0 then Inr (say [line ''Usage: nano <filename>''] s)
      else bind_res (build_path (sh_cwd s) arg) (\<lambda>path.
           bind_res (strcpy_buf 64 path) (\<lambda>fname.
           bind_res (read_file (Some path) 1024 (sh_fs s)) (\<lambda>r.
           let s = s\<lparr>sh_efile := fname, sh_ebuf := load_text r\<rparr>;
               s = say [line ''--- nano: '', arg, '' ---'',
                        line ''[Ctrl+X = save & exit | Ctrl+S = save | Ctrl+Q = quit | Backspace]'', line []] s;
               s = s\<lparr>sh_out := sh_out s @ map Putc (sh_ebuf s)\<rparr>
           in Inr (s\<lparr>sh_mode := MODE_EDIT\<rparr>)))))"

section \<open>Clipboard\<close>

definition copied :: "string \<Rightarrow> sys \<Rightarrow> string list" where
  "copied verb s = [line verb, num32 (of_nat (clip_size (sh_clip s)))]"

definition cmd_copy :: "string \<Rightarrow> sys \<Rightarrow> sys" where
  "cmd_copy arg s =
     (if fs_strlen arg = 0 then say [line ''Usage: copy <text>''] s
      else let s = s\<lparr>sh_clip := clip_set_str (Some arg) (sh_clip s)\<rparr>
           in say (copied ''Copied '' s @ ['' bytes to clipboard'']) s)"

definition cmd_copyf :: "string \<Rightarrow> sys \<Rightarrow> sys res" where
  "cmd_copyf arg s =
     (if fs_strlen arg = 0 then Inr (say [line ''Usage: copyf <file>''] s)
      else bind_res (build_path (sh_cwd s) arg) (\<lambda>path.
           bind_res (read_file (Some path) 1024 (sh_fs s)) (\<lambda>(ok, content).
           if ok then let s = s\<lparr>sh_clip := clip_set_str (Some (cstr content)) (sh_clip s)\<rparr>
                      in Inr (say (copied ''Copied '' s @ ['' bytes from '', arg]) s)
           else Inr (say [line ''Cannot read: '', arg] s))))"

definition cmd_paste :: "sys \<Rightarrow> sys" where
  "cmd_paste s =
     (if clip_empty (sh_clip s) then say [line ''(clipboard empty)''] s else say [line [], clip_get (sh_clip s)] s)"

definition cmd_pastef :: "string \<Rightarrow> sys \<Rightarrow> sys res" where
  "cmd_pastef arg s =
     (if fs_strlen arg = 0 then Inr (say [line ''Usage: pastef <file>''] s)
      else if clip_empty (sh_clip s) then Inr (say [line ''Clipboard is empty''] s)
      else bind_res (build_path (sh_cwd s) arg) (\<lambda>path.
           bind_res (write_file (Some path) (Some (clip_get (sh_clip s))) (sh_fs s)) (\<lambda>(ok, fs).
           let s = s\<lparr>sh_fs := fs\<rparr>
           in Inr (if ok then say (copied ''Wrote '' s @ ['' bytes to '', arg]) s
                   else say [line ''Cannot write: '', arg] s))))"

text \<open>The result of \<^verbatim>\<open>rm\<close> is not looked at.\<close>

definition cmd_cut :: "string \<Rightarrow> sys \<Rightarrow> sys res" where
  "cmd_cut arg s =
     (if fs_strlen arg = 0 then Inr (say [line ''Usage: cut <file>''] s)
      else bind_res (build_path (sh_cwd s) arg) (\<lambda>path.
           bind_res (read_file (Some path) 1024 (sh_fs s)) (\<lambda>(ok, content).
           if ok then let s = s\<lparr>sh_clip := clip_set_str (Some (cstr content)) (sh_clip s)\<rparr>
                      in bind_res (rm (Some path) (sh_fs s)) (\<lambda>(_, fs).
                         Inr (say (copied ''Cut '' s @ ['' bytes from '', arg, '' (file removed)'']) (s\<lparr>sh_fs := fs\<rparr>)))
           else Inr (say [line ''Cannot cut: '', arg] s))))"

text \<open>
  The shell runs inside the keyboard interrupt, with interrupts off: the tick counter that
  \<^verbatim>\<open>Serial::read_line\<close> compares with its timeout stands still.
\<close>

definition cmd_pasteh :: "env \<Rightarrow> sys \<Rightarrow> sys option" where
  "cmd_pasteh e s0 =
     (let s = say [line ''Reading from host terminal (type text there, press Enter; 10s timeout)...''] s0
      in do {
        (hbuf, h) \<leftarrow> read_line (e_dev e) (\<lambda>_. ticks s) 512 10000 (ports s);
        let s = s\<lparr>ports := h\<rparr>;
        Some (if hbuf = [] then say [line ''(nothing received)''] s
              else say [line ''Received '', num32 (of_nat (length hbuf)), '' bytes: '', cstr hbuf, line ''(now in clipboard)'']
                     (s\<lparr>sh_clip := clip_set (Some hbuf) (length hbuf) (sh_clip s)\<rparr>)) })"

section \<open>Memory\<close>

definition ok_text :: "nat \<Rightarrow> string" where
  "ok_text p = (if p \<noteq> 0 then '' OK'' else '' FAIL'')"

definition cmd_heaptest :: "sys \<Rightarrow> sys option" where
  "cmd_heaptest s0 = do {
     let s = say [line ''Running heap allocator test...'', line ''  Test 1: kmalloc(64)...''] s0;
     (p1, h) \<leftarrow> kmalloc 64 (hp s);
     let s = say [ok_text p1, line ''  Test 2: kmalloc(256)...''] s;
     (p2, h) \<leftarrow> kmalloc 256 h;
     let s = say [ok_text p2, line ''  Test 3: kmalloc(1024)...''] s;
     (p3, h) \<leftarrow> kmalloc 1024 h;
     let s = say [ok_text p3, line ''  Allocs live: '', numn (alloc_count h), line ''  Test 4: kfree(p2)...''] s;
     h \<leftarrow> kfree p2 h;
     let s = say ['' OK'', line ''  Test 5: kmalloc(128) into freed space...''] s;
     (p4, h) \<leftarrow> kmalloc 128 h;
     let s = say [ok_text p4, line ''  Test 6: Free all...''] s;
     h \<leftarrow> kfree p1 h;
     h \<leftarrow> kfree p3 h;
     h \<leftarrow> kfree p4 h;
     let s = say ['' OK'', line ''  Allocs live: '', numn (alloc_count h), '' (should be 0)'', line ''  Test 7: pmm_alloc_page...''] s;
     let (phys, p) = pmm_alloc_page (hpmm h);
     let s = (if phys \<noteq> 0 then say ['' OK (phys='', numn phys, '')'', '' freed''] s else say ['' FAIL''] s);
     let h = h\<lparr>hpmm := (if phys \<noteq> 0 then pmm_free_page phys p else p)\<rparr>;
     Some (say [line ''  All tests passed!''] (s\<lparr>hp := h\<rparr>)) }"

section \<open>Disk\<close>

definition sector_bytes :: "u16 list \<Rightarrow> u8 list" where
  "sector_bytes ws = concat (map le16 ws)"

definition shown :: "u8 \<Rightarrow> char" where
  "shown b = (let c = byte_char b in if between (CHR '' '') c (CHR ''~'') then c else CHR ''.'')"

definition readsec_ops :: "u8 list \<Rightarrow> con_op list" where
  "readsec_ops bs = concat (map (\<lambda>b. Putc (shown (bs ! b)) # (if (b + 1) mod 64 = 0 then [Print (line ''  '')] else [])) [0..<128])"

definition hexdump_row :: "u8 list \<Rightarrow> nat \<Rightarrow> con_op list" where
  "hexdump_row bs row =
     [Print (line ''  ''), Print (itoa_hex (of_nat (row * 16))), Print '': ''] @
     concat (map (\<lambda>col. let b = bs ! (row * 16 + col)
                        in [Print [hex_digit (unat (drop_bit 4 b)), hex_digit (unat (b AND 0xF))], Print '' ''] @
                           (if col = 7 then [Print '' ''] else [])) [0..<16]) @
     [Print '' ''] @ map (\<lambda>col. Putc (shown (bs ! (row * 16 + col)))) [0..<16]"

definition sector_command :: "string \<Rightarrow> (u32 \<Rightarrow> u8 list \<Rightarrow> con_op list) \<Rightarrow> env \<Rightarrow> string \<Rightarrow> sys \<Rightarrow> sys" where
  "sector_command usage pic e arg s =
     (if fs_strlen arg = 0 then say [line usage] s
      else let lba = fst (parse_u32 0 arg);
               (r, h) = read_sector (e_dev e) (drv s) lba (ports s);
               s = s\<lparr>ports := h\<rparr>
           in case r of
                None \<Rightarrow> say [line ''Failed to read sector '', arg] s
              | Some ws \<Rightarrow> s\<lparr>sh_out := sh_out s @ pic lba (sector_bytes ws)\<rparr>)"

definition cmd_readsec :: "env \<Rightarrow> string \<Rightarrow> sys \<Rightarrow> sys" where
  "cmd_readsec = sector_command ''Usage: readsec <lba>'' (\<lambda>lba bs.
     map Print [line ''Sector '', num32 lba, '' (first 128 bytes as ASCII):'' @ line ''  ''] @ readsec_ops bs)"

definition cmd_hexdump :: "env \<Rightarrow> string \<Rightarrow> sys \<Rightarrow> sys" where
  "cmd_hexdump = sector_command ''Usage: hexdump <lba>'' (\<lambda>lba bs.
     map Print [line ''Sector '', num32 lba, '':''] @ concat (map (hexdump_row bs) [0..<16]))"

section \<open>Processes\<close>

definition spawn_usage :: "string list" where
  "spawn_usage = map line [''Usage: spawn <type> [node_ip_last]'', ''  Types: counter, stress, monitor, worker'', ''  Examples:'',
     ''    spawn counter       (auto-pick node)'', ''    spawn stress 2      (on 10.0.0.2)'']"

definition split_spawn :: "string \<Rightarrow> string \<times> u32" where
  "split_spawn arg =
     (let (type_str, rest) = scan_word 15 arg; rest = skip_spaces rest
      in (type_str, if rest \<noteq> [] \<and> is_digit (hd rest) then htonl (0x0A000000 OR fst (parse_u32 0 rest)) else 0))"

definition cmd_spawn :: "env \<Rightarrow> string \<Rightarrow> sys \<Rightarrow> sys res" where
  "cmd_spawn e arg s =
     (if fs_strlen arg = 0 then Inr (say spawn_usage s)
      else
        let (type_str, target_ip) = split_spawn arg; k = kern s
        in if parse_type type_str = 0 then Inr (say [line ''Unknown type: '', type_str] s)
           else bind_res (if target_ip \<noteq> 0 then spawn_on (e_nic e) (ticks s) type_str target_ip (k_pt k) (k_sc k) (k_net k)
                          else spawn (e_nic e) (ticks s) type_str (k_cl k) (k_pt k) (k_sc k) (k_net k))
                  (\<lambda>(pid, pt, sc, n). Inr (s\<lparr>kern := k\<lparr>k_pt := pt, k_sc := sc, k_net := n\<rparr>\<rparr>)))"

definition cmd_kill :: "env \<Rightarrow> string \<Rightarrow> sys \<Rightarrow> sys res" where
  "cmd_kill e arg s =
     (if fs_strlen arg = 0 then Inr (say [line ''Usage: kill <pid>''] s)
      else let pid = fst (parse_u32 0 arg); k = kern s
           in bind_res (proc_kill (e_nic e) pid (k_pt k) (k_sc k) (k_net k)) (\<lambda>(ok, pt, sc, n).
              Inr (say (if ok then [line ''Killed process pid='', num32 pid]
                        else [line ''Cannot kill pid '', arg, '' (not found or not running)''])
                     (s\<lparr>kern := k\<lparr>k_pt := pt, k_sc := sc, k_net := n\<rparr>\<rparr>))))"

section \<open>Cluster and jobs\<close>

definition cmd_discover :: "env \<Rightarrow> sys \<Rightarrow> sys res" where
  "cmd_discover e s =
     bind_res (send_discover (e_nic e) (k_cl (kern s)) (k_net (kern s))) (\<lambda>n.
     Inr (say [line ''Discovery broadcast sent. Use '' @ [CHR 0x27] @ ''peers'' @ [CHR 0x27] @ '' to see results.'']
            (s\<lparr>kern := (kern s)\<lparr>k_net := n\<rparr>\<rparr>)))"

text \<open>
  \<^verbatim>\<open>rjob\<close> stores a number in every turn of its loop, digits or not; \<^verbatim>\<open>run\<close> stores one only when it has seen
  a digit, so that on any other character its loop makes no progress.
\<close>

fun rjob_numbers :: "nat \<Rightarrow> string \<Rightarrow> u32 list" where
  "rjob_numbers 0 s = []"
| "rjob_numbers (Suc n) s =
     (if s = [] then [] else let (v, r) = parse_u32 0 s in v # rjob_numbers n (skip_spaces r))"

definition cmd_rjob :: "env \<Rightarrow> string \<Rightarrow> sys \<Rightarrow> sys res" where
  "cmd_rjob e arg s =
     (if fs_strlen arg = 0
      then Inr (say (map line [''Usage: rjob <node_ip_last_byte> <n1> <n2> ...'', ''  Sends a sum job to the target node.'',
                               ''  Example: rjob 2 100 200 300'']) s)
      else
        let (target_last, rest) = parse_u32 0 arg; numbers = rjob_numbers 16 (skip_spaces rest); k = kern s
        in if numbers = [] then Inr (say [line ''No numbers provided for sum job''] s)
           else
             let s = say [line ''Sending sum job ('', numn (length numbers), '' values) to 10.0.0.'', num32 target_last] s
             in bind_res (submit_job (e_nic e) (htonl (0x0A000000 OR target_last)) 1 (concat (map le32 numbers)) (k_cl k) (k_net k))
                  (\<lambda>(ok, c, n). Inr (say [if ok then '' ... sent!''
                       else '' ... FAILED (ARP not resolved? Try '' @ [CHR 0x27] @ ''discover'' @ [CHR 0x27] @ '' first)'']
                     (s\<lparr>kern := k\<lparr>k_cl := c, k_net := n\<rparr>\<rparr>))))"

partial_function (option) run_numbers :: "u32 list \<Rightarrow> string \<Rightarrow> u32 list option" where
  "run_numbers acc s =
     (if s = [] \<or> \<not> length acc < 32 then Some acc
      else let (v, r) = parse_u32 0 s
           in run_numbers (if is_digit (hd s) then acc @ [v] else acc) (skip_spaces r))"

definition run_usage :: "string list" where
  "run_usage = map line [''Usage: run <type> <args...>'', ''  run sum 10 20 30      -> compute sum'',
     ''  run product 2 3 7     -> compute product'', ''  run max 5 99 12       -> find maximum'',
     ''  run prime 1000        -> count primes up to N'', ''Scheduler auto-picks local or remote node.'']"

definition job_type_of :: "string \<Rightarrow> u8 option" where
  "job_type_of t =
     (if str_eq t ''sum'' then Some JOB_SUM else if str_eq t ''product'' then Some JOB_PRODUCT
      else if str_eq t ''max'' then Some JOB_MAX else if str_eq t ''prime'' then Some JOB_PRIME
      else if str_eq t ''echo'' then Some JOB_ECHO else None)"

definition submit_numbers :: "env \<Rightarrow> u8 \<Rightarrow> u32 list \<Rightarrow> sys \<Rightarrow> sys res option" where
  "submit_numbers e ty numbers s =
     (let k = kern s
      in map_option (\<lambda>r. bind_res r (\<lambda>(ident, d, c, n). Inr (s\<lparr>kern := k\<lparr>k_dj := d, k_cl := c, k_net := n\<rparr>\<rparr>)))
           (submit (e_nic e) (ticks s) (of_nat (task_count (k_sc k))) ty (concat (map le32 numbers)) (k_dj k) (k_cl k) (k_net k)))"

definition cmd_run :: "env \<Rightarrow> string \<Rightarrow> sys \<Rightarrow> sys res option" where
  "cmd_run e arg s =
     (if fs_strlen arg = 0 then Some (Inr (say run_usage s))
      else
        let (type_str, rest) = scan_word 15 arg
        in case job_type_of type_str of
             None \<Rightarrow> Some (Inr (say [line ''Unknown job type: '', type_str, line ''Try: sum, product, max, prime, echo''] s))
           | Some ty \<Rightarrow> do {
               numbers \<leftarrow> run_numbers [] (skip_spaces rest);
               if numbers = [] then Some (Inr (say [line ''No arguments provided''] s)) else submit_numbers e ty numbers s })"

section \<open>Session and power\<close>

definition cmd_logout :: "sys \<Rightarrow> sys" where
  "cmd_logout s =
     show_login_prompt ((say [line ''Logged out.''] (s\<lparr>sh_users := clear_current (sh_users s)\<rparr>))\<lparr>sh_mode := MODE_LOGIN_USER\<rparr>)"

text \<open>
  A hundred reset commands to the keyboard controller, then a breakpoint with an empty interrupt
  table, which resets the processor; \<^verbatim>\<open>halt\<close> ends in \<^verbatim>\<open>cli; hlt\<close>.
\<close>

definition cmd_reboot :: "sys \<Rightarrow> sys" where
  "cmd_reboot s =
     (let s = say [line ''Rebooting...''] s in s\<lparr>ports := ((outb 0x64 0xFE) ^^ 100) (ports s), pow := Rebooting\<rparr>)"

definition cmd_halt :: "sys \<Rightarrow> sys" where
  "cmd_halt s = (let s = say [line ''Halting...''] s in s\<lparr>ports := outb 0xF4 0x10 (ports s), pow := Halted\<rparr>)"

section \<open>Dispatch\<close>

abbreviation ret :: "sys \<Rightarrow> sys res option" where "ret s \<equiv> Some (Inr s)"

text \<open>
  The chain of comparisons, with the commands that print only taken first; the names are all different,
  so the order of the tests does not matter.
\<close>

definition info_command :: "string \<Rightarrow> sys \<Rightarrow> string list option option" where
  "info_command cmd s =
     (if str_eq cmd ''help'' then Some (Some help_text)
      else if str_eq cmd ''ver'' then Some (Some ver_text)
      else if str_eq cmd ''uptime'' then Some (Some (uptime_text s))
      else if str_eq cmd ''pwd'' then Some (Some (pwd_text s))
      else if str_eq cmd ''meminfo'' then Some (meminfo_text s)
      else if str_eq cmd ''heapinfo'' then Some (heapinfo_text s)
      else if str_eq cmd ''ps'' then Some (Some (ps_text s))
      else if str_eq cmd ''procs'' then Some (Some (procs_text s))
      else if str_eq cmd ''lspci'' then Some (Some (lspci_text s))
      else if str_eq cmd ''diskinfo'' then Some (Some (diskinfo_text s))
      else if str_eq cmd ''netinfo'' then Some (Some (netinfo_text s))
      else if str_eq cmd ''peers'' then Some (Some (peers_text s))
      else if str_eq cmd ''cluster'' then Some (Some (cluster_text s))
      else if str_eq cmd ''jobs'' then Some (Some (jobs_text s))
      else if str_eq cmd ''intinfo'' then Some (Some (intinfo_text s))
      else if str_eq cmd ''specs'' then Some (Some (specs_text s))
      else if str_eq cmd ''whoami'' then Some (Some (whoami_text s))
      else if str_eq cmd ''mouseinfo'' then Some (Some (mouseinfo_text s))
      else None)"

definition run_command :: "env \<Rightarrow> string \<Rightarrow> string \<Rightarrow> sys \<Rightarrow> sys res option" where
  "run_command e cmd arg s =
     (case info_command cmd s of
        Some text \<Rightarrow> map_option (\<lambda>xs. Inr (say xs s)) text
      | None \<Rightarrow>
          if str_eq cmd ''cls'' then ret (cmd_cls s)
          else if str_eq cmd ''color'' then ret (cmd_color arg s)
          else if str_eq cmd ''cd'' then Some (cmd_cd arg s)
          else if str_eq cmd ''ls'' then Some (cmd_ls arg s)
          else if str_eq cmd ''mkdir'' then Some (cmd_mkdir arg s)
          else if str_eq cmd ''touch'' then Some (cmd_touch arg s)
          else if str_eq cmd ''cat'' then Some (cmd_cat arg s)
          else if str_eq cmd ''write'' then Some (cmd_write arg s)
          else if str_eq cmd ''rm'' then Some (cmd_rm arg s)
          else if str_eq cmd ''heaptest'' then map_option Inr (cmd_heaptest s)
          else if str_eq cmd ''spawn'' then Some (cmd_spawn e arg s)
          else if str_eq cmd ''kill'' then Some (cmd_kill e arg s)
          else if str_eq cmd ''readsec'' then ret (cmd_readsec e arg s)
          else if str_eq cmd ''hexdump'' then ret (cmd_hexdump e arg s)
          else if str_eq cmd ''discover'' then Some (cmd_discover e s)
          else if str_eq cmd ''rjob'' then Some (cmd_rjob e arg s)
          else if str_eq cmd ''run'' then cmd_run e arg s
          else if str_eq cmd ''nano'' then Some (cmd_nano arg s)
          else if str_eq cmd ''logout'' then ret (cmd_logout s)
          else if str_eq cmd ''copy'' then ret (cmd_copy arg s)
          else if str_eq cmd ''copyf'' then Some (cmd_copyf arg s)
          else if str_eq cmd ''paste'' then ret (cmd_paste s)
          else if str_eq cmd ''pastef'' then Some (cmd_pastef arg s)
          else if str_eq cmd ''cut'' then Some (cmd_cut arg s)
          else if str_eq cmd ''pasteh'' then map_option Inr (cmd_pasteh e s)
          else if str_eq cmd ''reboot'' then ret (cmd_reboot s)
          else if str_eq cmd ''halt'' then ret (cmd_halt s)
          else ret (say [line ''Unknown command. Type '' @ [CHR 0x27] @ ''help'' @ [CHR 0x27] @ '' for commands.''] s))"

definition process_command :: "env \<Rightarrow> string \<Rightarrow> sys \<Rightarrow> sys res option" where
  "process_command e input s =
     (let (cmd, arg) = split_command input in if fs_strlen cmd = 0 then ret s else run_command e cmd arg s)"

end
