(* ===== verification/Shell.thy ===== *)
theory Shell
  imports ShellCmd
begin

text \<open>
  The shell as the keyboard drives it: the lines of the login, sign-up and onboarding dialogues, the
  editor, and \<^verbatim>\<open>shell_update\<close>, which receives every character.
\<close>

section \<open>Lines\<close>

definition line_signup_user :: "string \<Rightarrow> sys \<Rightarrow> sys res" where
  "line_signup_user l s =
     (if fs_strlen l = 0 then Inr (show_signup_prompt (say [line ''Username cannot be empty.''] s))
      else bind_res (strcpy_buf 32 l) (\<lambda>n. Inr (show_signup_prompt (s\<lparr>sh_puser := n, sh_mode := MODE_SIGNUP_PASS\<rparr>))))"

definition line_signup_pass :: "string \<Rightarrow> sys \<Rightarrow> sys res" where
  "line_signup_pass l s =
     (if fs_strlen l < 3
      then Inr (show_signup_prompt ((say [line ''Password must be at least 3 characters.''] s)\<lparr>sh_mode := MODE_SIGNUP_PASS\<rparr>))
      else bind_res (strcpy_buf 64 l) (\<lambda>p. Inr (show_signup_prompt (s\<lparr>sh_ppass := p, sh_mode := MODE_SIGNUP_CONFIRM\<rparr>))))"

definition line_signup_confirm :: "env \<Rightarrow> string \<Rightarrow> sys \<Rightarrow> sys" where
  "line_signup_confirm e l s =
     (if \<not> str_eq (sh_ppass s) l
      then show_signup_prompt ((say [line ''Passwords do not match. Try again.''] s)\<lparr>sh_mode := MODE_SIGNUP_PASS, sh_ppass := []\<rparr>)
      else
        let (ok, us) = create (e_wr e) (Some (sh_puser s)) (Some (sh_ppass s)) (sh_users s); s = s\<lparr>sh_users := us\<rparr>
        in if \<not> ok then show_signup_prompt ((say [line ''Failed to create user.''] s)\<lparr>sh_mode := MODE_SIGNUP_USER\<rparr>)
           else
             let s = s\<lparr>sh_users := set_current (find_user (Some (sh_puser s)) us) us, sh_ppass := []\<rparr>;
                 s = say [line (line ''Account created: ''), sh_puser s] s
             in show_onboard_prompt (s\<lparr>sh_mode := MODE_ONBOARD_USECASE\<rparr>))"

definition chosen_usecase :: "string \<Rightarrow> usecase option" where
  "chosen_usecase l =
     (case l of [] \<Rightarrow> None
      | c # _ \<Rightarrow> if c = CHR ''1'' then Some USECASE_DEV else if c = CHR ''2'' then Some USECASE_HOSTING
                 else if c = CHR ''3'' then Some USECASE_CLUSTER else if c = CHR ''4'' then Some USECASE_DAILY else None)"

definition line_usecase :: "env \<Rightarrow> string \<Rightarrow> sys \<Rightarrow> sys" where
  "line_usecase e l s =
     (case chosen_usecase l of
        None \<Rightarrow> show_onboard_prompt (say [line ''Invalid choice. Enter 1, 2, 3, or 4.''] s)
      | Some uc \<Rightarrow>
          let s = s\<lparr>sh_users := set_usecase (e_wr e) (cur_user (sh_users s)) uc (sh_users s)\<rparr>;
              s = say [line ''Usecase set: '', usecase_name uc] s
          in show_onboard_prompt (s\<lparr>sh_mode := MODE_ONBOARD_PACKAGES\<rparr>))"

definition package_text :: "usecase \<Rightarrow> string" where
  "package_text uc =
     line (if uc = USECASE_DEV then ''  + gcc, nasm, make, git'' else if uc = USECASE_HOSTING then ''  + httpd, sshd, firewall''
           else if uc = USECASE_CLUSTER then ''  + cluster-tools, mpi, job-runner'' else ''  + base utilities'')"

definition yes :: "string \<Rightarrow> bool" where
  "yes l \<longleftrightarrow> (case l of [] \<Rightarrow> False | c # _ \<Rightarrow> c = CHR ''y'' \<or> c = CHR ''Y'')"

definition line_packages :: "env \<Rightarrow> string \<Rightarrow> sys \<Rightarrow> sys res" where
  "line_packages e l s =
     bind_res
       (if yes l
        then (case cur_user (sh_users s) of
                None \<Rightarrow> Inl NullDeref
              | Some i \<Rightarrow> let uc = usecase (tab (sh_users s) ! i)
                          in Inr (say [line ''Installing packages for '', usecase_name uc, ''...'', package_text uc, line ''Done.''] s))
        else Inr (say [line ''Skipped. You can install packages later.''] s))
       (\<lambda>s. Inr (enter_shell_mode (s\<lparr>sh_users := complete_onboarding (e_wr e) (cur_user (sh_users s)) (sh_users s)\<rparr>)))"

definition line_login_user :: "string \<Rightarrow> sys \<Rightarrow> sys res" where
  "line_login_user l s =
     (if fs_strlen l = 0 then Inr (show_login_prompt s)
      else bind_res (strcpy_buf 32 l) (\<lambda>n. Inr (show_login_prompt (s\<lparr>sh_puser := n, sh_mode := MODE_LOGIN_PASS\<rparr>))))"

definition line_login_pass :: "string \<Rightarrow> sys \<Rightarrow> sys res" where
  "line_login_pass l s =
     (if \<not> verify (Some (sh_puser s)) l (sh_users s)
      then Inr (show_login_prompt ((say [line ''Login failed.''] s)\<lparr>sh_puser := [], sh_mode := MODE_LOGIN_USER\<rparr>))
      else
        let u = find_user (Some (sh_puser s)) (sh_users s); s = s\<lparr>sh_users := set_current u (sh_users s)\<rparr>
        in case u of
             None \<Rightarrow> Inl NullDeref
           | Some i \<Rightarrow> Inr (if \<not> onboarded (tab (sh_users s) ! i) then show_onboard_prompt (s\<lparr>sh_mode := MODE_ONBOARD_USECASE\<rparr>)
                           else enter_shell_mode s))"

text \<open>After \<^verbatim>\<open>halt\<close> or \<^verbatim>\<open>reboot\<close> the processor does not come back to print a prompt.\<close>

definition line_shell :: "env \<Rightarrow> string \<Rightarrow> sys \<Rightarrow> sys res option" where
  "line_shell e l s =
     map_option (\<lambda>r. bind_res r (\<lambda>s. Inr (if sh_mode s = MODE_SHELL \<and> pow s = Running then show_prompt s else s)))
       (process_command e l s)"

definition handle_line :: "env \<Rightarrow> string \<Rightarrow> sys \<Rightarrow> sys res option" where
  "handle_line e l s =
     (case sh_mode s of
        MODE_SIGNUP_USER \<Rightarrow> Some (line_signup_user l s)
      | MODE_SIGNUP_PASS \<Rightarrow> Some (line_signup_pass l s)
      | MODE_SIGNUP_CONFIRM \<Rightarrow> ret (line_signup_confirm e l s)
      | MODE_ONBOARD_USECASE \<Rightarrow> ret (line_usecase e l s)
      | MODE_ONBOARD_PACKAGES \<Rightarrow> Some (line_packages e l s)
      | MODE_LOGIN_USER \<Rightarrow> Some (line_login_user l s)
      | MODE_LOGIN_PASS \<Rightarrow> Some (line_login_pass l s)
      | MODE_EDIT \<Rightarrow> ret s
      | MODE_SHELL \<Rightarrow> line_shell e l s)"

section \<open>The editor\<close>

definition printable :: "char \<Rightarrow> bool" where
  "printable c \<longleftrightarrow> between (CHR '' '') c (CHR ''~'')"

definition edit_save :: "sys \<Rightarrow> (bool \<times> sys) res" where
  "edit_save s =
     bind_res (write_file (Some (sh_efile s)) (Some (sh_ebuf s)) (sh_fs s)) (\<lambda>(ok, fs). Inr (ok, s\<lparr>sh_fs := fs\<rparr>))"

definition edit_insert :: "char \<Rightarrow> sys \<Rightarrow> sys" where
  "edit_insert c s = (if length (sh_ebuf s) < 1023 then con (Putc c) (s\<lparr>sh_ebuf := sh_ebuf s @ [c]\<rparr>) else s)"

definition leave_editor :: "sys \<Rightarrow> sys" where
  "leave_editor s = show_prompt (s\<lparr>sh_mode := MODE_SHELL\<rparr>)"

definition edit_update :: "char \<Rightarrow> sys \<Rightarrow> sys res" where
  "edit_update c s =
     (if c = CHR 0x18 then
        bind_res (edit_save s) (\<lambda>(ok, s).
          Inr (leave_editor (say (if ok then [line ''[Saved '', sh_efile s, '']''] else [line ''[Save failed]'']) s)))
      else if c = CHR 0x13 then
        bind_res (edit_save s) (\<lambda>(ok, s). Inr (say [(if ok then line ''[Saved]'' else line ''[Save failed]'') @ line []] s))
      else if c = CHR 0x11 \<or> c = CHR 0x03 then Inr (leave_editor (say [line ''[Cancelled]''] s))
      else if c = CHR 0x08 then
        Inr (if sh_ebuf s \<noteq> [] then con Backspace (s\<lparr>sh_ebuf := butlast (sh_ebuf s)\<rparr>) else s)
      else if c = CHR 0x0A then Inr (edit_insert c s)
      else if printable c then Inr (edit_insert c s)
      else Inr s)"

section \<open>One character\<close>

definition type_char :: "char \<Rightarrow> sys \<Rightarrow> sys" where
  "type_char c s =
     (if length (sh_line s) < SHELL_BUFFER_SIZE - 1
      then con (Putc (if sh_masked s then CHR ''*'' else c)) (s\<lparr>sh_line := sh_line s @ [c]\<rparr>) else s)"

definition shell_update :: "env \<Rightarrow> char \<Rightarrow> sys \<Rightarrow> sys res option" where
  "shell_update e c s =
     (if sh_mode s = MODE_EDIT then Some (edit_update c s)
      else if c = CHR 0x03 then
        ret (let s = say [''^C''] (s\<lparr>sh_line := []\<rparr>) in if sh_mode s = MODE_SHELL then show_prompt s else s)
      else if c = CHR 0x0A then handle_line e (sh_line s) (s\<lparr>sh_line := []\<rparr>)
      else if c = CHR 0x08 then
        ret (if sh_line s \<noteq> [] then con Backspace (s\<lparr>sh_line := butlast (sh_line s)\<rparr>) else s)
      else if printable c then ret (type_char c s)
      else ret s)"

end
