(* ===== verification/ShellInv.thy ===== *)
theory ShellInv
  imports Shell
begin

text \<open>
  What holds of the shell in every state: its texts fit their buffers, the file system and the
  clipboard are well formed, passwords are masked, a session has an account behind it and accounts
  are only created while there is none. \<open>okr\<close> and \<open>oko\<close> say that a result, if the operation gives one
  without a fault, satisfies a predicate.
\<close>

named_theorems quiet_intros \<open>commands that leave the control state of the shell alone\<close>

section \<open>Results that satisfy a predicate\<close>

definition okr :: "('s \<Rightarrow> bool) \<Rightarrow> 's res \<Rightarrow> bool" where
  "okr P r \<longleftrightarrow> (case r of Inl _ \<Rightarrow> True | Inr s \<Rightarrow> P s)"

definition oko :: "('s \<Rightarrow> bool) \<Rightarrow> 's res option \<Rightarrow> bool" where
  "oko P r \<longleftrightarrow> (case r of None \<Rightarrow> True | Some r \<Rightarrow> okr P r)"

lemma okr_simps [simp]: "okr P (Inl e)" "okr P (Inr s) \<longleftrightarrow> P s"
  by (simp_all add: okr_def)

lemma oko_simps [simp]: "oko P None" "oko P (Some r) \<longleftrightarrow> okr P r"
  by (simp_all add: oko_def)

lemma okr_bind: "okr P (bind_res m f) \<longleftrightarrow> (\<forall>x. m = Inr x \<longrightarrow> okr P (f x))"
  by (cases m) auto

lemma oko_map: "oko P (map_option f m) \<longleftrightarrow> (\<forall>x. m = Some x \<longrightarrow> okr P (f x))"
  by (cases m) auto

lemma okrD: "okr P r \<Longrightarrow> r = Inr s \<Longrightarrow> P s" and okoD: "oko P q \<Longrightarrow> q = Some (Inr s) \<Longrightarrow> P s"
  by simp_all

lemma okr_mono: "okr P r \<Longrightarrow> (\<And>s. P s \<Longrightarrow> Q s) \<Longrightarrow> okr Q r"
  by (cases r) auto

lemma oko_mono: "oko P r \<Longrightarrow> (\<And>s. P s \<Longrightarrow> Q s) \<Longrightarrow> oko Q r"
  by (cases r) (auto intro: okr_mono)

lemma oko_if: "oko P a \<Longrightarrow> oko P b \<Longrightarrow> oko P (if c then a else b)"
  by simp

section \<open>The invariant\<close>

definition parts_ok :: "sys \<Rightarrow> bool" where
  "parts_ok s \<longleftrightarrow> fs_inv (sh_fs s) \<and> clip_inv (sh_clip s) \<and> mouse_inv (mou s) \<and> proc_inv (k_pt (kern s)) (k_sc (kern s))"

text \<open>The 32-bit counter of process numbers has not come round.\<close>

abbreviation pids_left :: "sys \<Rightarrow> bool" where "pids_left s \<equiv> next_pid (k_pt (kern s)) + 1 \<noteq> 0"

definition texts_ok :: "sys \<Rightarrow> bool" where
  "texts_ok s \<longleftrightarrow> length (sh_line s) < SHELL_BUFFER_SIZE \<and> (\<forall>c\<in>set (sh_line s). printable c) \<and>
     length (sh_cwd s) < MAX_PATH_LEN \<and> length (sh_efile s) < 64 \<and>
     length (sh_ebuf s) < EDIT_BUF \<and> (\<forall>c\<in>set (sh_ebuf s). c \<noteq> CHR 0x00) \<and>
     length (sh_puser s) < 32 \<and> (\<forall>c\<in>set (sh_puser s). printable c) \<and> length (sh_ppass s) < 64"

definition masks_ok :: "sys \<Rightarrow> bool" where
  "masks_ok s \<longleftrightarrow> (sh_masked s \<longleftrightarrow> sh_mode s \<in> {MODE_SIGNUP_PASS, MODE_SIGNUP_CONFIRM, MODE_LOGIN_PASS})"

definition signing_up :: "shell_mode \<Rightarrow> bool" where
  "signing_up m \<longleftrightarrow> m \<in> {MODE_SIGNUP_USER, MODE_SIGNUP_PASS, MODE_SIGNUP_CONFIRM}"

definition in_session :: "shell_mode \<Rightarrow> bool" where
  "in_session m \<longleftrightarrow> m \<in> {MODE_ONBOARD_USECASE, MODE_ONBOARD_PACKAGES, MODE_EDIT, MODE_SHELL}"

lemma mode_simps [simp]:
  "signing_up MODE_SIGNUP_USER" "signing_up MODE_SIGNUP_PASS" "signing_up MODE_SIGNUP_CONFIRM"
  "\<not> signing_up MODE_ONBOARD_USECASE" "\<not> signing_up MODE_ONBOARD_PACKAGES" "\<not> signing_up MODE_EDIT"
  "\<not> signing_up MODE_SHELL" "\<not> signing_up MODE_LOGIN_USER" "\<not> signing_up MODE_LOGIN_PASS"
  "in_session MODE_ONBOARD_USECASE" "in_session MODE_ONBOARD_PACKAGES" "in_session MODE_EDIT" "in_session MODE_SHELL"
  "\<not> in_session MODE_SIGNUP_USER" "\<not> in_session MODE_SIGNUP_PASS" "\<not> in_session MODE_SIGNUP_CONFIRM"
  "\<not> in_session MODE_LOGIN_USER" "\<not> in_session MODE_LOGIN_PASS"
  by (simp_all add: signing_up_def in_session_def)

definition logged_in :: "ustate \<Rightarrow> bool" where
  "logged_in us \<longleftrightarrow> (\<exists>i<MAX_USERS. cur_user us = Some i \<and> uactive (tab us ! i))"

definition session_ok :: "sys \<Rightarrow> bool" where
  "session_ok s \<longleftrightarrow> users_inv (sh_users s) \<and> (signing_up (sh_mode s) \<longrightarrow> user_count (sh_users s) = 0) \<and>
     (in_session (sh_mode s) \<longrightarrow> logged_in (sh_users s))"

definition shell_inv :: "sys \<Rightarrow> bool" where
  "shell_inv s \<longleftrightarrow> parts_ok s \<and> texts_ok s \<and> masks_ok s \<and> session_ok s"

lemma shell_invI: "parts_ok s \<Longrightarrow> texts_ok s \<Longrightarrow> masks_ok s \<Longrightarrow> session_ok s \<Longrightarrow> shell_inv s"
  and shell_invD: "shell_inv s \<Longrightarrow> parts_ok s" "shell_inv s \<Longrightarrow> texts_ok s" "shell_inv s \<Longrightarrow> masks_ok s" "shell_inv s \<Longrightarrow> session_ok s"
  by (simp_all add: shell_inv_def)

section \<open>Output and prompts\<close>

lemma say_simps [simp]:
  "sh_line (say xs s) = sh_line s" "sh_cwd (say xs s) = sh_cwd s" "sh_mode (say xs s) = sh_mode s"
  "sh_efile (say xs s) = sh_efile s" "sh_ebuf (say xs s) = sh_ebuf s" "sh_puser (say xs s) = sh_puser s"
  "sh_ppass (say xs s) = sh_ppass s" "sh_masked (say xs s) = sh_masked s" "sh_fs (say xs s) = sh_fs s"
  "sh_users (say xs s) = sh_users s" "sh_clip (say xs s) = sh_clip s" "kern (say xs s) = kern s" "hp (say xs s) = hp s"
  "ports (say xs s) = ports s" "ticks (say xs s) = ticks s" "pow (say xs s) = pow s" "mou (say xs s) = mou s"
  "drv (say xs s) = drv s" "iqs (say xs s) = iqs s" "sh_out (say xs s) = sh_out s @ map Print xs"
  by (simp_all add: say_def)

lemma con_simps [simp]:
  "sh_line (con x s) = sh_line s" "sh_cwd (con x s) = sh_cwd s" "sh_mode (con x s) = sh_mode s"
  "sh_efile (con x s) = sh_efile s" "sh_ebuf (con x s) = sh_ebuf s" "sh_puser (con x s) = sh_puser s"
  "sh_ppass (con x s) = sh_ppass s" "sh_masked (con x s) = sh_masked s" "sh_fs (con x s) = sh_fs s"
  "sh_users (con x s) = sh_users s" "sh_clip (con x s) = sh_clip s" "kern (con x s) = kern s" "hp (con x s) = hp s"
  "ports (con x s) = ports s" "ticks (con x s) = ticks s" "pow (con x s) = pow s" "mou (con x s) = mou s"
  "drv (con x s) = drv s" "iqs (con x s) = iqs s" "sh_out (con x s) = sh_out s @ [x]"
  by (simp_all add: con_def)

text \<open>What \<^verbatim>\<open>process_command\<close> leaves alone in most of its branches: everything but the files, the
  clipboard, the output and the rest of the kernel.\<close>

definition ctl :: "sys \<Rightarrow> (string \<times> string \<times> shell_mode \<times> bool) \<times> ustate \<times> string \<times> string \<times> string \<times> string" where
  "ctl s = ((sh_line s, sh_cwd s, sh_mode s, sh_masked s), sh_users s, sh_puser s, sh_ppass s, sh_efile s, sh_ebuf s)"

definition quiet :: "sys \<Rightarrow> sys \<Rightarrow> bool" where
  "quiet s t \<longleftrightarrow> ctl t = ctl s \<and> (parts_ok s \<and> pids_left s \<longrightarrow> parts_ok t)"

lemma quiet_refl: "quiet s s"
  by (simp add: quiet_def)

lemma quiet_say [simp]: "quiet s (say xs t) \<longleftrightarrow> quiet s t"
  by (simp add: quiet_def ctl_def parts_ok_def)

lemma quiet_con [simp]: "quiet s (con x t) \<longleftrightarrow> quiet s t"
  by (simp add: quiet_def ctl_def parts_ok_def)

lemma quiet_inv:
  assumes "quiet s t" "shell_inv s" "pids_left s"
  shows "shell_inv t"
proof -
  have "texts_ok t = texts_ok s" "masks_ok t = masks_ok s" "session_ok t = session_ok s"
    using assms(1) by (simp_all add: quiet_def ctl_def texts_ok_def masks_ok_def session_ok_def)
  with assms show ?thesis by (simp add: shell_inv_def quiet_def)
qed

lemma say_inv [simp]: "shell_inv (say xs s) \<longleftrightarrow> shell_inv s"
  by (simp add: shell_inv_def parts_ok_def texts_ok_def masks_ok_def session_ok_def)

lemma show_prompt_inv [simp]: "shell_inv (show_prompt s) \<longleftrightarrow> shell_inv s"
  by (simp add: show_prompt_def)

section \<open>Commands that leave the control state alone\<close>

lemma quietI_fs: "(fs_inv (sh_fs s) \<Longrightarrow> fs_inv fs') \<Longrightarrow> quiet s (s\<lparr>sh_fs := fs'\<rparr>)"
  by (auto simp: quiet_def ctl_def parts_ok_def)

lemma quietI_clip: "(clip_inv (sh_clip s) \<Longrightarrow> clip_inv c) \<Longrightarrow> quiet s (s\<lparr>sh_clip := c\<rparr>)"
  by (auto simp: quiet_def ctl_def parts_ok_def)

lemma quiet_upds [simp]:
  "quiet s (s\<lparr>kern := (kern s)\<lparr>k_net := n\<rparr>\<rparr>)" "quiet s (s\<lparr>kern := (kern s)\<lparr>k_cl := c, k_net := n\<rparr>\<rparr>)"
  "quiet s (s\<lparr>kern := (kern s)\<lparr>k_dj := d, k_cl := c, k_net := n\<rparr>\<rparr>)" "quiet s (s\<lparr>ports := h\<rparr>)" "quiet s (s\<lparr>hp := x\<rparr>)" "quiet s (s\<lparr>sh_out := out\<rparr>)"
  "quiet s (s\<lparr>ports := h, pow := p\<rparr>)"
  by (simp_all add: quiet_def ctl_def parts_ok_def)

lemma clip_set_str_inv: "clip_inv c \<Longrightarrow> clip_inv (clip_set_str (Some d) c)"
  by (simp add: clip_set_str_def clip_set_inv)

lemma quiet_path_command:
  assumes "\<And>p fs ok fs'. fs_inv fs \<Longrightarrow> f p fs = Inr (ok, fs') \<Longrightarrow> fs_inv fs'"
  shows "okr (quiet s) (path_command f u g b arg s)"
  by (auto simp: path_command_def okr_bind quiet_refl intro: quietI_fs assms)

lemma quiet_files [quiet_intros]:
  "okr (quiet s) (cmd_mkdir arg s)" "okr (quiet s) (cmd_touch arg s)" "okr (quiet s) (cmd_rm arg s)"
  unfolding cmd_mkdir_def cmd_touch_def cmd_rm_def
  by (rule quiet_path_command, erule (1) mkdir_inv touch_inv rm_inv)+

lemma quiet_ls [quiet_intros]: "okr (quiet s) (cmd_ls arg s)"
  by (auto simp: cmd_ls_def okr_bind quiet_refl)

lemma quiet_cat [quiet_intros]: "okr (quiet s) (cmd_cat arg s)"
  by (auto simp: cmd_cat_def okr_bind quiet_refl)

lemma quiet_write [quiet_intros]: "okr (quiet s) (cmd_write arg s)"
  by (auto simp: cmd_write_def okr_bind quiet_refl split: prod.splits intro: quietI_fs write_inv)

lemma quiet_copy [quiet_intros]: "quiet s (cmd_copy arg s)"
  by (auto simp: cmd_copy_def Let_def quiet_refl intro: quietI_clip clip_set_str_inv)

lemma quiet_copyf [quiet_intros]: "okr (quiet s) (cmd_copyf arg s)"
  by (auto simp: cmd_copyf_def okr_bind Let_def quiet_refl intro: quietI_clip clip_set_str_inv)

lemma quiet_paste [quiet_intros]: "quiet s (cmd_paste s)"
  by (simp add: cmd_paste_def quiet_refl)

lemma quiet_pastef [quiet_intros]: "okr (quiet s) (cmd_pastef arg s)"
  by (auto simp: cmd_pastef_def okr_bind Let_def quiet_refl intro: quietI_fs write_inv)

lemma quiet_cut [quiet_intros]: "okr (quiet s) (cmd_cut arg s)"
  by (auto simp: cmd_cut_def okr_bind Let_def quiet_refl quiet_def ctl_def parts_ok_def intro: clip_set_str_inv rm_inv)

lemma quiet_pasteh [quiet_intros]: "cmd_pasteh e s = Some t \<Longrightarrow> quiet s t"
  by (auto simp: cmd_pasteh_def Let_def bind_eq_Some_conv quiet_def ctl_def parts_ok_def clip_set_inv split: if_splits)

lemma quiet_color [quiet_intros]: "quiet s (cmd_color arg s)"
  by (simp add: cmd_color_def quiet_refl split: option.split)

lemma pred_option_bind: "(\<And>x. pred_option P (f x)) \<Longrightarrow> pred_option P (Option.bind m f)"
  by (cases m) auto

lemma quiet_hp: "quiet s t \<Longrightarrow> quiet s (t\<lparr>hp := h\<rparr>)"
  by (simp add: quiet_def ctl_def parts_ok_def)

lemma quiet_heaptest [quiet_intros]: "cmd_heaptest s = Some t \<Longrightarrow> quiet s t"
proof -
  have "pred_option (quiet s) (cmd_heaptest s)"
    unfolding cmd_heaptest_def Let_def split_def
    by (intro pred_option_bind) (simp add: quiet_hp quiet_refl)
  then show "cmd_heaptest s = Some t \<Longrightarrow> quiet s t" by simp
qed

lemma quiet_sector: "quiet s (sector_command u pic e arg s)"
  by (auto simp: sector_command_def Let_def quiet_def ctl_def parts_ok_def split: prod.splits option.splits)

lemma quiet_sectors [quiet_intros]: "quiet s (cmd_readsec e arg s)" "quiet s (cmd_hexdump e arg s)"
  by (simp_all add: cmd_readsec_def cmd_hexdump_def quiet_sector)

lemma quietI_tasks:
  "(proc_inv (k_pt (kern s)) (k_sc (kern s)) \<Longrightarrow> pids_left s \<Longrightarrow> proc_inv pt sc) \<Longrightarrow>
   quiet s (s\<lparr>kern := (kern s)\<lparr>k_pt := pt, k_sc := sc, k_net := n\<rparr>\<rparr>)"
  by (auto simp: quiet_def ctl_def parts_ok_def)

lemma spawn_inv:
  assumes "proc_inv s sc" "next_pid s + 1 \<noteq> 0" "spawn nic now name c s sc n = Inr (pid, s', sc', n')"
  shows "proc_inv s' sc'"
proof -
  let ?u = "s\<lparr>spawn_rr := spawn_rr s + 1\<rparr>"
  have u: "proc_inv ?u sc" "unat (next_pid ?u) + 1 < 4294967296"
    using assms(1,2) pid_room by (simp_all add: proc_inv_def table_inv_def)
  show ?thesis
  proof (cases "\<not> pr_inited s \<or> parse_type name = 0")
    case True
    with assms(1,3) show ?thesis by (simp add: spawn_def)
  next
    case False
    with assms(3) consider "spawn_on nic now name 0 s sc n = Inr (pid, s', sc', n')"
      | ip where "spawn_on nic now name ip ?u sc n = Inr (pid, s', sc', n')"
      by (cases "find_idx (\<lambda>i. get_peer i c \<noteq> None) [0..<peer_count c]") (simp_all add: spawn_def Let_def)
    then show ?thesis
      using spawn_on_inv [OF assms(1) pid_room [OF assms(2)]] spawn_on_inv [OF u] by cases blast+
  qed
qed

lemma quiet_spawn [quiet_intros]: "okr (quiet s) (cmd_spawn e arg s)"
  by (auto simp: cmd_spawn_def okr_bind Let_def quiet_refl split: prod.splits
      intro!: quietI_tasks intro: spawn_inv spawn_on_inv pid_room)

lemma quiet_kill [quiet_intros]: "okr (quiet s) (cmd_kill e arg s)"
  by (auto simp: cmd_kill_def okr_bind Let_def quiet_refl intro!: quietI_tasks intro: proc_kill_inv)

lemma quiet_discover [quiet_intros]: "okr (quiet s) (cmd_discover e s)"
  by (auto simp: cmd_discover_def okr_bind)

lemma quiet_rjob [quiet_intros]: "okr (quiet s) (cmd_rjob e arg s)"
  by (auto simp: cmd_rjob_def okr_bind Let_def quiet_refl quiet_def ctl_def parts_ok_def split: prod.splits)

lemma quiet_submit: "oko (quiet s) (submit_numbers e ty ns s)"
  by (auto simp: submit_numbers_def oko_map okr_bind Let_def)

lemma quiet_run [quiet_intros]: "oko (quiet s) (cmd_run e arg s)"
proof -
  have b: "oko (quiet s) (Option.bind m f)" if "\<And>ns. oko (quiet s) (f ns)" for m :: "u32 list option" and f
    using that by (cases m) auto
  show ?thesis
    by (auto simp: cmd_run_def quiet_refl quiet_submit split: prod.splits option.splits intro!: b)
qed

lemma quiet_power [quiet_intros]: "quiet s (cmd_reboot s)" "quiet s (cmd_halt s)"
  by (simp_all add: cmd_reboot_def cmd_halt_def Let_def quiet_def ctl_def parts_ok_def)

section \<open>Commands that change it\<close>

lemma build_path_len: "build_path cwd n = Inr p \<Longrightarrow> length p < MAX_PATH_LEN"
  by (auto simp: build_path_def strcat_buf_def bind_res_Inr split: if_splits)

lemma shell_init_inv:
  assumes "clip_inv (sh_clip s)" "texts_ok s" "users_inv (sh_users s)" "mouse_inv (mou s)"
    "proc_inv (k_pt (kern s)) (k_sc (kern s))"
  shows "shell_inv (shell_init s)"
  using assms
  by (auto simp: shell_init_def Let_def show_signup_prompt_def show_login_prompt_def shell_inv_def parts_ok_def texts_ok_def
      masks_ok_def session_ok_def fs_init_inv SHELL_BUFFER_SIZE_def)

lemma cls_inv: "shell_inv s \<Longrightarrow> shell_inv (cmd_cls s)"
  unfolding cmd_cls_def
  by (rule shell_init_inv) (auto simp: shell_inv_def parts_ok_def texts_ok_def session_ok_def)

lemma cd_inv: "shell_inv s \<Longrightarrow> okr shell_inv (cmd_cd arg s)"
  by (auto simp: cmd_cd_def okr_bind shell_inv_def parts_ok_def texts_ok_def masks_ok_def session_ok_def MAX_PATH_LEN_def)

lemma load_text_ok: "length (load_text r) < EDIT_BUF" "c \<in> set (load_text r) \<Longrightarrow> c \<noteq> CHR 0x00"
  by (auto simp: load_text_def EDIT_BUF_def dest: in_set_takeD set_takeWhileD)

lemma nano_inv: "shell_inv s \<Longrightarrow> sh_mode s = MODE_SHELL \<Longrightarrow> okr shell_inv (cmd_nano arg s)"
  by (auto simp: cmd_nano_def okr_bind Let_def shell_inv_def parts_ok_def texts_ok_def masks_ok_def session_ok_def load_text_ok
      simp del: takeWhile_eq_all_conv)

lemma logout_inv: "shell_inv s \<Longrightarrow> shell_inv (cmd_logout s)"
  by (simp add: cmd_logout_def show_login_prompt_def shell_inv_def parts_ok_def texts_ok_def masks_ok_def session_ok_def
      clear_current_def users_inv_def)

lemma oko_quiet: "oko (quiet s) r \<Longrightarrow> shell_inv s \<Longrightarrow> pids_left s \<Longrightarrow> oko shell_inv r"
  by (erule oko_mono) (erule (2) quiet_inv)

lemma run_command_inv:
  assumes "shell_inv s" "sh_mode s = MODE_SHELL" "pids_left s"
  shows "oko shell_inv (run_command e cmd arg s)"
proof (cases "info_command cmd s")
  case (Some xs)
  with assms(1) show ?thesis by (simp add: run_command_def oko_map)
next
  case None
  have q: "oko shell_inv r" if "oko (quiet s) r" for r using oko_quiet [OF that assms(1,3)] .
  have direct: "oko shell_inv (ret (cmd_cls s))" "oko shell_inv (Some (cmd_cd arg s))" "oko shell_inv (Some (cmd_nano arg s))"
      "oko shell_inv (ret (cmd_logout s))"
    using assms cls_inv cd_inv nano_inv logout_inv by simp_all
  show ?thesis
    unfolding run_command_def None option.case
    by (intro oko_if; (rule direct | rule q, simp add: quiet_intros oko_map quiet_refl))
qed

lemma process_command_inv: "shell_inv s \<Longrightarrow> sh_mode s = MODE_SHELL \<Longrightarrow> pids_left s \<Longrightarrow> oko shell_inv (process_command e l s)"
  by (simp add: process_command_def Let_def run_command_inv split: prod.split)

section \<open>Lines, the editor and single characters\<close>

lemma printable_code: "printable c \<Longrightarrow> 32 \<le> (of_char c :: nat) \<and> (of_char c :: nat) \<le> 126"
  by (simp add: printable_def between_def)

lemma printable_no_nul: "\<forall>c\<in>set n. printable c \<Longrightarrow> no_nul n"
  by (auto simp: no_nul_def dest!: printable_code)

lemma printable_not_nul: "printable c \<Longrightarrow> c \<noteq> CHR 0x00"
  using printable_code [of c] by auto

lemma find_user_logged_in:
  assumes "users_inv us" "find_user (Some n) us = Some i"
  shows "logged_in (set_current (Some i) us)"
  using find_idx_SomeD [OF assms(2) [unfolded find_user_key]] assms(1)
  by (simp add: logged_in_def set_current_def users_inv_def)

lemma create_find:
  assumes "users_inv us" "create w (Some n) p us = (True, us')" "length n < 32"
  shows "find_user (Some n) us' \<noteq> None"
  using assms(2)
proof (cases rule: create_cases)
  case (yes m q i)
  have i: "i < length (tab us)" using yes(6) by (rule find_idx_len)
  with yes(2,7) assms(3) have "(tab us' ! i) \<in> set (tab us')" "uactive (tab us' ! i)" "uname (tab us' ! i) = n"
    by (simp_all add: set_update_memI)
  then show ?thesis unfolding find_user_key table_simps not_None_eq by (auto simp: find_idx_ex)
qed simp

lemma set_current_users_inv [simp]: "users_inv (set_current u us) \<longleftrightarrow> users_inv us"
  by (simp add: users_inv_def set_current_def)

lemma signup_confirm_inv:
  assumes inv: "shell_inv s" and m: "sh_mode s = MODE_SIGNUP_CONFIRM"
  shows "shell_inv (line_signup_confirm e l s)"
proof (cases "sh_ppass s = l")
  case False
  with inv m show ?thesis
    by (simp add: line_signup_confirm_def show_signup_prompt_def shell_inv_def parts_ok_def texts_ok_def masks_ok_def session_ok_def)
next
  case True
  obtain ok us where c: "create (e_wr e) (Some (sh_puser s)) (Some (sh_ppass s)) (sh_users s) = (ok, us)" by fastforce
  have ui: "users_inv (sh_users s)" and pn: "length (sh_puser s) < 32" "no_nul (sh_puser s)"
    using inv by (simp_all add: shell_inv_def session_ok_def texts_ok_def printable_no_nul)
  from user_create_inv [OF ui, of "Some (sh_puser s)" "e_wr e" "Some (sh_ppass s)"] pn(2) c have us: "users_inv us" by simp
  show ?thesis
  proof (cases ok)
    case ok: True
    from c ok have c': "create (e_wr e) (Some (sh_puser s)) (Some (sh_ppass s)) (sh_users s) = (True, us)" by simp
    from create_find [OF ui c' pn(1)] obtain i where i: "find_user (Some (sh_puser s)) us = Some i" by blast
    note l = find_user_logged_in [OF us i]
    from inv True c ok i us l show ?thesis
      by (simp add: line_signup_confirm_def Let_def show_onboard_prompt_def shell_inv_def parts_ok_def texts_ok_def masks_ok_def
          session_ok_def)
  next
    case no: False
    from c no have "us = sh_users s" by (auto elim: create_cases)
    with inv True c no m show ?thesis
      by (simp add: line_signup_confirm_def Let_def show_signup_prompt_def shell_inv_def parts_ok_def texts_ok_def masks_ok_def
          session_ok_def)
  qed
qed

lemma set_usecase_ok:
  assumes "users_inv us" "logged_in us"
  shows "users_inv (set_usecase w (cur_user us) uc us)" "logged_in (set_usecase w (cur_user us) uc us)"
  using user_step_inv [OF assms(1), of "SetUsecase w (cur_user us) uc"] assms
  by (auto simp: user_step_def set_usecase_def logged_in_def users_inv_def)

lemma onboarding_ok:
  assumes "users_inv us" "logged_in us"
  shows "users_inv (complete_onboarding w (cur_user us) us)" "logged_in (complete_onboarding w (cur_user us) us)"
  using user_step_inv [OF assms(1), of "Onboard w (cur_user us)"] assms
  by (auto simp: user_step_def complete_onboarding_def logged_in_def users_inv_def)

lemma usecase_inv:
  assumes "shell_inv s" "sh_mode s = MODE_ONBOARD_USECASE"
  shows "shell_inv (line_usecase e l s)"
  using assms set_usecase_ok [of "sh_users s"]
  by (simp add: line_usecase_def Let_def show_onboard_prompt_def shell_inv_def parts_ok_def texts_ok_def masks_ok_def
      session_ok_def split: option.split)

lemma current_name_simps [simp]:
  "current_name (say xs s) = current_name s" "current_name (s\<lparr>sh_mode := m, sh_masked := b\<rparr>) = current_name s"
  by (simp_all add: current_name_def)

lemma enter_shell_inv:
  "parts_ok s \<Longrightarrow> texts_ok s \<Longrightarrow> users_inv (sh_users s) \<Longrightarrow> logged_in (sh_users s) \<Longrightarrow> shell_inv (enter_shell_mode s)"
proof -
  assume a: "parts_ok s" "texts_ok s" "users_inv (sh_users s)" "logged_in (sh_users s)"
  then have "shell_inv (s\<lparr>sh_mode := MODE_SHELL, sh_masked := False\<rparr>)"
    by (simp add: shell_inv_def parts_ok_def texts_ok_def masks_ok_def session_ok_def)
  then show ?thesis by (cases "current_name s") (simp_all add: enter_shell_mode_def Let_def)
qed

lemma packages_inv:
  assumes "shell_inv s" "sh_mode s = MODE_ONBOARD_PACKAGES"
  shows "okr shell_inv (line_packages e l s)"
proof -
  have u: "users_inv (sh_users s)" "logged_in (sh_users s)" using assms by (simp_all add: shell_inv_def session_ok_def)
  have "shell_inv (enter_shell_mode (t\<lparr>sh_users := complete_onboarding (e_wr e) (cur_user (sh_users t)) (sh_users t)\<rparr>))"
    if "t = say xs s" for t xs
    using assms(1) onboarding_ok [OF u] that by (intro enter_shell_inv) (simp_all add: shell_inv_def parts_ok_def texts_ok_def)
  then show ?thesis
    by (auto simp: line_packages_def okr_bind Let_def split: option.splits if_splits)
qed

lemma login_pass_inv:
  assumes "shell_inv s" "sh_mode s = MODE_LOGIN_PASS"
  shows "okr shell_inv (line_login_pass l s)"
proof (cases "find_user (Some (sh_puser s)) (sh_users s)")
  case None
  with assms show ?thesis
    by (simp add: line_login_pass_def verify_def show_login_prompt_def shell_inv_def parts_ok_def texts_ok_def masks_ok_def
        session_ok_def)
next
  case (Some i)
  have u: "users_inv (sh_users s)" using assms by (simp add: shell_inv_def session_ok_def)
  note l = find_user_logged_in [OF u Some]
  let ?t = "s\<lparr>sh_users := set_current (Some i) (sh_users s)\<rparr>"
  have "shell_inv (enter_shell_mode ?t)"
    using assms(1) u l by (intro enter_shell_inv) (simp_all add: shell_inv_def parts_ok_def texts_ok_def)
  moreover have "shell_inv (show_onboard_prompt (?t\<lparr>sh_mode := MODE_ONBOARD_USECASE\<rparr>))"
    using assms(1) u l
    by (simp add: show_onboard_prompt_def shell_inv_def parts_ok_def texts_ok_def masks_ok_def session_ok_def)
  moreover have "shell_inv (show_login_prompt ((say [line ''Login failed.''] s)\<lparr>sh_puser := [], sh_mode := MODE_LOGIN_USER\<rparr>))"
    using assms(1) by (simp add: show_login_prompt_def shell_inv_def parts_ok_def texts_ok_def masks_ok_def session_ok_def)
  ultimately show ?thesis using Some by (simp add: line_login_pass_def Let_def)
qed

lemma names_inv:
  assumes "shell_inv s" "\<forall>c\<in>set l. printable c"
  shows "sh_mode s = MODE_SIGNUP_USER \<Longrightarrow> okr shell_inv (line_signup_user l s)"
    and "sh_mode s = MODE_SIGNUP_PASS \<Longrightarrow> okr shell_inv (line_signup_pass l s)"
    and "sh_mode s = MODE_LOGIN_USER \<Longrightarrow> okr shell_inv (line_login_user l s)"
  using assms
  by (auto simp: line_signup_user_def line_signup_pass_def line_login_user_def okr_bind show_signup_prompt_def
      show_login_prompt_def shell_inv_def parts_ok_def texts_ok_def masks_ok_def session_ok_def)

lemma line_shell_inv: "shell_inv s \<Longrightarrow> sh_mode s = MODE_SHELL \<Longrightarrow> pids_left s \<Longrightarrow> oko shell_inv (line_shell e l s)"
  using process_command_inv [of s e l] by (auto simp: line_shell_def oko_map okr_bind)

lemma handle_line_inv:
  assumes "shell_inv s" "\<forall>c\<in>set l. printable c" "pids_left s"
  shows "oko shell_inv (handle_line e l s)"
  using assms
  by (cases "sh_mode s") (simp_all add: handle_line_def names_inv signup_confirm_inv usecase_inv packages_inv login_pass_inv line_shell_inv)

lemma edit_save_inv: "shell_inv s \<Longrightarrow> sh_mode s = MODE_EDIT \<Longrightarrow> okr (\<lambda>r. shell_inv (snd r) \<and> sh_mode (snd r) = MODE_EDIT) (edit_save s)"
  by (auto simp: edit_save_def okr_bind shell_inv_def parts_ok_def texts_ok_def masks_ok_def session_ok_def intro: write_inv)

lemma leave_editor_inv: "shell_inv s \<Longrightarrow> sh_mode s = MODE_EDIT \<Longrightarrow> shell_inv (leave_editor s)"
  by (simp add: leave_editor_def shell_inv_def parts_ok_def texts_ok_def masks_ok_def session_ok_def show_prompt_def)

lemma edit_insert_inv: "shell_inv s \<Longrightarrow> c \<noteq> CHR 0x00 \<Longrightarrow> shell_inv (edit_insert c s)"
  by (simp add: edit_insert_def shell_inv_def parts_ok_def texts_ok_def masks_ok_def session_ok_def EDIT_BUF_def)

lemma line_upd_inv:
  "shell_inv s \<Longrightarrow> length l \<le> length (sh_line s) \<Longrightarrow> (\<And>c. c \<in> set l \<Longrightarrow> c \<in> set (sh_line s)) \<Longrightarrow> shell_inv (s\<lparr>sh_line := l\<rparr>)"
  by (auto simp: shell_inv_def parts_ok_def texts_ok_def masks_ok_def session_ok_def)

lemma con_inv_iff [simp]: "shell_inv (con x s) \<longleftrightarrow> shell_inv s"
  by (simp add: shell_inv_def parts_ok_def texts_ok_def masks_ok_def session_ok_def)

lemma ebuf_upd_inv:
  "shell_inv s \<Longrightarrow> length l \<le> length (sh_ebuf s) \<Longrightarrow> (\<And>c. c \<in> set l \<Longrightarrow> c \<in> set (sh_ebuf s)) \<Longrightarrow> shell_inv (s\<lparr>sh_ebuf := l\<rparr>)"
  by (auto simp: shell_inv_def parts_ok_def texts_ok_def masks_ok_def session_ok_def)

lemma edit_update_inv:
  assumes "shell_inv s" "sh_mode s = MODE_EDIT"
  shows "okr shell_inv (edit_update c s)"
proof -
  have sv: "okr shell_inv (bind_res (edit_save s) (\<lambda>(ok, s). Inr (leave_editor (say (f ok s) s))))"
    "okr shell_inv (bind_res (edit_save s) (\<lambda>(ok, s). Inr (say (f ok s) s)))" for f
    using edit_save_inv [OF assms] by (auto simp: okr_bind leave_editor_inv)
  have bs: "shell_inv (s\<lparr>sh_ebuf := butlast (sh_ebuf s)\<rparr>)"
    by (rule ebuf_upd_inv [OF assms(1)]) (auto dest: in_set_butlastD)
  show ?thesis
    using assms sv(1) [of "\<lambda>ok s. if ok then [line ''[Saved '', sh_efile s, '']''] else [line ''[Save failed]'']"] sv(2) bs
    by (auto simp: edit_update_def leave_editor_inv edit_insert_inv printable_not_nul)
qed

lemma type_char_inv: "shell_inv s \<Longrightarrow> printable c \<Longrightarrow> shell_inv (type_char c s)"
  by (auto simp: type_char_def shell_inv_def parts_ok_def texts_ok_def masks_ok_def session_ok_def SHELL_BUFFER_SIZE_def)

lemma shell_update_inv:
  assumes "shell_inv s" "pids_left s"
  shows "oko shell_inv (shell_update e c s)"
proof -
  have l: "shell_inv (s\<lparr>sh_line := []\<rparr>)" "shell_inv (s\<lparr>sh_line := butlast (sh_line s)\<rparr>)"
    using assms(1) by (auto intro!: line_upd_inv dest: in_set_butlastD)
  have "\<forall>c\<in>set (sh_line s). printable c" using assms by (simp add: shell_inv_def texts_ok_def)
  then have "oko shell_inv (handle_line e (sh_line s) (s\<lparr>sh_line := []\<rparr>))" 
    by (rule handle_line_inv [OF l(1)]) (simp add: assms(2))
  with assms(1) l show ?thesis by (simp add: shell_update_def Let_def edit_update_inv type_char_inv)
qed

section \<open>A state to try things on\<close>

definition users_ann :: ustate where
  "users_ann = set_current (Some 0) (snd (create False (Some ''ann'') (Some ''abc'') users_demo))"

definition sys_demo :: "shell_mode \<Rightarrow> ustate \<Rightarrow> fs \<Rightarrow> sys" where
  "sys_demo m us fs = \<lparr>sh_line = [], sh_cwd = ''/'', sh_mode = m, sh_efile = [], sh_ebuf = [], sh_puser = [], sh_ppass = [],
     sh_masked = (m \<in> {MODE_SIGNUP_PASS, MODE_SIGNUP_CONFIRM, MODE_LOGIN_PASS}), sh_fs = fs, sh_users = us,
     sh_clip = clip_init, sh_out = [], kern = node_a, hp = heap_zero, drv = drive_demo, pcis = [],
     cpui = cpu_init (\<lambda>_. (0, 0, 0, 0)), iqs = irqs_boot, kb = kbd_boot, mou = mouse_boot, card = nic_off, ports = [],
     ticks = 5, pow = Running\<rparr>"

definition env_demo :: env where
  "env_demo = \<lparr>e_dev = dead_com, e_nic = (\<lambda>_. True), e_wr = False\<rparr>"

lemma users_ann_ok: "users_inv users_ann" "logged_in users_ann" "find_user (Some ''ann'') users_ann = Some 0"
proof -
  have c: "snd (create False (Some ''ann'') (Some ''abc'') users_demo) =
      \<lparr>tab = (replicate MAX_USERS no_user)[0 := \<lparr>uname = ''ann'', pass_hash = hash_password ''abc'', usecase = USECASE_NONE,
         onboarded = False, uactive = True\<rparr>], cur_user = None, saved = None\<rparr>"
    by (simp add: create_def users_demo_def users_init_def load_from_disk_def find_user_def MAX_USERS_def no_user_def
        save_to_disk_def eval_nat_numeral)
  have "users_inv (snd (create False (Some ''ann'') (Some ''abc'') users_demo))"
    by (rule user_create_inv [OF users_init_None [folded users_demo_def]]) (auto simp: no_nul_def)
  then show "users_inv users_ann" by (simp add: users_ann_def)
  show "logged_in users_ann" by (simp add: users_ann_def logged_in_def set_current_def c MAX_USERS_def)
  show "find_user (Some ''ann'') users_ann = Some 0"
    by (simp add: users_ann_def find_user_def set_current_def c MAX_USERS_def eval_nat_numeral)
qed

lemma sys_demo_parts: "fs_inv fs \<Longrightarrow> parts_ok (sys_demo m us fs)" "texts_ok (sys_demo m us fs)" "masks_ok (sys_demo m us fs)"
proof -
  have "proc_inv (k_pt node_a) (k_sc node_a)" using boot_demo_inv by (simp add: demo_node_def)
  moreover have "mouse_inv mouse_boot" by (simp add: mouse_inv_def mouse_boot_def)
  ultimately show "fs_inv fs \<Longrightarrow> parts_ok (sys_demo m us fs)" by (simp add: parts_ok_def sys_demo_def clip_init_inv)
qed (simp_all add: texts_ok_def masks_ok_def sys_demo_def SHELL_BUFFER_SIZE_def MAX_PATH_LEN_def EDIT_BUF_def)

lemma sys_demo_inv: "fs_inv fs \<Longrightarrow> \<not> signing_up m \<Longrightarrow> shell_inv (sys_demo m users_ann fs)"
  using sys_demo_parts users_ann_ok(1,2) by (auto intro!: shell_invI simp: session_ok_def sys_demo_def)

end
