(* ===== verification/ShellSession.thy ===== *)
theory ShellSession
  imports ShellInv
begin

text \<open>
  The line discipline, the masking of passwords, and what it takes to get a session.
\<close>

section \<open>Typing\<close>

text \<open>The characters that come from the keyboard one after the other; a fault or a command that does not
  return ends the sequence.\<close>

fun feed_chars :: "env \<Rightarrow> string \<Rightarrow> sys \<Rightarrow> sys res option" where
  "feed_chars e [] s = ret s"
| "feed_chars e (c # xs) s = (case shell_update e c s of Some (Inr t) \<Rightarrow> feed_chars e xs t | r \<Rightarrow> r)"

lemma feed_chars_append:
  "feed_chars e (xs @ ds) s = (case feed_chars e xs s of Some (Inr t) \<Rightarrow> feed_chars e ds t | r \<Rightarrow> r)"
  by (induction xs arbitrary: s) (auto split: option.split sum.split)

definition echo :: "sys \<Rightarrow> char \<Rightarrow> con_op" where
  "echo s c = Putc (if sh_masked s then CHR ''*'' else c)"

definition typed :: "string \<Rightarrow> sys \<Rightarrow> sys" where
  "typed xs s = s\<lparr>sh_line := sh_line s @ xs, sh_out := sh_out s @ map (echo s) xs\<rparr>"

lemma typed_simps [simp]:
  "sh_mode (typed xs s) = sh_mode s" "sh_masked (typed xs s) = sh_masked s" "sh_line (typed xs s) = sh_line s @ xs"
  "sh_users (typed xs s) = sh_users s" "sh_puser (typed xs s) = sh_puser s" "kb (typed xs s) = kb s"
  "sh_out (typed xs s) = sh_out s @ map (echo s) xs" "typed [] s = s" "echo (typed xs s) = echo s"
  by (simp_all add: typed_def echo_def fun_eq_iff)

lemma typed_Cons: "typed xs (typed [c] s) = typed (c # xs) s"
  by (simp add: typed_def echo_def)

lemma printable_ctl: "printable c \<Longrightarrow> c \<noteq> CHR 0x03 \<and> c \<noteq> CHR 0x0A \<and> c \<noteq> CHR 0x08"
  using printable_code [of c] by auto

lemma update_printable:
  assumes "printable c" "sh_mode s \<noteq> MODE_EDIT" "length (sh_line s) < 255"
  shows "shell_update e c s = ret (typed [c] s)"
  using assms printable_ctl [of c]
  by (simp add: shell_update_def type_char_def typed_def echo_def con_def SHELL_BUFFER_SIZE_def)

lemma feed_printable:
  assumes "\<forall>c\<in>set xs. printable c" "sh_mode s \<noteq> MODE_EDIT" "length (sh_line s) + length xs \<le> 255"
  shows "feed_chars e xs s = ret (typed xs s)"
  using assms
proof (induction xs arbitrary: s)
  case (Cons c xs)
  then show ?case using Cons.IH [of "typed [c] s"] by (simp add: update_printable typed_Cons)
qed simp

text \<open>Beyond 255 characters nothing is stored and nothing is echoed.\<close>

lemma feed_full:
  assumes "\<forall>c\<in>set xs. printable c" "sh_mode s \<noteq> MODE_EDIT" "length (sh_line s) = 255"
  shows "feed_chars e xs s = ret s"
  using assms
proof (induction xs)
  case (Cons c xs)
  then have "shell_update e c s = ret s"
    using printable_ctl [of c] by (simp add: shell_update_def type_char_def SHELL_BUFFER_SIZE_def)
  with Cons show ?case by simp
qed simp

lemma feed_typed:
  assumes "\<forall>c\<in>set xs. printable c" "sh_mode s \<noteq> MODE_EDIT" "length (sh_line s) \<le> 255"
  shows "feed_chars e xs s = ret (typed (take (255 - length (sh_line s)) xs) s)"
proof -
  let ?k = "255 - length (sh_line s)"
  have t: "\<forall>c\<in>set (take ?k xs). printable c" "\<forall>c\<in>set (drop ?k xs). printable c"
    using assms(1) by (auto dest: in_set_takeD in_set_dropD)
  have a: "feed_chars e (take ?k xs) s = ret (typed (take ?k xs) s)"
    by (rule feed_printable) (use assms t in auto)
  show ?thesis
  proof (cases "length xs \<le> ?k")
    case True
    with a show ?thesis by simp
  next
    case False
    have "feed_chars e (drop ?k xs) (typed (take ?k xs) s) = ret (typed (take ?k xs) s)"
      by (rule feed_full) (use assms t False in auto)
    with a feed_chars_append [of e "take ?k xs" "drop ?k xs" s] show ?thesis by simp
  qed
qed

text \<open>
  The line discipline: printable characters typed on an empty line, then Enter, hand exactly that line to
  the mode's handler, with the buffer empty again; what appeared on the way are the characters, or stars.
\<close>

theorem line_discipline:
  assumes "\<forall>c\<in>set l. printable c" "sh_mode s \<noteq> MODE_EDIT" "sh_line s = []" "length l \<le> 255"
  shows "feed_chars e (l @ [CHR 0x0A]) s = handle_line e l (s\<lparr>sh_out := sh_out s @ map (echo s) l\<rparr>)"
proof -
  have "feed_chars e l s = ret (typed l s)" by (rule feed_printable) (use assms in auto)
  moreover have "(typed l s)\<lparr>sh_line := []\<rparr> = s\<lparr>sh_out := sh_out s @ map (echo s) l\<rparr>"
    using assms(3) by (simp add: typed_def)
  ultimately show ?thesis
    using assms(2,3) by (simp add: feed_chars_append shell_update_def split: option.split sum.split)
qed

text \<open>Backspace takes back the last character typed, here and on the screen.\<close>

theorem backspace_untypes:
  assumes "printable c" "sh_mode s \<noteq> MODE_EDIT" "length (sh_line s) < 255"
  shows "feed_chars e [c, CHR 0x08] s = ret (s\<lparr>sh_out := sh_out s @ [echo s c, Backspace]\<rparr>)"
  using assms by (simp add: update_printable) (simp add: shell_update_def typed_def con_def)

section \<open>Passwords are not shown\<close>

text \<open>C30: In a password mode, what appears while a password is typed depends only on its length: one star
  for each character that fits the line.
\<close>

theorem password_not_shown:
  assumes "shell_inv s" "sh_mode s \<in> {MODE_SIGNUP_PASS, MODE_SIGNUP_CONFIRM, MODE_LOGIN_PASS}" "\<forall>c\<in>set xs. printable c"
  shows "\<exists>t. feed_chars e xs s = ret t \<and>
             sh_out t = sh_out s @ replicate (min (length xs) (255 - length (sh_line s))) (Putc (CHR ''*''))"
proof -
  have m: "sh_masked s" "length (sh_line s) \<le> 255" "sh_mode s \<noteq> MODE_EDIT"
    using assms(1,2) by (auto simp: shell_inv_def masks_ok_def texts_ok_def SHELL_BUFFER_SIZE_def)
  have "map (echo s) ds = replicate (length ds) (Putc (CHR ''*''))" for ds
    using m(1) by (induction ds) (simp_all add: echo_def)
  with feed_typed [OF assms(3) m(3,2), of e] show ?thesis by (simp add: min.commute)
qed

section \<open>Getting a session\<close>

lemma quiet_mode: "quiet s t \<Longrightarrow> sh_mode t = sh_mode s"
  by (simp add: quiet_def ctl_def)

lemma enter_shell_users [simp]: "sh_users (enter_shell_mode s) = sh_users s" "sh_mode (enter_shell_mode s) = MODE_SHELL"
  by (simp_all add: enter_shell_mode_def Let_def show_prompt_def split: option.split)

lemma onboard_prompt_simps [simp]: "sh_users (show_onboard_prompt s) = sh_users s" "sh_mode (show_onboard_prompt s) = sh_mode s"
  by (simp_all add: show_onboard_prompt_def split: shell_mode.split)

lemma signup_prompt_simps [simp]: "sh_users (show_signup_prompt s) = sh_users s" "sh_mode (show_signup_prompt s) = sh_mode s"
  by (simp_all add: show_signup_prompt_def split: shell_mode.split)

lemma login_prompt_simps [simp]: "sh_users (show_login_prompt s) = sh_users s" "sh_mode (show_login_prompt s) = sh_mode s"
  by (simp_all add: show_login_prompt_def split: shell_mode.split)

text \<open>C12: A session begins in one of two ways only: with the Enter after a password whose hash is the one stored
  for the account named before, which becomes the current user; or with the confirmation of the password
  of an account that is created at that moment.
\<close>

theorem session_needs_password:
  assumes "shell_update e c s = Some (Inr t)" "\<not> in_session (sh_mode s)" "in_session (sh_mode t)"
  shows "c = CHR 0x0A \<and>
    ((sh_mode s = MODE_LOGIN_PASS \<and>
      (\<exists>i. find_user (Some (sh_puser s)) (sh_users s) = Some i \<and>
           pass_hash (tab (sh_users s) ! i) = hash_password (sh_line s) \<and> cur_user (sh_users t) = Some i)) \<or>
     (sh_mode s = MODE_SIGNUP_CONFIRM \<and> sh_ppass s = sh_line s \<and>
      (\<exists>us. create (e_wr e) (Some (sh_puser s)) (Some (sh_line s)) (sh_users s) = (True, us) \<and>
            cur_user (sh_users t) = find_user (Some (sh_puser s)) us)))"
proof -
  have c: "c = CHR 0x0A"
  proof (rule ccontr)
    assume "c \<noteq> CHR 0x0A"
    then have "sh_mode t = sh_mode s"
      using assms(1,2) by (auto simp: shell_update_def type_char_def Let_def show_prompt_def split: if_splits)
    with assms(2,3) show False by simp
  qed
  have h: "handle_line e (sh_line s) (s\<lparr>sh_line := []\<rparr>) = Some (Inr t)"
    using assms(1,2) c by (auto simp: shell_update_def split: if_splits)
  show ?thesis
  proof (cases "sh_mode s")
    case MODE_SIGNUP_USER
    with h assms(3) show ?thesis by (auto simp: handle_line_def line_signup_user_def bind_res_Inr split: if_splits)
  next
    case MODE_SIGNUP_PASS
    with h assms(3) show ?thesis by (auto simp: handle_line_def line_signup_pass_def bind_res_Inr split: if_splits)
  next
    case MODE_LOGIN_USER
    with h assms(3) show ?thesis by (auto simp: handle_line_def line_login_user_def bind_res_Inr split: if_splits)
  next
    case MODE_SIGNUP_CONFIRM
    obtain ok us where cr: "create (e_wr e) (Some (sh_puser s)) (Some (sh_ppass s)) (sh_users s) = (ok, us)" by fastforce
    from MODE_SIGNUP_CONFIRM h have t: "t = line_signup_confirm e (sh_line s) (s\<lparr>sh_line := []\<rparr>)"
      by (simp add: handle_line_def)
    have p: "sh_ppass s = sh_line s" using t assms(3) by (auto simp: line_signup_confirm_def split: if_splits)
    have "ok" using t assms(3) p cr by (auto simp: line_signup_confirm_def Let_def split: if_splits)
    with t p cr c MODE_SIGNUP_CONFIRM show ?thesis by (simp add: line_signup_confirm_def Let_def set_current_def)
  next
    case MODE_LOGIN_PASS
    with h have l: "line_login_pass (sh_line s) (s\<lparr>sh_line := []\<rparr>) = Inr t" by (simp add: handle_line_def)
    have v: "verify (Some (sh_puser s)) (sh_line s) (sh_users s)" using l assms(3) by (auto simp: line_login_pass_def split: if_splits)
    then obtain i where i: "find_user (Some (sh_puser s)) (sh_users s) = Some i"
      "pass_hash (tab (sh_users s) ! i) = hash_password (sh_line s)" by (auto simp: verify_def split: option.splits)
    have "cur_user (sh_users t) = Some i"
      using l v i(1) by (auto simp: line_login_pass_def Let_def set_current_def split: if_splits)
    with i c MODE_LOGIN_PASS show ?thesis by simp
  qed (use assms(2) in \<open>simp_all add: in_session_def\<close>)
qed

section \<open>Names and passwords that do not fit\<close>

text \<open>C25: Outside the command line and the editor a line can do harm in one way only, and then it does: a user
  name of 32 or more characters, at the login prompt as at the sign-up, or a new password of 64 or more,
  is written past its buffer. No account is needed to type it.
\<close>

theorem session_lines_fit:
  assumes "shell_inv s" "sh_mode s \<noteq> MODE_SHELL" "sh_mode s \<noteq> MODE_EDIT"
  shows "(\<exists>f. shell_update e (CHR 0x0A) s = Some (Inl f)) \<longleftrightarrow>
    sh_mode s \<in> {MODE_SIGNUP_USER, MODE_LOGIN_USER} \<and> 32 \<le> length (sh_line s) \<or>
    sh_mode s = MODE_SIGNUP_PASS \<and> 64 \<le> length (sh_line s)"
proof -
  let ?s = "s\<lparr>sh_line := []\<rparr>"
  have u: "shell_update e (CHR 0x0A) s = handle_line e (sh_line s) ?s" using assms(3) by (simp add: shell_update_def)
  have l: "in_session (sh_mode s) \<Longrightarrow> \<exists>i. cur_user (sh_users s) = Some i"
    using assms(1) by (auto simp: shell_inv_def session_ok_def logged_in_def)
  show ?thesis
  proof (cases "sh_mode s")
    case MODE_ONBOARD_PACKAGES
    with l obtain i where "cur_user (sh_users s) = Some i" by auto
    with MODE_ONBOARD_PACKAGES show ?thesis by (simp add: u handle_line_def line_packages_def Let_def)
  next
    case MODE_LOGIN_PASS
    then show ?thesis by (auto simp: u handle_line_def line_login_pass_def verify_def Let_def split: option.splits)
  qed (use assms(2,3) in \<open>auto simp: u handle_line_def line_signup_user_def line_signup_pass_def line_login_user_def strcpy_buf_def\<close>)
qed

section \<open>Examples\<close>

text \<open>Ann, at the password prompt, types her password.\<close>

definition login_demo :: sys where
  "login_demo = (sys_demo MODE_LOGIN_PASS (clear_current users_ann) fs_init)\<lparr>sh_puser := ''ann''\<rparr>"

lemma login_demo_inv: "shell_inv login_demo"
proof -
  have "users_inv (clear_current users_ann)" using users_ann_ok(1) by (simp add: users_inv_def clear_current_def)
  then show ?thesis
    using sys_demo_parts [where fs = fs_init and m = MODE_LOGIN_PASS and us = "clear_current users_ann"] fs_init_inv
    by (auto simp: login_demo_def shell_inv_def session_ok_def parts_ok_def texts_ok_def masks_ok_def sys_demo_def printable_def
        between_def)
qed

theorem password_not_shown_witness:
  "\<exists>t. feed_chars env_demo ''abc'' login_demo = ret t \<and> sh_out t = [Putc (CHR ''*''), Putc (CHR ''*''), Putc (CHR ''*'')]"
proof -
  have m: "sh_mode login_demo = MODE_LOGIN_PASS" "sh_line login_demo = []" "sh_out login_demo = []"
    by (simp_all add: login_demo_def sys_demo_def)
  from password_not_shown [OF login_demo_inv, of "''abc''" env_demo] show ?thesis
    by (simp add: m printable_def between_def)
qed

theorem line_discipline_witness:
  "feed_chars env_demo [CHR ''l'', CHR ''s'', CHR 0x0A] (sys_demo MODE_SHELL users_ann fs_init) =
   handle_line env_demo ''ls'' ((sys_demo MODE_SHELL users_ann fs_init)\<lparr>sh_out := [Putc (CHR ''l''), Putc (CHR ''s'')]\<rparr>)"
  using line_discipline [of "''ls''" "sys_demo MODE_SHELL users_ann fs_init" env_demo]
  by (simp add: printable_def between_def sys_demo_def echo_def)

theorem session_lines_fit_witness:
  "shell_inv login_demo \<and> (\<exists>f. shell_update env_demo (CHR 0x0A)
     ((sys_demo MODE_LOGIN_USER users_ann fs_init)\<lparr>sh_line := replicate 32 (CHR ''x'')\<rparr>) = Some (Inl f))"
proof -
  let ?s = "(sys_demo MODE_LOGIN_USER users_ann fs_init)\<lparr>sh_line := replicate 32 (CHR ''x'')\<rparr>"
  have "shell_inv ?s"
    using sys_demo_inv [OF fs_init_inv, of MODE_LOGIN_USER]
    by (simp add: shell_inv_def parts_ok_def texts_ok_def masks_ok_def session_ok_def SHELL_BUFFER_SIZE_def printable_def between_def)
  moreover have "sh_mode ?s = MODE_LOGIN_USER" by (simp add: sys_demo_def)
  ultimately show ?thesis using session_lines_fit [of ?s env_demo] login_demo_inv by simp
qed

text \<open>The password is right, so the session begins, with the menu of the first login.\<close>

theorem session_needs_password_witness:
  "\<exists>t. shell_update env_demo (CHR 0x0A) (login_demo\<lparr>sh_line := ''abc''\<rparr>) = ret t \<and> sh_mode t = MODE_ONBOARD_USECASE \<and>
       cur_user (sh_users t) = Some 0 \<and> pass_hash (tab users_ann ! 0) = hash_password ''abc''"
proof -
  let ?s = "login_demo\<lparr>sh_line := ''abc''\<rparr>"
  have u: "sh_users login_demo = clear_current users_ann" "sh_puser login_demo = ''ann''" "sh_mode login_demo = MODE_LOGIN_PASS"
    by (simp_all add: login_demo_def sys_demo_def)
  have tab: "tab users_ann = (replicate MAX_USERS no_user)[0 := \<lparr>uname = ''ann'', pass_hash = hash_password ''abc'',
      usecase = USECASE_NONE, onboarded = False, uactive = True\<rparr>]"
    by (simp add: users_ann_def set_current_def create_def users_demo_def users_init_def load_from_disk_def find_user_def
        MAX_USERS_def no_user_def save_to_disk_def eval_nat_numeral)
  have f: "find_user (Some ''ann'') (clear_current users_ann) = Some 0"
    using users_ann_ok(3) by (simp add: find_user_def clear_current_def)
  have v: "verify (Some ''ann'') ''abc'' (clear_current users_ann)"
    by (simp add: verify_def f) (simp add: clear_current_def tab MAX_USERS_def)
  obtain t where t: "shell_update env_demo (CHR 0x0A) ?s = ret t" "sh_mode t = MODE_ONBOARD_USECASE"
    using v f by (simp add: shell_update_def handle_line_def line_login_pass_def u Let_def)
      (simp add: set_current_def clear_current_def tab MAX_USERS_def)
  from session_needs_password [OF t(1)] t u f show ?thesis by (auto simp: clear_current_def)
qed

end
