(* ===== verification/ShellFiles.thy ===== *)
theory ShellFiles
  imports ShellSession
begin

text \<open>
  What the file commands do for the user: the editor saves what was typed, cut and paste move a file,
  which names are safe, and two commands that do not do what they say.
\<close>

section \<open>Paths that are short enough\<close>

lemma strip_short: "length p < 128 \<Longrightarrow> normalize_path p = Inr (strip_slashes p)"
  by (simp add: normalize_Inr MAX_PATH_LEN_def)

lemma split_total: "length p < 32 \<Longrightarrow> \<exists>a b. split_path p = Inr (a, b) \<and> length a < 32 \<and> length b < 32"
proof -
  assume p: "length p < 32"
  have s: "length (strip_slashes p) < 32" using strip_length [of p] p by linarith
  have "length (drop k (strip_slashes p)) < 32" "length (take k p) < 32" for k using s p by simp_all
  then show ?thesis
    using s p by (auto simp: split_path_def strip_short Let_def MAX_NAME_LEN_def split: option.split nat.split)
qed

text \<open>\<open>safe r\<close>: no buffer was overrun.\<close>

abbreviation safe :: "'s res \<Rightarrow> bool" where "safe r \<equiv> \<not> isl r"

lemma safe_ex: "safe r \<longleftrightarrow> (\<exists>x. r = Inr x)"
  by (cases r) auto

lemma parent_total: "length a < 32 \<Longrightarrow> \<exists>b. parent_ok a fs = Inr b"
  using split_total [of a] by (auto simp: parent_ok_def split: option.split)

lemma full_total: "length a < 32 \<Longrightarrow> length b < 32 \<Longrightarrow> \<exists>f. full_path a b = Inr f"
  by (auto simp: full_path_def strcat_buf_def MAX_PATH_LEN_def)

text \<open>On a path of at most 31 characters no operation of the file system writes past a buffer.\<close>

lemma short_ops:
  assumes p: "length p < 32"
  shows "safe (mkdir (Some p) fs)" "safe (touch (Some p) fs)" "safe (rm (Some p) fs)"
    and "safe (read_file (Some p) 1024 fs)" "safe (ls (Some p) 1024 fs)" "safe (ls (Some p) 16 fs)"
    and "safe (write_file (Some p) (Some c) fs)"
proof -
  have s: "length (strip_slashes p) < 32" using strip_length [of p] p by linarith
  have n: "normalize_path p = Inr (strip_slashes p)" "normalize_path (strip_slashes p) = Inr (strip_slashes p)"
    using p s by (simp_all add: strip_short)
  obtain a b where ab: "split_path (strip_slashes p) = Inr (a, b)" "length a < 32" "length b < 32"
    using split_total [OF s] by blast
  obtain ok where ok: "parent_ok a fs = Inr ok" using parent_total [OF ab(2)] by blast
  obtain f where f: "full_path a b = Inr f" using full_total [OF ab(2,3)] by blast
  show "safe (mkdir (Some p) fs)" using n ab ok by (simp add: mkdir_def split: option.split)
  show "safe (touch (Some p) fs)" using n ab ok by (simp add: touch_def split: option.split)
  show "safe (rm (Some p) fs)" using n ab f by (simp add: rm_def split: option.split)
  show "safe (read_file (Some p) 1024 fs)" using n ab by (simp add: read_file_def Let_def MAX_FILE_DATA_def split: option.split)
  show "safe (ls (Some p) 1024 fs)" "safe (ls (Some p) 16 fs)" using n by (simp_all add: ls_def split_def Let_def)
  have st: "safe (store_file i c fs')" for i fs' by (simp add: store_file_def Let_def)
  have t: "safe (touch (Some (strip_slashes p)) fs)" using n ab ok by (simp add: touch_def split: option.split)
  then obtain x where "touch (Some (strip_slashes p)) fs = Inr x" by (auto simp: safe_ex)
  with st show "safe (write_file (Some p) (Some c) fs)"
    using n ab by (simp add: write_file_def split_def split: option.split)
qed

lemma build_short:
  assumes "length cwd + 1 + length a < 32"
  obtains p where "build_path cwd a = Inr p" "length p < 32"
proof -
  have "\<exists>p. build_path cwd a = Inr p \<and> length p < 32"
    using assms by (auto simp: build_path_def strcat_buf_def MAX_PATH_LEN_def)
  with that show ?thesis by blast
qed

lemma split_write_short: "length (fst (split_write a)) \<le> length a"
proof -
  have "length (fst (scan_word 63 a)) \<le> length a"
    using scan_word_append [of 63 a] by (metis length_append le_add1)
  then show ?thesis by (simp add: split_write_def split_def Let_def)
qed

lemma path_command_short:
  assumes "length (sh_cwd s) + 1 + length a < 32" "\<And>p. length p < 32 \<Longrightarrow> safe (f (Some p) (sh_fs s))"
  shows "\<exists>t. path_command f u g b a s = Inr t"
proof -
  obtain p where "build_path (sh_cwd s) a = Inr p" "length p < 32" using assms(1) by (rule build_short)
  with assms(2) [of p] show ?thesis by (auto simp: path_command_def safe_ex)
qed

definition file_commands :: "string list" where
  "file_commands = [''cd'', ''ls'', ''mkdir'', ''touch'', ''rm'', ''cat'', ''write'', ''nano'', ''copyf'', ''cut'', ''pastef'']"

lemma run_file_commands:
  "run_command e ''cd'' a s = Some (cmd_cd a s)" "run_command e ''ls'' a s = Some (cmd_ls a s)"
  "run_command e ''mkdir'' a s = Some (cmd_mkdir a s)" "run_command e ''touch'' a s = Some (cmd_touch a s)"
  "run_command e ''rm'' a s = Some (cmd_rm a s)" "run_command e ''cat'' a s = Some (cmd_cat a s)"
  "run_command e ''write'' a s = Some (cmd_write a s)" "run_command e ''nano'' a s = Some (cmd_nano a s)"
  "run_command e ''copyf'' a s = Some (cmd_copyf a s)" "run_command e ''cut'' a s = Some (cmd_cut a s)"
  "run_command e ''pastef'' a s = Some (cmd_pastef a s)"
  by (simp_all add: run_command_def info_command_def)

text \<open>C38: A file command whose argument, joined to the working directory, is at most 31 characters long returns
  and writes outside no buffer.
\<close>

theorem short_names_are_safe:
  assumes "cmd \<in> set file_commands" "length (sh_cwd s) + 1 + length a < 32"
  shows "\<exists>t. run_command e cmd a s = ret t"
proof -
  obtain p where p: "build_path (sh_cwd s) a = Inr p" "length p < 32" using assms(2) by (rule build_short)
  note ops = short_ops [OF p(2), where fs = "sh_fs s", unfolded safe_ex]
  have p128: "length p < MAX_PATH_LEN" "length p < 64" "length (sh_cwd s) < 32" "length (sh_cwd s) < MAX_PATH_LEN"
    using p(2) assms(2) by (simp_all add: MAX_PATH_LEN_def)
  have cd: "\<exists>t. cmd_cd a s = Inr t"
    using p(1) p128 ops(6) by (auto simp: cmd_cd_def)
  obtain r where r: "read_file (Some p) 1024 (sh_fs s) = Inr r" using ops(4) by blast
  have ls: "\<exists>t. cmd_ls a s = Inr t"
    using p(1) p128 ops(5) short_ops(5) [OF p128(3), of "sh_fs s", unfolded safe_ex] by (auto simp: cmd_ls_def)
  have cat: "\<exists>t. cmd_cat a s = Inr t" "\<exists>t. cmd_copyf a s = Inr t" "\<exists>t. cmd_nano a s = Inr t"
    using p(1) p128 r by (auto simp: cmd_cat_def cmd_copyf_def cmd_nano_def split_def Let_def)
  have cut: "\<exists>t. cmd_cut a s = Inr t" using p(1) r ops(3) by (auto simp: cmd_cut_def split_def Let_def)
  obtain w where "write_file (Some p) (Some (clip_get (sh_clip s))) (sh_fs s) = Inr w" using ops(7) by blast
  then have pa: "\<exists>t. cmd_pastef a s = Inr t" using p(1) by (simp add: cmd_pastef_def split_def Let_def)
  have dirs: "\<exists>t. cmd_mkdir a s = Inr t" "\<exists>t. cmd_touch a s = Inr t" "\<exists>t. cmd_rm a s = Inr t"
    unfolding cmd_mkdir_def cmd_touch_def cmd_rm_def
    by (rule path_command_short [OF assms(2)], erule short_ops)+
  have wr: "\<exists>t. cmd_write a s = Inr t"
  proof -
    obtain fn c where w: "split_write a = (fn, c)" by fastforce
    have "length (sh_cwd s) + 1 + length fn < 32" using split_write_short [of a] w assms(2) by simp
    then obtain q where q: "build_path (sh_cwd s) fn = Inr q" "length q < 32" by (rule build_short)
    from short_ops(7) [OF q(2), where fs = "sh_fs s" and c = c, unfolded safe_ex] q(1) w show ?thesis by (auto simp: cmd_write_def)
  qed
  from assms(1) show ?thesis
    unfolding file_commands_def list.set insert_iff empty_iff
    by (elim disjE) (simp_all add: run_file_commands cd ls cat cut pa dirs wr)
qed

section \<open>Commands as lines\<close>

lemma command_word: "CHR '' '' \<notin> set c \<Longrightarrow> c \<noteq> [] \<Longrightarrow> length c \<le> 63 \<Longrightarrow> process_command e c s = run_command e c [] s"
  using scan_word_whole [of c 63 "[]"] by (cases c) (auto simp: process_command_def split_command_def)

lemma command_line:
  assumes "CHR '' '' \<notin> set c" "c \<noteq> []" "length c \<le> 63" "a \<noteq> []" "hd a \<noteq> CHR '' ''" "length a \<le> 191"
  shows "process_command e (c @ '' '' @ a) s = run_command e c a s"
  using split_command_line [of c a] assms by (auto simp: process_command_def)

section \<open>Commands that surprise\<close>

text \<open>\<^verbatim>\<open>cd\<close> goes anywhere: the test for a directory is whether its listing fails, which it never does, so a
  name that does not exist, or that is a file, becomes the working directory.
\<close>

theorem cd_goes_anywhere:
  assumes "a \<noteq> []" "hd a \<noteq> CHR '' ''" "length a \<le> 191" "build_path (sh_cwd s) a = Inr p"
  shows "process_command e (''cd '' @ a) s = ret (s\<lparr>sh_cwd := p\<rparr>)"
proof -
  have len: "length p < MAX_PATH_LEN" using assms(4) by (rule build_path_len)
  then have "normalize_path p = Inr (strip_slashes p)" by (simp add: normalize_Inr)
  then obtain n t where l: "ls (Some p) 16 (sh_fs s) = Inr (int n, t)" by (auto simp: ls_def split_def Let_def)
  have sl: "a = ''/'' \<Longrightarrow> p = ''/''" using assms(4) by (simp add: build_path_def MAX_PATH_LEN_def)
  have "process_command e (''cd '' @ a) s = run_command e ''cd'' a s"
    using command_line [of "''cd''" a e s] assms(1-3) by simp
  also have "\<dots> = Some (cmd_cd a s)" by (simp add: run_command_def info_command_def)
  also have "cmd_cd a s = Inr (s\<lparr>sh_cwd := p\<rparr>)"
    using assms(1,4) l len sl by (cases "a = ''/''") (simp_all add: cmd_cd_def)
  finally show ?thesis .
qed

section \<open>A named regular file\<close>

definition text_at :: "string \<Rightarrow> string \<Rightarrow> string \<Rightarrow> fs \<Rightarrow> bool" where
  "text_at pa na d fs \<longleftrightarrow> (\<exists>e. file_at pa na fs = Some e \<and> ftyp e = FILE_REGULAR \<and> fdata e = d \<and> NUL \<notin> set d)"

lemma cstr_id: "NUL \<notin> set d \<Longrightarrow> cstr d = d"
  by (induction d) auto

lemma text_at_entry:
  assumes "fs_inv fs" "text_at pa na d fs" "slash \<notin> set na"
  obtains i where "find_entry pa na fs = Some i" "0 < i" "i < MAX_FILES" "ftyp (fs ! i) = FILE_REGULAR" "fdata (fs ! i) = d"
    "entry_ok (fs ! i)" "length d \<le> 1023"
proof -
  obtain i where i: "find_entry pa na fs = Some i" "ftyp (fs ! i) = FILE_REGULAR" "fdata (fs ! i) = d"
    using assms(2) by (auto simp: text_at_def find_entry_file_at)
  note pos = find_entry_pos [OF assms(1) i(1) assms(3)]
  have ok: "entry_ok (fs ! i)" using assms(1) pos(1,2) by (simp add: fs_inv_def)
  then have "length d \<le> 1023" using i by (simp add: entry_ok_def MAX_FILE_DATA_def)
  with i pos(1,2) ok that show ?thesis by blast
qed

lemma read_text:
  assumes "fs_inv fs" "names (Some p) pa na" "text_at pa na d fs"
  shows "read_file (Some p) 1024 fs = Inr (True, d)"
proof -
  have "slash \<notin> set na" using names_slash [OF assms(2)] by simp
  then obtain i where i: "find_entry pa na fs = Some i" "ftyp (fs ! i) = FILE_REGULAR" "fdata (fs ! i) = d" "entry_ok (fs ! i)"
    "length d \<le> 1023" by (rule text_at_entry [OF assms(1,3)])
  have "file_at pa na fs = Some (fs ! i)" using i(1) by (simp add: find_entry_file_at)
  then show ?thesis using read_entry_ok [OF i(2,4), of 1024] i(3,5) by (simp add: read_file_named [OF assms(2)])
qed

lemma write_text:
  assumes "fs_inv fs" "names (Some p) pa na" "text_at pa na d fs" "NUL \<notin> set c" "length c \<le> 1023"
  obtains fs' where "write_file (Some p) (Some c) fs = Inr (True, fs')" "text_at pa na c fs'" "fs_inv fs'"
    "\<And>p' n'. (p', n') \<noteq> (pa, na) \<Longrightarrow> file_at p' n' fs' = file_at p' n' fs"
proof -
  have sl: "slash \<notin> set na" using names_slash [OF assms(2)] by simp
  then obtain i where i: "find_entry pa na fs = Some i" "ftyp (fs ! i) = FILE_REGULAR" by (rule text_at_entry [OF assms(1,3)])
  have p: "p \<noteq> []" "hd p = slash" "normalize_path p = Inr (strip_slashes p)" "split_path (strip_slashes p) = Inr (pa, na)"
    using assms(2) by (auto simp: names_def normalize_Inr)
  then have "write_file (Some p) (Some c) fs = store_file i c fs"
    using i by (cases p) (simp_all add: write_file_def invalid_path_def)
  moreover obtain fs' where s: "store_file i c fs = Inr (True, fs')" using i by (simp add: store_file_def Let_def)
  ultimately have w: "write_file (Some p) (Some c) fs = Inr (True, fs')" by simp
  note r = store_file_reads [OF assms(1) i(1) sl s]
  have "text_at pa na c fs'" using r(1) assms(4,5) by (auto simp: text_at_def)
  with w r(2) write_inv [OF assms(1) w] that show ?thesis by blast
qed

section \<open>The editor\<close>

definition editable :: "char \<Rightarrow> bool" where
  "editable c \<longleftrightarrow> printable c \<or> c = CHR 0x0A"

lemma feed_edit:
  assumes "\<forall>c\<in>set xs. editable c" "sh_mode s = MODE_EDIT" "length (sh_ebuf s) + length xs \<le> 1023"
  shows "feed_chars e xs s = ret (s\<lparr>sh_ebuf := sh_ebuf s @ xs, sh_out := sh_out s @ map Putc xs\<rparr>)"
  using assms
proof (induction xs arbitrary: s)
  case (Cons c xs)
  have "shell_update e c s = ret (edit_insert c s)"
    using Cons.prems(1,2) printable_code [of c] by (auto simp: shell_update_def edit_update_def editable_def)
  moreover have "edit_insert c s = s\<lparr>sh_ebuf := sh_ebuf s @ [c], sh_out := sh_out s @ [Putc c]\<rparr>"
    using Cons.prems(3) by (simp add: edit_insert_def con_def)
  ultimately show ?case using Cons.IH [of "s\<lparr>sh_ebuf := sh_ebuf s @ [c], sh_out := sh_out s @ [Putc c]\<rparr>"] Cons.prems by simp
qed simp

text \<open>C21: Opening a file in the editor, typing at its end and leaving with Ctrl+X leaves the file with the old
  text followed by what was typed, every other file as it was, and the shell ready for the next
  command, as long as the whole is at most 1023 characters.
\<close>

theorem edit_and_save:
  assumes inv: "shell_inv s" "sh_mode s = MODE_SHELL"
    and f: "f \<noteq> []" "build_path (sh_cwd s) f = Inr p" "length p < 64" "names (Some p) pa na" "text_at pa na d (sh_fs s)"
    and xs: "\<forall>c\<in>set xs. editable c" "length d + length xs \<le> 1023"
  shows "\<exists>s1 t. run_command e ''nano'' f s = ret s1 \<and> feed_chars e (xs @ [CHR 0x18]) s1 = ret t \<and> sh_mode t = MODE_SHELL \<and>
           read_file (Some p) 1024 (sh_fs t) = Inr (True, d @ xs) \<and>
           (\<forall>p' n'. (p', n') \<noteq> (pa, na) \<longrightarrow> file_at p' n' (sh_fs t) = file_at p' n' (sh_fs s))"
proof -
  have fi: "fs_inv (sh_fs s)" using inv by (simp add: shell_inv_def parts_ok_def)
  have r: "read_file (Some p) 1024 (sh_fs s) = Inr (True, d)" by (rule read_text [OF fi f(4,5)])
  have nul: "NUL \<notin> set d" using f(5) by (auto simp: text_at_def)
  have ld: "load_text (True, d) = d" using xs(2) by (simp add: load_text_def cstr_id nul)
  obtain s1 where s1: "cmd_nano f s = Inr s1" and s1f: "sh_mode s1 = MODE_EDIT" "sh_ebuf s1 = d" "sh_efile s1 = p" "sh_fs s1 = sh_fs s"
    using f(1-3) r by (simp add: cmd_nano_def Let_def ld)
  let ?s2 = "s1\<lparr>sh_ebuf := d @ xs, sh_out := sh_out s1 @ map Putc xs\<rparr>"
  have fd: "feed_chars e xs s1 = ret ?s2" using feed_edit [OF xs(1) s1f(1), of e] xs(2) by (simp add: s1f(2))
  have "NUL \<notin> set (d @ xs)" using nul xs(1) by (auto simp: editable_def dest: printable_not_nul)
  then obtain fs' where w: "write_file (Some p) (Some (d @ xs)) (sh_fs s) = Inr (True, fs')" "text_at pa na (d @ xs) fs'" "fs_inv fs'"
    and o: "\<And>p' n'. (p', n') \<noteq> (pa, na) \<Longrightarrow> file_at p' n' fs' = file_at p' n' (sh_fs s)"
    using write_text [OF fi f(4,5), of "d @ xs"] xs(2) by auto
  obtain t where t: "shell_update e (CHR 0x18) ?s2 = ret t" "sh_mode t = MODE_SHELL" "sh_fs t = fs'"
    using w(1) s1f by (simp add: shell_update_def edit_update_def edit_save_def leave_editor_def show_prompt_def)
  have "feed_chars e (xs @ [CHR 0x18]) s1 = ret t" using fd t(1) by (simp add: feed_chars_append)
  moreover have "run_command e ''nano'' f s = ret s1" using s1 by (simp add: run_command_def info_command_def)
  moreover have "read_file (Some p) 1024 (sh_fs t) = Inr (True, d @ xs)" using read_text [OF w(3) f(4) w(2)] t(3) by simp
  ultimately show ?thesis using t(2,3) o by blast
qed

section \<open>Cut and paste\<close>

text \<open>C36: Cutting a regular file with some text in it removes the file and keeps the text; pasting it under any
  name for which the file system can write it gives a file with that text.
\<close>

theorem cut_and_paste_moves:
  assumes inv: "shell_inv s" and f: "f \<noteq> []" "build_path (sh_cwd s) f = Inr p" "names (Some p) pa na"
    and d: "text_at pa na d (sh_fs s)" "d \<noteq> []" and g: "g \<noteq> []" "build_path (sh_cwd s) g = Inr q"
  shows "\<exists>s1. run_command e ''cut'' f s = ret s1 \<and> file_at pa na (sh_fs s1) = None \<and>
           (\<forall>fs2. write_file (Some q) (Some d) (sh_fs s1) = Inr (True, fs2) \<longrightarrow>
              (\<exists>s2. run_command e ''pastef'' g s1 = ret s2 \<and> read_file (Some q) 1024 (sh_fs s2) = Inr (True, d)))"
proof -
  have fi: "fs_inv (sh_fs s)" using inv by (simp add: shell_inv_def parts_ok_def)
  have sl: "slash \<notin> set na" using names_slash [OF f(3)] by simp
  then obtain i where i: "find_entry pa na (sh_fs s) = Some i" "ftyp (sh_fs s ! i) = FILE_REGULAR" "fdata (sh_fs s ! i) = d"
      "length d \<le> 1023" by (rule text_at_entry [OF fi d(1)])
  have nul: "NUL \<notin> set d" using d(1) by (auto simp: text_at_def)
  have r: "read_file (Some p) 1024 (sh_fs s) = Inr (True, d)" by (rule read_text [OF fi f(3) d(1)])
  have p: "p \<noteq> []" "hd p = slash" "normalize_path p = Inr (strip_slashes p)" "split_path (strip_slashes p) = Inr (pa, na)"
    using f(3) by (auto simp: names_def normalize_Inr)
  have "safe (rm (Some p) (sh_fs s))" using p i(1,2) by (cases p) (simp_all add: rm_def invalid_path_def)
  then obtain b fs1 where rm: "rm (Some p) (sh_fs s) = Inr (b, fs1)" by (auto simp: safe_ex)
  have fa: "file_at pa na (sh_fs s) = Some (sh_fs s ! i)" using i(1) by (simp add: find_entry_file_at)
  from rm_removes [OF fi f(3) rm] fa i(2) have gone: "file_at pa na fs1 = None" by (auto split: if_splits)
  have cd: "cstr d = d" using nul by (rule cstr_id)
  let ?c = "clip_set_str (Some d) (sh_clip s)"
  obtain s1 where s1: "cmd_cut f s = Inr s1" "sh_fs s1 = fs1" "sh_clip s1 = ?c" "sh_cwd s1 = sh_cwd s"
    using f(1,2) r rm by (simp add: cmd_cut_def Let_def cd)
  have fi1: "fs_inv fs1" by (rule rm_inv [OF fi rm])
  have c: "clip_get ?c = d" "\<not> clip_empty ?c"
    using set_str_get [OF nul, of "sh_clip s"] i(4) d(2) by (simp_all add: clip_empty_def clip_size_def)
  have paste: "\<exists>s2. run_command e ''pastef'' g s1 = ret s2 \<and> read_file (Some q) 1024 (sh_fs s2) = Inr (True, d)"
    if w: "write_file (Some q) (Some d) (sh_fs s1) = Inr (True, fs2)" for fs2
  proof -
    obtain s2 where s2: "cmd_pastef g s1 = Inr s2" "sh_fs s2 = fs2"
      using w g c by (simp add: cmd_pastef_def s1 Let_def)
    obtain qp qn where q: "names (Some q) qp qn" "text_at qp qn d fs2"
      using write_stores [OF fi1 w [unfolded s1(2)]] i(4) nul by (auto simp: text_at_def)
    have "fs_inv fs2" using write_inv [OF fi1] w s1(2) by blast
    from read_text [OF this q] s2 show ?thesis by (simp add: run_command_def info_command_def)
  qed
  have "run_command e ''cut'' f s = ret s1" using s1(1) by (simp add: run_command_def info_command_def)
  with gone paste s1(2) show ?thesis by auto
qed

section \<open>Examples\<close>

text \<open>Ann's session, with the file \<^verbatim>\<open>/f\<close> that holds \<^verbatim>\<open>old\<close>.\<close>

definition sess_demo :: sys where "sess_demo = sys_demo MODE_SHELL users_ann fs_demo"

lemma sess_demo_ok:
  "shell_inv sess_demo" "sh_mode sess_demo = MODE_SHELL" "sh_cwd sess_demo = ''/''" "sh_fs sess_demo = fs_demo"
  using sys_demo_inv [OF fs_demo_inv, of MODE_SHELL] by (simp_all add: sess_demo_def) (simp_all add: sys_demo_def)

lemma build_demo: "build_path ''/'' ''f'' = Inr ''/f''" "build_path ''/'' ''g'' = Inr ''/g''"
  by code_simp+

lemma file_demo: "names (Some ''/f'') ''/'' ''f''" "text_at ''/'' ''f'' ''old'' fs_demo"
proof -
  have "length ''/f'' < MAX_PATH_LEN \<and> split_path (strip_slashes ''/f'') = Inr (''/'', ''f'')" by code_simp
  then show "names (Some ''/f'') ''/'' ''f''" by (simp add: names_def)
  have "find_entry ''/'' ''f'' fs_demo = Some 1" by code_simp
  then have "file_at ''/'' ''f'' fs_demo = Some (fs_demo ! 1)" by (simp add: find_entry_file_at)
  moreover have "fs_demo ! 1 = \<lparr>fname = ''f'', fparent = ''/'', ftyp = FILE_REGULAR, fdata = ''old'', fsize = 3\<rparr>"
    by (simp add: fs_demo_def fs_init_def MAX_FILES_def)
  ultimately show "text_at ''/'' ''f'' ''old'' fs_demo" by (simp add: text_at_def)
qed

theorem short_names_are_safe_witness: "\<exists>t. run_command env_demo ''rm'' ''f'' sess_demo = ret t"
  using short_names_are_safe [of "''rm''" sess_demo "''f''" env_demo] by (simp add: file_commands_def sess_demo_ok)

theorem cd_goes_anywhere_witness:
  "process_command env_demo ''cd f'' sess_demo = ret (sess_demo\<lparr>sh_cwd := ''/f''\<rparr>) \<and> ftyp (fs_demo ! 1) = FILE_REGULAR"
proof -
  have "ftyp (fs_demo ! 1) = FILE_REGULAR" by code_simp
  with cd_goes_anywhere [of "''f''" sess_demo "''/f''" env_demo] show ?thesis by (simp add: sess_demo_ok build_demo)
qed

theorem edit_and_save_witness:
  "\<exists>s1 t. run_command env_demo ''nano'' ''f'' sess_demo = ret s1 \<and> feed_chars env_demo [CHR ''e'', CHR ''r'', CHR 0x18] s1 = ret t \<and>
          read_file (Some ''/f'') 1024 (sh_fs t) = Inr (True, ''older'')"
proof -
  have "\<forall>c\<in>set ''er''. editable c" by code_simp
  from edit_and_save [OF sess_demo_ok(1,2) _ _ _ file_demo(1) _ this, where d = "''old''" and f = "''f''" and e = env_demo]
  show ?thesis by (auto simp: sess_demo_ok build_demo file_demo)
qed

theorem cut_and_paste_moves_witness:
  "\<exists>s1 s2. run_command env_demo ''cut'' ''f'' sess_demo = ret s1 \<and> file_at ''/'' ''f'' (sh_fs s1) = None \<and>
           run_command env_demo ''pastef'' ''g'' s1 = ret s2 \<and> read_file (Some ''/g'') 1024 (sh_fs s2) = Inr (True, ''old'')"
proof -
  obtain s1 where s1: "run_command env_demo ''cut'' ''f'' sess_demo = ret s1" "file_at ''/'' ''f'' (sh_fs s1) = None"
    and p: "\<And>fs2. write_file (Some ''/g'') (Some ''old'') (sh_fs s1) = Inr (True, fs2) \<Longrightarrow>
              \<exists>s2. run_command env_demo ''pastef'' ''g'' s1 = ret s2 \<and> read_file (Some ''/g'') 1024 (sh_fs s2) = Inr (True, ''old'')"
    using cut_and_paste_moves [OF sess_demo_ok(1) _ _ file_demo(1), where f = "''f''" and d = "''old''" and g = "''g''" and
        q = "''/g''" and e = env_demo]
    by (auto simp: sess_demo_ok build_demo file_demo)
  have r: "read_file (Some ''/f'') 1024 fs_demo = Inr (True, ''old'')" by code_simp
  have w: "map_sum id (\<lambda>(b, fs). map_sum id fst (write_file (Some ''/g'') (Some ''old'') fs)) (rm (Some ''/f'') fs_demo) = Inr (Inr True)"
    by code_simp
  then obtain b fs1 fs2 where fs1: "rm (Some ''/f'') fs_demo = Inr (b, fs1)" "write_file (Some ''/g'') (Some ''old'') fs1 = Inr (True, fs2)"
    by (cases "rm (Some ''/f'') fs_demo"; cases "write_file (Some ''/g'') (Some ''old'') (snd (projr (rm (Some ''/f'') fs_demo)))")
      (auto simp: split_def)
  have "sh_fs s1 = fs1" using s1(1) r fs1(1) by (auto simp: run_file_commands cmd_cut_def sess_demo_ok build_demo Let_def)
  with fs1(2) p s1 show ?thesis by blast
qed

end
