(* ===== verification/ShellJobs.thy ===== *)
theory ShellJobs
  imports ShellFiles
begin

text \<open>
  Commands that read: \<^verbatim>\<open>run\<close> and its numbers, from the line that is typed to the job in the history, and
  when the command does not return; \<^verbatim>\<open>pasteh\<close>, whose timeout cannot pass.
\<close>

section \<open>The numbers of a job\<close>

lemma parse_u32_split:
  "\<exists>ds. s = ds @ snd (parse_u32 v s) \<and> (\<forall>c\<in>set ds. is_digit c) \<and>
        (snd (parse_u32 v s) = [] \<or> \<not> is_digit (hd (snd (parse_u32 v s)))) \<and> (s \<noteq> [] \<and> is_digit (hd s) \<longrightarrow> ds \<noteq> [])"
proof (induction s arbitrary: v)
  case (Cons c s)
  show ?case
  proof (cases "is_digit c")
    case True
    from Cons.IH [of "v * 10 + of_nat (of_char c - 48)"] obtain ds where
      "s = ds @ snd (parse_u32 v (c # s))" "\<forall>c\<in>set ds. is_digit c"
      "snd (parse_u32 v (c # s)) = [] \<or> \<not> is_digit (hd (snd (parse_u32 v (c # s))))" using True by auto
    with True show ?thesis by (intro exI [of _ "c # ds"]) simp
  qed simp
qed simp

lemma skip_spaces_split:
  "\<exists>k. s = replicate k (CHR '' '') @ skip_spaces s" "skip_spaces s = [] \<or> hd (skip_spaces s) \<noteq> CHR '' ''"
proof (induction s)
  case (Cons c s)
  { case 1
    show ?case
    proof (cases "c = CHR '' ''")
      case True
      with Cons.IH(1) obtain k where "s = replicate k (CHR '' '') @ skip_spaces s" by blast
      with True show ?thesis by (intro exI [of _ "Suc k"]) simp
    qed (simp add: exI [of _ 0]) }
  { case 2 with Cons.IH(2) show ?case by simp }
qed simp_all

text \<open>On a character that is neither a digit nor a space the loop of \<^verbatim>\<open>run\<close> stays where it is.\<close>

lemma run_numbers_stuck:
  assumes s: "s \<noteq> []" "\<not> is_digit (hd s)" "hd s \<noteq> CHR '' ''" "length acc < 32"
  shows "run_numbers acc s = None"
proof -
  have "\<not> (a = acc \<and> t = s)" if "run_numbers a t = Some y" for a t y
  proof (rule run_numbers.raw_induct [OF _ that, where P = "\<lambda>a t y. \<not> (a = acc \<and> t = s)"])
    fix f a t y
    assume ih: "\<And>a t y. f a t = Some y \<Longrightarrow> \<not> (a = acc \<and> t = s)"
      and eq: "(if t = [] \<or> \<not> length a < 32 then Some a
        else let (v, r) = parse_u32 0 t in f (if is_digit (hd t) then a @ [v] else a) (skip_spaces r)) = Some y"
    show "\<not> (a = acc \<and> t = s)"
    proof
      assume e: "a = acc \<and> t = s"
      then have "f acc s = Some y" using eq s by (simp add: parse_u32_stop skip_spaces_id)
      then show False using ih by blast
    qed
  qed
  then show ?thesis by (cases "run_numbers acc s") blast+
qed

lemma run_numbers_returns:
  assumes "s = [] \<or> hd s \<noteq> CHR '' ''" "length s + 2 * length acc \<le> 63"
  shows "run_numbers acc s \<noteq> None \<longleftrightarrow> (\<forall>c\<in>set s. is_digit c \<or> c = CHR '' '')"
  using assms
proof (induction "length s" arbitrary: s acc rule: less_induct)
  case less
  note prems = less.prems
  show ?case
  proof (cases "s = []")
    case True
    then show ?thesis by (subst run_numbers.simps) simp
  next
    case False
    then have s: "s \<noteq> []" "hd s \<noteq> CHR '' ''" and a: "length acc < 32"
      using prems by (cases s; simp)+
    show ?thesis
    proof (cases "is_digit (hd s)")
      case d: True
      obtain v r where vr: "parse_u32 0 s = (v, r)" by fastforce
      obtain ds where ds: "s = ds @ r" "\<forall>c\<in>set ds. is_digit c" "r = [] \<or> \<not> is_digit (hd r)" "ds \<noteq> []"
        using parse_u32_split [of s 0] vr s d by auto
      obtain k where k: "r = replicate k (CHR '' '') @ skip_spaces r" using skip_spaces_split(1) by blast
      have step: "run_numbers acc s = run_numbers (acc @ [v]) (skip_spaces r)"
        using s a d vr by (subst run_numbers.simps) simp
      have set_s: "(\<forall>c\<in>set s. is_digit c \<or> c = CHR '' '') \<longleftrightarrow> (\<forall>c\<in>set (skip_spaces r). is_digit c \<or> c = CHR '' '')"
        using ds(1,2) arg_cong [where f = set, OF k] by auto
      have len: "length r + 1 \<le> length s" using ds(1,4) by (cases ds) auto
      show ?thesis
      proof (cases "k = 0 \<and> r \<noteq> []")
        case True
        then have r: "skip_spaces r = r" "r \<noteq> []" "\<not> is_digit (hd r)" using k ds(3) by auto
        then have "hd r \<noteq> CHR '' ''" using skip_spaces_split(2) [of r] by auto
        moreover have "1 \<le> length r" using r(2) by (simp add: Suc_le_eq)
        then have "length acc < 31" using len prems(2) by linarith
        then have "length (acc @ [v]) < 32" by simp
        ultimately have "run_numbers acc s = None" using step r run_numbers_stuck [of r "acc @ [v]"] by simp
        moreover have "\<exists>c\<in>set s. \<not> is_digit c \<and> c \<noteq> CHR '' ''"
          using r \<open>hd r \<noteq> CHR '' ''\<close> ds(1) hd_in_set [OF r(2)] by auto
        ultimately show ?thesis by auto
      next
        case False
        have "length r = k + length (skip_spaces r)" using arg_cong [where f = length, OF k] by simp
        with False len have "skip_spaces r = [] \<or> length (skip_spaces r) + 2 \<le> length s" by (cases "r = []") auto
        then consider "skip_spaces r = []" | "length (skip_spaces r) + 2 \<le> length s" by blast
        then show ?thesis
        proof cases
          case 1
          moreover have "run_numbers (acc @ [v]) [] = Some (acc @ [v])" by (subst run_numbers.simps) simp
          ultimately show ?thesis using step set_s by simp
        next
          case 2
          then have "run_numbers (acc @ [v]) (skip_spaces r) \<noteq> None \<longleftrightarrow> (\<forall>c\<in>set (skip_spaces r). is_digit c \<or> c = CHR '' '')"
            using skip_spaces_split(2) [of r] prems(2) by (intro less.hyps) auto
          with step set_s show ?thesis by simp
        qed
      qed
    next
      case False
      with s a run_numbers_stuck show ?thesis by (auto intro!: bexI [of _ "hd s"])
    qed
  qed
qed

fun numbers_text :: "u32 list \<Rightarrow> string" where
  "numbers_text [] = []"
| "numbers_text [n] = num32 n"
| "numbers_text (n # m # ns) = num32 n @ '' '' @ numbers_text (m # ns)"

lemma num32_props: "num32 n \<noteq> []" "c \<in> set (num32 n) \<Longrightarrow> is_digit c" "hd (num32 n) \<noteq> CHR '' ''" "is_digit (hd (num32 n))"
proof -
  show "num32 n \<noteq> []" by (rule itoa_nonempty)
  then have "hd (num32 n) \<in> set (num32 n)" by (rule hd_in_set)
  then show d: "is_digit (hd (num32 n))" by (rule itoa_digits)
  then show "hd (num32 n) \<noteq> CHR '' ''" by (auto simp: is_digit_def)
qed (rule itoa_digits)

lemma numbers_text_hd: "ns \<noteq> [] \<Longrightarrow> numbers_text ns \<noteq> [] \<and> hd (numbers_text ns) \<noteq> CHR '' '' \<and> is_digit (hd (numbers_text ns))"
  using num32_props by (cases ns rule: numbers_text.cases) auto

lemma num32_value: "ucast (ucast n :: u64) = (n :: u32)"
  by (rule bit_word_eqI) (simp add: bit_simps)

lemma run_numbers_text: "length acc + length ns \<le> 32 \<Longrightarrow> run_numbers acc (numbers_text ns) = Some (acc @ ns)"
proof (induction ns arbitrary: acc rule: numbers_text.induct)
  case 1
  show ?case by (subst run_numbers.simps) simp
next
  case (2 n)
  have "parse_u32 0 (num32 n) = (n, [])" using parse_itoa [of "[]" "ucast n"] by (simp add: num32_value)
  then have "run_numbers acc (numbers_text [n]) = run_numbers (acc @ [n]) []"
    using 2 num32_props(1,3,4) [of n] by (subst run_numbers.simps) simp
  then show ?case by (simp add: run_numbers.simps)
next
  case (3 n m ns)
  let ?r = "CHR '' '' # numbers_text (m # ns)"
  have "\<not> is_digit (CHR '' '')" by (simp add: is_digit_def)
  then have "parse_u32 0 (num32 n @ ?r) = (n, ?r)" using parse_itoa [of ?r "ucast n"] by (simp add: num32_value)
  moreover have "skip_spaces ?r = numbers_text (m # ns)" using numbers_text_hd [of "m # ns"] by (simp add: skip_spaces_id)
  ultimately have "run_numbers acc (numbers_text (n # m # ns)) = run_numbers (acc @ [n]) (numbers_text (m # ns))"
    using 3(2) num32_props(1,3,4) [of n] by (subst run_numbers.simps) simp
  with 3 show ?case by simp
qed

section \<open>The line\<close>

lemma job_types: "job_type_of ty = Some t \<Longrightarrow> (ty, t) \<in> set [(''sum'', JOB_SUM), (''product'', JOB_PRODUCT), (''max'', JOB_MAX),
    (''prime'', JOB_PRIME), (''echo'', JOB_ECHO)]"
  by (auto simp: job_type_of_def split: if_splits)

lemma run_line:
  assumes ty: "job_type_of ty = Some t" and l: "length rest \<le> 160"
  shows "process_command e (''run '' @ ty @ '' '' @ rest) s =
    Option.bind (run_numbers [] (skip_spaces rest)) (\<lambda>ns.
      if ns = [] then ret (say [line ''No arguments provided''] s) else submit_numbers e t ns s)"
proof -
  have t: "ty \<noteq> []" "hd ty \<noteq> CHR '' ''" "CHR '' '' \<notin> set ty" "length ty \<le> 15" using job_types [OF ty] by auto
  have "process_command e (''run'' @ '' '' @ (ty @ '' '' @ rest)) s = run_command e ''run'' (ty @ '' '' @ rest) s"
    by (rule command_line) (use t l in simp_all)
  also have "\<dots> = cmd_run e (ty @ '' '' @ rest) s" by (simp add: run_command_def info_command_def)
  also have "scan_word 15 (ty @ '' '' @ rest) = (ty, '' '' @ rest)" by (rule scan_word_whole) (use t in simp_all)
  then have "cmd_run e (ty @ '' '' @ rest) s =
    Option.bind (run_numbers [] (skip_spaces rest)) (\<lambda>ns.
      if ns = [] then ret (say [line ''No arguments provided''] s) else submit_numbers e t ns s)"
    using ty by (simp add: cmd_run_def)
  finally show ?thesis by simp
qed

lemma submit_returns: "t \<noteq> JOB_PRIME \<Longrightarrow> submit_numbers e t ns s \<noteq> None"
  by (auto simp: submit_numbers_def submit_def execute_def Let_def split: prod.split)

text \<open>C35: A \<^verbatim>\<open>run\<close> line of up to 62 characters of arguments returns, for every kind of job but the prime counter,
  exactly when the arguments consist of digits and spaces. On any other character, a sign or a comma
  for instance, the shell hangs with the interrupts disabled, and the machine with it.
\<close>

theorem run_line_returns:
  assumes "job_type_of ty = Some t" "t \<noteq> JOB_PRIME" "length rest \<le> 62"
  shows "process_command e (''run '' @ ty @ '' '' @ rest) s \<noteq> None \<longleftrightarrow> (\<forall>c\<in>set rest. is_digit c \<or> c = CHR '' '')"
proof -
  have l: "length rest \<le> 160" using assms(3) by simp
  obtain k where k: "rest = replicate k (CHR '' '') @ skip_spaces rest" using skip_spaces_split(1) by blast
  have "length (skip_spaces rest) \<le> length rest" using arg_cong [where f = length, OF k] by simp
  then have r: "run_numbers [] (skip_spaces rest) \<noteq> None \<longleftrightarrow> (\<forall>c\<in>set (skip_spaces rest). is_digit c \<or> c = CHR '' '')"
    using assms(3) skip_spaces_split(2) [of rest] by (intro run_numbers_returns) auto
  have "(\<forall>c\<in>set rest. is_digit c \<or> c = CHR '' '') \<longleftrightarrow> (\<forall>c\<in>set (skip_spaces rest). is_digit c \<or> c = CHR '' '')"
    using arg_cong [where f = set, OF k] by auto
  moreover have "process_command e (''run '' @ ty @ '' '' @ rest) s \<noteq> None \<longleftrightarrow> run_numbers [] (skip_spaces rest) \<noteq> None"
    unfolding run_line [OF assms(1) l] using submit_returns [OF assms(2)] by (cases "run_numbers [] (skip_spaces rest)") auto
  ultimately show ?thesis using r by simp
qed

theorem run_line_returns_witness:
  "process_command env_demo ''run sum 1,2'' sess_demo = None \<and> process_command env_demo ''run max 7  8'' sess_demo \<noteq> None"
proof -
  have "job_type_of ''sum'' = Some JOB_SUM" "job_type_of ''max'' = Some JOB_MAX" "JOB_SUM \<noteq> JOB_PRIME" "JOB_MAX \<noteq> JOB_PRIME"
    by (simp_all add: job_type_of_def JOB_SUM_def JOB_MAX_def JOB_PRIME_def)
  with run_line_returns [of "''sum''" JOB_SUM "''1,2''" env_demo sess_demo]
    run_line_returns [of "''max''" JOB_MAX "''7  8''" env_demo sess_demo]
  show ?thesis by (auto simp: is_digit_def)
qed

section \<open>From the line to the history\<close>

lemma last_hist_abs:
  assumes "hist_inv d" "0 < hist_count d" "k < MAX_HISTORY" "hist_write d = (k + 1) mod MAX_HISTORY"
  shows "last (hist_abs d) = history d ! k"
proof -
  have ne: "hist_abs d \<noteq> []" using assms(2) length_hist_abs [of d] by fastforce
  have "hist_count d \<le> MAX_HISTORY" using assms(1) by (simp add: hist_inv_def)
  then have "hist_write d + (MAX_HISTORY - hist_count d) + (hist_count d - 1) = hist_write d + (MAX_HISTORY - 1)"
    using assms(2) by simp
  moreover have "(hist_write d + (MAX_HISTORY - 1)) mod MAX_HISTORY = k"
    using assms(3) by (cases "k + 1 < MAX_HISTORY") (auto simp: assms(4) MAX_HISTORY_def mod_if)
  ultimately show ?thesis using ne assms(2) by (simp add: last_conv_nth) (simp add: hist_abs_def)
qed

lemma length_words: "length (concat (map le32 ns)) = 4 * length ns"
  by (induction ns) simp_all

lemma execute_sum: "execute JOB_SUM (concat (map le32 ns)) = Some (of_nat (sum_list (map unat ns)))"
  by (simp add: execute_def job_words_code fold_add)

text \<open>C28: On a node that hears of no other one, the line \<^verbatim>\<open>run sum\<close> with up to 32 printed numbers adds one completed
  job to the history, in the slot it writes next, with the next number, the numbers as its payload, this node as its target and the sum of the numbers modulo
  \<open>2 ^ 32\<close> as its result. Of the job scheduler only that slot, the write position, the count and the job counter change;
  nothing else in the machine does.
\<close>

theorem run_sum_computes:
  assumes ns: "ns \<noteq> []" "length ns \<le> 32" "length (numbers_text ns) \<le> 160"
    and d: "dj_inited (k_dj (kern s))" "candidates (ticks s) (k_dj (kern s)) = []" "hist_inv (k_dj (kern s))"
  shows "\<exists>d j. process_command e (''run sum '' @ numbers_text ns) s = ret (s\<lparr>kern := (kern s)\<lparr>k_dj := d\<rparr>\<rparr>) \<and>
    d = (k_dj (kern s))\<lparr>history := (history (k_dj (kern s)))[hist_write (k_dj (kern s)) := j],
          hist_write := (hist_write (k_dj (kern s)) + 1) mod MAX_HISTORY,
          hist_count := min (hist_count (k_dj (kern s)) + 1) MAX_HISTORY, next_job := next_job (k_dj (kern s)) + 1\<rparr> \<and>
    hist_inv d \<and> last (hist_abs d) = j \<and>
    j_id j = next_job (k_dj (kern s)) \<and> j_type j = JOB_SUM \<and> j_status j = STATUS_COMPLETED \<and> j_target j = 0 \<and>
    j_submitted j = ticks s \<and> j_completed j = ticks s \<and> take (4 * length ns) (j_payload j) = concat (map le32 ns) \<and> j_len j = of_nat (4 * length ns) \<and>
    j_result j = of_nat (sum_list (map unat ns))"
proof -
  let ?d = "k_dj (kern s)" and ?n = "next_job (k_dj (kern s))" and ?k = "hist_write (k_dj (kern s))"
  let ?s0 = "?d\<lparr>next_job := ?n + 1\<rparr>"
  define r where "r = record_job (ticks s) ?n JOB_SUM (concat (map le32 ns)) 0 ?s0"
  define r1 where "r1 = set_job ?k ((history r ! ?k)\<lparr>j_status := STATUS_RUNNING\<rparr>) r"
  define j where "j = (history r1 ! ?k)\<lparr>j_result := of_nat (sum_list (map unat ns)), j_status := STATUS_COMPLETED,
    j_completed := ticks s\<rparr>"
  define d where "d = set_job ?k j r1"
  have k: "?k < MAX_HISTORY" "length (history ?d) = MAX_HISTORY" using d(3) by (simp_all add: hist_inv_def)
  have "hist_inv ?s0" using d(3) by (simp add: hist_inv_def)
  then have ir: "hist_inv r" unfolding r_def by (rule record_job_inv)
  have i1: "hist_inv r1" unfolding r1_def by (rule set_job_hist [OF ir]) simp
  have id: "hist_inv d" unfolding d_def by (rule set_job_hist [OF i1]) (simp add: j_def)
  have hr: "history r ! ?k = new_job (ticks s) ?n JOB_SUM (concat (map le32 ns)) 0 ?s0" "next_job r = ?n + 1"
    "length (history r) = MAX_HISTORY" "hist_write r = (?k + 1) mod MAX_HISTORY" "0 < hist_count r"
    using k by (simp_all add: r_def record_job_eq set_job_def)
  have hd: "history d ! ?k = j" "hist_write d = (?k + 1) mod MAX_HISTORY" "0 < hist_count d" "next_job d = ?n + 1"
    using k hr by (simp_all add: d_def r1_def set_job_def)
  have last: "last (hist_abs d) = j" using last_hist_abs [OF id hd(3) k(1) hd(2)] hd(1) by simp
  have jf: "j_id j = ?n" "j_type j = JOB_SUM" "j_status j = STATUS_COMPLETED" "j_target j = 0" "j_submitted j = ticks s"
    "j_completed j = ticks s" "take (4 * length ns) (j_payload j) = concat (map le32 ns)" "j_len j = of_nat (4 * length ns)"
    "j_result j = of_nat (sum_list (map unat ns))"
    using k hr length_words [of ns] ns(2) by (simp_all add: j_def r1_def set_job_def new_job_def MAX_PAYLOAD_def)
  have "hist_count ?d \<le> MAX_HISTORY" using d(3) by (simp add: hist_inv_def)
  then have deq: "d = ?d\<lparr>history := (history ?d)[?k := j], hist_write := (?k + 1) mod MAX_HISTORY,
      hist_count := min (hist_count ?d + 1) MAX_HISTORY, next_job := ?n + 1\<rparr>"
    by (simp add: d_def r1_def r_def record_job_eq set_job_def min_def)
  have c: "candidates (ticks s) ?s0 = []" using d(2) by (simp add: candidates_def)
  have "submit (e_nic e) (ticks s) l JOB_SUM (concat (map le32 ns)) ?d cl n = Some (Inr (?n, d, cl, n))" for l cl n
    using d(1) c by (simp add: submit_def pick_target_def Let_def execute_sum r_def [symmetric] r1_def [symmetric] j_def [symmetric]
        d_def [symmetric])
  then have sub: "submit_numbers e JOB_SUM ns s = ret (s\<lparr>kern := (kern s)\<lparr>k_dj := d\<rparr>\<rparr>)"
    by (simp add: submit_numbers_def Let_def)
  have "skip_spaces (numbers_text ns) = numbers_text ns" using numbers_text_hd [OF ns(1)] by (simp add: skip_spaces_id)
  then have "run_numbers [] (skip_spaces (numbers_text ns)) = Some ns" using run_numbers_text [of "[]" ns] ns(2) by simp
  moreover have "job_type_of ''sum'' = Some JOB_SUM" by (simp add: job_type_of_def)
  ultimately have "process_command e (''run '' @ ''sum'' @ '' '' @ numbers_text ns) s = submit_numbers e JOB_SUM ns s"
    using ns(1) by (simp only: run_line [OF _ ns(3)]) simp
  with sub id last deq jf show ?thesis by auto
qed

text \<open>Ann's session on a node that has heard of no other.\<close>

definition lone_demo :: sys where "lone_demo = sess_demo\<lparr>kern := (kern sess_demo)\<lparr>k_dj := djob_demo\<rparr>\<rparr>"

lemma lone_demo_ok: "k_dj (kern lone_demo) = djob_demo" "dj_inited djob_demo" "candidates n djob_demo = []"
  by (simp_all add: lone_demo_def djob_demo_def djob_init_def candidates_def)

theorem run_sum_computes_witness:
  "\<exists>d. process_command env_demo ''run sum 10 20 4294967295'' lone_demo = ret (lone_demo\<lparr>kern := (kern lone_demo)\<lparr>k_dj := d\<rparr>\<rparr>) \<and>
       j_result (last (hist_abs d)) = 29 \<and> j_status (last (hist_abs d)) = STATUS_COMPLETED"
proof -
  have t: "numbers_text [10, 20, 0xFFFFFFFF] = ''10 20 4294967295''" by (simp add: itoa_def itoa_tmp.simps) code_simp
  have "hist_inv (k_dj (kern lone_demo))" by (simp add: lone_demo_ok djob_demo_inv)
  then obtain d where d: "process_command env_demo ''run sum 10 20 4294967295'' lone_demo =
      ret (lone_demo\<lparr>kern := (kern lone_demo)\<lparr>k_dj := d\<rparr>\<rparr>)" "j_status (last (hist_abs d)) = STATUS_COMPLETED"
      "j_result (last (hist_abs d)) = of_nat (sum_list (map unat [10, 20, 0xFFFFFFFF :: u32]))"
    using run_sum_computes [of "[10, 20, 0xFFFFFFFF]" lone_demo env_demo, unfolded t] by (auto simp: lone_demo_ok)
  have "j_result (last (hist_abs d)) = 29" unfolding d(3) by simp
  with d show ?thesis by blast
qed

section \<open>A timeout that cannot pass\<close>

text \<open>\<^verbatim>\<open>pasteh\<close> asks for a timeout of ten seconds. It runs in the keyboard interrupt, where the tick counter
  stands still, so with no text on the serial line it never returns.
\<close>

theorem pasteh_never_returns:
  assumes "\<forall>h. rd8 (e_dev e) h (COM1 + 5) AND 1 = 0"
  shows "process_command e ''pasteh'' s = None"
proof -
  have "process_command e ''pasteh'' s = map_option Inr (cmd_pasteh e s)"
    by (subst command_word) (simp_all add: run_command_def info_command_def)
  moreover have "read_line (e_dev e) (\<lambda>_. n) 512 10000 h = None" for n h
    by (rule read_line_hangs [OF assms, where now = n]) simp_all
  ultimately show ?thesis by (simp add: cmd_pasteh_def Let_def)
qed

theorem pasteh_never_returns_witness: "process_command env_demo ''pasteh'' sess_demo = None"
  by (rule pasteh_never_returns) (simp add: env_demo_def dead_com_def)

end
