(* ===== verification/Kernel.thy ===== *)
theory Kernel
  imports ShellSession
begin

text \<open>
  The whole machine: the boot sequence of \<^verbatim>\<open>kernel.cpp\<close>, the interrupt dispatcher of \<^verbatim>\<open>idt.cpp\<close> with the
  timer, keyboard and mouse handlers behind it, and the turns of the background tasks: process bodies, the
  polling of the network card, the heartbeat. Handlers run with interrupts off, so a step is one whole
  interrupt. Interrupts during the boot sequence and in the middle of a task's turn are not modelled.
\<close>

section \<open>Interrupts\<close>

definition run_handler :: "env \<Rightarrow> irq_handler \<Rightarrow> sys \<Rightarrow> sys res option" where
  "run_handler e f s =
     (case f of
        H_timer \<Rightarrow> ret (s\<lparr>ticks := timer_irq_handler (ticks s)\<rparr>)
      | H_keyboard \<Rightarrow>
          (let (c, k, h) = keyboard_irq_handler (e_dev e) (kb s, ports s); s = s\<lparr>kb := k, ports := h\<rparr>
           in case c of None \<Rightarrow> ret s | Some ch \<Rightarrow> shell_update e ch s)
      | H_mouse \<Rightarrow> (let (m, h) = mouse_irq (e_dev e) (mou s, ports s) in ret (s\<lparr>mou := m, ports := h\<rparr>)))"

definition count_irq :: "u8 \<Rightarrow> sys \<Rightarrow> sys" where
  "count_irq irq s =
     s\<lparr>iqs := (iqs s)\<lparr>irq_counts := (irq_counts (iqs s))[unat irq := irq_counts (iqs s) ! unat irq + 1]\<rparr>\<rparr>"

text \<open>
  After \<^verbatim>\<open>halt\<close> or \<^verbatim>\<open>reboot\<close> the handler has not returned, and nothing below it runs. The result is
  the stack pointer to continue with and the state.
\<close>

definition irq_dispatch :: "env \<Rightarrow> u64 \<Rightarrow> intr_frame \<Rightarrow> sys \<Rightarrow> (u64 \<times> sys) res option" where
  "irq_dispatch e sp f s =
     (let irq = ucast (int_no f - 32) :: u8
      in if irq \<ge> 16 then Some (Inr (sp, s))
         else
           let s = count_irq irq s
           in map_option (\<lambda>r. bind_res r (\<lambda>s.
                if pow s \<noteq> Running then Inr (sp, s)
                else
                  let s = s\<lparr>ports := pic_send_eoi irq (ports s)\<rparr>
                  in if irq = 0
                     then let (sp', sc) = timer_tick (ticks s) sp (k_sc (kern s)) in Inr (sp', s\<lparr>kern := (kern s)\<lparr>k_sc := sc\<rparr>\<rparr>)
                     else Inr (sp, s)))
                (case irq_handlers (iqs s) ! unat irq of None \<Rightarrow> ret s | Some g \<Rightarrow> run_handler e g s))"

definition sched_yield_dispatch :: "u64 \<Rightarrow> sys \<Rightarrow> u64 \<times> sys" where
  "sched_yield_dispatch sp s = (let (sp', sc) = sched_yield sp (k_sc (kern s)) in (sp', s\<lparr>kern := (kern s)\<lparr>k_sc := sc\<rparr>\<rparr>))"

section \<open>Boot\<close>

text \<open>What the boot loader and the hardware provide.\<close>

record bootp =
  b_fb :: bool
  b_dev :: dev
  b_chip :: nic_chip
  b_cpuid :: cpuid
  b_memmap :: "memmap_entry list option"
  b_hhdm :: "nat option"
  b_stubs :: "nat \<Rightarrow> u64"
  b_yield :: u64
  b_sector :: "u8 list option"

definition memory_init :: "memmap_entry list option \<Rightarrow> nat option \<Rightarrow> heap \<Rightarrow> bool \<times> heap" where
  "memory_init mm hhdm h =
     (let (ok, p) = pmm_init mm hhdm (hpmm h); h = h\<lparr>hpmm := p\<rparr>
      in if \<not> ok then (False, h) else heap_init (the mm) (the hhdm) h)"

definition boot_interrupts :: "bootp \<Rightarrow> sys \<Rightarrow> sys" where
  "boot_interrupts b s =
     (let d = b_dev b;
          s = say [''QuillOS v0.1 booting...''] (con con_op.Clear s);
          ih = idt_init d (b_stubs b) (b_yield b) (iqs s, ports s);
          s = say [line ''[OK] IDT + PIC initialized (32 ISRs, 16 IRQs)''] s;
          ih = init_pit d ih;
          s = say [line ''[OK] PIT timer at ~1000 Hz (IRQ 0)''] s;
          (iq, h) = keyboard_init d ih;
          (_, m, iq, h) = mouse_init d (mou s, iq, h);
          (_, h) = serial_init d h
      in say [line ''[OK] Keyboard driver (IRQ 1)''] (s\<lparr>iqs := iq, mou := m, ports := h\<rparr>))"

definition boot_hardware :: "bootp \<Rightarrow> sys \<Rightarrow> sys" where
  "boot_hardware b s =
     (let s = s\<lparr>cpui := cpu_init (b_cpuid b)\<rparr>;
          s = s\<lparr>hp := snd (memory_init (b_memmap b) (b_hhdm b) (hp s))\<rparr>;
          s = s\<lparr>kern := (kern s)\<lparr>k_sc := sched_init (k_sc (kern s))\<rparr>\<rparr>;
          (ds, h) = pci_init (b_dev b) (ports s);
          (_, dr, h) = disk_init (b_dev b) h
      in s\<lparr>pcis := ds, drv := dr, ports := h\<rparr>)"

definition boot_nic :: "bootp \<Rightarrow> sys \<Rightarrow> sys option" where
  "boot_nic b s =
     map_option (\<lambda>(_, n, p, h). s\<lparr>card := n, hp := (hp s)\<lparr>hpmm := p\<rparr>, ports := h\<rparr>)
       (nic_init (b_dev b) (b_chip b) (pcis s) (card s, hpmm (hp s), ports s))"

definition boot_net :: "sys \<Rightarrow> sys res" where
  "boot_net s =
     (let k = kern s;
          n = snd (net_init (if nic_ready (card s) then Some (mac_addr (card s)) else None) (k_net k))
      in bind_res (cluster_init (k_cl k) n (k_sc k)) (\<lambda>(_, c, n, sc). Inr (s\<lparr>kern := k\<lparr>k_cl := c, k_net := n, k_sc := sc\<rparr>\<rparr>)))"

definition boot_services :: "bootp \<Rightarrow> sys \<Rightarrow> sys" where
  "boot_services b s =
     (let k = kern s; (pt, sc) = proc_init (k_pt k) (k_sc k)
      in s\<lparr>kern := k\<lparr>k_dj := djob_init (k_dj k), k_pt := pt, k_sc := sc\<rparr>,
           sh_users := users_init (b_sector b), sh_clip := clip_init\<rparr>)"

definition boot :: "bootp \<Rightarrow> sys \<Rightarrow> sys res option" where
  "boot b s =
     (if \<not> b_fb b then None
      else map_option (\<lambda>s. bind_res (boot_net s) (\<lambda>s. Inr (shell_init (say [line []] (boot_services b s)))))
             (boot_nic b (boot_hardware b (boot_interrupts b s))))"

text \<open>The state of the program when it is loaded: the initialised globals, everything else zero.\<close>

definition loaded :: "sys \<Rightarrow> bool" where
  "loaded s \<longleftrightarrow> sh_line s = [] \<and> sh_cwd s = ''/'' \<and> sh_mode s = MODE_SIGNUP_USER \<and> sh_efile s = [] \<and> sh_ebuf s = [] \<and>
     sh_puser s = [] \<and> sh_ppass s = [] \<and> \<not> sh_masked s \<and> mou s = mouse_boot \<and> kb s = kbd_boot \<and> pow s = Running \<and>
     length (procs (k_pt (kern s))) = MAX_PROCS \<and> length (stop_flags (k_pt (kern s))) = MAX_PROCS"

section \<open>Steps\<close>

text \<open>A turn of a background task: a process body, the clean-up task, a spawn or kill from the network.\<close>

definition task_turn :: "env \<Rightarrow> proc_event \<Rightarrow> sys \<Rightarrow> sys res" where
  "task_turn e ev s =
     (let k = kern s
      in bind_res (proc_step (e_nic e) (k_pt k, k_sc k, k_net k) ev)
           (\<lambda>(pt, sc, n). Inr (s\<lparr>kern := k\<lparr>k_pt := pt, k_sc := sc, k_net := n\<rparr>\<rparr>)))"

text \<open>
  One turn of the loop in \<^verbatim>\<open>Network::poll\<close>, which the polling task runs: a frame from the card, or nothing. The receive
  buffer holds the frame and, behind it, \<open>rest\<close>, bytes of earlier frames.
\<close>

definition poll_turn :: "env \<Rightarrow> u8 list \<Rightarrow> sys \<Rightarrow> sys res option" where
  "poll_turn e rest s =
     (let (fr, c) = poll_receive (card s); s = s\<lparr>card := c\<rparr>
      in case fr of
           None \<Rightarrow> ret s
         | Some data \<Rightarrow> map_option (\<lambda>r. bind_res r (\<lambda>k. Inr (s\<lparr>kern := k\<rparr>)))
             (node_receive (e_nic e) (ticks s) (data @ rest) (of_nat (length data)) (kern s)))"

definition heartbeat_turn :: "env \<Rightarrow> sys \<Rightarrow> sys res" where
  "heartbeat_turn e s =
     (let k = kern s
      in bind_res (heartbeat (e_nic e) (ticks s) (of_nat (task_count (k_sc k))) (k_cl k) (k_net k))
           (\<lambda>(c, n). Inr (s\<lparr>kern := k\<lparr>k_cl := c, k_net := n\<rparr>\<rparr>)))"

text \<open>The end of a turn: a running task other than idle goes to sleep.\<close>

definition sleep_turn :: "u32 \<Rightarrow> u64 \<Rightarrow> sys \<Rightarrow> sys" where
  "sleep_turn ms sp s = s\<lparr>kern := (kern s)\<lparr>k_sc := snd (sleep_ms (ticks s) ms sp (k_sc (kern s)))\<rparr>\<rparr>"

definition can_sleep :: "sched \<Rightarrow> bool" where
  "can_sleep sc \<longleftrightarrow> cur sc \<noteq> idle_id sc \<and> tstate (tasks sc ! cur sc) = TASK_RUNNING"

text \<open>
  The steps of the machine. They end with the power and at a fault, and are followed only as long as the 32-bit process
  numbers last. A task that was killed in its own turn makes no call before it is switched away (\<open>killed_task_comes_back\<close> says what
  it could do). The network card writes to its rings and buffers at any time.
\<close>

inductive machine_step :: "sys \<Rightarrow> sys \<Rightarrow> bool" where
  step_irq: "pow s = Running \<Longrightarrow> pids_left s \<Longrightarrow> irq_dispatch e sp f s = Some (Inr (sp', t)) \<Longrightarrow> machine_step s t"
| step_yield: "pow s = Running \<Longrightarrow> machine_step s (snd (sched_yield_dispatch sp s))"
| step_task: "pow s = Running \<Longrightarrow> pids_left s \<Longrightarrow> \<not> gives_up ev \<Longrightarrow> task_turn e ev s = Inr t \<Longrightarrow> machine_step s t"
| step_poll: "pow s = Running \<Longrightarrow> pids_left s \<Longrightarrow> poll_turn e rest s = Some (Inr t) \<Longrightarrow> machine_step s t"
| step_heartbeat: "pow s = Running \<Longrightarrow> heartbeat_turn e s = Inr t \<Longrightarrow> machine_step s t"
| step_sleep: "pow s = Running \<Longrightarrow> can_sleep (k_sc (kern s)) \<Longrightarrow> machine_step s (sleep_turn ms sp s)"
| step_card: "pow s = Running \<Longrightarrow> machine_step s (s\<lparr>card := (card s)\<lparr>rx_ring := rx, rx_buf := bs, tx_ring := tx\<rparr>\<rparr>)"

inductive_cases machine_stepE: "machine_step s t"

definition booted :: "sys \<Rightarrow> bool" where
  "booted s \<longleftrightarrow> (\<exists>b s0. loaded s0 \<and> users_inv (users_init (b_sector b)) \<and> boot b s0 = Some (Inr s))"

section \<open>The invariant holds from boot on\<close>

lemma mouse_irq_inv: "mouse_inv m \<Longrightarrow> mouse_inv (fst (mouse_irq d (m, h)))"
  by (auto simp: mouse_irq_def Let_def mouse_byte_inv split: prod.split)

lemma parts_upd:
  "shell_inv s \<Longrightarrow> mouse_inv m \<Longrightarrow> shell_inv (s\<lparr>mou := m\<rparr>)"
  "shell_inv s \<Longrightarrow> proc_inv pt sc \<Longrightarrow> shell_inv (s\<lparr>kern := (kern s)\<lparr>k_pt := pt, k_sc := sc, k_net := n\<rparr>\<rparr>)"
  by (simp_all add: shell_inv_def parts_ok_def texts_ok_def masks_ok_def session_ok_def)

lemma rest_upd [simp]:
  "shell_inv (s\<lparr>ports := h\<rparr>) \<longleftrightarrow> shell_inv s" "shell_inv (s\<lparr>ticks := w\<rparr>) \<longleftrightarrow> shell_inv s"
  "shell_inv (s\<lparr>kb := k\<rparr>) \<longleftrightarrow> shell_inv s" "shell_inv (s\<lparr>iqs := q\<rparr>) \<longleftrightarrow> shell_inv s"
  by (simp_all add: shell_inv_def parts_ok_def texts_ok_def masks_ok_def session_ok_def)

lemma run_handler_inv:
  assumes "shell_inv s" "pids_left s"
  shows "oko shell_inv (run_handler e f s)"
proof (cases f)
  case H_timer
  with assms show ?thesis by (simp add: run_handler_def)
next
  case H_keyboard
  then show ?thesis
    using assms by (auto simp: run_handler_def Let_def split: prod.split option.split intro!: shell_update_inv)
next
  case H_mouse
  have "mouse_inv (fst (mouse_irq (e_dev e) (mou s, ports s)))"
    using assms(1) by (intro mouse_irq_inv) (simp add: shell_inv_def parts_ok_def)
  with H_mouse assms(1) show ?thesis
    by (auto simp: run_handler_def split: prod.split intro!: parts_upd(1))
qed

lemma tick_inv:
  assumes "shell_inv s"
  shows "shell_inv (s\<lparr>kern := (kern s)\<lparr>k_sc := snd (timer_tick now sp (k_sc (kern s)))\<rparr>\<rparr>)"
proof -
  have "proc_inv (k_pt (kern s)) (snd (timer_tick now sp (k_sc (kern s))))"
    using assms by (intro tick_proc_inv) (simp add: shell_inv_def parts_ok_def)
  with assms show ?thesis by (simp add: shell_inv_def parts_ok_def texts_ok_def masks_ok_def session_ok_def)
qed

lemma yield_inv:
  assumes "shell_inv s"
  shows "shell_inv (snd (sched_yield_dispatch sp s))"
proof -
  have p: "proc_inv (k_pt (kern s)) (k_sc (kern s))" using assms by (simp add: shell_inv_def parts_ok_def)
  have "proc_inv (k_pt (kern s)) (snd (sched_yield sp (k_sc (kern s))))"
    using p by (rule yield_proc_inv)
  with assms show ?thesis
    by (simp add: sched_yield_dispatch_def split_def Let_def shell_inv_def parts_ok_def texts_ok_def masks_ok_def session_ok_def)
qed

lemma dispatch_inv:
  assumes inv: "shell_inv s" and p: "pids_left s" and d: "irq_dispatch e sp f s = Some (Inr (sp', t))"
  shows "shell_inv t"
proof (cases "(ucast (int_no f - 32) :: u8) \<ge> 16")
  case True
  with inv d show ?thesis by (simp add: irq_dispatch_def Let_def)
next
  case False
  let ?irq = "ucast (int_no f - 32) :: u8"
  let ?c = "count_irq ?irq s"
  let ?r = "case irq_handlers (iqs ?c) ! unat ?irq of None \<Rightarrow> ret ?c | Some g \<Rightarrow> run_handler e g ?c"
  have c: "shell_inv ?c" "pids_left ?c" using inv p by (simp_all add: count_irq_def)
  then have "oko shell_inv ?r" by (simp add: run_handler_inv split: option.split)
  moreover obtain u where u: "?r = Some (Inr u)"
    and t: "(if pow u \<noteq> Running then Inr (sp, u) else
               let u = u\<lparr>ports := pic_send_eoi ?irq (ports u)\<rparr>
               in if ?irq = 0 then let (sp', sc) = timer_tick (ticks u) sp (k_sc (kern u)) in Inr (sp', u\<lparr>kern := (kern u)\<lparr>k_sc := sc\<rparr>\<rparr>)
                  else Inr (sp, u)) = (Inr (sp', t) :: (u64 \<times> sys) res)"
    using d False by (auto simp: irq_dispatch_def Let_def bind_res_Inr)
  ultimately have iu: "shell_inv (u\<lparr>ports := pic_send_eoi ?irq (ports u)\<rparr>)" "shell_inv u" by simp_all
  from t tick_inv [OF iu(1), of "ticks u" sp] iu(2) show ?thesis
    by (auto simp: Let_def split_def iu(1) split: if_splits)
qed

lemma task_turn_inv:
  assumes i: "shell_inv s" and p: "pids_left s" and g: "\<not> gives_up ev" and t: "task_turn e ev s = Inr t"
  shows "shell_inv t"
proof -
  obtain pt sc n where r: "proc_step (e_nic e) (k_pt (kern s), k_sc (kern s), k_net (kern s)) ev = Inr (pt, sc, n)"
    and t: "t = s\<lparr>kern := (kern s)\<lparr>k_pt := pt, k_sc := sc, k_net := n\<rparr>\<rparr>"
    using t by (auto simp: task_turn_def Let_def bind_res_Inr)
  have "proc_inv (k_pt (kern s)) (k_sc (kern s))" using i by (simp add: shell_inv_def parts_ok_def)
  then have "proc_inv pt sc" using pid_room [OF p] g r by (rule proc_step_inv)
  with i show ?thesis unfolding t by (rule parts_upd(2))
qed

lemma kern_upd:
  "shell_inv s \<Longrightarrow> proc_inv (k_pt k) (k_sc k) \<Longrightarrow> shell_inv (s\<lparr>kern := k\<rparr>)" "shell_inv (s\<lparr>card := c\<rparr>) \<longleftrightarrow> shell_inv s"
  "shell_inv s \<Longrightarrow> proc_inv (k_pt k) (k_sc k) \<Longrightarrow> shell_inv (s\<lparr>card := c, kern := k\<rparr>)"
  by (simp_all add: shell_inv_def parts_ok_def texts_ok_def masks_ok_def session_ok_def)

lemma inv_procs: "shell_inv s \<Longrightarrow> proc_inv (k_pt (kern s)) (k_sc (kern s))"
  by (simp add: shell_inv_def parts_ok_def)

lemma remote_spawn_inv:
  assumes "proc_inv s sc" "next_pid s + 1 \<noteq> 0" "on_remote_spawn_request nic now ip ty rpid s sc n = Inr (s', sc', n')"
  shows "proc_inv s' sc'"
  using assms(3) spawn_local_inv [OF assms(1) pid_room [OF assms(2)]]
  by (auto simp: on_remote_spawn_request_def bind_res_Inr)

lemma handler_procs:
  assumes "proc_inv (k_pt k) (k_sc k)" "next_pid (k_pt k) + 1 \<noteq> 0"
    and "cluster_udp_handler nic now src data k = Some (Inr k')"
  shows "proc_inv (k_pt k') (k_sc k')"
proof -
  have r: "reply nic dst m x = Inr y \<Longrightarrow> k_pt y = k_pt x \<and> k_sc y = k_sc x" for dst m x y
    by (auto simp: reply_def bind_res_Inr)
  have x: "execute_job nic src d k = Some (Inr y) \<Longrightarrow> k_pt y = k_pt k \<and> k_sc y = k_sc k" for d y
    by (auto simp: execute_job_def dest: r split: if_splits)
  show ?thesis
    using assms remote_kill_inv [OF assms(1)]
    by (auto simp: cluster_udp_handler_def Let_def split_def bind_res_Inr on_remote_spawned_def split: if_splits
        dest: r x intro: remote_spawn_inv)
qed

lemma receive_procs:
  assumes "proc_inv (k_pt k) (k_sc k)" "next_pid (k_pt k) + 1 \<noteq> 0" "node_receive nic now buf n k = Some (Inr k')"
  shows "proc_inv (k_pt k') (k_sc k')"
  using assms handler_procs [where k = "k\<lparr>k_net := m\<rparr>" for m]
  by (auto simp: node_receive_def Let_def split: sum.splits list.splits if_splits)

lemma poll_inv: "shell_inv s \<Longrightarrow> pids_left s \<Longrightarrow> poll_turn e rest s = Some (Inr t) \<Longrightarrow> shell_inv t"
  by (auto simp: poll_turn_def Let_def bind_res_Inr kern_upd(2) split: prod.splits option.splits
      intro!: kern_upd(3) intro: receive_procs inv_procs)

lemma heartbeat_inv: "shell_inv s \<Longrightarrow> heartbeat_turn e s = Inr t \<Longrightarrow> shell_inv t"
  using inv_procs by (auto simp: heartbeat_turn_def Let_def bind_res_Inr intro!: kern_upd(1))

lemma boot_demo_sleeps: "can_sleep (snd boot_demo)"
  by code_simp

lemma sleep_procs:
  assumes p: "proc_inv pt sc" and ok: "can_sleep sc"
  shows "proc_inv pt (snd (sleep_ms now ms sp sc))"
proof -
  have i: "sched_inv sc" using p by (simp add: proc_inv_def)
  then have ini: "inited sc" "idle_id sc = 1" "length (tasks sc) = MAX_TASKS" by (simp_all add: sched_inv_def)
  define u where "u = set_task (cur sc) ((tasks sc ! cur sc)\<lparr>wake_at := now + ucast ms, tstate := TASK_SLEEPING\<rparr>) sc"
  have "sched_inv u" unfolding u_def using ok ini by (intro set_task_inv i) (auto simp: can_sleep_def)
  with p have "proc_inv pt u"
    by (rule proc_inv_sched) (use ini in \<open>auto simp: u_def nth_update_lt\<close>)
  from yield_proc_inv [OF this] show ?thesis using ini by (simp add: sleep_ms_def u_def)
qed

lemma sleep_inv: "shell_inv s \<Longrightarrow> can_sleep (k_sc (kern s)) \<Longrightarrow> shell_inv (sleep_turn ms sp s)"
  by (auto simp: sleep_turn_def inv_procs intro!: kern_upd(1) sleep_procs)

lemma machine_step_inv: "shell_inv s \<Longrightarrow> machine_step s t \<Longrightarrow> shell_inv t"
  by (erule machine_stepE) (auto simp: kern_upd(2) intro: dispatch_inv yield_inv task_turn_inv poll_inv heartbeat_inv sleep_inv)

lemma mouse_init_inv: "mouse_inv (fst (snd (mouse_init d (mouse_boot, ih))))"
proof -
  have "mouse_inv mouse_boot" "mouse_inv (mouse_boot\<lparr>mouse_ready := True\<rparr>)"
    by (simp_all add: mouse_inv_def mouse_boot_def)
  then show ?thesis by (simp add: mouse_init_def Let_def split_def)
qed

lemma cluster_init_sched:
  assumes "sched_inv sc" "cluster_init c n sc = Inr (ok, c', n', sc')"
  shows "sched_inv sc'"
  using assms by (auto simp: cluster_init_def Let_def create_inv split: if_splits)

text \<open>The fields a stage of the boot sequence does not set.\<close>

lemma boot_interrupts_frame:
  "kern (boot_interrupts b s) = kern s" "mou s = mouse_boot \<Longrightarrow> mouse_inv (mou (boot_interrupts b s))"
  "pow (boot_interrupts b s) = pow s" "ctl (boot_interrupts b s) = ctl s"
proof -
  show "mou s = mouse_boot \<Longrightarrow> mouse_inv (mou (boot_interrupts b s))"
    using mouse_init_inv by (simp add: boot_interrupts_def Let_def split_def)
qed (simp_all add: boot_interrupts_def Let_def split_def ctl_def)

lemma boot_hardware_frame:
  "mou (boot_hardware b s) = mou s" "pow (boot_hardware b s) = pow s" "ctl (boot_hardware b s) = ctl s"
  "kern (boot_hardware b s) = (kern s)\<lparr>k_sc := sched_init (k_sc (kern s))\<rparr>"
  by (simp_all add: boot_hardware_def Let_def split_def ctl_def)

lemma boot_nic_frame:
  assumes "boot_nic b s = Some t"
  shows "mou t = mou s" "pow t = pow s" "ctl t = ctl s" "kern t = kern s"
  using assms by (auto simp: boot_nic_def split_def ctl_def)

lemma boot_net_frame:
  assumes "boot_net s = Inr t"
  shows "mou t = mou s" "pow t = pow s" "ctl t = ctl s" "k_pt (kern t) = k_pt (kern s)"
    and "sched_inv (k_sc (kern s)) \<Longrightarrow> sched_inv (k_sc (kern t))"
  using assms by (auto simp: boot_net_def Let_def bind_res_Inr ctl_def intro: cluster_init_sched)

lemma boot_inv:
  assumes ld: "loaded s0" and us: "users_inv (users_init (b_sector b))" and bt: "boot b s0 = Some (Inr t)"
  shows "shell_inv t \<and> pow t = Running"
proof -
  define u where "u = boot_hardware b (boot_interrupts b s0)"
  from bt obtain v w where v: "boot_nic b u = Some v" and w: "boot_net v = Inr w"
    and t: "t = shell_init (say [line []] (boot_services b w))"
    by (auto simp: boot_def u_def bind_res_Inr split: if_splits)
  note frames = boot_net_frame [OF w] boot_nic_frame [OF v]
  have m: "mouse_inv (mou w)"
    using ld by (simp add: frames u_def boot_hardware_frame boot_interrupts_frame loaded_def)
  have c: "ctl w = ctl s0" by (simp add: frames u_def boot_hardware_frame boot_interrupts_frame)
  have pw: "pow w = Running" using ld by (simp add: frames u_def boot_hardware_frame boot_interrupts_frame loaded_def)
  have sc: "sched_inv (k_sc (kern w))"
    by (rule frames) (simp add: frames u_def boot_hardware_frame boot_interrupts_frame sched_init_inv)
  have pt: "k_pt (kern w) = k_pt (kern s0)" by (simp add: frames u_def boot_hardware_frame boot_interrupts_frame)
  have p: "proc_inv (fst (proc_init (k_pt (kern w)) (k_sc (kern w)))) (snd (proc_init (k_pt (kern w)) (k_sc (kern w))))"
    using ld by (intro proc_init_inv [OF sc]) (simp_all add: pt loaded_def)
  let ?x = "boot_services b w"
  have f: "sh_clip ?x = clip_init" "sh_users ?x = users_init (b_sector b)" "mou ?x = mou w" "pow ?x = pow w"
    "k_pt (kern ?x) = fst (proc_init (k_pt (kern w)) (k_sc (kern w)))"
    "k_sc (kern ?x) = snd (proc_init (k_pt (kern w)) (k_sc (kern w)))"
    by (simp_all add: boot_services_def Let_def split_def)
  have "texts_ok (say [line []] ?x)"
    using ld c by (simp add: boot_services_def Let_def split_def texts_ok_def ctl_def loaded_def SHELL_BUFFER_SIZE_def
        MAX_PATH_LEN_def EDIT_BUF_def)
  then have "shell_inv t" unfolding t using m p us by (intro shell_init_inv) (simp_all add: f clip_init_inv)
  moreover have "pow t = pow ?x" by (simp add: t shell_init_def Let_def show_signup_prompt_def show_login_prompt_def)
  ultimately show ?thesis using pw f(4) by simp
qed

interpretation machine: safe_system booted machine_step shell_inv
proof
  show "shell_inv s" if "booted s" for s using that boot_inv by (auto simp: booted_def)
  show "shell_inv t" if "shell_inv s" "machine_step s t" for s t using machine_step_inv that by blast
qed

section \<open>Accounts, from boot on\<close>

text \<open>C6: From boot on, whatever interrupts, task turns and frames from the network happen: when the shell takes commands, edits a file or
  asks the questions of a first login, there is a current user, and it is an active account; when it
  takes the data of a new account, there is no account yet; and characters are masked exactly while it
  waits for a password.
\<close>

theorem sessions_need_accounts:
  assumes "reach booted machine_step s"
  shows "(in_session (sh_mode s) \<longrightarrow> (\<exists>i<MAX_USERS. cur_user (sh_users s) = Some i \<and> uactive (tab (sh_users s) ! i))) \<and>
         (signing_up (sh_mode s) \<longrightarrow> (\<forall>u\<in>set (tab (sh_users s)). \<not> uactive u)) \<and>
         (sh_masked s \<longleftrightarrow> sh_mode s \<in> {MODE_SIGNUP_PASS, MODE_SIGNUP_CONFIRM, MODE_LOGIN_PASS})"
proof -
  have i: "masks_ok s" "session_ok s" using machine.reach_ok [OF assms] by (simp_all add: shell_inv_def)
  have "\<forall>u\<in>set (tab (sh_users s)). \<not> uactive u" if "signing_up (sh_mode s)"
    using i(2) that by (simp add: session_ok_def user_count_def filter_empty_conv)
  with i show ?thesis by (simp add: masks_ok_def session_ok_def logged_in_def)
qed


section \<open>From the keyboard to the command line\<close>

text \<open>The scan codes of a keyboard, one interrupt each; the port accesses of the handler are left out.\<close>

fun feed_keys :: "env \<Rightarrow> u8 list \<Rightarrow> sys \<Rightarrow> sys res option" where
  "feed_keys e [] s = ret s"
| "feed_keys e (sc # scs) s =
     (let (c, k) = kbd_scan sc (kb s); s = s\<lparr>kb := k\<rparr>
      in case (case c of None \<Rightarrow> ret s | Some ch \<Rightarrow> shell_update e ch s) of
           Some (Inr t) \<Rightarrow> feed_keys e scs t | r \<Rightarrow> r)"

lemma feed_keys_append:
  "feed_keys e (xs @ ys) s = (case feed_keys e xs s of Some (Inr t) \<Rightarrow> feed_keys e ys t | r \<Rightarrow> r)"
  by (induction xs arbitrary: s) (auto simp: Let_def split: option.split sum.split prod.split)

lemma feed_keys_typed:
  assumes "kbd_run scs (kb s) = (xs, k)" "\<forall>c\<in>set xs. printable c" "sh_mode s \<noteq> MODE_EDIT"
    "length (sh_line s) + length xs \<le> 255"
  shows "feed_keys e scs s = ret ((typed xs s)\<lparr>kb := k\<rparr>)"
  using assms
proof (induction scs arbitrary: s xs)
  case Nil
  then show ?case by (simp add: typed_def)
next
  case (Cons sc scs)
  obtain c k1 where sc: "kbd_scan sc (kb s) = (c, k1)" by fastforce
  let ?s = "s\<lparr>kb := k1\<rparr>"
  show ?case
  proof (cases c)
    case None
    then have "feed_keys e scs ?s = ret ((typed xs ?s)\<lparr>kb := k\<rparr>)"
      using Cons.prems sc by (intro Cons.IH) (auto split: prod.splits)
    moreover have "(typed xs ?s)\<lparr>kb := k\<rparr> = (typed xs s)\<lparr>kb := k\<rparr>" by (simp add: typed_def echo_def)
    ultimately show ?thesis using sc None by simp
  next
    case (Some ch)
    then obtain ys where r: "kbd_run scs k1 = (ys, k)" "xs = ch # ys"
      using Cons.prems(1) sc by (auto split: prod.splits)
    have "shell_update e ch ?s = ret (typed [ch] ?s)"
      using Cons.prems r by (intro update_printable) auto
    moreover have "feed_keys e scs (typed [ch] ?s) = ret ((typed ys (typed [ch] ?s))\<lparr>kb := k\<rparr>)"
      using Cons.prems r by (intro Cons.IH) auto
    moreover have "(typed ys (typed [ch] ?s))\<lparr>kb := k\<rparr> = (typed xs s)\<lparr>kb := k\<rparr>"
      by (simp add: typed_Cons r(2)) (simp add: typed_def echo_def)
    ultimately show ?thesis using sc Some by simp
  qed
qed

text \<open>C13: Pressing and releasing the keys of a line and then pressing Enter runs the handler of the current
  mode on exactly that line. In the shell's own mode that is the command.
\<close>

theorem typed_line_runs:
  assumes k: "kb s = kbd_boot" "sh_mode s \<noteq> MODE_EDIT" "sh_line s = []"
    and l: "\<forall>c\<in>set l. typable c \<and> printable c" "length l \<le> 255"
  shows "feed_keys e (concat (map keys_of l) @ [0x1C]) s = handle_line e l (s\<lparr>sh_out := sh_out s @ map (echo s) l\<rparr>)"
proof -
  have "kbd_run (concat (map keys_of l)) (kb s) = (l, kbd_boot)" using l(1) by (simp add: k(1) typed_keys)
  then have f: "feed_keys e (concat (map keys_of l)) s = ret ((typed l s)\<lparr>kb := kbd_boot\<rparr>)"
    by (rule feed_keys_typed) (use k l in auto)
  define t where "t = typed l s"
  have t: "kb t = kbd_boot" "t\<lparr>kb := kbd_boot\<rparr> = t" "sh_mode t \<noteq> MODE_EDIT" "sh_line t = l"
    "t\<lparr>sh_line := []\<rparr> = s\<lparr>sh_out := sh_out s @ map (echo s) l\<rparr>"
    using k by (simp_all add: t_def) (simp_all add: typed_def)
  have t2: "t\<lparr>kb := kbd_boot, sh_line := []\<rparr> = s\<lparr>sh_out := sh_out s @ map (echo s) l\<rparr>" by (simp only: t(2,5))
  have sc: "kbd_scan 0x1C kbd_boot = (Some (CHR 0x0A), kbd_boot)" by code_simp
  from f t(1,3,4) t2 sc show ?thesis
    unfolding t_def [symmetric]
    by (simp add: feed_keys_append shell_update_def split: option.split sum.split)
qed

section \<open>Examples\<close>

text \<open>A machine without a disk, a network card or a mouse boots: every wait of the sequence ends.\<close>

definition bare_dev :: dev where
  "bare_dev = \<lparr>rd8 = (\<lambda>h p. 1), rd16 = (\<lambda>h p. 0), rd32 = (\<lambda>h p. 0xFFFFFFFF)\<rparr>"

definition bare_boot :: bootp where
  "bare_boot = \<lparr>b_fb = True, b_dev = bare_dev, b_chip = (\<lambda>_ _. 0), b_cpuid = (\<lambda>_. (0, 0, 0, 0)), b_memmap = None, b_hhdm = None,
     b_stubs = (\<lambda>_. 0), b_yield = 0, b_sector = None\<rparr>"

lemma nic_init_returns: "nic_init d (\<lambda>_ _. 0) ds x \<noteq> None"
proof -
  have w: "wait_reset (\<lambda>_ _. 0) s = Some (snd (rd (\<lambda>_ _. 0) REG_CTRL s))" for s
    by (subst wait_reset.simps) (simp add: rd_def)
  have m: "list_all (\<lambda>b. b = 0) (mac_addr (read_mac (\<lambda>_ _. 0) s))" for s
    by (simp add: read_mac_def rd_def Let_def)
  show ?thesis by (simp add: nic_init_def w m Let_def split_def split: option.split) (cases x; auto)
qed

lemma boot_net_returns: "\<exists>t. boot_net s = Inr t"
proof -
  have "\<exists>r. cluster_init c n sc = Inr r" for c n sc
  proof -
    have "htonl (our_ip n) AND 0xFF \<le> 0xFF" by (rule word_and_le1)
    then have v: "unat (htonl (our_ip n) AND 0xFF) < 256" by (simp add: word_le_nat_alt)
    then have "unat (ucast (htonl (our_ip n) AND 0xFF) :: u64) < 10 ^ 3"
      by (simp add: unsigned_ucast_eq take_bit_nat_eq_self)
    from itoa_len_small [OF this] have "\<not> 8 < length (itoa (ucast (htonl (our_ip n) AND 0xFF))) + 1" by simp
    then show ?thesis by (cases "net_ready n") (auto simp: cluster_init_def Let_def)
  qed
  then show ?thesis by (simp add: boot_net_def Let_def split_def bind_res_def split: sum.split) (metis Inl_Inr_False)
qed

lemma bare_boots: "\<exists>t. boot (bare_boot\<lparr>b_sector := d\<rparr>) s = Some (Inr t)"
proof -
  let ?b = "bare_boot\<lparr>b_sector := d\<rparr>"
  obtain v where v: "boot_nic ?b (boot_hardware ?b (boot_interrupts ?b s)) = Some v"
    using nic_init_returns [of bare_dev "pcis (boot_hardware ?b (boot_interrupts ?b s))"]
    by (fastforce simp: boot_nic_def bare_boot_def)
  obtain w where "boot_net v = Inr w" using boot_net_returns by blast
  with v show ?thesis by (simp add: boot_def) (simp add: bare_boot_def)
qed

definition loaded_demo :: sys where "loaded_demo = sys_demo MODE_SIGNUP_USER users_demo fs_init"

lemma loaded_demo_ok: "loaded loaded_demo"
  by (simp add: loaded_def loaded_demo_def sys_demo_def demo_node_def boot_demo_def proc_init_def ptable_demo_def)

lemma bare_booted: obtains s where "booted s" "boot bare_boot loaded_demo = Some (Inr s)"
proof -
  have "bare_boot\<lparr>b_sector := None\<rparr> = bare_boot" by (simp add: bare_boot_def)
  then obtain s where s: "boot bare_boot loaded_demo = Some (Inr s)" using bare_boots [of None] by metis
  have "users_inv (users_init (b_sector bare_boot))" by (simp add: bare_boot_def users_init_None)
  with s loaded_demo_ok have "booted s" unfolding booted_def by blast
  with s that show ?thesis by blast
qed

theorem sessions_need_accounts_witness:
  "\<exists>s. boot bare_boot loaded_demo = Some (Inr s) \<and>
       (sh_masked s \<longleftrightarrow> sh_mode s \<in> {MODE_SIGNUP_PASS, MODE_SIGNUP_CONFIRM, MODE_LOGIN_PASS})"
proof -
  obtain s where s: "booted s" "boot bare_boot loaded_demo = Some (Inr s)" by (rule bare_booted)
  from sessions_need_accounts [OF reach_init [where init = booted, OF s(1)]] s(2) show ?thesis by blast
qed


theorem typed_line_runs_witness:
  "feed_keys env_demo (concat (map keys_of ''ls'') @ [0x1C]) (sys_demo MODE_SHELL users_ann fs_init) =
   handle_line env_demo ''ls'' ((sys_demo MODE_SHELL users_ann fs_init)\<lparr>sh_out := [Putc (CHR ''l''), Putc (CHR ''s'')]\<rparr>)"
proof -
  have "\<forall>c\<in>set ''ls''. typable c \<and> printable c" by code_simp
  from typed_line_runs [OF _ _ _ this, of "sys_demo MODE_SHELL users_ann fs_init" env_demo] show ?thesis
    by (simp add: sys_demo_def echo_def)
qed

end
