(* ===== verification/SessionSpec.thy ===== *)
theory SessionSpec
  imports Kernel
begin

text \<open>
  What the shell promises about sessions, as a state machine of its own: the modes with the user a session
  belongs to, and the moves between them. The machine of \<open>Kernel\<close> refines it: whatever it does is one of these
  moves or none.
\<close>

section \<open>The session protocol\<close>

type_synonym phase = "shell_mode \<times> nat option"

inductive phase_start :: "phase \<Rightarrow> bool" where
  "phase_start (MODE_SIGNUP_USER, None)"
| "phase_start (MODE_LOGIN_USER, None)"

inductive phase_step :: "phase \<Rightarrow> phase \<Rightarrow> bool" where
  new_name: "phase_step (MODE_SIGNUP_USER, None) (MODE_SIGNUP_PASS, None)"
| new_password: "phase_step (MODE_SIGNUP_PASS, None) (MODE_SIGNUP_CONFIRM, None)"
| mismatch: "phase_step (MODE_SIGNUP_CONFIRM, None) (MODE_SIGNUP_PASS, None)"
| refused: "phase_step (MODE_SIGNUP_CONFIRM, None) (MODE_SIGNUP_USER, None)"
| created: "phase_step (MODE_SIGNUP_CONFIRM, None) (MODE_ONBOARD_USECASE, Some u)"
| name: "phase_step (MODE_LOGIN_USER, None) (MODE_LOGIN_PASS, None)"
| wrong_password: "phase_step (MODE_LOGIN_PASS, None) (MODE_LOGIN_USER, None)"
| first_login: "phase_step (MODE_LOGIN_PASS, None) (MODE_ONBOARD_USECASE, Some u)"
| login: "phase_step (MODE_LOGIN_PASS, None) (MODE_SHELL, Some u)"
| usecase_chosen: "phase_step (MODE_ONBOARD_USECASE, Some u) (MODE_ONBOARD_PACKAGES, Some u)"
| onboarding_over: "phase_step (MODE_ONBOARD_PACKAGES, Some u) (MODE_SHELL, Some u)"
| open_editor: "phase_step (MODE_SHELL, Some u) (MODE_EDIT, Some u)"
| close_editor: "phase_step (MODE_EDIT, Some u) (MODE_SHELL, Some u)"
| session_over: "phase_step (MODE_SHELL, Some u) (MODE_LOGIN_USER, None)"

code_pred (modes: i \<Rightarrow> i \<Rightarrow> bool) phase_step .

inductive_cases phase_stepE: "phase_step p q"

text \<open>A session has one user from its beginning to its end, and there is none outside.\<close>

lemma phase_user: "phase_step p q \<Longrightarrow> in_session (fst p) \<Longrightarrow> in_session (fst q) \<Longrightarrow> snd q = snd p"
  by (erule phase_stepE) simp_all

lemma phase_shape: "reach phase_start phase_step p \<Longrightarrow> in_session (fst p) \<longleftrightarrow> snd p \<noteq> None"
  by (induction rule: reach.induct) (auto elim: phase_start.cases phase_stepE)

section \<open>The shell follows the protocol\<close>

definition phase_of :: "sys \<Rightarrow> phase" where
  "phase_of s = (sh_mode s, if in_session (sh_mode s) then cur_user (sh_users s) else None)"

definition follows :: "sys \<Rightarrow> sys \<Rightarrow> bool" where
  "follows s t \<longleftrightarrow> phase_of t = phase_of s \<or> phase_step (phase_of s) (phase_of t)"

named_theorems follow_intros \<open>operations that follow the session protocol\<close>

lemma phase_of_upds [simp]:
  "phase_of (say xs s) = phase_of s" "phase_of (con x s) = phase_of s" "phase_of (s\<lparr>sh_line := l\<rparr>) = phase_of s"
  "phase_of (s\<lparr>sh_puser := n\<rparr>) = phase_of s" "phase_of (s\<lparr>sh_fs := fs\<rparr>) = phase_of s" "phase_of (s\<lparr>sh_cwd := p\<rparr>) = phase_of s"
  "phase_of (s\<lparr>sh_ebuf := l\<rparr>) = phase_of s" "phase_of (show_prompt s) = phase_of s"
  by (simp_all add: phase_of_def show_prompt_def)

lemma follows_refl: "phase_of t = phase_of s \<Longrightarrow> follows s t"
  by (simp add: follows_def)

lemma follows_quiet: "quiet s t \<Longrightarrow> follows s t"
  by (simp add: quiet_def ctl_def follows_def phase_of_def)

lemma session_user: "shell_inv s \<Longrightarrow> in_session (sh_mode s) \<Longrightarrow> \<exists>u. cur_user (sh_users s) = Some u"
  by (auto simp: shell_inv_def session_ok_def logged_in_def)

lemma session_counted:
  assumes "shell_inv s" "in_session (sh_mode s)"
  shows "user_count (sh_users s) \<noteq> 0"
proof -
  have u: "users_inv (sh_users s)" "logged_in (sh_users s)" using assms by (simp_all add: shell_inv_def session_ok_def)
  then obtain i where "i < length (tab (sh_users s))" "uactive (tab (sh_users s) ! i)" by (auto simp: logged_in_def users_inv_def)
  then have "tab (sh_users s) ! i \<in> set (filter uactive (tab (sh_users s)))" by simp
  then show ?thesis by (force simp: user_count_def filter_empty_conv)
qed

lemma usecase_keeps [simp]: "cur_user (set_usecase w u uc us) = cur_user us" "cur_user (complete_onboarding w u us) = cur_user us"
  by (simp_all add: set_usecase_def complete_onboarding_def split: option.split)

lemma follow_cls [follow_intros]: "shell_inv s \<Longrightarrow> sh_mode s = MODE_SHELL \<Longrightarrow> follows s (cmd_cls s)"
  using session_user [of s] session_counted [of s]
  by (auto simp: follows_def phase_of_def cmd_cls_def shell_init_def Let_def intro: session_over)

lemma follow_logout [follow_intros]: "shell_inv s \<Longrightarrow> sh_mode s = MODE_SHELL \<Longrightarrow> follows s (cmd_logout s)"
  using session_user [of s] by (auto simp: follows_def phase_of_def cmd_logout_def intro: session_over)

lemma follow_cd [follow_intros]: "okr (follows s) (cmd_cd a s)"
  by (auto simp: cmd_cd_def okr_bind follows_def)

lemma follow_nano [follow_intros]: "shell_inv s \<Longrightarrow> sh_mode s = MODE_SHELL \<Longrightarrow> okr (follows s) (cmd_nano a s)"
  using session_user [of s] by (auto simp: cmd_nano_def okr_bind Let_def follows_def phase_of_def intro: open_editor)

lemma follow_command:
  assumes "shell_inv s" "sh_mode s = MODE_SHELL"
  shows "oko (follows s) (run_command e cmd arg s)"
proof (cases "info_command cmd s")
  case (Some xs)
  then show ?thesis by (simp add: run_command_def oko_map follows_def)
next
  case None
  have q: "oko (follows s) r" if "oko (quiet s) r" for r using oko_mono [OF that follows_quiet] .
  have direct: "oko (follows s) (ret (cmd_cls s))" "oko (follows s) (Some (cmd_cd arg s))" "oko (follows s) (Some (cmd_nano arg s))"
      "oko (follows s) (ret (cmd_logout s))"
    using assms by (simp_all add: follow_intros)
  show ?thesis
    unfolding run_command_def None option.case
    by (intro oko_if; (rule direct | rule q, simp add: quiet_intros oko_map quiet_refl))
qed

lemma follow_shell_line:
  assumes "shell_inv s" "sh_mode s = MODE_SHELL"
  shows "oko (follows s) (line_shell e l s)"
proof -
  have "oko (follows s) (process_command e l s)"
    using follow_command [OF assms] by (simp add: process_command_def Let_def follows_refl split: prod.split)
  then have "follows s u" if "process_command e l s = ret u" for u using that by simp
  then show ?thesis by (auto simp: line_shell_def oko_map okr_bind) (auto simp: follows_def)
qed

lemma follow_names [follow_intros]:
  "sh_mode s = MODE_SIGNUP_USER \<Longrightarrow> okr (follows s) (line_signup_user l s)"
  "sh_mode s = MODE_SIGNUP_PASS \<Longrightarrow> okr (follows s) (line_signup_pass l s)"
  "sh_mode s = MODE_LOGIN_USER \<Longrightarrow> okr (follows s) (line_login_user l s)"
  by (auto simp: line_signup_user_def line_signup_pass_def line_login_user_def okr_bind follows_def phase_of_def
      intro: phase_step.intros)

lemma follow_confirm [follow_intros]:
  assumes "shell_inv s" "sh_mode s = MODE_SIGNUP_CONFIRM"
  shows "follows s (line_signup_confirm e l s)"
proof -
  have "in_session (sh_mode (line_signup_confirm e l s)) \<Longrightarrow> \<exists>u. cur_user (sh_users (line_signup_confirm e l s)) = Some u"
    using session_user [OF signup_confirm_inv [OF assms]] .
  with assms(2) show ?thesis
    by (auto simp: line_signup_confirm_def Let_def follows_def phase_of_def split: prod.splits if_splits intro!: phase_step.intros)
qed

lemma follow_usecase [follow_intros]:
  "shell_inv s \<Longrightarrow> sh_mode s = MODE_ONBOARD_USECASE \<Longrightarrow> follows s (line_usecase e l s)"
  using session_user [of s]
  by (auto simp: line_usecase_def Let_def follows_def phase_of_def split: option.split intro: phase_step.intros)

lemma follow_packages [follow_intros]:
  "shell_inv s \<Longrightarrow> sh_mode s = MODE_ONBOARD_PACKAGES \<Longrightarrow> okr (follows s) (line_packages e l s)"
  using session_user [of s]
  by (auto simp: line_packages_def okr_bind Let_def follows_def phase_of_def split: option.splits if_splits intro: phase_step.intros)

lemma follow_password [follow_intros]: "sh_mode s = MODE_LOGIN_PASS \<Longrightarrow> okr (follows s) (line_login_pass l s)"
  by (auto simp: line_login_pass_def Let_def follows_def phase_of_def set_current_def split: option.splits intro: phase_step.intros)

lemma follow_line:
  assumes "shell_inv s"
  shows "oko (follows s) (handle_line e l s)"
  using assms follow_shell_line [of s e l] by (cases "sh_mode s") (simp_all add: handle_line_def follow_intros follows_refl)

lemma follow_edit:
  assumes "shell_inv s" "sh_mode s = MODE_EDIT"
  shows "okr (follows s) (edit_update c s)"
proof -
  have lv: "follows s (leave_editor t)" if "phase_of t = phase_of s" for t
    using session_user [OF assms(1)] assms(2) that
    by (auto simp: leave_editor_def follows_def) (auto simp: phase_of_def intro: close_editor)
  have sv: "okr (follows s) (bind_res (edit_save s) (\<lambda>(ok, s). Inr (leave_editor (say (f ok s) s))))"
    "okr (follows s) (bind_res (edit_save s) (\<lambda>(ok, s). Inr (say (f ok s) s)))" for f
    by (auto simp: edit_save_def okr_bind bind_res_Inr follows_refl lv)
  show ?thesis
    using sv(1) [of "\<lambda>ok s. if ok then [line ''[Saved '', sh_efile s, '']''] else [line ''[Save failed]'']"] sv(2)
    by (simp add: edit_update_def edit_insert_def follows_refl lv)
qed

lemma follow_char:
  assumes "shell_inv s"
  shows "oko (follows s) (shell_update e c s)"
proof -
  have l: "phase_of (s\<lparr>sh_line := []\<rparr>) = phase_of s" "shell_inv (s\<lparr>sh_line := []\<rparr>)"
    using assms by (simp, auto intro!: line_upd_inv)
  have "oko (follows s) (handle_line e (sh_line s) (s\<lparr>sh_line := []\<rparr>))"
    using follow_line [OF l(2), of e "sh_line s"] by (rule oko_mono) (simp add: follows_def)
  with assms show ?thesis by (simp add: shell_update_def Let_def follow_edit type_char_def follows_refl)
qed

section \<open>The machine follows the protocol\<close>

lemma phase_of_rest [simp]:
  "phase_of (s\<lparr>ports := h\<rparr>) = phase_of s" "phase_of (s\<lparr>ticks := w\<rparr>) = phase_of s" "phase_of (s\<lparr>kb := k\<rparr>) = phase_of s"
  "phase_of (s\<lparr>iqs := q\<rparr>) = phase_of s" "phase_of (s\<lparr>mou := m\<rparr>) = phase_of s" "phase_of (s\<lparr>kern := x\<rparr>) = phase_of s"
  "phase_of (s\<lparr>card := c\<rparr>) = phase_of s" "phase_of (count_irq i s) = phase_of s"
  by (simp_all add: phase_of_def count_irq_def)

lemma follow_handler: "shell_inv s \<Longrightarrow> oko (follows s) (run_handler e f s)"
proof (cases f)
  case H_keyboard
  have "oko (follows s) (shell_update e c (s\<lparr>kb := k, ports := h\<rparr>))" if "shell_inv s" for c k h
  proof -
    have "shell_inv (s\<lparr>kb := k, ports := h\<rparr>)" using that by simp
    from follow_char [OF this, of e c] show ?thesis by (rule oko_mono) (simp add: follows_def)
  qed
  then show "shell_inv s \<Longrightarrow> oko (follows s) (run_handler e f s)"
    using H_keyboard by (simp add: run_handler_def Let_def follows_refl split: prod.split option.split)
qed (simp_all add: run_handler_def Let_def follows_refl split: prod.split)

lemma follow_dispatch:
  assumes "shell_inv s" "irq_dispatch e sp f s = Some (Inr (sp', t))"
  shows "follows s t"
proof (cases "(ucast (int_no f - 32) :: u8) \<ge> 16")
  case True
  with assms show ?thesis by (simp add: irq_dispatch_def Let_def follows_refl)
next
  case False
  let ?irq = "ucast (int_no f - 32) :: u8"
  let ?c = "count_irq ?irq s"
  let ?r = "case irq_handlers (iqs ?c) ! unat ?irq of None \<Rightarrow> ret ?c | Some g \<Rightarrow> run_handler e g ?c"
  obtain u where u: "?r = Some (Inr u)" and t: "phase_of t = phase_of u"
    using assms(2) False by (auto simp: irq_dispatch_def Let_def bind_res_Inr split_def split: if_splits)
  have "shell_inv ?c" using assms(1) by (simp add: count_irq_def)
  from follow_handler [OF this] have "oko (follows ?c) ?r" by (simp add: follows_refl split: option.split)
  then have "follows ?c u" using u by simp
  with t show ?thesis by (simp add: follows_def)
qed

lemma follow_step: "shell_inv s \<Longrightarrow> machine_step s t \<Longrightarrow> follows s t"
  by (erule machine_stepE)
    (auto simp: sched_yield_dispatch_def task_turn_def poll_turn_def heartbeat_turn_def sleep_turn_def Let_def split_def bind_res_Inr
      follows_refl follow_dispatch split: option.splits)

lemma booted_phase: "booted s \<Longrightarrow> phase_start (phase_of s)"
  by (auto simp: booted_def boot_def bind_res_Inr shell_init_def Let_def phase_of_def split: if_splits
      intro: phase_start.intros)

interpretation session: refined_system booted machine_step shell_inv phase_start phase_step phase_of
  by unfold_locales (use booted_phase follow_step in \<open>auto simp: follows_def\<close>)

section \<open>Properties\<close>

text \<open>C5: Refinement: whatever happens on the machine, the modes of the shell and the user of its session go through the states of
  the session protocol.
\<close>

theorem shell_refines_protocol:
  assumes "reach booted machine_step s"
  shows "reach phase_start phase_step (phase_of s) \<and> (machine_step s t \<longrightarrow> phase_of t = phase_of s \<or> phase_step (phase_of s) (phase_of t))"
  using session.reach_abs [OF assms] session.step_abs [OF machine.reach_ok [OF assms]] by blast

theorem shell_refines_protocol_witness:
  "\<exists>s. boot bare_boot loaded_demo = Some (Inr s) \<and> reach phase_start phase_step (phase_of s)"
proof -
  obtain s where s: "booted s" "boot bare_boot loaded_demo = Some (Inr s)" by (rule bare_booted)
  from shell_refines_protocol [OF reach_init [where init = booted, OF s(1)]] s(2) show ?thesis by blast
qed

text \<open>A step within a session.\<close>

definition session_step :: "sys \<Rightarrow> sys \<Rightarrow> bool" where
  "session_step s t \<longleftrightarrow> machine_step s t \<and> in_session (sh_mode t)"

text \<open>C17: One session has one user: from a well-formed state in a session, which every reachable one is, and as long as the
  machine does not leave the session, the current user stays the same, whatever is typed and whatever arrives
  from the network.
\<close>

theorem session_user_stays:
  assumes "shell_inv s" "in_session (sh_mode s)"
    and "session_step\<^sup>*\<^sup>* s t"
  shows "cur_user (sh_users t) = cur_user (sh_users s) \<and> cur_user (sh_users t) \<noteq> None"
proof -
  from assms(3) have "shell_inv t \<and> in_session (sh_mode t) \<and> cur_user (sh_users t) = cur_user (sh_users s)"
  proof (induction rule: rtranclp_induct)
    case base
    then show ?case using assms(1,2) by simp
  next
    case (step y z)
    then have "phase_of z = phase_of y \<or> phase_step (phase_of y) (phase_of z)"
      using session.step_abs by (auto simp: session_step_def)
    then have "cur_user (sh_users z) = cur_user (sh_users y)"
      using step phase_user [of "phase_of y" "phase_of z"] by (auto simp: phase_of_def session_step_def)
    with step show ?case by (auto simp: session_step_def intro: machine_step_inv)
  qed
  with session_user [of t] show ?thesis by auto
qed

text \<open>Ann's session while a task goes to sleep and another yields.\<close>

theorem session_user_stays_witness:
  "let s = sys_demo MODE_SHELL users_ann fs_init; t = snd (sched_yield_dispatch 7 (sleep_turn 10 7 s))
   in cur_user (sh_users t) = cur_user users_ann \<and> cur_user (sh_users t) \<noteq> None"
proof -
  let ?s = "sys_demo MODE_SHELL users_ann fs_init"
  let ?t = "sleep_turn 10 7 ?s" and ?u = "snd (sched_yield_dispatch 7 (sleep_turn 10 7 ?s))"
  have m: "sh_mode ?s = MODE_SHELL" "pow ?s = Running" "sh_users ?s = users_ann" by (simp_all add: sys_demo_def)
  have "can_sleep (k_sc (kern ?s))" by (simp add: sys_demo_def demo_node_def boot_demo_sleeps)
  then have "machine_step ?s ?t" using m by (intro step_sleep)
  moreover have t: "sh_mode ?t = MODE_SHELL" "pow ?t = Running" using m by (simp_all add: sleep_turn_def)
  ultimately have "session_step ?s ?t" by (simp add: session_step_def)
  moreover have "session_step ?t ?u"
    using t step_yield [OF t(2)] by (simp add: session_step_def sched_yield_dispatch_def split_def Let_def)
  ultimately have "session_step\<^sup>*\<^sup>* ?s ?u" by (rule converse_rtranclp_into_rtranclp [OF _ r_into_rtranclp])
  from session_user_stays [OF sys_demo_inv [OF fs_init_inv] _ this] m show ?thesis by (simp add: Let_def) (metis option.distinct(1))
qed

end
