(* ===== verification/Accounts.thy ===== *)
theory Accounts
  imports SessionSpec
begin

text \<open>
  What becomes of an account: from the confirmation of its password to the sector on the disk, through
  whatever the machine does, and back from the sector at the next start. An account is known by its name, its
  password hash and whether it is in use; the rest of a table entry may change.
\<close>

section \<open>The accounts of a table\<close>

definition creds :: "user list \<Rightarrow> (string \<times> u64 \<times> bool) list" where
  "creds us = map (\<lambda>u. (uname u, pass_hash u, uactive u)) us"

lemma creds_nth:
  assumes "creds us = creds vs" "i < length us"
  shows "uname (vs ! i) = uname (us ! i)" "pass_hash (vs ! i) = pass_hash (us ! i)" "uactive (vs ! i) = uactive (us ! i)"
proof -
  have "length us = length vs" using arg_cong [OF assms(1), of length] by (simp add: creds_def)
  with arg_cong [OF assms(1), of "\<lambda>xs. xs ! i"] assms(2)
  show "uname (vs ! i) = uname (us ! i)" "pass_hash (vs ! i) = pass_hash (us ! i)" "uactive (vs ! i) = uactive (us ! i)"
    by (simp_all add: creds_def)
qed

lemma creds_length: "creds us = creds vs \<Longrightarrow> length us = length vs"
  by (drule arg_cong [of _ _ length]) (simp add: creds_def)

lemma creds_update [simp]:
  "creds (us[i := (us ! i)\<lparr>usecase := uc\<rparr>]) = creds us" "creds (us[i := (us ! i)\<lparr>onboarded := b\<rparr>]) = creds us"
  by (cases "i < length us"; simp add: creds_def map_update list_update_beyond list_update_same_conv)+

lemma creds_find: "creds (tab us) = creds (tab vs) \<Longrightarrow> find_user (Some n) us = find_user (Some n) vs"
  unfolding find_user_key
  by (rule find_idx_cong) (auto dest: creds_length creds_nth)

lemma creds_verify:
  assumes "creds (tab us) = creds (tab vs)"
  shows "verify (Some n) q us = verify (Some n) q vs"
proof (cases "find_user (Some n) vs")
  case None
  then show ?thesis by (simp add: verify_def creds_find [OF assms])
next
  case (Some i)
  then have "i < length (tab us)" using find_idx_len creds_length [OF assms] by (fastforce simp: find_user_key)
  from creds_nth(2) [OF assms this] Some show ?thesis by (simp add: verify_def creds_find [OF assms])
qed

lemma creds_count: "creds (tab us) = creds (tab vs) \<Longrightarrow> user_count us = user_count vs"
proof -
  have "user_count xs = length (filter (\<lambda>(n, h, a). a) (creds (tab xs)))" for xs
    by (simp add: user_count_def creds_def filter_map comp_def)
  then show "creds (tab us) = creds (tab vs) \<Longrightarrow> ?thesis" by simp
qed

lemma creds_ok:
  assumes "creds us = creds vs" "\<forall>u\<in>set us. user_ok u"
  shows "\<forall>v\<in>set vs. user_ok v"
proof
  fix v assume "v \<in> set vs"
  then obtain i where i: "i < length us" "v = vs ! i" using creds_length [OF assms(1)] by (auto simp: in_set_conv_nth)
  with assms(2) creds_nth(1) [OF assms(1) i(1)] show "user_ok v" by (simp add: user_ok_def)
qed

section \<open>Nothing the machine does loses an account\<close>

text \<open>The accounts are the same, and the sector was left alone or written from the table.\<close>

definition keeps_accounts :: "ustate \<Rightarrow> ustate \<Rightarrow> bool" where
  "keeps_accounts us vs \<longleftrightarrow> creds (tab vs) = creds (tab us) \<and> (saved vs = saved us \<or> saved vs = Some (user_sector (tab vs)))"

abbreviation keeps :: "sys \<Rightarrow> sys \<Rightarrow> bool" where "keeps s t \<equiv> keeps_accounts (sh_users s) (sh_users t)"

text \<open>The sector holds the accounts of the table.\<close>

definition recorded :: "ustate \<Rightarrow> bool" where
  "recorded us \<longleftrightarrow> (\<exists>vs. saved us = Some (user_sector vs) \<and> creds vs = creds (tab us))"

lemma keeps_recorded: "keeps_accounts us vs \<Longrightarrow> recorded us \<Longrightarrow> recorded vs"
  by (auto simp: keeps_accounts_def recorded_def)

lemma keeps_refl [simp]: "keeps_accounts us us"
  by (simp add: keeps_accounts_def)

lemma keeps_user_ops [simp]:
  "keeps_accounts us (set_current u us)" "keeps_accounts us (clear_current us)"
  "keeps_accounts us (set_usecase w u uc us)" "keeps_accounts us (complete_onboarding w u us)"
  by (auto simp: keeps_accounts_def set_current_def clear_current_def set_usecase_def complete_onboarding_def save_to_disk_def
      split: option.split)

lemma recorded_load:
  assumes "recorded us" "users_inv us"
  shows "creds (tab (users_init (saved us))) = creds (tab us)" "users_inv (users_init (saved us))"
proof -
  obtain vs where vs: "saved us = Some (user_sector vs)" "creds vs = creds (tab us)" using assms(1) by (auto simp: recorded_def)
  have "\<forall>u\<in>set vs. user_ok u" "length vs = MAX_USERS"
    using assms(2) vs(2) creds_ok [of "tab us" vs] creds_length [of vs "tab us"] by (simp_all add: users_inv_def)
  with load_user_sector [of vs] vs show "creds (tab (users_init (saved us))) = creds (tab us)" "users_inv (users_init (saved us))"
    by (simp_all add: users_init_def users_inv_def)
qed

named_theorems keep_intros \<open>operations that keep the accounts\<close>

lemma keeps_quiet: "quiet s t \<Longrightarrow> keeps s t"
  by (simp add: quiet_def ctl_def)

lemma prompt_users [simp]: "sh_users (show_prompt s) = sh_users s" "sh_users (leave_editor s) = sh_users s"
  "sh_users (shell_init s) = sh_users s"
  by (simp_all add: show_prompt_def leave_editor_def shell_init_def Let_def)

lemma keep_cls [keep_intros]: "keeps s (cmd_cls s)"
  by (simp add: cmd_cls_def Let_def)

lemma keep_logout [keep_intros]: "keeps s (cmd_logout s)"
  by (simp add: cmd_logout_def)

lemma keep_cd [keep_intros]: "okr (keeps s) (cmd_cd a s)"
  by (auto simp: cmd_cd_def okr_bind)

lemma keep_nano [keep_intros]: "okr (keeps s) (cmd_nano a s)"
  by (auto simp: cmd_nano_def okr_bind Let_def)

lemma keep_command: "oko (keeps s) (run_command e cmd arg s)"
proof (cases "info_command cmd s")
  case (Some xs)
  then show ?thesis by (simp add: run_command_def oko_map)
next
  case None
  have q: "oko (keeps s) r" if "oko (quiet s) r" for r using oko_mono [OF that keeps_quiet] .
  have direct: "oko (keeps s) (ret (cmd_cls s))" "oko (keeps s) (Some (cmd_cd arg s))" "oko (keeps s) (Some (cmd_nano arg s))"
      "oko (keeps s) (ret (cmd_logout s))"
    by (simp_all add: keep_intros)
  show ?thesis
    unfolding run_command_def None option.case
    by (intro oko_if; (rule direct | rule q, simp add: quiet_intros oko_map quiet_refl))
qed

lemma keep_shell_line: "oko (keeps s) (line_shell e l s)"
proof -
  have "oko (keeps s) (process_command e l s)"
    using keep_command [of s e] by (simp add: process_command_def Let_def split: prod.split)
  then have "keeps s u" if "process_command e l s = ret u" for u using that by simp
  then show ?thesis by (auto simp: line_shell_def oko_map okr_bind)
qed

text \<open>Once there is an account the sign-up is over, so the confirmation never runs again.\<close>

lemma no_signup: "shell_inv s \<Longrightarrow> user_count (sh_users s) \<noteq> 0 \<Longrightarrow> \<not> signing_up (sh_mode s)"
  by (auto simp: shell_inv_def session_ok_def)

lemma keep_line:
  assumes "\<not> signing_up (sh_mode s)"
  shows "oko (keeps s) (handle_line e l s)"
  using assms keep_shell_line [of s e l]
  by (cases "sh_mode s")
    (auto simp: handle_line_def line_usecase_def line_packages_def line_login_user_def line_login_pass_def okr_bind Let_def
      split: option.splits)

lemma keep_edit: "okr (keeps s) (edit_update c s)"
  by (auto simp: edit_update_def edit_insert_def edit_save_def okr_bind bind_res_Inr)

lemma keep_char:
  assumes "\<not> signing_up (sh_mode s)"
  shows "oko (keeps s) (shell_update e c s)"
  using keep_line [of "s\<lparr>sh_line := []\<rparr>" e "sh_line s"] assms
  by (simp add: shell_update_def Let_def keep_edit type_char_def)

lemma keep_handler: "\<not> signing_up (sh_mode s) \<Longrightarrow> oko (keeps s) (run_handler e f s)"
proof (cases f)
  case H_keyboard
  have "oko (keeps s) (shell_update e c (s\<lparr>kb := k, ports := h\<rparr>))" if "\<not> signing_up (sh_mode s)" for c k h
    using keep_char [of "s\<lparr>kb := k, ports := h\<rparr>" e c] that by simp
  then show "\<not> signing_up (sh_mode s) \<Longrightarrow> oko (keeps s) (run_handler e f s)"
    using H_keyboard by (simp add: run_handler_def Let_def split: prod.split option.split)
qed (simp_all add: run_handler_def Let_def split: prod.split)

lemma keep_dispatch:
  assumes "\<not> signing_up (sh_mode s)" "irq_dispatch e sp f s = Some (Inr (sp', t))"
  shows "keeps s t"
proof (cases "(ucast (int_no f - 32) :: u8) \<ge> 16")
  case True
  with assms show ?thesis by (simp add: irq_dispatch_def Let_def)
next
  case False
  let ?irq = "ucast (int_no f - 32) :: u8"
  let ?c = "count_irq ?irq s"
  let ?r = "case irq_handlers (iqs ?c) ! unat ?irq of None \<Rightarrow> ret ?c | Some g \<Rightarrow> run_handler e g ?c"
  obtain u where u: "?r = Some (Inr u)" and t: "sh_users t = sh_users u"
    using assms(2) False by (auto simp: irq_dispatch_def Let_def bind_res_Inr split_def split: if_splits)
  have "oko (keeps ?c) ?r" using keep_handler [of ?c e] assms(1) by (simp add: count_irq_def split: option.split)
  then have "keeps ?c u" using u by simp
  with t show ?thesis by (simp add: count_irq_def)
qed

lemma keep_step: "\<not> signing_up (sh_mode s) \<Longrightarrow> machine_step s t \<Longrightarrow> keeps s t"
  by (erule machine_stepE)
    (auto simp: sched_yield_dispatch_def task_turn_def poll_turn_def heartbeat_turn_def sleep_turn_def Let_def split_def bind_res_Inr
      keep_dispatch split: option.splits)

lemma keep_run:
  assumes "shell_inv s" "user_count (sh_users s) \<noteq> 0" "recorded (sh_users s)" "machine_step\<^sup>*\<^sup>* s t"
  shows "shell_inv t \<and> recorded (sh_users t) \<and> creds (tab (sh_users t)) = creds (tab (sh_users s))"
  using assms(4)
proof (induction rule: rtranclp_induct)
  case base
  then show ?case using assms(1-3) by simp
next
  case (step y z)
  have "user_count (sh_users y) \<noteq> 0" using step.IH creds_count [of "sh_users y" "sh_users s"] assms(2) by simp
  then have k: "keeps y z" using step.IH step.hyps(2) no_signup keep_step by blast
  with step.IH have "recorded (sh_users z)" by (blast intro: keeps_recorded)
  with k step.IH machine_step_inv [OF _ step.hyps(2)] show ?case by (simp add: keeps_accounts_def)
qed

section \<open>The start and the login\<close>

lemma shell_init_mode: "sh_line (shell_init s) = []"
  "sh_mode (shell_init s) = (if user_count (sh_users s) = 0 then MODE_SIGNUP_USER else MODE_LOGIN_USER)"
  by (simp_all add: shell_init_def Let_def show_signup_prompt_def show_login_prompt_def)

lemma boot_login:
  assumes "boot b z = Some (Inr t)"
  shows "sh_users t = users_init (b_sector b)" "sh_line t = []"
    and "sh_mode t = (if user_count (sh_users t) = 0 then MODE_SIGNUP_USER else MODE_LOGIN_USER)"
proof -
  obtain x where t: "t = shell_init (say [line []] (boot_services b x))"
    using assms by (auto simp: boot_def bind_res_Inr split: if_splits)
  then show "sh_users t = users_init (b_sector b)" by (simp add: boot_services_def Let_def split_def)
  show "sh_line t = []" "sh_mode t = (if user_count (sh_users t) = 0 then MODE_SIGNUP_USER else MODE_LOGIN_USER)"
    by (simp_all add: t shell_init_mode)
qed

lemma feed_line:
  assumes "\<forall>c\<in>set l. printable c" "length l \<le> 255" "sh_mode s \<noteq> MODE_EDIT" "sh_line s = []"
  shows "feed_chars e (l @ [CHR 0x0A]) s = handle_line e l ((typed l s)\<lparr>sh_line := []\<rparr>)"
  using feed_printable [of l s e] assms
  by (simp add: feed_chars_append shell_update_def split: option.split sum.split)

lemma login_line_simps [simp]:
  "sh_line (show_login_prompt s) = sh_line s" "sh_puser (show_login_prompt s) = sh_puser s"
  by (simp_all add: show_login_prompt_def split: shell_mode.split)

lemma name_line:
  assumes "n \<noteq> []" "length n < 32" "\<forall>c\<in>set n. printable c" "sh_mode s = MODE_LOGIN_USER" "sh_line s = []"
  obtains t where "feed_chars e (n @ [CHR 0x0A]) s = ret t" "sh_mode t = MODE_LOGIN_PASS" "sh_puser t = n" "sh_line t = []"
    "sh_users t = sh_users s"
proof
  let ?t = "show_login_prompt (((typed n s)\<lparr>sh_line := []\<rparr>)\<lparr>sh_puser := n, sh_mode := MODE_LOGIN_PASS\<rparr>)"
  show "feed_chars e (n @ [CHR 0x0A]) s = ret ?t"
    using assms by (simp add: feed_line handle_line_def line_login_user_def strcpy_buf_def)
qed simp_all

lemma password_line:
  assumes "\<forall>c\<in>set q. printable c" "length q \<le> 255" "sh_mode s = MODE_LOGIN_PASS" "sh_line s = []"
  shows "\<exists>t. feed_chars e (q @ [CHR 0x0A]) s = ret t \<and>
    (if verify (Some (sh_puser s)) q (sh_users s) then in_session (sh_mode t) \<and> current_name t = Some (sh_puser s)
     else sh_mode t = MODE_LOGIN_USER \<and> current_name t = current_name s)"
proof (cases "verify (Some (sh_puser s)) q (sh_users s)")
  case True
  then obtain i where i: "find_user (Some (sh_puser s)) (sh_users s) = Some i" by (auto simp: verify_def split: option.splits)
  with find_user_lookup [OF i] True assms show ?thesis
    by (auto simp: feed_line handle_line_def line_login_pass_def Let_def current_name_def set_current_def)
next
  case False
  with assms show ?thesis by (simp add: feed_line handle_line_def line_login_pass_def current_name_def)
qed

section \<open>An account survives the power\<close>

lemma creates:
  assumes inv: "shell_inv s" and m: "sh_mode s = MODE_SIGNUP_CONFIRM" and w: "e_wr e"
    and u: "shell_update e (CHR 0x0A) s = Some (Inr t)" and i: "in_session (sh_mode t)"
  shows "shell_inv t" "recorded (sh_users t)" "user_count (sh_users t) \<noteq> 0"
    "sh_puser s \<noteq> []" "verify (Some (sh_puser s)) q (sh_users t) \<longleftrightarrow> hash_password q = hash_password (sh_line s)"
proof -
  have t: "t = line_signup_confirm e (sh_line s) (s\<lparr>sh_line := []\<rparr>)" using u m by (simp add: shell_update_def handle_line_def)
  have ui: "users_inv (sh_users s)" and n: "length (sh_puser s) < 32" "user_count (sh_users s) = 0"
    using inv m by (simp_all add: shell_inv_def session_ok_def texts_ok_def)
  have "shell_inv (s\<lparr>sh_line := []\<rparr>)" using inv by (auto intro!: line_upd_inv)
  then show "shell_inv t" unfolding t by (rule signup_confirm_inv) (simp add: m)
  have p: "sh_ppass s = sh_line s" using t i by (auto simp: line_signup_confirm_def split: if_splits)
  obtain ok us where c: "create True (Some (sh_puser s)) (Some (sh_line s)) (sh_users s) = (ok, us)" by fastforce
  have ok using t i p c w by (auto simp: line_signup_confirm_def Let_def split: if_splits)
  then have c': "create True (Some (sh_puser s)) (Some (sh_line s)) (sh_users s) = (True, us)" using c by simp
  have ut: "sh_users t = set_current (find_user (Some (sh_puser s)) us) us"
    using t p c' w by (simp add: line_signup_confirm_def Let_def)
  from c' show "recorded (sh_users t)" "sh_puser s \<noteq> []"
    by (cases rule: create_cases; auto simp: ut recorded_def set_current_def save_to_disk_def)+
  obtain k where k: "find_user (Some (sh_puser s)) us = Some k" using create_find [OF ui c' n(1)] by blast
  show "user_count (sh_users t) \<noteq> 0"
    using find_user_lookup [OF k] by (auto simp: ut user_count_def set_current_def filter_empty_conv)
  from c' have "pass_hash (tab us ! k) = hash_password (sh_line s)"
  proof (cases rule: create_cases)
    case (yes n' p' i)
    have "\<not> uactive u" if "u \<in> set (tab (sh_users s))" for u
      using n(2) that by (simp add: user_count_def filter_empty_conv)
    then have "k = i" using find_user_lookup [OF k] yes(7) by (cases "k = i") auto
    then show ?thesis using find_user_lookup [OF k] yes(3,7) by simp
  qed simp
  with k show "verify (Some (sh_puser s)) q (sh_users t) \<longleftrightarrow> hash_password q = hash_password (sh_line s)"
    by (auto simp: ut verify_def find_user_key set_current_def)
qed

text \<open>C7: The account of a new machine survives the power: its owner confirms the password, the sector is written, and
  then whatever happens happens, writes of the sector that fail included. When the machine is
  switched off at any moment and started again with what the disk holds, it asks for a login, and the name with a
  password opens a session of this account if and only if the password has the hash of the confirmed one.
\<close>

theorem account_survives_power_cycle:
  assumes "shell_inv s" "sh_mode s = MODE_SIGNUP_CONFIRM"
    and "shell_update e (CHR 0x0A) s = Some (Inr s')" "e_wr e" "in_session (sh_mode s')"
    and "machine_step\<^sup>*\<^sup>* s' u"
    and "boot b z = Some (Inr t)" "b_sector b = saved (sh_users u)"
    and "\<forall>c\<in>set q. printable c" "length q \<le> 255"
  shows "sh_mode t = MODE_LOGIN_USER \<and>
    (\<exists>v. feed_chars e' (sh_puser s @ CHR 0x0A # q @ [CHR 0x0A]) t = ret v \<and>
      (if hash_password q = hash_password (sh_line s) then in_session (sh_mode v) \<and> current_name v = Some (sh_puser s)
       else sh_mode v = MODE_LOGIN_USER \<and> current_name v = None))"
proof -
  note c = creates [OF assms(1,2,4,3,5)] and bt = boot_login [OF assms(7)]
  have n: "length (sh_puser s) < 32" "\<forall>c\<in>set (sh_puser s). printable c"
    using assms(1) by (simp_all add: shell_inv_def texts_ok_def)
  from keep_run [OF c(1,3,2) assms(6)]
  have u: "recorded (sh_users u)" "users_inv (sh_users u)" "creds (tab (sh_users u)) = creds (tab (sh_users s'))"
    by (simp_all add: shell_inv_def session_ok_def)
  then have cr: "creds (tab (sh_users t)) = creds (tab (sh_users s'))" using recorded_load(1) bt(1) assms(8) by simp
  have m: "sh_mode t = MODE_LOGIN_USER" using bt(3) c(3) creds_count [OF cr] by simp
  have cu: "current_name t = None"
    by (simp add: bt(1) current_name_def users_init_def split: option.split)
  obtain w where w: "feed_chars e' (sh_puser s @ [CHR 0x0A]) t = ret w" "sh_mode w = MODE_LOGIN_PASS" "sh_puser w = sh_puser s"
      "sh_line w = []" "sh_users w = sh_users t"
    using name_line [OF c(4) n m bt(2)] by blast
  have "current_name w = None" using cu w(5) by (simp add: current_name_def)
  then obtain v where v: "feed_chars e' (q @ [CHR 0x0A]) w = ret v"
    "if hash_password q = hash_password (sh_line s) then in_session (sh_mode v) \<and> current_name v = Some (sh_puser s)
     else sh_mode v = MODE_LOGIN_USER \<and> current_name v = None"
    using password_line [OF assms(9,10) w(2,4), of e'] creds_verify [OF cr] c(5) w(3,5) by auto
  have "feed_chars e' (sh_puser s @ CHR 0x0A # q @ [CHR 0x0A]) t = ret v"
    using feed_chars_append [of e' "sh_puser s @ [CHR 0x0A]" "q @ [CHR 0x0A]" t] w(1) v(1) by simp
  with m v(2) show ?thesis by blast
qed

text \<open>Ann signs up, a task yields, the power fails, and she logs in.\<close>

definition confirm_demo :: sys where
  "confirm_demo = (sys_demo MODE_SIGNUP_CONFIRM users_demo fs_init)\<lparr>sh_puser := ''ann'', sh_ppass := ''abc'', sh_line := ''abc''\<rparr>"

lemma confirm_demo_inv: "shell_inv confirm_demo"
proof -
  have "user_count users_demo = 0"
    by (simp add: user_count_def users_demo_def users_init_def load_from_disk_def no_user_def)
  then show ?thesis
    using sys_demo_parts(1) [OF fs_init_inv, of MODE_SIGNUP_CONFIRM users_demo]
      sys_demo_parts(2,3) [of MODE_SIGNUP_CONFIRM users_demo fs_init] users_demo_inv(1)
    by (auto simp: confirm_demo_def sys_demo_def shell_inv_def parts_ok_def texts_ok_def masks_ok_def session_ok_def
        SHELL_BUFFER_SIZE_def printable_def between_def)
qed

theorem account_survives_power_cycle_witness:
  "\<exists>s' t v. shell_update (env_demo\<lparr>e_wr := True\<rparr>) (CHR 0x0A) confirm_demo = ret s' \<and>
     boot (bare_boot\<lparr>b_sector := saved (sh_users (snd (sched_yield_dispatch 7 s')))\<rparr>) loaded_demo = ret t \<and>
     feed_chars env_demo ''ann\<newline>abc\<newline>'' t = ret v \<and> in_session (sh_mode v) \<and> current_name v = Some ''ann''"
proof -
  let ?e = "env_demo\<lparr>e_wr := True\<rparr>"
  define s' where "s' = line_signup_confirm ?e ''abc'' (confirm_demo\<lparr>sh_line := []\<rparr>)"
  have d: "sh_mode confirm_demo = MODE_SIGNUP_CONFIRM" "sh_puser confirm_demo = ''ann''" "sh_ppass confirm_demo = ''abc''"
    "sh_line confirm_demo = ''abc''" "sh_users confirm_demo = users_demo" "pow confirm_demo = Running"
    by (simp_all add: confirm_demo_def sys_demo_def)
  have s: "shell_update ?e (CHR 0x0A) confirm_demo = ret s'" by (simp add: shell_update_def handle_line_def s'_def d)
  obtain us where "create True (Some ''ann'') (Some ''abc'') users_demo = (True, us)"
    by (simp add: create_def find_user_def users_demo_def users_init_def load_from_disk_def no_user_def MAX_USERS_def
        numeral_eq_Suc)
  then have m: "in_session (sh_mode s')" "pow s' = Running"
    by (simp_all add: s'_def line_signup_confirm_def Let_def d show_onboard_prompt_def)
  obtain t where t: "boot (bare_boot\<lparr>b_sector := saved (sh_users (snd (sched_yield_dispatch 7 s')))\<rparr>) loaded_demo = ret t"
    using bare_boots by blast
  have "machine_step\<^sup>*\<^sup>* s' (snd (sched_yield_dispatch 7 s'))" using step_yield [OF m(2)] by (rule r_into_rtranclp)
  from account_survives_power_cycle [OF confirm_demo_inv d(1) s _ m(1) this t, of "''abc''" env_demo]
  obtain v where "feed_chars env_demo ''ann\<newline>abc\<newline>'' t = ret v" "in_session (sh_mode v)"
    "current_name v = Some ''ann''" by (auto simp: d printable_def between_def)
  with s t show ?thesis by blast
qed

end
