(* ===== verification/Stubs.thy ===== *)
theory Stubs
  imports Interrupts Scheduler
begin

text \<open>
  The interrupt stubs of \<^verbatim>\<open>kernel/interrupts.asm\<close>, instruction by instruction, on the part of the processor they
  use: the sixteen general registers, \<^verbatim>\<open>rip\<close>, \<^verbatim>\<open>cs\<close>, \<^verbatim>\<open>ss\<close>, the flags, and memory as a function from the
  addresses of quadwords to their values. What \<^verbatim>\<open>add\<close> does to the arithmetic flags is left out: \<^verbatim>\<open>iretq\<close> loads all of
  them right after it. A jump to a common part is the common part written behind it. The C++ function that a stub calls is an
  argument, as is all that the calling convention leaves open: the registers it may spoil and
  the memory it writes. \<^verbatim>\<open>load_idt\<close> (one \<^verbatim>\<open>lidt\<close>) and \<^verbatim>\<open>context_switch\<close>, which nothing calls, are left out.
\<close>

section \<open>The processor\<close>

datatype reg = RAX | RBX | RCX | RDX | RSI | RDI | RBP | R8 | R9 | R10 | R11 | R12 | R13 | R14 | R15 | RSP

record cpu =
  gpr :: "reg \<Rightarrow> u64"
  c_rip :: u64
  c_cs :: u64
  c_rflags :: u64
  c_ss :: u64
  mem :: "u64 \<Rightarrow> u64"

datatype instr =
    Push reg
  | PushI u64
  | Pop reg
  | Mov reg reg
  | AddI reg u64
  | Cld
  | CallC
  | Iretq

definition push :: "u64 \<Rightarrow> cpu \<Rightarrow> cpu" where
  "push v c = c\<lparr>gpr := (gpr c)(RSP := gpr c RSP - 8), mem := (mem c)(gpr c RSP - 8 := v)\<rparr>"

definition set_reg :: "reg \<Rightarrow> u64 \<Rightarrow> cpu \<Rightarrow> cpu" where
  "set_reg r v c = c\<lparr>gpr := (gpr c)(r := v)\<rparr>"

definition iretq :: "cpu \<Rightarrow> cpu" where
  "iretq c =
     (let p = gpr c RSP; m = mem c
      in c\<lparr>c_rip := m p, c_cs := m (p + 8), c_rflags := m (p + 16), gpr := (gpr c)(RSP := m (p + 24)), c_ss := m (p + 32)\<rparr>)"

type_synonym 's callee = "cpu \<times> 's \<Rightarrow> (cpu \<times> 's) option"

fun exec1 :: "'s callee \<Rightarrow> instr \<Rightarrow> cpu \<times> 's \<Rightarrow> (cpu \<times> 's) option" where
  "exec1 f (Push r) (c, s) = Some (push (gpr c r) c, s)"
| "exec1 f (PushI v) (c, s) = Some (push v c, s)"
| "exec1 f (Pop r) (c, s) = Some (set_reg r (mem c (gpr c RSP)) (set_reg RSP (gpr c RSP + 8) c), s)"
| "exec1 f (Mov d r) (c, s) = Some (set_reg d (gpr c r) c, s)"
| "exec1 f (AddI r v) (c, s) = Some (set_reg r (gpr c r + v) c, s)"
| "exec1 f Cld (c, s) = Some (c\<lparr>c_rflags := c_rflags c AND NOT 0x400\<rparr>, s)"
| "exec1 f CallC x = f x"
| "exec1 f Iretq (c, s) = Some (iretq c, s)"

primrec exec :: "'s callee \<Rightarrow> instr list \<Rightarrow> cpu \<times> 's \<Rightarrow> (cpu \<times> 's) option" where
  "exec f [] x = Some x"
| "exec f (i # is) x = Option.bind (exec1 f i x) (exec f is)"

lemma exec_append: "exec f (xs @ ys) x = Option.bind (exec f xs x) (exec f ys)"
proof (induction xs arbitrary: x)
  case (Cons i xs)
  then show ?case by (cases "exec1 f i x") simp_all
qed simp

text \<open>
  The processor answers an interrupt through a gate: it aligns the stack pointer to sixteen bytes, pushes the state
  \<^verbatim>\<open>iretq\<close> restores and, for some exceptions, an error code, clears TF, IF, NT and RF and loads \<^verbatim>\<open>cs\<close> from the gate.
\<close>

definition interrupt :: "u64 option \<Rightarrow> cpu \<Rightarrow> cpu" where
  "interrupt err c =
     (let c' = push (c_rip c) (push (c_cs c) (push (c_rflags c) (push (gpr c RSP) (push (c_ss c)
                 (set_reg RSP (gpr c RSP AND NOT 0xF) c)))));
          c' = (case err of None \<Rightarrow> c' | Some e \<Rightarrow> push e c')
      in c'\<lparr>c_rflags := c_rflags c AND NOT 0x14300, c_cs := 0x28\<rparr>)"

section \<open>The stubs\<close>

definition save_regs :: "instr list" where
  "save_regs = map Push [RAX, RBX, RCX, RDX, RSI, RDI, RBP, R8, R9, R10, R11, R12, R13, R14, R15]"

definition restore_regs :: "instr list" where
  "restore_regs = map Pop [R15, R14, R13, R12, R11, R10, R9, R8, RBP, RDI, RSI, RDX, RCX, RBX, RAX]"

definition isr_common :: "instr list" where
  "isr_common = save_regs @ [Cld, Mov RDI RSP, CallC] @ restore_regs @ [AddI RSP 16, Iretq]"

definition irq_common :: "instr list" where
  "irq_common = save_regs @ [Cld, Mov RDI RSP, CallC, Mov RSP RAX] @ restore_regs @ [AddI RSP 16, Iretq]"

text \<open>The vectors with the macro \<^verbatim>\<open>ISR_ERRCODE\<close>: the processor has pushed an error code.\<close>

definition errcode_isrs :: "nat list" where
  "errcode_isrs = [8, 10, 11, 12, 13, 14, 17, 21, 29, 30]"

definition isr_stub :: "nat \<Rightarrow> instr list" where
  "isr_stub n = (if n \<in> set errcode_isrs then [PushI (of_nat n)] else [PushI 0, PushI (of_nat n)]) @ isr_common"

definition irq_stub :: "nat \<Rightarrow> instr list" where
  "irq_stub n = [PushI 0, PushI (of_nat (32 + n))] @ irq_common"

definition sched_yield_stub :: "instr list" where
  "sched_yield_stub = [PushI 0, PushI 0x80] @ save_regs @ [Cld, Mov RDI RSP, CallC, Mov RSP RAX] @ restore_regs @ [AddI RSP 16, Iretq]"

definition isr_stub_table :: "instr list list" where
  "isr_stub_table = map isr_stub [0..<32] @ map irq_stub [0..<16]"

section \<open>The frame\<close>

text \<open>\<^verbatim>\<open>struct InterruptFrame\<close> at an address: packed quadwords in the order of \<^verbatim>\<open>idt.h\<close>.\<close>

definition frame_at :: "(u64 \<Rightarrow> u64) \<Rightarrow> u64 \<Rightarrow> intr_frame" where
  "frame_at m p =
     \<lparr>f_r15 = m p, f_r14 = m (p + 8), f_r13 = m (p + 16), f_r12 = m (p + 24), f_r11 = m (p + 32), f_r10 = m (p + 40),
      f_r9 = m (p + 48), f_r8 = m (p + 56), f_rbp = m (p + 64), f_rdi = m (p + 72), f_rsi = m (p + 80), f_rdx = m (p + 88),
      f_rcx = m (p + 96), f_rbx = m (p + 104), f_rax = m (p + 112), int_no = m (p + 120), error_code = m (p + 128),
      f_rip = m (p + 136), f_cs = m (p + 144), f_rflags = m (p + 152), f_rsp = m (p + 160), f_ss = m (p + 168)\<rparr>"

text \<open>A called C++ function: it sees the frame its argument points to, its result comes back in \<^verbatim>\<open>rax\<close>, the
  callee-saved registers and the stack pointer are as before. \<open>cl\<close> are the values of the other
  registers and flags afterwards, \<open>scr\<close> the memory it writes.\<close>

definition c_call :: "(u64 \<Rightarrow> intr_frame \<Rightarrow> 's \<Rightarrow> (u64 \<times> 's) option) \<Rightarrow> (reg \<Rightarrow> u64) \<Rightarrow> u64 \<Rightarrow> (u64 \<Rightarrow> u64 option) \<Rightarrow> 's callee" where
  "c_call d cl fl scr = (\<lambda>(c, s).
     map_option (\<lambda>(r, s').
       (c\<lparr>gpr := (\<lambda>x. if x = RAX then r else if x \<in> {RBX, RBP, R12, R13, R14, R15, RSP} then gpr c x else cl x),
          c_rflags := fl, mem := (\<lambda>a. case scr a of None \<Rightarrow> mem c a | Some v \<Rightarrow> v)\<rparr>, s'))
       (d (gpr c RDI) (frame_at (mem c) (gpr c RDI)) s))"

text \<open>The registers of a task, which is what an interrupt has to keep, and what a frame says of them.\<close>

record ctx =
  x_gpr :: "reg \<Rightarrow> u64"
  x_rip :: u64
  x_cs :: u64
  x_rflags :: u64
  x_ss :: u64

definition ctx_of :: "cpu \<Rightarrow> ctx" where
  "ctx_of c = \<lparr>x_gpr = gpr c, x_rip = c_rip c, x_cs = c_cs c, x_rflags = c_rflags c, x_ss = c_ss c\<rparr>"

definition ctx_of_frame :: "intr_frame \<Rightarrow> ctx" where
  "ctx_of_frame f =
     \<lparr>x_gpr = (\<lambda>r. case r of RAX \<Rightarrow> f_rax f | RBX \<Rightarrow> f_rbx f | RCX \<Rightarrow> f_rcx f | RDX \<Rightarrow> f_rdx f | RSI \<Rightarrow> f_rsi f
                  | RDI \<Rightarrow> f_rdi f | RBP \<Rightarrow> f_rbp f | R8 \<Rightarrow> f_r8 f | R9 \<Rightarrow> f_r9 f | R10 \<Rightarrow> f_r10 f | R11 \<Rightarrow> f_r11 f
                  | R12 \<Rightarrow> f_r12 f | R13 \<Rightarrow> f_r13 f | R14 \<Rightarrow> f_r14 f | R15 \<Rightarrow> f_r15 f | RSP \<Rightarrow> f_rsp f),
      x_rip = f_rip f, x_cs = f_cs f, x_rflags = f_rflags f, x_ss = f_ss f\<rparr>"

text \<open>Where the frame of an interrupted task lies.\<close>

definition frame_ptr :: "cpu \<Rightarrow> u64" where
  "frame_ptr c = (gpr c RSP AND NOT 0xF) - 176"

definition frame_addrs :: "u64 \<Rightarrow> u64 set" where
  "frame_addrs p = set (map (\<lambda>i. p + 8 * of_nat i) [0..<22])"

section \<open>What the stubs do\<close>

text \<open>The frame that belongs to an interrupted state.\<close>

definition frame_for :: "cpu \<Rightarrow> u64 \<Rightarrow> u64 \<Rightarrow> intr_frame" where
  "frame_for c err v =
     \<lparr>f_r15 = gpr c R15, f_r14 = gpr c R14, f_r13 = gpr c R13, f_r12 = gpr c R12, f_r11 = gpr c R11, f_r10 = gpr c R10,
      f_r9 = gpr c R9, f_r8 = gpr c R8, f_rbp = gpr c RBP, f_rdi = gpr c RDI, f_rsi = gpr c RSI, f_rdx = gpr c RDX,
      f_rcx = gpr c RCX, f_rbx = gpr c RBX, f_rax = gpr c RAX, int_no = v, error_code = err,
      f_rip = c_rip c, f_cs = c_cs c, f_rflags = c_rflags c, f_rsp = gpr c RSP, f_ss = c_ss c\<rparr>"

lemma ctx_frame_for: "ctx_of_frame (frame_for c err v) = ctx_of c"
  by (auto simp: ctx_of_frame_def frame_for_def ctx_of_def split: reg.split)

lemma frame_addrs_list:
  "frame_addrs p = set [p, p + 8, p + 16, p + 24, p + 32, p + 40, p + 48, p + 56, p + 64, p + 72, p + 80, p + 88, p + 96,
     p + 104, p + 112, p + 120, p + 128, p + 136, p + 144, p + 152, p + 160, p + 168]"
proof -
  have "[0..<22] = [0, 1, 2, 3, 4, 5, 6, 7, 8, 9, 10, 11, 12, 13, 14, 15, 16, 17, 18, 19, 20, 21 :: nat]" by code_simp
  then show ?thesis by (simp only: frame_addrs_def list.map) simp
qed

lemma frame_at_cong: "(\<And>a. a \<in> frame_addrs p \<Longrightarrow> m' a = m a) \<Longrightarrow> frame_at m' p = frame_at m p"
  by (simp add: frame_at_def frame_addrs_list)

lemma entry_spec:
  obtains c' where "exec f ([PushI err, PushI v] @ save_regs @ [Cld, Mov RDI RSP]) (interrupt None c, s) = Some (c', s)"
    "gpr c' RSP = frame_ptr c" "gpr c' RDI = frame_ptr c"
    "frame_at (mem c') (frame_ptr c) = frame_for c err v"
    "\<And>a. a \<notin> frame_addrs (frame_ptr c) \<Longrightarrow> mem c' a = mem c a"
proof -
  define q where "q = gpr c RSP AND - 16"
  then have q: "gpr c RSP AND - 16 = q" "frame_ptr c = q - 176" by (simp_all add: frame_ptr_def)
  show ?thesis
    apply (rule that)
    apply (simp add: interrupt_def Let_def save_regs_def push_def set_reg_def q(1))
    apply (simp_all add: q(2))
     apply (simp add: frame_at_def frame_for_def)
    apply (simp add: frame_addrs_list)
    done
qed

lemma restore_spec:
  assumes "gpr c RSP = p"
  shows "\<exists>c'. exec f (restore_regs @ [AddI RSP 16, Iretq]) (c, s) = Some (c', s) \<and>
     ctx_of c' = ctx_of_frame (frame_at (mem c) p) \<and> mem c' = mem c"
  using assms
  apply (simp add: restore_regs_def set_reg_def iretq_def Let_def add.assoc)
  apply (simp add: ctx_of_def ctx_of_frame_def frame_at_def fun_eq_iff split: reg.split)
  done

text \<open>From the interrupt to the C++ function and back, for the stubs of the interrupt lines and of \<^verbatim>\<open>int 0x80\<close>.\<close>

lemma stub_lines: "irq_stub n = [PushI 0, PushI (of_nat (32 + n))] @ irq_common" "sched_yield_stub = [PushI 0, PushI 0x80] @ irq_common"
  by (simp_all add: irq_stub_def sched_yield_stub_def irq_common_def)

lemma irq_stuck:
  assumes "d (frame_ptr c) (frame_for c 0 v) s = None"
  shows "exec (c_call d cl fl scr) ([PushI 0, PushI v] @ irq_common) (interrupt None c, s) = None"
proof -
  obtain c1 where "exec (c_call d cl fl scr) ([PushI 0, PushI v] @ save_regs @ [Cld, Mov RDI RSP]) (interrupt None c, s) = Some (c1, s)"
    "gpr c1 RDI = frame_ptr c" "frame_at (mem c1) (frame_ptr c) = frame_for c 0 v"
    using entry_spec [where f = "c_call d cl fl scr" and err = 0 and v = v and c = c and s = s] by metis
  then show ?thesis
    using assms exec_append [of "c_call d cl fl scr" "[PushI 0, PushI v] @ save_regs @ [Cld, Mov RDI RSP]"
        "[CallC, Mov RSP RAX] @ restore_regs @ [AddI RSP 16, Iretq]" "(interrupt None c, s)"]
    by (simp add: irq_common_def c_call_def)
qed

lemma irq_run:
  assumes d: "d (frame_ptr c) (frame_for c 0 v) s = Some (r, s')"
  obtains c' where "exec (c_call d cl fl scr) ([PushI 0, PushI v] @ irq_common) (interrupt None c, s) = Some (c', s')"
    "ctx_of c' = ctx_of_frame (frame_at (mem c') r)"
    "dom scr \<inter> frame_addrs (frame_ptr c) = {} \<Longrightarrow> frame_at (mem c') (frame_ptr c) = frame_for c 0 v"
    "\<And>a. a \<notin> frame_addrs (frame_ptr c) \<Longrightarrow> mem c' a = (case scr a of None \<Rightarrow> mem c a | Some v \<Rightarrow> v)"
proof -
  let ?f = "c_call d cl fl scr"
  obtain c1 where c1: "exec ?f ([PushI 0, PushI v] @ save_regs @ [Cld, Mov RDI RSP]) (interrupt None c, s) = Some (c1, s)"
    "gpr c1 RSP = frame_ptr c" "gpr c1 RDI = frame_ptr c" "frame_at (mem c1) (frame_ptr c) = frame_for c 0 v"
    "\<And>a. a \<notin> frame_addrs (frame_ptr c) \<Longrightarrow> mem c1 a = mem c a"
    using entry_spec [where f = ?f and err = 0 and v = v and c = c and s = s] by metis
  obtain c2 where c2: "?f (c1, s) = Some (c2, s')" "gpr c2 RAX = r"
    "mem c2 = (\<lambda>a. case scr a of None \<Rightarrow> mem c1 a | Some v \<Rightarrow> v)"
    using d by (simp add: c_call_def c1(3,4))
  obtain c3 where c3: "exec ?f (restore_regs @ [AddI RSP 16, Iretq]) (set_reg RSP r c2, s') = Some (c3, s')"
    "ctx_of c3 = ctx_of_frame (frame_at (mem c2) r)" "mem c3 = mem c2"
    using restore_spec [of "set_reg RSP r c2" r ?f s'] by (auto simp: set_reg_def)
  have m: "mem c3 a = mem c1 a" if "a \<notin> dom scr" for a using that by (auto simp: c3(3) c2(3) split: option.split)
  show ?thesis
  proof (rule that)
    show "exec ?f ([PushI 0, PushI v] @ irq_common) (interrupt None c, s) = Some (c3, s')"
      using exec_append [of ?f "[PushI 0, PushI v] @ save_regs @ [Cld, Mov RDI RSP]"
          "[CallC, Mov RSP RAX] @ restore_regs @ [AddI RSP 16, Iretq]" "(interrupt None c, s)"] c1(1) c2(1,2) c3(1)
      by (simp add: irq_common_def)
    show "ctx_of c3 = ctx_of_frame (frame_at (mem c3) r)" by (simp add: c3(2,3))
    show "frame_at (mem c3) (frame_ptr c) = frame_for c 0 v" if "dom scr \<inter> frame_addrs (frame_ptr c) = {}"
      using c1(4) m that by (metis (no_types, lifting) disjoint_iff frame_at_cong)
    show "mem c3 a = (case scr a of None \<Rightarrow> mem c a | Some v \<Rightarrow> v)" if "a \<notin> frame_addrs (frame_ptr c)" for a
      using c1(5) [OF that] by (simp add: c3(3) c2(3) split: option.split)
  qed
qed

text \<open>For an exception with an error code the processor pushes what the other stubs push.\<close>

lemma interrupt_err: "exec f [PushI e] (interrupt None c, s) = Some (interrupt (Some e) c, s)"
  by (simp add: interrupt_def Let_def push_def)

lemma isr_run:
  assumes "d (frame_ptr c) (frame_for c err v) s = Some (r, s')" "dom scr \<inter> frame_addrs (frame_ptr c) = {}"
  obtains c' where "exec (c_call d cl fl scr) ([PushI err, PushI v] @ isr_common) (interrupt None c, s) = Some (c', s')"
    "ctx_of c' = ctx_of c"
proof -
  let ?f = "c_call d cl fl scr"
  obtain c1 where c1: "exec ?f ([PushI err, PushI v] @ save_regs @ [Cld, Mov RDI RSP]) (interrupt None c, s) = Some (c1, s)"
    "gpr c1 RSP = frame_ptr c" "gpr c1 RDI = frame_ptr c" "frame_at (mem c1) (frame_ptr c) = frame_for c err v"
    using entry_spec [where f = ?f and err = err and v = v and c = c and s = s] by metis
  obtain c2 where c2: "?f (c1, s) = Some (c2, s')" "gpr c2 RSP = frame_ptr c"
    "mem c2 = (\<lambda>a. case scr a of None \<Rightarrow> mem c1 a | Some v \<Rightarrow> v)"
    using assms(1) by (simp add: c_call_def c1)
  have "frame_at (mem c2) (frame_ptr c) = frame_for c err v"
    using c1(4) assms(2) by (subst c1(4) [symmetric], intro frame_at_cong) (auto simp: c2(3) split: option.split)
  then obtain c3 where "exec ?f (restore_regs @ [AddI RSP 16, Iretq]) (c2, s') = Some (c3, s')" "ctx_of c3 = ctx_of c"
    using restore_spec [OF c2(2), of ?f s'] by (auto simp: ctx_frame_for)
  then show ?thesis
    using that exec_append [of ?f "[PushI err, PushI v] @ save_regs @ [Cld, Mov RDI RSP]"
        "[CallC] @ restore_regs @ [AddI RSP 16, Iretq]" "(interrupt None c, s)"] c1(1) c2(1)
    by (simp add: isr_common_def)
qed

section \<open>Exceptions\<close>

text \<open>What \<^verbatim>\<open>isr_dispatch\<close> prints, collected. It ends in \<^verbatim>\<open>cli; hlt\<close>, from which only a non-maskable interrupt leads on.\<close>

definition isr_callee :: "u64 \<Rightarrow> u64 \<Rightarrow> intr_frame \<Rightarrow> string list \<times> irqs \<Rightarrow> (u64 \<times> string list \<times> irqs) option" where
  "isr_callee cr2 p f = (\<lambda>(out, q). let (xs, q') = isr_dispatch cr2 f q in Some (0, out @ xs, q'))"

text \<open>The exceptions for which the processor pushes an error code, by its manual.\<close>

definition pushes_error :: "nat \<Rightarrow> bool" where
  "pushes_error n \<longleftrightarrow> n = 8 \<or> 10 \<le> n \<and> n \<le> 14 \<or> n = 17 \<or> n = 21 \<or> n = 29 \<or> n = 30"

text \<open>C34: A crash report is true: the stub of every exception, on a processor that pushes an error code where its manual
  says so, prints the vector, the error code and all registers as they were at the fault, and should the machine
  go on after the report, it goes on with exactly these registers.
\<close>

theorem exception_report_true:
  assumes "n < 32" "err = (if pushes_error n then Some e else None)" "dom scr \<inter> frame_addrs (frame_ptr c) = {}"
  shows "\<exists>c'. exec (c_call (isr_callee cr2) cl fl scr) (isr_stub_table ! n) (interrupt err c, (out, q)) =
      Some (c', (out @ isr_report cr2 (frame_for c (if pushes_error n then e else 0) (of_nat n)),
                 q\<lparr>total_exceptions := total_exceptions q + 1\<rparr>)) \<and>
    ctx_of c' = ctx_of c"
proof -
  let ?e = "if pushes_error n then e else 0" and ?f = "c_call (isr_callee cr2) cl fl scr"
  let ?s' = "(out @ isr_report cr2 (frame_for c ?e (of_nat n)), q\<lparr>total_exceptions := total_exceptions q + 1\<rparr>)"
  have st: "isr_stub_table ! n = (if pushes_error n then [PushI (of_nat n)] else [PushI 0, PushI (of_nat n)]) @ isr_common"
    using assms(1) by (auto simp: isr_stub_table_def nth_append isr_stub_def errcode_isrs_def pushes_error_def)
  have "isr_callee cr2 (frame_ptr c) (frame_for c ?e (of_nat n)) (out, q) = Some (0, ?s')"
    by (simp add: isr_callee_def isr_dispatch_def)
  from isr_run [where d = "isr_callee cr2", OF this assms(3)] obtain c' where
    c': "exec ?f ([PushI ?e, PushI (of_nat n)] @ isr_common) (interrupt None c, (out, q)) = Some (c', ?s')" "ctx_of c' = ctx_of c"
    by metis
  moreover have "exec ?f (isr_stub_table ! n) (interrupt err c, (out, q)) =
      exec ?f ([PushI ?e, PushI (of_nat n)] @ isr_common) (interrupt None c, (out, q))"
    using exec_append [of ?f "[PushI e]" "[PushI (of_nat n)] @ isr_common" "(interrupt None c, (out, q))"]
      interrupt_err [of ?f e c "(out, q)"] by (simp add: st assms(2))
  ultimately show ?thesis by auto
qed

definition cpu_demo :: cpu where
  "cpu_demo = \<lparr>gpr = (\<lambda>r. if r = RSP then 0x8000 else 7), c_rip = 0x1234, c_cs = 0x28, c_rflags = 0x202, c_ss = 0x30,
     mem = (\<lambda>a. if a = 0x10BF50 + 160 then 0x10C000 else 0)\<rparr>"

theorem exception_report_true_witness:
  "\<exists>c'. exec (c_call (isr_callee 0xDEAD) (\<lambda>_. 0) 0 Map.empty) (isr_stub_table ! 14) (interrupt (Some 2) cpu_demo, ([], irqs_boot)) =
     Some (c', isr_report 0xDEAD (frame_for cpu_demo 2 14), irqs_boot\<lparr>total_exceptions := 1\<rparr>) \<and> ctx_of c' = ctx_of cpu_demo"
  using exception_report_true [of 14 "Some 2" 2 Map.empty cpu_demo "0xDEAD" "\<lambda>_. 0" 0 "[]" irqs_boot]
  by (simp add: pushes_error_def) (simp add: irqs_boot_def)

end
