(* ===== verification/VirtualCpu.thy ===== *)
theory VirtualCpu
  imports Stubs Kernel
begin

text \<open>
  What the scheduler of \<open>Scheduler\<close> and the stubs of \<open>Stubs\<close> do together: every task has a processor of its own.
  A state is the processor with its memory and the scheduler's table. The step relation lets the current task run
  any code, the timer interrupt it anywhere, and the kernel yield, create and end tasks. What it takes for granted
  is that no one writes into the saved frames of the other tasks, that is, no stack overflows.
\<close>

section \<open>Handing over the processor\<close>

text \<open>Whom a scheduling decision changes: the processor goes to a live task, at the stack pointer that task was suspended with,
  and that of the old one is kept.\<close>

definition hands_over :: "u64 \<Rightarrow> sched \<Rightarrow> u64 \<Rightarrow> sched \<Rightarrow> bool" where
  "hands_over sp s r s' \<longleftrightarrow>
     sched_inv s' \<and>
     (\<forall>j<MAX_TASKS. alive (tasks s' ! j) = alive (tasks s ! j)) \<and>
     (\<forall>j<MAX_TASKS. j \<noteq> cur s \<longrightarrow> rsp (tasks s' ! j) = rsp (tasks s ! j)) \<and>
     (if cur s' = cur s then r = sp
      else r = rsp (tasks s ! cur s') \<and> rsp (tasks s' ! cur s) = sp \<and> alive (tasks s ! cur s'))"

lemma do_schedule_hands:
  assumes inv: "sched_inv s" and d: "do_schedule sp s = (r, s')"
  shows "hands_over sp s r s'"
proof -
  note ds = do_schedule_spec [OF inv d]
  have n: "tstate (tasks (save_current sp s) ! cur s') = TASK_READY"
    using pick_next_cases [of "save_current sp s"] save_current_spec(3,10) [OF inv, of sp] ds(2) by (metis (full_types))
  have "alive (tasks s' ! j) = alive (tasks s ! j)" if j: "j < MAX_TASKS" for j
  proof (cases "j = cur s'")
    case True
    then show ?thesis
      using ds(3) n save_current_spec(6) [OF inv, of sp] save_current_spec(7) [OF inv, of j sp]
      by (cases "j = cur s") (auto split: if_splits)
  next
    case False
    then show ?thesis
      using ds(8) [OF False] save_current_spec(6) [OF inv, of sp] save_current_spec(7) [OF inv, of j sp]
      by (cases "j = cur s") auto
  qed
  moreover have "alive (tasks s ! cur s')" if "cur s' \<noteq> cur s"
    using n save_current_spec(7) [OF inv, of "cur s'" sp] that by simp
  ultimately show ?thesis using ds(1,5,6,7) by (simp add: hands_over_def)
qed

lemma hands_over_same:
  assumes "hands_over sp s2 r s'" "cur s2 = cur s" "\<And>j. j < MAX_TASKS \<Longrightarrow> alive (tasks s2 ! j) = alive (tasks s ! j)"
    "\<And>j. j < MAX_TASKS \<Longrightarrow> rsp (tasks s2 ! j) = rsp (tasks s ! j)"
  shows "hands_over sp s r s'"
proof -
  have "cur s' < MAX_TASKS" using assms(1) by (simp add: hands_over_def sched_inv_def)
  with assms show ?thesis by (auto simp: hands_over_def split: if_splits)
qed

lemma timer_tick_hands:
  assumes inv: "sched_inv s" and d: "timer_tick now sp s = (r, s')"
  shows "hands_over sp s r s'"
proof -
  define s1 where "s1 = s\<lparr>tasks := reap (cur s) (map (wake now) (tasks s))\<rparr>"
  have l: "length (tasks s) = MAX_TASKS" "cur s < MAX_TASKS" using inv by (simp_all add: sched_inv_def)
  have i1: "sched_inv s1" unfolding s1_def using inv by (rule tick_prelude_inv)
  have k1: "alive (tasks s1 ! j) = alive (tasks s ! j)" "rsp (tasks s1 ! j) = rsp (tasks s ! j)" if "j < MAX_TASKS" for j
    using that l by (auto simp: s1_def nth_reap wake_def)
  define s2 where "s2 = set_task (cur s1) ((tasks s1 ! cur s1)\<lparr>ticks_used := ticks_used (tasks s1 ! cur s1) + 1\<rparr>) s1"
  have id1: "tstate (tasks s1 ! 1) \<in> {TASK_READY, TASK_RUNNING}" using i1 by (simp add: sched_inv_def)
  have i2: "sched_inv s2" unfolding s2_def using id1 by (intro set_task_inv i1) auto
  have id2: "tstate (tasks s2 ! 1) \<in> {TASK_READY, TASK_RUNNING}" using i2 by (simp add: sched_inv_def)
  define s3 where "s3 = set_task (cur s2) ((tasks s2 ! cur s2)\<lparr>slice := slice (tasks s2 ! cur s2) - 1\<rparr>) s2"
  have i3: "sched_inv s3" unfolding s3_def using id2 by (intro set_task_inv i2) auto
  have k: "alive (tasks s2 ! j) = alive (tasks s ! j)" "alive (tasks s3 ! j) = alive (tasks s ! j)"
    "rsp (tasks s2 ! j) = rsp (tasks s ! j)" "rsp (tasks s3 ! j) = rsp (tasks s ! j)" if "j < MAX_TASKS" for j
    using k1 [OF that] that i1 i2 by (auto simp: s2_def s3_def sched_inv_def nth_list_update)
  have c: "cur s2 = cur s" "cur s3 = cur s" by (simp_all add: s1_def s2_def s3_def)
  have "inited s" using inv by (simp add: sched_inv_def)
  then have t: "timer_tick now sp s = (if tstate (tasks s2 ! cur s2) \<noteq> TASK_RUNNING then do_schedule sp s2
       else if slice (tasks s3 ! cur s3) > 0 then (sp, s3) else do_schedule sp s3)"
    unfolding timer_tick_def Let_def s1_def [symmetric] s2_def [symmetric] s3_def [symmetric] by simp
  have stay: "hands_over sp s sp s3" using i3 c k by (simp add: hands_over_def)
  have hand: "hands_over sp s r s'" if "do_schedule sp s2 = (r, s') \<or> do_schedule sp s3 = (r, s')"
    using that
  proof
    assume "do_schedule sp s2 = (r, s')"
    from do_schedule_hands [OF i2 this] c(1) k(1,3) show ?thesis by (rule hands_over_same)
  next
    assume "do_schedule sp s3 = (r, s')"
    from do_schedule_hands [OF i3 this] c(2) k(2,4) show ?thesis by (rule hands_over_same)
  qed
  from t d stay hand show ?thesis by (auto split: if_splits)
qed

lemma yield_hands: "sched_inv s \<Longrightarrow> sched_yield sp s = (r, s') \<Longrightarrow> hands_over sp s r s'"
  by (simp add: sched_yield_def sched_inv_def do_schedule_hands)

section \<open>The processor with the scheduler\<close>

text \<open>The frame \<^verbatim>\<open>create_task\<close> builds, in memory; \<open>w\<close> is the address of \<^verbatim>\<open>task_entry_wrapper\<close>.\<close>

definition iframe_words :: "u64 \<Rightarrow> iframe \<Rightarrow> intr_frame" where
  "iframe_words w fr =
     (let g = gp fr
      in \<lparr>f_r15 = g ! 0, f_r14 = g ! 1, f_r13 = g ! 2, f_r12 = g ! 3, f_r11 = g ! 4, f_r10 = g ! 5, f_r9 = g ! 6, f_r8 = g ! 7,
          f_rbp = g ! 8, f_rdi = g ! 9, f_rsi = g ! 10, f_rdx = g ! 11, f_rcx = g ! 12, f_rbx = g ! 13, f_rax = g ! 14,
          int_no = g ! 15, error_code = g ! 16,
          f_rip = (case rip fr of Task_entry_wrapper \<Rightarrow> w | No_code \<Rightarrow> 0), f_cs = cs fr, f_rflags = rflags fr,
          f_rsp = frsp fr, f_ss = ss fr\<rparr>)"

type_synonym vstate = "cpu \<times> sched"

definition saved_at :: "vstate \<Rightarrow> nat \<Rightarrow> u64 set" where
  "saved_at x i = frame_addrs (rsp (tasks (snd x) ! i))"

text \<open>The tasks whose registers are in memory.\<close>

definition suspended :: "sched \<Rightarrow> nat set" where
  "suspended s = {i. i < MAX_TASKS \<and> i \<noteq> cur s \<and> alive (tasks s ! i)}"

definition keeps_frames :: "sched \<Rightarrow> cpu \<Rightarrow> cpu \<Rightarrow> bool" where
  "keeps_frames s c c' \<longleftrightarrow> (\<forall>i\<in>suspended s. \<forall>a\<in>frame_addrs (rsp (tasks s ! i)). mem c' a = mem c a)"

text \<open>The frame of an interrupt and what the called function writes are apart from the saved frames, and from each other.\<close>

definition stack_room :: "sched \<Rightarrow> cpu \<Rightarrow> (u64 \<Rightarrow> u64 option) \<Rightarrow> bool" where
  "stack_room s c scr \<longleftrightarrow> dom scr \<inter> frame_addrs (frame_ptr c) = {} \<and>
     (\<forall>i\<in>suspended s. (dom scr \<union> frame_addrs (frame_ptr c)) \<inter> frame_addrs (rsp (tasks s ! i)) = {})"

definition tick_callee :: "u64 \<Rightarrow> u64 \<Rightarrow> intr_frame \<Rightarrow> sched \<Rightarrow> (u64 \<times> sched) option" where
  "tick_callee now p f s = Some (timer_tick now p s)"

definition yield_callee :: "u64 \<Rightarrow> intr_frame \<Rightarrow> sched \<Rightarrow> (u64 \<times> sched) option" where
  "yield_callee p f s = Some (sched_yield p s)"

text \<open>The first halves of \<^verbatim>\<open>sleep_ms\<close> and of the end of a task function, before \<^verbatim>\<open>int 0x80\<close>.\<close>

definition mark_sleeping :: "u64 \<Rightarrow> u32 \<Rightarrow> sched \<Rightarrow> sched" where
  "mark_sleeping now ms s = set_task (cur s) ((tasks s ! cur s)\<lparr>wake_at := now + ucast ms, tstate := TASK_SLEEPING\<rparr>) s"

definition mark_dead :: "sched \<Rightarrow> sched" where
  "mark_dead s = (set_task (cur s) ((tasks s ! cur s)\<lparr>tstate := TASK_DEAD\<rparr>) s)\<lparr>task_count := task_count s - 1\<rparr>"

inductive vcpu_step :: "u64 \<Rightarrow> vstate \<Rightarrow> vstate \<Rightarrow> bool" for w :: u64 where
  v_run: "keeps_frames s c c' \<Longrightarrow> vcpu_step w (c, s) (c', s)"
| v_tick: "exec (c_call (tick_callee now) cl fl scr) (irq_stub 0) (interrupt None c, s) = Some (c', s') \<Longrightarrow> stack_room s c scr \<Longrightarrow>
    vcpu_step w (c, s) (c', s')"
| v_yield: "exec (c_call yield_callee cl fl scr) sched_yield_stub (interrupt None c, s) = Some (c', s') \<Longrightarrow> stack_room s c scr \<Longrightarrow>
    vcpu_step w (c, s) (c', s')"
| v_create: "create_task name ent s = (int i, s') \<Longrightarrow> ent \<noteq> 0 \<Longrightarrow> i \<noteq> cur s \<Longrightarrow> ctx_of c' = ctx_of c \<Longrightarrow> keeps_frames s c c' \<Longrightarrow>
    frame_at (mem c') (rsp (tasks s' ! i)) = iframe_words w (frames s' (rsp (tasks s' ! i))) \<Longrightarrow> vcpu_step w (c, s) (c', s')"
| v_kill: "kill_task i s = (True, s') \<Longrightarrow> alive (tasks s ! i) \<Longrightarrow> vcpu_step w (c, s) (c, s')"
| v_sleep: "cur s \<noteq> idle_id s \<Longrightarrow> tstate (tasks s ! cur s) = TASK_RUNNING \<Longrightarrow> vcpu_step w (c, s) (c, mark_sleeping now ms s)"
| v_exit: "cur s \<noteq> idle_id s \<Longrightarrow> cur s \<noteq> 0 \<Longrightarrow> tstate (tasks s ! cur s) = TASK_RUNNING \<Longrightarrow> vcpu_step w (c, s) (c, mark_dead s)"

inductive_cases vcpu_stepE: "vcpu_step w x y"

text \<open>A new task never takes the slot of the running one, which can be free only between a kill of the
  running task and the next tick; what would happen there is \<open>respawn_goes_on\<close> below.\<close>


section \<open>Processors of their own\<close>

text \<open>A machine with a processor for every task: it runs one of them, and starts and stops others.\<close>

type_synonym vmachine = "nat \<times> (nat \<Rightarrow> ctx option)"

definition start_ctx :: "u64 \<Rightarrow> u64 \<Rightarrow> ctx" where
  "start_ctx w sp = \<lparr>x_gpr = (\<lambda>r. if r = RSP then sp else 0), x_rip = w, x_cs = 0x28, x_rflags = 0x202, x_ss = 0x30\<rparr>"


inductive vm_step :: "u64 \<Rightarrow> vmachine \<Rightarrow> vmachine \<Rightarrow> bool" for w :: u64 where
  vm_run: "v k = Some x \<Longrightarrow> vm_step w (k, v) (k, v(k := Some y))"
| vm_switch: "v k' = Some x \<Longrightarrow> vm_step w (k, v) (k', v)"
| vm_create: "v i = None \<Longrightarrow> vm_step w (k, v) (k, v(i := Some (start_ctx w sp)))"
| vm_end: "vm_step w (k, v) (k, v(i := None))"

inductive_cases vm_stepE: "vm_step w p q"

definition ctx_in :: "vstate \<Rightarrow> nat \<Rightarrow> ctx" where
  "ctx_in x i = (if i = cur (snd x) then ctx_of (fst x) else ctx_of_frame (frame_at (mem (fst x)) (rsp (tasks (snd x) ! i))))"

definition vm_of :: "vstate \<Rightarrow> vmachine" where
  "vm_of x = (cur (snd x), \<lambda>i. if i < MAX_TASKS \<and> alive (tasks (snd x) ! i) then Some (ctx_in x i) else None)"

section \<open>The steps keep the registers of every task\<close>

lemma keeps_ctx:
  assumes "keeps_frames s c c'" "i \<in> suspended s"
  shows "frame_at (mem c') (rsp (tasks s ! i)) = frame_at (mem c) (rsp (tasks s ! i))"
  using assms by (intro frame_at_cong) (auto simp: keeps_frames_def)

lemma switch_ctx:
  assumes inv: "sched_inv s"
    and d: "d (frame_ptr c) (frame_for c 0 v) s = Some (r, s')" and h: "hands_over (frame_ptr c) s r s'"
    and e: "exec (c_call d cl fl scr) ([PushI 0, PushI v] @ irq_common) (interrupt None c, s) = Some (c', t)"
    and room: "stack_room s c scr"
  shows "t = s'" "i < MAX_TASKS \<Longrightarrow> alive (tasks s ! i) \<Longrightarrow> ctx_in (c', t) i = ctx_in (c, s) i"
proof -
  obtain c2 where c2: "exec (c_call d cl fl scr) ([PushI 0, PushI v] @ irq_common) (interrupt None c, s) = Some (c2, s')"
    "ctx_of c2 = ctx_of_frame (frame_at (mem c2) r)"
    "dom scr \<inter> frame_addrs (frame_ptr c) = {} \<Longrightarrow> frame_at (mem c2) (frame_ptr c) = frame_for c 0 v"
    "\<And>a. a \<notin> frame_addrs (frame_ptr c) \<Longrightarrow> mem c2 a = (case scr a of None \<Rightarrow> mem c a | Some v \<Rightarrow> v)"
    using irq_run [of d c v s r s' cl fl scr, OF d] by metis
  with e have eq: "c2 = c'" "t = s'" by simp_all
  then show "t = s'" by simp
  have own: "ctx_of_frame (frame_at (mem c') (frame_ptr c)) = ctx_of c"
    using c2(3) room by (simp add: eq stack_room_def ctx_frame_for)
  have other: "frame_at (mem c') (rsp (tasks s ! j)) = frame_at (mem c) (rsp (tasks s ! j))" if j: "j \<in> suspended s" for j
  proof (rule frame_at_cong)
    fix a
    assume "a \<in> frame_addrs (rsp (tasks s ! j))"
    then have "a \<notin> dom scr \<union> frame_addrs (frame_ptr c)" using room j unfolding stack_room_def by blast
    then show "mem c' a = mem c a" using c2(4) [of a] by (simp add: eq domIff)
  qed
  have lt: "cur s < MAX_TASKS" using inv by (simp add: sched_inv_def)
  show "ctx_in (c', t) i = ctx_in (c, s) i" if i: "i < MAX_TASKS" "alive (tasks s ! i)"
  proof (cases "i = cur s")
    case True
    then show ?thesis using h c2(2) own lt by (auto simp: ctx_in_def eq hands_over_def split: if_splits)
  next
    case False
    then have "i \<in> suspended s" using i by (simp add: suspended_def)
    then show ?thesis using h c2(2) other False i by (auto simp: ctx_in_def eq hands_over_def split: if_splits)
  qed
qed

lemma start_frame:
  "ctx_of_frame (iframe_words w \<lparr>rip = Task_entry_wrapper, cs = 0x28, rflags = 0x202, frsp = sp, ss = 0x30, gp = replicate 17 0\<rparr>) =
   start_ctx w sp"
  by (auto simp: ctx_of_frame_def iframe_words_def start_ctx_def Let_def split: reg.split)

lemma create_frame:
  assumes "create_task name ent s = (int i, s')"
  shows "frames s' (rsp (tasks s' ! i)) = \<lparr>rip = Task_entry_wrapper, cs = 0x28, rflags = 0x202, frsp = stack_top s i, ss = 0x30,
      gp = replicate 17 0\<rparr>" "cur s' = cur s"
    "i < length (tasks s)" "tstate (tasks s ! i) = TASK_UNUSED" "tstate (tasks s' ! i) = TASK_READY"
    "j \<noteq> i \<Longrightarrow> tasks s' ! j = tasks s ! j"
proof -
  obtain k where k: "find_idx (\<lambda>t. tstate t = TASK_UNUSED) (drop 1 (tasks s)) = Some k"
    using assms by (auto simp: create_task_def create_task_internal_def split: if_splits option.splits)
  with assms have i: "i = Suc k" by (auto simp: create_task_def create_task_internal_def Let_def split: if_splits)
  note f = find_idx_SomeD [OF k]
  then show l: "i < length (tasks s)" "tstate (tasks s ! i) = TASK_UNUSED" by (auto simp: i)
  from assms k show "frames s' (rsp (tasks s' ! i)) = \<lparr>rip = Task_entry_wrapper, cs = 0x28, rflags = 0x202, frsp = stack_top s i, ss = 0x30,
      gp = replicate 17 0\<rparr>" "cur s' = cur s" "tstate (tasks s' ! i) = TASK_READY" "j \<noteq> i \<Longrightarrow> tasks s' ! j = tasks s ! j"
    using l by (auto simp: create_task_def create_task_internal_def Let_def i split: if_splits)
qed

lemma switch_refines:
  assumes inv: "sched_inv s" and h: "hands_over (frame_ptr c) s r s'"
    and same: "\<And>i. i < MAX_TASKS \<Longrightarrow> alive (tasks s ! i) \<Longrightarrow> ctx_in (c', s') i = ctx_in (c, s) i"
  shows "vm_of (c', s') = vm_of (c, s) \<or> vm_step w (vm_of (c, s)) (vm_of (c', s'))"
proof -
  have v: "snd (vm_of (c', s')) = snd (vm_of (c, s))"
    using h same by (fastforce simp: vm_of_def hands_over_def)
  show ?thesis
  proof (cases "cur s' = cur s")
    case True
    with v have "vm_of (c', s') = vm_of (c, s)" by (simp add: vm_of_def)
    then show ?thesis ..
  next
    case False
    then have "alive (tasks s ! cur s')" "cur s' < MAX_TASKS" using h by (auto simp: hands_over_def sched_inv_def)
    then have "snd (vm_of (c, s)) (cur s') = Some (ctx_in (c, s) (cur s'))" by (simp add: vm_of_def)
    then have "vm_step w (cur s, snd (vm_of (c, s))) (cur s', snd (vm_of (c, s)))" by (rule vm_switch)
    with v show ?thesis by (simp add: vm_of_def)
  qed
qed

lemma run_refines:
  assumes "keeps_frames s c c'"
  shows "vm_of (c', s) = vm_of (c, s) \<or> vm_step w (vm_of (c, s)) (vm_of (c', s))"
proof -
  have other: "ctx_in (c', s) i = ctx_in (c, s) i" if "i \<noteq> cur s" "i < MAX_TASKS" "alive (tasks s ! i)" for i
    using keeps_ctx [OF assms, of i] that by (simp add: ctx_in_def suspended_def)
  show ?thesis
  proof (cases "cur s < MAX_TASKS \<and> alive (tasks s ! cur s)")
    case True
    then have "snd (vm_of (c, s)) (cur s) = Some (ctx_in (c, s) (cur s))" by (simp add: vm_of_def)
    then have "vm_step w (cur s, snd (vm_of (c, s))) (cur s, (snd (vm_of (c, s)))(cur s := Some (ctx_in (c', s) (cur s))))"
      by (rule vm_run)
    moreover have "(snd (vm_of (c, s)))(cur s := Some (ctx_in (c', s) (cur s))) = snd (vm_of (c', s))"
      using other True by (auto simp: vm_of_def fun_eq_iff)
    ultimately show ?thesis by (simp add: vm_of_def)
  next
    case False
    have "snd (vm_of (c', s)) i = snd (vm_of (c, s)) i" for i
      using other [of i] False by (cases "i = cur s") (auto simp: vm_of_def)
    then have "snd (vm_of (c', s)) = snd (vm_of (c, s))" by (rule ext)
    then show ?thesis by (simp add: vm_of_def)
  qed
qed

text \<open>A change of the table that does not touch the saved stack pointers of live tasks.\<close>

lemma table_refines:
  assumes "cur s' = cur s" "\<And>j. j \<noteq> i \<Longrightarrow> alive (tasks s' ! j) = alive (tasks s ! j) \<and> rsp (tasks s' ! j) = rsp (tasks s ! j)"
    and "\<not> alive (tasks s' ! i)"
  shows "vm_step w (vm_of (c, s)) (vm_of (c, s'))"
proof -
  have "(snd (vm_of (c, s)))(i := None) = snd (vm_of (c, s'))"
    using assms by (auto simp: vm_of_def ctx_in_def fun_eq_iff)
  with vm_end [of w "cur s" "snd (vm_of (c, s))" i] assms(1) show ?thesis by (simp add: vm_of_def)
qed

lemma create_refines:
  assumes cr: "create_task name ent s = (int i, s')" and i: "i \<noteq> cur s"
    and ctx: "ctx_of c' = ctx_of c" and k: "keeps_frames s c c'"
    and fr: "frame_at (mem c') (rsp (tasks s' ! i)) = iframe_words w (frames s' (rsp (tasks s' ! i)))"
  shows "vm_of (c', s') = vm_of (c, s) \<or> vm_step w (vm_of (c, s)) (vm_of (c', s'))"
proof -
  note cf = create_frame [OF cr]
  have nn: "snd (vm_of (c, s)) i = None" using cf(4) by (simp add: vm_of_def)
  have new: "ctx_in (c', s') i = start_ctx w (stack_top s i)"
    using i by (simp add: ctx_in_def cf(2) fr cf(1) start_frame)
  have "ctx_in (c', s') j = ctx_in (c, s) j" if "j \<noteq> i" "j < MAX_TASKS" "alive (tasks s ! j)" for j
    using keeps_ctx [OF k, of j] that ctx cf(6) [OF that(1)] by (simp add: ctx_in_def cf(2) suspended_def)
  then have "snd (vm_of (c', s')) j = (if j = i \<and> i < MAX_TASKS then Some (start_ctx w (stack_top s i)) else snd (vm_of (c, s)) j)" for j
    using new cf(5) cf(6) [of j] nn by (cases "j = i") (auto simp: vm_of_def)
  then have "snd (vm_of (c', s')) = (if i < MAX_TASKS then (snd (vm_of (c, s)))(i := Some (start_ctx w (stack_top s i))) else snd (vm_of (c, s)))"
    by (auto simp: fun_eq_iff)
  with vm_create [of "snd (vm_of (c, s))" i w "cur s" "stack_top s i", OF nn] show ?thesis
    by (cases "i < MAX_TASKS") (simp_all add: vm_of_def cf(2))
qed

lemma irq_refines:
  assumes inv: "sched_inv s" and d: "d (frame_ptr c) (frame_for c 0 v) s = Some (r, t)" and h: "hands_over (frame_ptr c) s r t"
    and e: "exec (c_call d cl fl scr) ([PushI 0, PushI v] @ irq_common) (interrupt None c, s) = Some (c', s')"
    and room: "stack_room s c scr"
  shows "vm_of (c', s') = vm_of (c, s) \<or> vm_step w (vm_of (c, s)) (vm_of (c', s'))" "sched_inv s'"
proof -
  note sw = switch_ctx [OF inv d h e room]
  show "sched_inv s'" using h by (simp add: sw(1) hands_over_def)
  have "hands_over (frame_ptr c) s r s'" using h by (simp only: sw(1))
  then show "vm_of (c', s') = vm_of (c, s) \<or> vm_step w (vm_of (c, s)) (vm_of (c', s'))"
    by (rule switch_refines [OF inv]) (rule sw(2))
qed

lemma tick_refines:
  assumes "sched_inv s" "exec (c_call (tick_callee now) cl fl scr) (irq_stub 0) (interrupt None c, s) = Some (c', s')" "stack_room s c scr"
  shows "vm_of (c', s') = vm_of (c, s) \<or> vm_step w (vm_of (c, s)) (vm_of (c', s'))" "sched_inv s'"
proof -
  obtain r t where t: "timer_tick now (frame_ptr c) s = (r, t)" by fastforce
  have "tick_callee now (frame_ptr c) (frame_for c 0 (of_nat (32 + 0))) s = Some (r, t)" by (simp add: tick_callee_def t)
  note r = irq_refines [OF assms(1) this timer_tick_hands [OF assms(1) t] assms(2) [unfolded stub_lines] assms(3)]
  show "vm_of (c', s') = vm_of (c, s) \<or> vm_step w (vm_of (c, s)) (vm_of (c', s'))" by (rule r(1))
  show "sched_inv s'" by (rule r(2))
qed

lemma yield_refines:
  assumes "sched_inv s" "exec (c_call yield_callee cl fl scr) sched_yield_stub (interrupt None c, s) = Some (c', s')" "stack_room s c scr"
  shows "vm_of (c', s') = vm_of (c, s) \<or> vm_step w (vm_of (c, s)) (vm_of (c', s'))" "sched_inv s'"
proof -
  obtain r t where t: "sched_yield (frame_ptr c) s = (r, t)" by fastforce
  have "yield_callee (frame_ptr c) (frame_for c 0 0x80) s = Some (r, t)" by (simp add: yield_callee_def t)
  note r = irq_refines [OF assms(1) this yield_hands [OF assms(1) t] assms(2) [unfolded stub_lines] assms(3)]
  show "vm_of (c', s') = vm_of (c, s) \<or> vm_step w (vm_of (c, s)) (vm_of (c', s'))" by (rule r(1))
  show "sched_inv s'" by (rule r(2))
qed

lemma vcpu_step_refines:
  assumes "sched_inv (snd x)" "vcpu_step w x y"
  shows "vm_of y = vm_of x \<or> vm_step w (vm_of x) (vm_of y)"
  using assms(2)
proof cases
  case (v_kill i s s' c)
  have "fst (kill_task i s)" using v_kill(3) by simp
  note e = kill_eq [OF this]
  have "vm_step w (vm_of (c, s)) (vm_of (c, s'))"
    using e(1,5) v_kill(3) assms(1) v_kill(1) by (intro table_refines [where i = i]) (auto simp: sched_inv_def)
  with v_kill show ?thesis by simp
next
  case (v_sleep s c now ms)
  have "vm_of (c, mark_sleeping now ms s) = vm_of (c, s)"
    using v_sleep assms(1) by (auto simp: vm_of_def mark_sleeping_def ctx_in_def sched_inv_def nth_list_update fun_eq_iff)
  with v_sleep show ?thesis by simp
next
  case (v_exit s c)
  have "vm_step w (vm_of (c, s)) (vm_of (c, mark_dead s))"
    using v_exit assms(1) by (intro table_refines [where i = "cur s"]) (auto simp: mark_dead_def sched_inv_def)
  with v_exit show ?thesis by simp
next
  case (v_run s c c')
  then show ?thesis using run_refines [of s c c' w] by simp
next
  case (v_tick now cl fl scr c s c' s')
  have "sched_inv s" using assms(1) v_tick(1) by simp
  from tick_refines(1) [OF this v_tick(3,4)] show ?thesis unfolding v_tick(1,2) .
next
  case (v_yield cl fl scr c s c' s')
  have "sched_inv s" using assms(1) v_yield(1) by simp
  from yield_refines(1) [OF this v_yield(3,4)] show ?thesis unfolding v_yield(1,2) .
next
  case (v_create name ent s i s' c' c)
  show ?thesis unfolding v_create(1,2) using v_create(3,5-8) by (rule create_refines)
qed

lemma vcpu_step_inv:
  assumes "sched_inv (snd x)" "vcpu_step w x y"
  shows "sched_inv (snd y)"
  using assms(2)
proof cases
  case (v_create name ent s i s' c' c)
  then show ?thesis using create_inv [of s name ent] assms(1) by simp
next
  case (v_kill i s s' c)
  then have inv: "sched_inv s" and k: "fst (kill_task i s)" using assms(1) by simp_all
  note e = kill_eq [OF k]
  have "sched_inv (snd (kill_task i s))"
    unfolding e(5) using e(1,3) v_kill(4) inv by (intro drop_task_inv inv) (auto simp: sched_inv_def)
  then show ?thesis by (simp add: v_kill(2,3))
next
  case (v_sleep s c now ms)
  have inv: "sched_inv s" and "idle_id s = 1" using assms(1) v_sleep(1) by (simp_all add: sched_inv_def)
  with v_sleep(3,4) have "sched_inv (mark_sleeping now ms s)"
    unfolding mark_sleeping_def by (intro set_task_inv inv) auto
  then show ?thesis by (simp add: v_sleep(2))
next
  case (v_exit s c)
  have inv: "sched_inv s" and i: "cur s < MAX_TASKS" "idle_id s = 1" using assms(1) v_exit(1) by (simp_all add: sched_inv_def)
  with v_exit(3,5) have "sched_inv (mark_dead s)"
    unfolding mark_dead_def by (intro drop_task_inv inv) auto
  then show ?thesis by (simp add: v_exit(2))
next
  case (v_tick now cl fl scr c s c' s')
  have "sched_inv s" using assms(1) v_tick(1) by simp
  from tick_refines(2) [OF this v_tick(3,4)] show ?thesis unfolding v_tick(2) by simp
next
  case (v_yield cl fl scr c s c' s')
  have "sched_inv s" using assms(1) v_yield(1) by simp
  from yield_refines(2) [OF this v_yield(3,4)] show ?thesis unfolding v_yield(2) by simp
qed (use assms(1) in simp)




section \<open>Properties\<close>


text \<open>As long as task \<open>i\<close> lives and does not run.\<close>

definition away :: "u64 \<Rightarrow> nat \<Rightarrow> vstate \<Rightarrow> vstate \<Rightarrow> bool" where
  "away w i x y \<longleftrightarrow> vcpu_step w x y \<and> cur (snd x) \<noteq> i \<and> alive (tasks (snd y) ! i)"

lemma alive_ctx: "i < MAX_TASKS \<Longrightarrow> alive (tasks (snd x) ! i) \<Longrightarrow> snd (vm_of x) i = Some (ctx_in x i)"
  by (simp add: vm_of_def)

lemma step_others:
  assumes "sched_inv (snd x)" "vcpu_step w x y" "cur (snd x) \<noteq> i" "i < MAX_TASKS"
    "alive (tasks (snd x) ! i)" "alive (tasks (snd y) ! i)"
  shows "ctx_in y i = ctx_in x i"
proof -
  have k: "fst (vm_of x) \<noteq> i" using assms(3) by (simp add: vm_of_def)
  from vcpu_step_refines [OF assms(1,2)] have "snd (vm_of y) i = snd (vm_of x) i"
  proof
    assume "vm_step w (vm_of x) (vm_of y)"
    then show ?thesis
      by (rule vm_step.cases) (use k alive_ctx [OF assms(4,5)] alive_ctx [OF assms(4,6)] in \<open>auto split: if_splits\<close>)
  qed simp
  then show ?thesis using alive_ctx [OF assms(4,5)] alive_ctx [OF assms(4,6)] by simp
qed

lemma step_leaves:
  assumes "sched_inv (snd x)" "vcpu_step w x y" "cur (snd y) \<noteq> cur (snd x)"
  shows "snd (vm_of y) = snd (vm_of x)"
proof -
  have k: "fst (vm_of y) \<noteq> fst (vm_of x)" using assms(3) by (simp add: vm_of_def)
  from vcpu_step_refines [OF assms(1,2)] show ?thesis
  proof
    assume "vm_step w (vm_of x) (vm_of y)"
    then show ?thesis by (rule vm_step.cases) (use k in auto)
  qed simp
qed

text \<open>C9: A task that loses the processor, at any instruction and for as long as it lives, gets it back with every register, the
  flags and the instruction pointer as they were, whatever the other tasks did in between, tasks that
  were created and ended among them.
\<close>

theorem task_resumes_unchanged:
  assumes "sched_inv (snd x)" "cur (snd x) = i"
    and "vcpu_step w x x1" "cur (snd x1) \<noteq> i" "alive (tasks (snd x1) ! i)"
    and "(away w i)\<^sup>*\<^sup>* x1 y" "cur (snd y) = i"
  shows "ctx_of (fst y) = ctx_of (fst x)"
proof -
  have i: "i < MAX_TASKS" using assms(1,2) by (simp add: sched_inv_def)
  have inv1: "sched_inv (snd x1)" using vcpu_step_inv [OF assms(1,3)] .
  have "snd (vm_of x1) = snd (vm_of x)" using assms(2,4) by (intro step_leaves [OF assms(1,3)]) simp
  then have "snd (vm_of x) i = Some (ctx_in x1 i)" using alive_ctx [OF i assms(5)] by simp
  then have first: "ctx_in x1 i = ctx_in x i" by (simp add: vm_of_def split: if_splits)
  from assms(6) have "sched_inv (snd y) \<and> alive (tasks (snd y) ! i) \<and> ctx_in y i = ctx_in x1 i"
  proof (induction rule: rtranclp_induct)
    case base
    then show ?case using inv1 assms(5) by simp
  next
    case (step y z)
    then have "vcpu_step w y z" "cur (snd y) \<noteq> i" "alive (tasks (snd z) ! i)" by (simp_all add: away_def)
    with step.IH step_others [of y w z i] vcpu_step_inv [of y w z] i show ?case by simp
  qed
  then show ?thesis using first assms(2,7) by (simp add: ctx_in_def)
qed

text \<open>\<^verbatim>\<open>irq_dispatch\<close> as the function a stub calls: it has returned only while the machine runs.\<close>

definition irq_callee :: "env \<Rightarrow> u64 \<Rightarrow> intr_frame \<Rightarrow> sys \<Rightarrow> (u64 \<times> sys) option" where
  "irq_callee e p f s =
     (case irq_dispatch e p f s of Some (Inr (sp, t)) \<Rightarrow> if pow t = Running then Some (sp, t) else None | _ \<Rightarrow> None)"

lemma line_number:
  assumes "0 < n" "n < 16"
  shows "(ucast (of_nat (32 + n) - 32 :: u64) :: u8) \<noteq> 0"
proof -
  have "[0..<16] = [0, 1, 2, 3, 4, 5, 6, 7, 8, 9, 10, 11, 12, 13, 14, 15 :: nat]" by code_simp
  then have "n \<in> set [0, 1, 2, 3, 4, 5, 6, 7, 8, 9, 10, 11, 12, 13, 14, 15]" using assms(2) by (metis atLeastLessThan_iff le0 set_upt)
  with assms(1) show ?thesis by auto
qed

lemma dispatch_same_stack:
  assumes "irq_dispatch e p f s = Some (Inr (sp, t))" "(ucast (int_no f - 32) :: u8) \<noteq> 0"
  shows "sp = p"
  using assms by (auto simp: irq_dispatch_def Let_def bind_res_Inr split: if_splits)

text \<open>C15: An interrupt of any line but the timer's is invisible to the code it interrupts: whatever its handler does, a whole
  command of the shell included, when it returns, every register, the flags and the instruction pointer are as
  before, and memory is as the handler left it, but for the frame below the stack pointer.
\<close>

theorem interrupt_is_transparent:
  assumes "0 < n" "n < 16" "dom scr \<inter> frame_addrs (frame_ptr c) = {}"
    and "exec (c_call (irq_callee e) cl fl scr) (isr_stub_table ! (32 + n)) (interrupt None c, s) = Some (c', t)"
  shows "ctx_of c' = ctx_of c \<and>
    irq_dispatch e (frame_ptr c) (frame_for c 0 (of_nat (32 + n))) s = Some (Inr (frame_ptr c, t)) \<and>
    (\<forall>a. a \<notin> frame_addrs (frame_ptr c) \<longrightarrow> mem c' a = (case scr a of None \<Rightarrow> mem c a | Some v \<Rightarrow> v))"
proof -
  let ?p = "frame_ptr c" and ?f = "frame_for c 0 (of_nat (32 + n))"
  have st: "isr_stub_table ! (32 + n) = [PushI 0, PushI (of_nat (32 + n))] @ irq_common"
    using assms(2) stub_lines(1) [of n] by (simp add: isr_stub_table_def nth_append)
  obtain r s' where r: "irq_callee e ?p ?f s = Some (r, s')"
    using assms(4) irq_stuck [of "irq_callee e" c "of_nat (32 + n)" s cl fl scr] unfolding st by (cases "irq_callee e ?p ?f s") auto
  then have d: "irq_dispatch e ?p ?f s = Some (Inr (r, s'))" by (auto simp: irq_callee_def split: option.splits sum.splits if_splits)
  have "r = ?p" by (rule dispatch_same_stack [OF d]) (use line_number [OF assms(1,2)] in \<open>simp add: frame_for_def\<close>)
  moreover obtain c2 where "exec (c_call (irq_callee e) cl fl scr) ([PushI 0, PushI (of_nat (32 + n))] @ irq_common) (interrupt None c, s) = Some (c2, s')"
    "ctx_of c2 = ctx_of_frame (frame_at (mem c2) r)"
    "dom scr \<inter> frame_addrs ?p = {} \<Longrightarrow> frame_at (mem c2) ?p = ?f"
    "\<And>a. a \<notin> frame_addrs ?p \<Longrightarrow> mem c2 a = (case scr a of None \<Rightarrow> mem c a | Some v \<Rightarrow> v)"
    using irq_run [of "irq_callee e" c "of_nat (32 + n)" s r s' cl fl scr, OF r] by metis
  ultimately show ?thesis using assms(3,4) d unfolding st by (simp add: ctx_frame_for)
qed

text \<open>
  The case the step relation leaves out: the running task is killed and a new one created in its slot before the next
  tick. The switch then saves the stack pointer of the killed task over that of the frame just built, and
  the new task, ready under its new name, goes on in the middle of the old one's code.
\<close>

theorem respawn_goes_on:
  assumes "sched_inv s" "1 < cur s" "alive (tasks s ! cur s)"
    and k: "kill_task (cur s) s = (True, s1)" and c: "create_task name ent s1 = (int (cur s), s2)"
    and d: "do_schedule sp s2 = (r, s3)" and away: "cur s3 \<noteq> cur s"
  shows "rsp (tasks s3 ! cur s) = sp \<and> tstate (tasks s3 ! cur s) = TASK_READY \<and>
    rip (frames s2 (rsp (tasks s2 ! cur s))) = Task_entry_wrapper"
proof -
  have lt: "cur s < MAX_TASKS" using assms(1) by (simp add: sched_inv_def)
  have k1: "s1 = snd (kill_task (cur s) s)" using k by simp
  have i1: "sched_inv s1" unfolding k1 by (rule kill_task_live(2) [OF assms(1,2) lt assms(3)])
  have i2: "sched_inv s2" using create_inv [OF i1, of name ent] c by simp
  have cu: "cur s2 = cur s" using create_frame(2) [OF c] kill_task_live(1) [OF assms(1,2) lt assms(3)] by (simp add: k1)
  have rdy: "tstate (tasks s2 ! cur s2) = TASK_READY" using create_frame(5) [OF c] by (simp add: cu)
  note ds = do_schedule_spec [OF i2 d]
  have "tasks s3 ! cur s = tasks (save_current sp s2) ! cur s2" using ds(8) [of "cur s"] away cu by simp
  then have "tstate (tasks s3 ! cur s) = TASK_READY" using save_current_spec(6) [OF i2, of sp] rdy by simp
  with ds(7) create_frame(1) [OF c] show ?thesis by (simp add: cu)
qed

section \<open>Examples\<close>

text \<open>A task \<^verbatim>\<open>job\<close> beside the kernel and idle, its frame in memory.\<close>

lemma demo_cur: "cur (snd (do_schedule sp sched_demo)) = 2"
  by code_simp

lemma demo_cur2: "cur (snd (do_schedule sq (snd (do_schedule sp sched_demo)))) = 0"
  by code_simp

lemma demo_rsps: "rsp (tasks sched_demo ! 1) = 0x107F50" "rsp (tasks sched_demo ! 2) = 0x10BF50"
  by code_simp+

definition sched_demo2 :: sched where "sched_demo2 = snd (do_schedule 0x7F50 sched_demo)"

lemma suspended_code: "suspended s = set (filter (\<lambda>i. i \<noteq> cur s \<and> alive (tasks s ! i)) [0..<MAX_TASKS])"
  by (auto simp: suspended_def)

lemma demo_suspended: "suspended sched_demo = {1, 2}" "suspended sched_demo2 = {0, 1}"
proof -
  have "filter (\<lambda>i. i \<noteq> cur sched_demo \<and> alive (tasks sched_demo ! i)) [0..<MAX_TASKS] = [1, 2]"
    "filter (\<lambda>i. i \<noteq> cur sched_demo2 \<and> alive (tasks sched_demo2 ! i)) [0..<MAX_TASKS] = [0, 1]"
    by code_simp+
  then show "suspended sched_demo = {1, 2}" "suspended sched_demo2 = {0, 1}" by (simp_all only: suspended_code) simp_all
qed

lemma demo2_rsps: "rsp (tasks sched_demo2 ! 0) = 0x7F50" "rsp (tasks sched_demo2 ! 1) = 0x107F50"
  by code_simp+

lemma demo_ptr: "frame_ptr cpu_demo = 0x7F50"
  by (simp add: frame_ptr_def cpu_demo_def)

lemma demo_apart:
  "frame_addrs 0x7F50 \<inter> frame_addrs 0x107F50 = {}" "frame_addrs 0x7F50 \<inter> frame_addrs 0x10BF50 = {}"
  "frame_addrs 0x10BF50 \<inter> frame_addrs 0x107F50 = {}" "frame_addrs 0x10BF50 \<inter> frame_addrs 0x7F50 = {}"
  by code_simp+

lemma demo_room: "stack_room sched_demo cpu_demo Map.empty" "frame_ptr c = 0x10BF50 \<Longrightarrow> stack_room sched_demo2 c Map.empty"
  using demo_rsps demo2_rsps demo_apart by (simp_all add: stack_room_def demo_suspended demo_ptr)

text \<open>The stub, on a yield.\<close>

abbreviation yield_run :: "cpu \<times> sched \<Rightarrow> (cpu \<times> sched) option" where
  "yield_run x \<equiv> exec (c_call yield_callee (\<lambda>_. 0) 0 Map.empty) sched_yield_stub (interrupt None (fst x), snd x)"

lemma yield_runs:
  assumes "sched_inv s" "do_schedule (frame_ptr c) s = (r, s')"
  obtains c' where "yield_run (c, s) = Some (c', s')" "ctx_of c' = ctx_of_frame (frame_at (mem c') r)"
    "\<And>a. a \<notin> frame_addrs (frame_ptr c) \<Longrightarrow> mem c' a = mem c a"
proof -
  have "yield_callee (frame_ptr c) (frame_for c 0 0x80) s = Some (r, s')"
    using assms by (simp add: yield_callee_def sched_yield_def sched_inv_def)
  from irq_run [of yield_callee c "0x80" s r s' "\<lambda>_. 0" 0 Map.empty, OF this] show ?thesis
    using that by (auto simp: stub_lines)
qed

theorem task_resumes_unchanged_witness:
  "\<exists>c1 c2 s2. yield_run (cpu_demo, sched_demo) = Some (c1, sched_demo2) \<and> cur sched_demo2 = 2 \<and>
     yield_run (c1, sched_demo2) = Some (c2, s2) \<and> cur s2 = 0 \<and> ctx_of c2 = ctx_of cpu_demo"
proof -
  have d1: "do_schedule (frame_ptr cpu_demo) sched_demo = (0x10BF50, sched_demo2)" unfolding demo_ptr sched_demo2_def by code_simp
  obtain c1 where c1: "yield_run (cpu_demo, sched_demo) = Some (c1, sched_demo2)"
    "ctx_of c1 = ctx_of_frame (frame_at (mem c1) 0x10BF50)"
    "\<And>a. a \<notin> frame_addrs (frame_ptr cpu_demo) \<Longrightarrow> mem c1 a = mem cpu_demo a"
    using yield_runs [OF sched_demo_inv d1] by metis
  have "mem c1 0x10BFF0 = 0x10C000"
    using c1(3) [unfolded demo_ptr, of "0x10BFF0"] by (simp add: frame_addrs_list) (simp add: cpu_demo_def)
  then have "gpr c1 RSP = 0x10C000"
    using arg_cong [OF c1(2), of "\<lambda>x. x_gpr x RSP"] by (simp add: ctx_of_def ctx_of_frame_def frame_at_def)
  then have p1: "frame_ptr c1 = 0x10BF50" by (simp add: frame_ptr_def)
  have inv2: "sched_inv sched_demo2" unfolding sched_demo2_def by (rule do_schedule_inv [OF sched_demo_inv])
  define s2 where "s2 = snd (do_schedule 0x10BF50 sched_demo2)"
  obtain c2 where c2: "yield_run (c1, sched_demo2) = Some (c2, s2)"
    using yield_runs [OF inv2, of c1 "fst (do_schedule 0x10BF50 sched_demo2)" s2] by (auto simp: p1 s2_def)
  have "vcpu_step 0 (cpu_demo, sched_demo) (c1, sched_demo2)" "vcpu_step 0 (c1, sched_demo2) (c2, s2)"
    using c1(1) c2 demo_room(1) demo_room(2) [OF p1] by (auto intro: v_yield)
  moreover have "cur sched_demo = 0" "cur sched_demo2 = 2" "cur s2 = 0"
    "alive (tasks sched_demo2 ! 0)" "alive (tasks s2 ! 0)"
    unfolding s2_def by code_simp+
  moreover from calculation have "(away 0 0)\<^sup>*\<^sup>* (c1, sched_demo2) (c2, s2)"
    by (intro r_into_rtranclp) (simp add: away_def)
  ultimately have "ctx_of c2 = ctx_of cpu_demo"
    using task_resumes_unchanged [of "(cpu_demo, sched_demo)" 0 0 "(c1, sched_demo2)" "(c2, s2)"] sched_demo_inv by simp
  with c1(1) c2 \<open>cur s2 = 0\<close> \<open>cur sched_demo2 = 2\<close> show ?thesis by blast
qed


text \<open>A key is pressed while the kernel runs.\<close>

definition key_demo :: sys where
  "key_demo = (sys_demo MODE_SHELL users_ann fs_init)\<lparr>iqs := irqs_boot\<lparr>irq_handlers := (replicate 16 None)[1 := Some H_keyboard]\<rparr>\<rparr>"

definition key_env :: env where
  "key_env = env_demo\<lparr>e_dev := \<lparr>rd8 = (\<lambda>h p. 0x1E), rd16 = (\<lambda>h p. 0), rd32 = (\<lambda>h p. 0)\<rparr>\<rparr>"

lemma key_demo_dispatch: "\<exists>t. irq_callee key_env p (frame_for cpu_demo 0 33) key_demo = Some (p, t) \<and> sh_line t = ''a''"
proof -
  have k: "kbd_scan 0x1E kbd_boot = (Some (CHR ''a''), kbd_boot)" by code_simp
  have "printable (CHR ''a'')" by code_simp
  then have u: "shell_update key_env (CHR ''a'') s = ret (typed ''a'' s)" if "sh_mode s = MODE_SHELL" "sh_line s = []" for s
    using that by (intro update_printable) simp_all
  let ?s = "count_irq 1 key_demo"
  have d: "kb ?s = kbd_boot" "sh_mode ?s = MODE_SHELL" "sh_line ?s = []" "pow ?s = Running" "irq_handlers (iqs ?s) ! 1 = Some H_keyboard"
    by (simp_all add: count_irq_def key_demo_def sys_demo_def)
  obtain h where h: "inb (e_dev key_env) 0x60 (ports ?s) = (0x1E, h)" by (simp add: inb_def key_env_def)
  then have r: "run_handler key_env H_keyboard ?s = ret (typed ''a'' (?s\<lparr>kb := kbd_boot, ports := h\<rparr>))"
    using k u d by (simp add: run_handler_def keyboard_irq_handler_def)
  have "pow (typed ''a'' (?s\<lparr>kb := kbd_boot, ports := h\<rparr>)) = Running" using d by (simp add: typed_def)
  moreover have "\<not> (16 :: u8) \<le> 1" by code_simp
  ultimately show ?thesis using r d(3,5)
    by (simp add: irq_callee_def irq_dispatch_def frame_for_def Let_def)
qed

theorem interrupt_is_transparent_witness:
  "\<exists>c' t. exec (c_call (irq_callee key_env) (\<lambda>_. 0) 0 Map.empty) (isr_stub_table ! 33) (interrupt None cpu_demo, key_demo) = Some (c', t) \<and>
     ctx_of c' = ctx_of cpu_demo \<and> sh_line t = ''a''"
proof -
  obtain t where t: "irq_callee key_env (frame_ptr cpu_demo) (frame_for cpu_demo 0 33) key_demo = Some (frame_ptr cpu_demo, t)"
    "sh_line t = ''a''" using key_demo_dispatch by blast
  have st: "isr_stub_table ! (32 + 1) = [PushI 0, PushI 33] @ irq_common"
    using stub_lines(1) [of 1] by (simp add: isr_stub_table_def nth_append)
  obtain c' where c': "exec (c_call (irq_callee key_env) (\<lambda>_. 0) 0 Map.empty) (isr_stub_table ! (32 + 1)) (interrupt None cpu_demo, key_demo) = Some (c', t)"
    unfolding st using irq_run [of "irq_callee key_env" cpu_demo 33, OF t(1)] by metis
  from interrupt_is_transparent [OF _ _ _ this] have "ctx_of c' = ctx_of cpu_demo" by simp
  with c' t(2) show ?thesis by auto
qed




end
