(* ===== verification/Spec2Isabelle.thy ===== *)
theory Spec2Isabelle
  imports Prelude KString Pmm Heap FileSys Users Clipboard Ports Disk Scheduler Network Peers DJob Process Cluster Console Font Screen
    Interrupts Input Serial Pci Nic Cpu Bitmaps ShellState ShellInfo ShellCmd Shell ShellInv ShellSession ShellFiles ShellJobs
    Kernel SessionSpec Accounts Stubs VirtualCpu
begin

text \<open>
  A verification development for QuillOS, a 64-bit hobby kernel (\<^verbatim>\<open>src/quillos\<close>): a physical memory manager and a heap, a
  preemptive scheduler, interrupts and drivers, an in-memory file system, user accounts on a disk sector, a network stack with
  a cluster protocol on top of it, and a shell that is driven from the keyboard interrupt.

  \<^bold>\<open>How the parts fit.\<close> \<^verbatim>\<open>_start\<close> of \<^verbatim>\<open>kernel.cpp\<close> initialises the subsystems in a fixed order and halts; from then on the
  program consists of interrupt handlers and of the tasks that the timer interrupt switches between. The keyboard handler
  turns scan codes into characters and gives each to \<^verbatim>\<open>shell_update\<close>; a finished line runs a command, which calls every other
  subsystem; all of this happens within one interrupt with interrupts disabled. Two tasks poll the network card and send
  heartbeats; frames reach the cluster handler, which keeps the peer table, runs jobs, and starts and stops processes, which
  are tasks themselves.

  \<^bold>\<open>Theories.\<close>
  \<^item> \<open>Prelude\<close>: machine integers, first-fit scans of fixed tables, tables with unique keys, little-endian codecs, reachability, and
    the interfaces: \<open>soft_table\<close> (a table with lookup and put, interpreted by the ARP cache, the peers and the node loads),
    \<open>event_machine\<close> (an invariant kept by every operation), \<open>event_system\<close> (an invariant kept by every step that can happen,
    hence along every \<open>trace\<close>), \<open>safe_system\<close> (an invariant of a step relation), \<open>refined_system\<close> (a step
    relation that refines another one). \<open>Pmm\<close> adds \<open>page_source\<close>. \<open>KString\<close>: C strings as lists, the copies with an explicit overflow, decimal and hexadecimal
    numbers. \<open>Ports\<close>: port accesses recorded in a history; what a read returns is a parameter.
  \<^item> \<open>Pmm\<close>, \<open>Heap\<close> (\<^verbatim>\<open>memory.cpp\<close>): the page bitmap and its initialisation; block headers tiling the heap, with the set of live
    payloads as the abstract heap that \<open>kmalloc\<close> and \<open>kfree\<close> refine.
  \<^item> \<open>FileSys\<close> (\<^verbatim>\<open>filesystem.cpp\<close>), \<open>Users\<close> (\<^verbatim>\<open>users.cpp\<close>), \<open>Clipboard\<close>, \<open>Disk\<close>: tables and buffers with their invariants, round trips
    through the file table and through the account sector, the command sequence of the ATA disk. A run of file operations ends at the
    first memory fault, and which arguments fault is proved. A drive is a parameter: what the driver needs of
    the ATA protocol is \<open>ata_ok\<close>, which leaves the timing of the drive and its other status bits open.
  \<^item> \<open>Scheduler\<close>, \<open>Process\<close>: task slots, the switch decision, no starvation; the process table on top of it. Their runs
    contain every operation, kills of any slot included; what a kill of a returned or of the running task does to the task count is
    part of the statements.
  \<^item> \<open>Network\<close>, \<open>Nic\<close>, \<open>Peers\<close>, \<open>DJob\<close>, \<open>Cluster\<close>: frames, ARP, IPv4 and UDP; the rings of the card as a step relation with the
    hardware; the peer table, the jobs with their history, and exchanges between two nodes over the modelled stack: discovery, on first contact too, and remote jobs, with the two job
    counters of a node, which a local job sets apart.
  \<^item> \<open>Console\<close>, \<open>Font\<close>, \<open>Screen\<close>: the framebuffer, the glyphs, and reading the screen back. \<open>Input\<close>, \<open>Interrupts\<close>, \<open>Serial\<close>, \<open>Pci\<close>, \<open>Cpu\<close>, \<open>Bitmaps\<close>: the drivers, each over its own state and the port history.
  \<^item> \<open>ShellState\<close>, \<open>ShellInfo\<close>, \<open>ShellCmd\<close>, \<open>Shell\<close> (\<^verbatim>\<open>shell.cpp\<close>, \<^verbatim>\<open>shell_mouse.inc\<close>): one record \<open>sys\<close> with the shell's globals and the
    state of every subsystem a command touches; prompts and the splitting of a line; the commands that print; the commands
    that change state, with the dispatch \<open>process_command\<close>; the dialogues, the editor and \<open>shell_update\<close>.
  \<^item> \<open>ShellInv\<close>, \<open>ShellSession\<close>, \<open>ShellFiles\<close>, \<open>ShellJobs\<close>: the invariant \<open>shell_inv\<close> and its preservation by every character; the
    line discipline, masking and authentication; the file commands, the editor and cut and paste; the \<^verbatim>\<open>run\<close> command from the typed
    line to the finished job.
  \<^item> \<open>Kernel\<close> (\<^verbatim>\<open>kernel.cpp\<close>, the dispatchers of \<^verbatim>\<open>idt.cpp\<close>): the boot sequence, \<open>irq_dispatch\<close>, and the machine: \<open>machine_step\<close> is an
    interrupt, a yield, a turn of a task (a process body, a frame from the card, a heartbeat, going to sleep) or a write of
    the card to its rings. \<open>SessionSpec\<close>: the session protocol as an inductive relation on modes and users, which the
    machine refines. \<open>Accounts\<close>: what becomes of an account, from the sign-up through the disk sector and a restart to the next login.
  \<^item> \<open>Stubs\<close> (\<^verbatim>\<open>interrupts.asm\<close>): the stubs as instruction lists with an interpreter, the frame they build in memory, and what an exception
    reports. \<open>VirtualCpu\<close>: stubs and scheduler together, refining a machine with a processor for every task.

  \<^bold>\<open>Conventions.\<close> A result \<open>Inl f\<close> of type \<open>'a res\<close> is memory corruption or a fault: a copy past a buffer, a null pointer, a
  framebuffer store out of bounds. \<open>None\<close> of an option is an operation that never returns: loops that may not end are
  \<open>partial_function (option)\<close>, so no fuel is used; the counted waits are those of the source (100000 polls of the
  disk, 10000 of a send descriptor). Machine integers keep their width where it matters; addresses and sizes of the heap are
  natural numbers with the wrap-around written out. The console, when a command writes to it, is the list of requests made
  to it, whose effect on the screen is in \<open>Console\<close>. Strings are lists without their terminator.

  \<^bold>\<open>Parameters.\<close> The values read from ports and card registers, the results of \<^verbatim>\<open>cpuid\<close>, the memory map and the other answers of the
  Limine boot loader, the acceptance of a frame by the card, the success of a sector write.

  \<^bold>\<open>Bounds of the statements.\<close> The machine is followed while the 32-bit process counter has not wrapped. Interrupts during the boot
  and in the middle of a task's turn are left out: boot is one step, and so is each turn, which is coarser than the
  hardware. Theorems about commands name the lengths for which no buffer is overrun; beyond them the fault is a value of
  the model. The registers and stacks of tasks are in \<open>VirtualCpu\<close> only, where the saved frames of other tasks are taken to be
  out of reach of the running one: how deep its calls go is not visible in the source.

  \<^bold>\<open>Not modelled.\<close> \<^verbatim>\<open>context_switch\<close> and \<^verbatim>\<open>load_idt\<close> of \<^verbatim>\<open>interrupts.asm\<close> (the first is not called, the second is one instruction), \<^verbatim>\<open>kmain.cpp\<close> (an older
  entry point nothing calls), the boot messages and log lines of the drivers, delays, and the instructions
  \<^verbatim>\<open>lidt\<close>, \<^verbatim>\<open>sti\<close>, \<^verbatim>\<open>cli\<close> and \<^verbatim>\<open>hlt\<close>. The Limine boot loader under \<^verbatim>\<open>src/quillos/limine\<close> and its headers are third-party code.
\<close>

end
